(* ===== verification/KV_Prelude.thy ===== *)
theory KV_Prelude
  imports Main "HOL-Library.Word"
begin

text \<open>
  Shared vocabulary of the development: machine types, results of code that can fault,
  slices of byte lists, the little-endian view of a 64-bit word, and the rewrite rules that
  take 64-bit words to natural numbers as long as nothing wraps.
\<close>

section \<open>Machine types and results\<close>

type_synonym byte = "8 word"
type_synonym u64 = "64 word"

text \<open>
  The ways a run of the C++ code can stop without a value: an access outside the mapped file
  (a segmentation fault, or worse), a null pointer followed, a failed \<open>assert\<close>, and a loop that
  never ends.
\<close>

datatype fault = OutOfBounds | NullPointer | AssertionFailed | Diverges

type_synonym 'a res = "fault + 'a"

fun and_then :: "'a res \<Rightarrow> ('a \<Rightarrow> 'b res) \<Rightarrow> 'b res" where
  "and_then (Inl e) f = Inl e"
| "and_then (Inr x) f = f x"

lemma and_then_assoc: "and_then (and_then r f) g = and_then r (\<lambda>x. and_then (f x) g)"
  by (cases r) simp_all

lemma and_then_Inr_iff: "and_then r f = Inr y \<longleftrightarrow> (\<exists>x. r = Inr x \<and> f x = Inr y)"
  by (cases r) simp_all

definition assert_that :: "bool \<Rightarrow> unit res" where
  "assert_that b = (if b then Inr () else Inl AssertionFailed)"

lemma assert_that_simps [simp]:
  "assert_that True = Inr ()"
  "assert_that False = Inl AssertionFailed"
  by (simp_all add: assert_that_def)

text \<open>A \<open>for\<close> loop over a list of indices, each round of which can fault.\<close>

fun fold_res :: "('a \<Rightarrow> 's \<Rightarrow> 's res) \<Rightarrow> 'a list \<Rightarrow> 's \<Rightarrow> 's res" where
  "fold_res f [] s = Inr s"
| "fold_res f (x # xs) s = and_then (f x s) (fold_res f xs)"

lemma fold_res_append: "fold_res f (xs @ ys) s = and_then (fold_res f xs s) (fold_res f ys)"
proof (induction xs arbitrary: s)
  case (Cons x xs)
  then show ?case by (cases "f x s") simp_all
qed simp

lemma fold_res_inv:
  assumes "I s" and "\<And>x s. x \<in> set xs \<Longrightarrow> I s \<Longrightarrow> \<exists>s'. f x s = Inr s' \<and> I s'"
  shows "\<exists>s'. fold_res f xs s = Inr s' \<and> I s'"
  using assms
proof (induction xs arbitrary: s)
  case (Cons x xs)
  obtain s1 where "f x s = Inr s1" "I s1" using Cons.prems by (meson list.set_intros(1))
  with Cons.IH [of s1] Cons.prems(2) show ?case by simp
qed simp

section \<open>Natural numbers as 64-bit words\<close>

abbreviation u64 :: "nat \<Rightarrow> u64" where
  "u64 n \<equiv> word_of_nat n"

named_theorems u64_simps \<open>64-bit arithmetic on numbers that do not wrap\<close>

lemma u64_unat [u64_simps]: "n < 2 ^ 64 \<Longrightarrow> unat (u64 n) = n"
  by (simp add: unat_of_nat take_bit_nat_eq_self)

lemma u64_add [u64_simps]: "u64 a + u64 b = u64 (a + b)"
  by simp

lemma u64_add_numeral [u64_simps]: "u64 a + numeral k = u64 (a + numeral k)"
  by simp

lemma u64_diff [u64_simps]: "b \<le> a \<Longrightarrow> u64 a - u64 b = u64 (a - b)"
  by (simp add: of_nat_diff)

lemma u64_diff_numeral [u64_simps]: "numeral k \<le> a \<Longrightarrow> u64 a - numeral k = u64 (a - numeral k)"
  by (simp add: of_nat_diff)

lemma u64_eq [u64_simps]:
  "a < 2 ^ 64 \<Longrightarrow> b < 2 ^ 64 \<Longrightarrow> (u64 a = u64 b) \<longleftrightarrow> a = b"
  by (metis u64_unat)

lemma u64_eq_0 [u64_simps]: "a < 2 ^ 64 \<Longrightarrow> (u64 a = 0) \<longleftrightarrow> a = 0"
  using u64_eq [of a 0] by simp

lemma u64_less [u64_simps]:
  "a < 2 ^ 64 \<Longrightarrow> b < 2 ^ 64 \<Longrightarrow> (u64 a < u64 b) \<longleftrightarrow> a < b"
  by (simp add: word_less_nat_alt u64_unat)

lemma u64_le [u64_simps]:
  "a < 2 ^ 64 \<Longrightarrow> b < 2 ^ 64 \<Longrightarrow> (u64 a \<le> u64 b) \<longleftrightarrow> a \<le> b"
  by (simp add: word_le_nat_alt u64_unat)

lemma u64_of_unat [simp]: "u64 (unat (w :: u64)) = w"
  by simp

lemma unat_u64_less: "unat (w :: u64) < 2 ^ 64"
  using unsigned_less [of w, where ?'a = nat] by simp

section \<open>Slices of a list\<close>

definition slice :: "nat \<Rightarrow> nat \<Rightarrow> 'a list \<Rightarrow> 'a list" where
  "slice a n xs = take n (drop a xs)"

definition splice_at :: "nat \<Rightarrow> 'a list \<Rightarrow> 'a list \<Rightarrow> 'a list" where
  "splice_at a ys xs = take a xs @ ys @ drop (a + length ys) xs"

lemma length_slice [simp]: "a + n \<le> length xs \<Longrightarrow> length (slice a n xs) = n"
  by (simp add: slice_def)

lemma length_splice_at [simp]:
  "a + length ys \<le> length xs \<Longrightarrow> length (splice_at a ys xs) = length xs"
  by (simp add: splice_at_def)

lemma nth_slice: "a + n \<le> length xs \<Longrightarrow> i < n \<Longrightarrow> slice a n xs ! i = xs ! (a + i)"
  by (simp add: slice_def)

lemma nth_splice_at:
  assumes "a + length ys \<le> length xs" and "i < length xs"
  shows "splice_at a ys xs ! i =
    (if a \<le> i \<and> i < a + length ys then ys ! (i - a) else xs ! i)"
  using assms by (auto simp: splice_at_def nth_append min_def)

lemma slice_splice_same:
  "a + length ys \<le> length xs \<Longrightarrow> slice a (length ys) (splice_at a ys xs) = ys"
  by (simp add: slice_def splice_at_def)

lemma slice_splice_inner:
  assumes "a + length ys \<le> length xs" and "a \<le> c" and "c + n \<le> a + length ys"
  shows "slice c n (splice_at a ys xs) = slice (c - a) n ys"
proof (rule nth_equalityI)
  show "length (slice c n (splice_at a ys xs)) = length (slice (c - a) n ys)"
    using assms by simp
next
  fix i assume "i < length (slice c n (splice_at a ys xs))"
  then show "slice c n (splice_at a ys xs) ! i = slice (c - a) n ys ! i"
    using assms by (simp add: nth_slice nth_splice_at)
qed

lemma slice_cong:
  assumes "length xs' = length xs" and "\<And>i. a \<le> i \<Longrightarrow> i < a + n \<Longrightarrow> i < length xs \<Longrightarrow> xs' ! i = xs ! i"
  shows "slice a n xs' = slice a n xs"
proof (rule nth_equalityI)
  show "length (slice a n xs') = length (slice a n xs)"
    using assms(1) by (simp add: slice_def)
next
  fix i assume "i < length (slice a n xs')"
  then have "i < n" and "a + i < length xs"
    using assms(1) by (auto simp: slice_def less_diff_conv add.commute)
  then show "slice a n xs' ! i = slice a n xs ! i"
    using assms by (simp add: slice_def add.commute)
qed

section \<open>Little-endian bytes\<close>

fun le_val :: "byte list \<Rightarrow> nat" where
  "le_val [] = 0"
| "le_val (b # bs) = unat b + 256 * le_val bs"

fun le_bytes :: "nat \<Rightarrow> nat \<Rightarrow> byte list" where
  "le_bytes 0 n = []"
| "le_bytes (Suc k) n = word_of_nat n # le_bytes k (n div 256)"

lemma length_le_bytes [simp]: "length (le_bytes k n) = k"
  by (induction k arbitrary: n) simp_all

lemma le_val_le_bytes: "le_val (le_bytes k n) = n mod 256 ^ k"
proof (induction k arbitrary: n)
  case 0
  then show ?case by simp
next
  case (Suc k)
  have "unat (word_of_nat n :: byte) = n mod 256"
    by (simp add: unat_of_nat take_bit_eq_mod)
  then show ?case
    using Suc.IH [of "n div 256"] by (simp add: mod_mult2_eq)
qed

lemma le_val_bound: "le_val bs < 256 ^ length bs"
proof (induction bs)
  case Nil
  then show ?case by simp
next
  case (Cons b bs)
  have "unat b < 256"
    using unsigned_less [of b, where ?'a = nat] by simp
  moreover have "le_val bs + 1 \<le> 256 ^ length bs"
    using Cons.IH by simp
  then have "256 * (le_val bs + 1) \<le> 256 * 256 ^ length bs"
    by (rule mult_le_mono2)
  ultimately show ?case by simp
qed

lemma le_val_replicate_zero [simp]: "le_val (replicate n 0) = 0"
  by (induction n) simp_all

end
