(* ===== verification/Mapped_File.thy ===== *)
theory Mapped_File
  imports KV_Prelude
begin

text \<open>
  The bytes of the mapped file. \<open>m_base\<close> of \<open>FileBackedBuffer\<close> points to
  \<open>m_db_size\<close> bytes of a shared file mapping; here they are a list of bytes, and a
  pointer into the mapping is its offset from \<open>m_base\<close>, a 64-bit word. \<open>load64\<close> and
  \<open>store64\<close> are the reads and writes of a \<open>size_t\<close> through such a pointer
  (little-endian, as on the x86-64 and AArch64 targets), \<open>load8\<close> reads a \<open>char\<close> and
  \<open>store_bytes\<close> writes a run of them. An access that is not wholly inside the mapping is
  \<open>OutOfBounds\<close>.

  \<open>rd\<close> and \<open>wr\<close> are the same accesses on natural numbers, without the bounds check; the
  locale \<open>word_memory\<close> states the laws they obey and derives what the rest of the
  development needs, and \<open>same_outside\<close> says that two memories differ on a set of
  addresses only.
\<close>

section \<open>Accesses\<close>

type_synonym mapping = "byte list"

definition load64 :: "mapping \<Rightarrow> u64 \<Rightarrow> u64 res" where
  "load64 m a =
    (if unat a + 8 \<le> length m then Inr (word_of_nat (le_val (slice (unat a) 8 m)))
     else Inl OutOfBounds)"

definition store64 :: "mapping \<Rightarrow> u64 \<Rightarrow> u64 \<Rightarrow> mapping res" where
  "store64 m a v =
    (if unat a + 8 \<le> length m then Inr (splice_at (unat a) (le_bytes 8 (unat v)) m)
     else Inl OutOfBounds)"

definition load8 :: "mapping \<Rightarrow> u64 \<Rightarrow> byte res" where
  "load8 m a = (if unat a < length m then Inr (m ! unat a) else Inl OutOfBounds)"

definition store_bytes :: "mapping \<Rightarrow> u64 \<Rightarrow> byte list \<Rightarrow> mapping res" where
  "store_bytes m a bs =
    (if unat a + length bs \<le> length m then Inr (splice_at (unat a) bs m)
     else Inl OutOfBounds)"

definition rd :: "mapping \<Rightarrow> nat \<Rightarrow> nat" where
  "rd m a = le_val (slice a 8 m)"

definition wr :: "mapping \<Rightarrow> nat \<Rightarrow> nat \<Rightarrow> mapping" where
  "wr m a v = splice_at a (le_bytes 8 v) m"

lemma length_wr [simp]: "a + 8 \<le> length m \<Longrightarrow> length (wr m a v) = length m"
  by (simp add: wr_def)

lemma rd_bound: "rd m a < 2 ^ 64"
proof -
  have "length (slice a 8 m) \<le> 8"
    by (simp add: slice_def)
  then have "(256::nat) ^ length (slice a 8 m) \<le> 256 ^ 8"
    by (rule power_increasing) simp
  then show ?thesis
    using le_val_bound [of "slice a 8 m"] by (simp add: rd_def)
qed

lemma load64_u64:
  "a + 8 \<le> length m \<Longrightarrow> a < 2 ^ 64 \<Longrightarrow> load64 m (u64 a) = Inr (u64 (rd m a))"
  by (simp add: load64_def rd_def u64_unat del: u64_of_unat)

lemma store64_u64:
  "a + 8 \<le> length m \<Longrightarrow> a < 2 ^ 64 \<Longrightarrow> v < 2 ^ 64 \<Longrightarrow>
    store64 m (u64 a) (u64 v) = Inr (wr m a v)"
  by (simp add: store64_def wr_def u64_unat)

lemma rd_wr_same: "a + 8 \<le> length m \<Longrightarrow> v < 2 ^ 64 \<Longrightarrow> rd (wr m a v) a = v"
  using slice_splice_same [of a "le_bytes 8 v" m]
  by (simp add: rd_def wr_def le_val_le_bytes)

section \<open>Memories that differ on some addresses only\<close>

definition same_outside :: "nat set \<Rightarrow> mapping \<Rightarrow> mapping \<Rightarrow> bool" where
  "same_outside S m m' \<longleftrightarrow>
    length m' = length m \<and> (\<forall>i < length m. i \<notin> S \<longrightarrow> m' ! i = m ! i)"

lemma same_outside_refl [simp, intro]: "same_outside S m m"
  by (simp add: same_outside_def)

lemma same_outside_trans [trans]:
  "same_outside S m m' \<Longrightarrow> same_outside S m' m'' \<Longrightarrow> same_outside S m m''"
  by (simp add: same_outside_def)

lemma same_outside_mono: "same_outside S m m' \<Longrightarrow> S \<subseteq> T \<Longrightarrow> same_outside T m m'"
  by (auto simp: same_outside_def)

lemma same_outside_length: "same_outside S m m' \<Longrightarrow> length m' = length m"
  by (simp add: same_outside_def)

lemma same_outside_slice:
  assumes "same_outside S m m'" and "{a ..< a + n} \<inter> S = {}"
  shows "slice a n m' = slice a n m"
proof (rule slice_cong)
  show "length m' = length m"
    using assms(1) by (rule same_outside_length)
next
  fix i assume "a \<le> i" "i < a + n" "i < length m"
  with assms show "m' ! i = m ! i"
    by (auto simp: same_outside_def)
qed

lemma same_outside_rd:
  "same_outside S m m' \<Longrightarrow> {a ..< a + 8} \<inter> S = {} \<Longrightarrow> rd m' a = rd m a"
  by (simp add: rd_def same_outside_slice)

lemma same_outside_splice:
  "a + length bs \<le> length m \<Longrightarrow> {a ..< a + length bs} \<subseteq> S \<Longrightarrow>
    same_outside S m (splice_at a bs m)"
  by (auto simp: same_outside_def nth_splice_at)

lemma same_outside_wr:
  "a + 8 \<le> length m \<Longrightarrow> {a ..< a + 8} \<subseteq> S \<Longrightarrow> same_outside S m (wr m a v)"
  by (simp add: wr_def same_outside_splice)

lemma rd_wr_apart:
  assumes "a + 8 \<le> length m" and "a' + 8 \<le> a \<or> a + 8 \<le> a'"
  shows "rd (wr m a v) a' = rd m a'"
proof (rule same_outside_rd)
  show "same_outside {a ..< a + 8} m (wr m a v)"
    using assms(1) by (rule same_outside_wr) simp
  show "{a' ..< a' + 8} \<inter> {a ..< a + 8} = {}"
    using assms(2) by auto
qed

end
