(* ===== verification/Block_Lists.thy ===== *)
theory Block_Lists
  imports Mapped_File
begin

text \<open>
  The two structures \<open>FileBackedBuffer\<close> keeps inside the mapping: the \<open>BufferHeader\<close>
  at offset 0 and the \<open>Block\<close>s, each with its links to the neighbours in an intrusive doubly
  linked list. First the structure members as the code reads and writes them; then \<open>seg\<close>, the
  predicate that a memory holds a list of blocks; then the locale \<open>word_memory\<close>, the interface
  the list proofs need from the memory, with the laws of unlinking, linking and resizing a block.
  The mapped file of theory \<open>Mapped_File\<close> is an instance of it.
\<close>

section \<open>Structure layout\<close>

definition NULL_OFFSET :: u64 where [simp]: "NULL_OFFSET = 0"

definition sizeof_BufferHeader :: u64 where [simp]: "sizeof_BufferHeader = 16"

definition sizeof_Block :: u64 where [simp]: "sizeof_Block = 24"

text \<open>The addresses of the two list heads, members of \<open>BufferHeader\<close>.\<close>

definition next_free_block_offset :: u64 where [simp]: "next_free_block_offset = 0"

definition next_used_block_offset :: u64 where [simp]: "next_used_block_offset = 8"

text \<open>The members of a \<open>Block\<close> at a pointer.\<close>

definition prev_block_offset :: "mapping \<Rightarrow> u64 \<Rightarrow> u64 res" where
  "prev_block_offset m block = load64 m block"

definition next_block_offset :: "mapping \<Rightarrow> u64 \<Rightarrow> u64 res" where
  "next_block_offset m block = load64 m (block + 8)"

definition data_size :: "mapping \<Rightarrow> u64 \<Rightarrow> u64 res" where
  "data_size m block = load64 m (block + 16)"

definition block_data :: "u64 \<Rightarrow> u64" where [simp]: "block_data block = block + 24"

definition set_prev_block_offset :: "mapping \<Rightarrow> u64 \<Rightarrow> u64 \<Rightarrow> mapping res" where
  "set_prev_block_offset m block v = store64 m block v"

definition set_next_block_offset :: "mapping \<Rightarrow> u64 \<Rightarrow> u64 \<Rightarrow> mapping res" where
  "set_next_block_offset m block v = store64 m (block + 8) v"

definition set_data_size :: "mapping \<Rightarrow> u64 \<Rightarrow> u64 \<Rightarrow> mapping res" where
  "set_data_size m block v = store64 m (block + 16) v"

lemmas block_member_defs =
  prev_block_offset_def next_block_offset_def data_size_def
  set_prev_block_offset_def set_next_block_offset_def set_data_size_def

section \<open>A list of blocks in memory\<close>

text \<open>
  A block is written \<open>(b, s)\<close>: its offset and its data size. \<open>seg r p a xs n\<close> says that,
  reading memory with \<open>r\<close>, the blocks \<open>xs\<close> are chained from \<open>a\<close>, the first one's
  previous link is \<open>p\<close> and the last one's next link is \<open>n\<close>.
\<close>

type_synonym block = "nat \<times> nat"

fun seg :: "(nat \<Rightarrow> nat) \<Rightarrow> nat \<Rightarrow> nat \<Rightarrow> block list \<Rightarrow> nat \<Rightarrow> bool" where
  "seg r p a [] n \<longleftrightarrow> a = n"
| "seg r p a ((b, s) # xs) n \<longleftrightarrow>
    a = b \<and> b \<noteq> 0 \<and> r b = p \<and> r (b + 16) = s \<and> seg r b (r (b + 8)) xs n"

fun end_of :: "nat \<Rightarrow> block list \<Rightarrow> nat" where
  "end_of p [] = p"
| "end_of p ((b, s) # xs) = end_of b xs"

fun head_of :: "block list \<Rightarrow> nat" where
  "head_of [] = 0"
| "head_of ((b, s) # xs) = b"

lemma end_of_append [simp]: "end_of p (xs @ ys) = end_of (end_of p xs) ys"
  by (induction p xs rule: end_of.induct) simp_all

lemma seg_append [simp]:
  "seg r p a (xs @ ys) n \<longleftrightarrow> (\<exists>c. seg r p a xs c \<and> seg r (end_of p xs) c ys n)"
  by (induction r p a xs n rule: seg.induct) auto

lemma seg_head: "seg r p a xs 0 \<Longrightarrow> a = head_of xs"
  by (cases "(r, p, a, xs, 0 :: nat)" rule: seg.cases) auto

lemma seg_cong:
  assumes "\<And>b s. (b, s) \<in> set xs \<Longrightarrow> r' b = r b \<and> r' (b + 8) = r (b + 8) \<and> r' (b + 16) = r (b + 16)"
  shows "seg r' p a xs n = seg r p a xs n"
  using assms
proof (induction r p a xs n rule: seg.induct)
  case (1 r p a n)
  then show ?case by simp
next
  case (2 r p a b s xs n)
  have "r' b = r b \<and> r' (b + 8) = r (b + 8) \<and> r' (b + 16) = r (b + 16)"
    by (rule "2.prems" [of b s]) simp
  moreover have "seg r' b (r (b + 8)) xs n = seg r b (r (b + 8)) xs n"
  proof (rule "2.IH")
    fix c t assume "(c, t) \<in> set xs"
    then show "r' c = r c \<and> r' (c + 8) = r (c + 8) \<and> r' (c + 16) = r (c + 16)"
      by (intro "2.prems" [of c t]) simp
  qed
  ultimately show ?case by simp
qed

definition apart :: "nat \<Rightarrow> nat \<Rightarrow> bool" where
  "apart a b \<longleftrightarrow> a + 24 \<le> b \<or> b + 24 \<le> a"

definition spaced :: "nat \<Rightarrow> nat list \<Rightarrow> bool" where
  "spaced L bs \<longleftrightarrow> sorted_wrt apart bs \<and> (\<forall>b \<in> set bs. 16 \<le> b \<and> b + 24 \<le> L)"

lemma apart_sym: "apart a b \<longleftrightarrow> apart b a"
  by (auto simp: apart_def)

lemma spaced_Nil [simp]: "spaced L []"
  by (simp add: spaced_def)

lemma spaced_Cons [simp]:
  "spaced L (b # bs) \<longleftrightarrow>
    16 \<le> b \<and> b + 24 \<le> L \<and> (\<forall>c \<in> set bs. apart b c) \<and> spaced L bs"
  by (auto simp: spaced_def)

lemma spaced_append [simp]:
  "spaced L (as @ bs) \<longleftrightarrow> spaced L as \<and> spaced L bs \<and> (\<forall>a \<in> set as. \<forall>b \<in> set bs. apart a b)"
  by (auto simp: spaced_def sorted_wrt_append)

lemma spaced_distinct: "spaced L bs \<Longrightarrow> distinct bs"
  by (induction bs) (auto simp: apart_def)

lemma spaced_bound: "spaced L bs \<Longrightarrow> b \<in> set bs \<Longrightarrow> 16 \<le> b \<and> b + 24 \<le> L"
  by (simp add: spaced_def)

lemma spaced_length:
  assumes "spaced L bs"
  shows "length bs \<le> L - 16"
proof -
  have "set bs \<subseteq> {16 ..< L}" using spaced_bound [OF assms] by fastforce
  then have "card (set bs) \<le> card {16 ..< L}" by (intro card_mono) simp_all
  then show ?thesis using distinct_card [OF spaced_distinct [OF assms]] by simp
qed

abbreviation offsets :: "block list \<Rightarrow> nat list" where
  "offsets xs \<equiv> map fst xs"

text \<open>The addresses of the links of the blocks of a list and of its head.\<close>

definition links :: "nat \<Rightarrow> nat set \<Rightarrow> nat set" where
  "links h bs = {h ..< h + 8} \<union> (\<Union>b \<in> bs. {b ..< b + 16})"

lemma links_mono: "A \<subseteq> B \<Longrightarrow> links h A \<subseteq> links h B"
  by (auto simp: links_def)

lemma links_subsetI:
  "a = h \<or> a \<in> bs \<or> (8 \<le> a \<and> a - 8 \<in> bs) \<Longrightarrow> {a ..< a + 8} \<subseteq> links h bs"
  unfolding links_def by (elim disjE) force+

section \<open>The interface of the memory\<close>

locale word_memory =
  fixes rd :: "'m \<Rightarrow> nat \<Rightarrow> nat"
    and wr :: "'m \<Rightarrow> nat \<Rightarrow> nat \<Rightarrow> 'm"
    and msize :: "'m \<Rightarrow> nat"
    and same :: "nat set \<Rightarrow> 'm \<Rightarrow> 'm \<Rightarrow> bool"
  assumes read_same: "a + 8 \<le> msize m \<Longrightarrow> v < 2 ^ 64 \<Longrightarrow> rd (wr m a v) a = v"
    and same_write: "a + 8 \<le> msize m \<Longrightarrow> {a ..< a + 8} \<subseteq> S \<Longrightarrow> same S m (wr m a v)"
    and same_read: "same S m m' \<Longrightarrow> {a ..< a + 8} \<inter> S = {} \<Longrightarrow> rd m' a = rd m a"
    and same_msize: "same S m m' \<Longrightarrow> msize m' = msize m"
    and same_refl: "same S m m"
    and same_trans: "same S m m' \<Longrightarrow> same S m' m'' \<Longrightarrow> same S m m''"
    and read_bound: "rd m a < 2 ^ 64"
begin

lemma msize_wr [simp]: "a + 8 \<le> msize m \<Longrightarrow> msize (wr m a v) = msize m"
  using same_msize [OF same_write [of a m UNIV]] by simp

lemma read_apart:
  "a + 8 \<le> msize m \<Longrightarrow> c + 8 \<le> a \<or> a + 8 \<le> c \<Longrightarrow> rd (wr m a v) c = rd m c"
  by (rule same_read [OF same_write [of a m "{a ..< a + 8}"]]) auto

lemma seg_same:
  assumes "same S m m'" and "\<And>b s. (b, s) \<in> set xs \<Longrightarrow> {b ..< b + 24} \<inter> S = {}"
  shows "seg (rd m') p a xs n = seg (rd m) p a xs n"
proof (rule seg_cong)
  fix b s assume "(b, s) \<in> set xs"
  then have "{b ..< b + 24} \<inter> S = {}" by (rule assms(2))
  then have "{b ..< b + 8} \<inter> S = {}" "{b + 8 ..< b + 8 + 8} \<inter> S = {}" "{b + 16 ..< b + 16 + 8} \<inter> S = {}"
    by (auto simp: disjoint_iff)
  then show "rd m' b = rd m b \<and> rd m' (b + 8) = rd m (b + 8) \<and> rd m' (b + 16) = rd m (b + 16)"
    by (simp add: same_read [OF assms(1)])
qed

lemma seg_wr:
  assumes "a + 8 \<le> msize m" and "\<And>b s. (b, s) \<in> set xs \<Longrightarrow> a + 8 \<le> b \<or> b + 24 \<le> a"
  shows "seg (rd (wr m a v)) p x xs n = seg (rd m) p x xs n"
proof (rule seg_same)
  show "same {a ..< a + 8} m (wr m a v)"
    using assms(1) by (simp add: same_write)
  fix b s assume "(b, s) \<in> set xs"
  with assms(2) have "a + 8 \<le> b \<or> b + 24 \<le> a" by blast
  then show "{b ..< b + 24} \<inter> {a ..< a + 8} = {}" by auto
qed

text \<open>Taking block \<open>b\<close> out of the list whose head is stored at \<open>h\<close>.\<close>

definition unlink :: "nat \<Rightarrow> nat \<Rightarrow> 'm \<Rightarrow> 'm" where
  "unlink h b m =
    (let q = rd m b; n = rd m (b + 8);
         m1 = (if q \<noteq> 0 then wr m (q + 8) n else wr m h n);
         m2 = (if n \<noteq> 0 then wr m1 n q else m1)
     in wr (wr m2 b 0) (b + 8) 0)"

text \<open>Putting block \<open>b\<close> between \<open>p\<close> and \<open>n\<close>, either of which may be null.\<close>

definition link :: "nat \<Rightarrow> nat \<Rightarrow> nat \<Rightarrow> nat \<Rightarrow> 'm \<Rightarrow> 'm" where
  "link h b p n m =
    (let m1 = wr (wr m b p) (b + 8) n;
         m2 = (if p \<noteq> 0 then wr m1 (p + 8) b else wr m1 h b)
     in if n \<noteq> 0 then wr m2 n b else m2)"

lemma seg_links:
  assumes "seg (rd m) 0 (rd m h) (ys @ (b, s) # zs) 0"
  shows "rd m b = end_of 0 ys" "rd m (b + 8) = head_of zs" "rd m (b + 16) = s"
  using assms by (auto dest: seg_head)

lemma end_of_cases:
  obtains "ys = []" "end_of 0 ys = 0" | ys' q t where "ys = ys' @ [(q, t)]" "end_of 0 ys = q"
  by (cases ys rule: rev_cases) auto

lemma head_of_cases:
  obtains "zs = []" "head_of zs = 0" | n u zs' where "zs = (n, u) # zs'" "head_of zs = n"
  by (cases zs) auto

lemma unlink_same:
  assumes "seg (rd m) 0 (rd m h) (ys @ (b, s) # zs) 0" and "h + 8 \<le> 16"
    and "spaced (msize m) (offsets (ys @ (b, s) # zs))"
  shows "same (links h (set (offsets (ys @ (b, s) # zs)))) m (unlink h b m)"
proof -
  let ?L = "links h (set (offsets (ys @ (b, s) # zs)))"
  let ?q = "end_of 0 ys" and ?n = "head_of zs"
  define m1 where "m1 = (if ?q \<noteq> 0 then wr m (?q + 8) ?n else wr m h ?n)"
  define m2 where "m2 = (if ?n \<noteq> 0 then wr m1 ?n ?q else m1)"
  note fits = spaced_bound [OF assms(3)]
  have q: "?q \<noteq> 0 \<Longrightarrow> ?q \<in> set (offsets ys)"
    by (cases ys rule: end_of_cases) auto
  have n: "?n \<noteq> 0 \<Longrightarrow> ?n \<in> set (offsets zs)"
    by (cases zs rule: head_of_cases) auto
  have b: "16 \<le> b" "b + 24 \<le> msize m" using fits [of b] by auto
  have "same ?L m m1"
    using q fits [of ?q] b assms(2) unfolding m1_def
    by (auto intro!: same_write links_subsetI)
  moreover have "same ?L m1 m2"
    using n fits [of ?n] same_msize [OF calculation] unfolding m2_def
    by (auto intro!: same_write links_subsetI same_refl)
  ultimately have m2: "same ?L m m2" by (rule same_trans)
  then have "same ?L m2 (wr (wr m2 b 0) (b + 8) 0)"
    using b same_msize [OF m2]
    by (intro same_trans [OF same_write same_write] links_subsetI) auto
  with m2 have "same ?L m (wr (wr m2 b 0) (b + 8) 0)" by (rule same_trans)
  then show ?thesis
    by (simp only: unlink_def m1_def m2_def Let_def seg_links [OF assms(1)])
qed

lemma read_field_apart:
  assumes "apart c q \<or> apart q c" and "q + 24 \<le> msize m"
  shows "rd (wr m q v) c = rd m c"
    and "rd (wr m q v) (c + 8) = rd m (c + 8)"
    and "rd (wr m q v) (c + 16) = rd m (c + 16)"
    and "rd (wr m (q + 8) v) c = rd m c"
    and "rd (wr m (q + 8) v) (c + 8) = rd m (c + 8)"
    and "rd (wr m (q + 8) v) (c + 16) = rd m (c + 16)"
    and "rd (wr m (q + 16) v) c = rd m c"
    and "rd (wr m (q + 16) v) (c + 8) = rd m (c + 8)"
    and "rd (wr m (q + 16) v) (c + 16) = rd m (c + 16)"
proof -
  have "c + 24 \<le> q \<or> q + 24 \<le> c" using assms(1) by (auto simp: apart_def)
  note a = this assms(2)
  show "rd (wr m q v) c = rd m c" "rd (wr m (q + 8) v) c = rd m c"
    "rd (wr m (q + 16) v) c = rd m c"
    using a by (rule_tac read_apart; linarith)+
  show "rd (wr m q v) (c + 8) = rd m (c + 8)" "rd (wr m (q + 8) v) (c + 8) = rd m (c + 8)"
    "rd (wr m (q + 16) v) (c + 8) = rd m (c + 8)"
    using a by (rule_tac read_apart; linarith)+
  show "rd (wr m q v) (c + 16) = rd m (c + 16)" "rd (wr m (q + 8) v) (c + 16) = rd m (c + 16)"
    "rd (wr m (q + 16) v) (c + 16) = rd m (c + 16)"
    using a by (rule_tac read_apart; linarith)+
qed

lemma seg_wr_field:
  assumes "(\<forall>x \<in> set xs. apart q (fst x)) \<or> (\<forall>x \<in> set xs. apart (fst x) q)"
    and "q + 24 \<le> msize m"
  shows "seg (rd (wr m q v)) p a xs n = seg (rd m) p a xs n"
    and "seg (rd (wr m (q + 8) v)) p a xs n = seg (rd m) p a xs n"
    and "seg (rd (wr m (q + 16) v)) p a xs n = seg (rd m) p a xs n"
proof -
  have a: "apart c q \<or> apart q c" if "(c, s) \<in> set xs" for c s
    using assms(1) that by auto
  show "seg (rd (wr m q v)) p a xs n = seg (rd m) p a xs n"
    and "seg (rd (wr m (q + 8) v)) p a xs n = seg (rd m) p a xs n"
    and "seg (rd (wr m (q + 16) v)) p a xs n = seg (rd m) p a xs n"
    by (rule seg_cong, drule a, simp add: read_field_apart assms(2))+
qed

lemma seg_wr_head:
  assumes "\<forall>x \<in> set xs. 16 \<le> fst x" and "h + 8 \<le> 16" and "16 \<le> msize m"
  shows "seg (rd (wr m h v)) p x xs n = seg (rd m) p x xs n"
  using assms by (intro seg_wr) force+

lemmas read_write_simps = read_field_apart read_apart read_same seg_wr_field seg_wr_head

lemma unlink_seg:
  assumes "seg (rd m) 0 (rd m h) (ys @ (b, s) # zs) 0" and "h + 8 \<le> 16"
    and "spaced (msize m) (offsets (ys @ (b, s) # zs))" and "msize m < 2 ^ 64"
  shows "seg (rd (unlink h b m)) 0 (rd (unlink h b m) h) (ys @ zs) 0"
    and "rd (unlink h b m) b = 0" and "rd (unlink h b m) (b + 8) = 0"
    and "rd (unlink h b m) (b + 16) = s"
proof -
  let ?P = "\<lambda>m'. seg (rd m') 0 (rd m' h) (ys @ zs) 0 \<and> rd m' b = 0 \<and> rd m' (b + 8) = 0 \<and>
    rd m' (b + 16) = s"
  note un = unlink_def [of h b m, unfolded seg_links [OF assms(1)] Let_def]
  have sp: "\<forall>c \<in> set (offsets (ys @ (b, s) # zs)). 16 \<le> c"
    using spaced_bound [OF assms(3)] by blast
  have "?P (unlink h b m)"
  proof (cases ys rule: end_of_cases)
    case 1
    show ?thesis
    proof (cases zs rule: head_of_cases)
      case 1
      with \<open>ys = []\<close> assms un show ?thesis by (simp add: read_write_simps)
    next
      case (2 n u zs')
      with \<open>ys = []\<close> assms un sp show ?thesis
        by (clarsimp simp: read_write_simps)
    qed
  next
    case (2 ys' q t)
    note ys = 2
    show ?thesis
    proof (cases zs rule: head_of_cases)
      case 1
      with ys assms un sp show ?thesis
        by (clarsimp simp: read_write_simps)
    next
      case (2 n u zs')
      with ys assms un sp show ?thesis
        by (clarsimp simp: read_write_simps)
    qed
  qed
  then show "seg (rd (unlink h b m)) 0 (rd (unlink h b m) h) (ys @ zs) 0"
    and "rd (unlink h b m) b = 0" and "rd (unlink h b m) (b + 8) = 0"
    and "rd (unlink h b m) (b + 16) = s"
    by simp_all
qed

lemma link_same:
  assumes "seg (rd m) 0 (rd m h) (ys @ zs) 0" and "h + 8 \<le> 16"
    and "spaced (msize m) (offsets (ys @ (b, s) # zs))"
  shows "same (links h (set (offsets (ys @ (b, s) # zs)))) m
    (link h b (end_of 0 ys) (head_of zs) m)"
proof -
  let ?L = "links h (set (offsets (ys @ (b, s) # zs)))"
  let ?q = "end_of 0 ys" and ?n = "head_of zs"
  define m1 where "m1 = wr (wr m b ?q) (b + 8) ?n"
  define m2 where "m2 = (if ?q \<noteq> 0 then wr m1 (?q + 8) b else wr m1 h b)"
  define m3 where "m3 = (if ?n \<noteq> 0 then wr m2 ?n b else m2)"
  note fits = spaced_bound [OF assms(3)]
  have q: "?q \<noteq> 0 \<Longrightarrow> ?q \<in> set (offsets ys)"
    by (cases ys rule: end_of_cases) auto
  have n: "?n \<noteq> 0 \<Longrightarrow> ?n \<in> set (offsets zs)"
    by (cases zs rule: head_of_cases) auto
  have b: "16 \<le> b" "b + 24 \<le> msize m" using fits [of b] by auto
  have m1: "same ?L m m1"
    using b unfolding m1_def
    by (intro same_trans [OF same_write same_write] links_subsetI) auto
  have "same ?L m1 m2"
    using q fits [of ?q] b assms(2) same_msize [OF m1] unfolding m2_def
    by (auto intro!: same_write links_subsetI)
  with m1 have m2: "same ?L m m2" by (rule same_trans)
  have "same ?L m2 m3"
    using n fits [of ?n] same_msize [OF m2] unfolding m3_def
    by (auto intro!: same_write links_subsetI same_refl)
  with m2 have "same ?L m m3" by (rule same_trans)
  then show ?thesis
    by (simp only: link_def m1_def m2_def m3_def Let_def)
qed

lemma link_seg:
  assumes "seg (rd m) 0 (rd m h) (ys @ zs) 0" and "h + 8 \<le> 16"
    and "spaced (msize m) (offsets (ys @ (b, s) # zs))" and "msize m < 2 ^ 64"
    and "rd m (b + 16) = s"
  defines "m' \<equiv> link h b (end_of 0 ys) (head_of zs) m"
  shows "seg (rd m') 0 (rd m' h) (ys @ (b, s) # zs) 0"
proof -
  note li = m'_def [unfolded link_def Let_def]
  have sp: "\<forall>c \<in> set (offsets (ys @ (b, s) # zs)). 16 \<le> c"
    using spaced_bound [OF assms(3)] by blast
  show ?thesis
  proof (cases ys rule: end_of_cases)
    case 1
    show ?thesis
    proof (cases zs rule: head_of_cases)
      case 1
      with \<open>ys = []\<close> assms(1-5) li show ?thesis by (simp add: read_write_simps)
    next
      case (2 n u zs')
      with \<open>ys = []\<close> assms(1-5) li sp show ?thesis
        by (clarsimp simp: read_write_simps)
    qed
  next
    case (2 ys' q t)
    note ys = 2
    show ?thesis
    proof (cases zs rule: head_of_cases)
      case 1
      with ys assms(1-5) li sp show ?thesis
        by (clarsimp simp: read_write_simps)
    next
      case (2 n u zs')
      with ys assms(1-5) li sp show ?thesis
        by (clarsimp simp: read_write_simps)
    qed
  qed
qed

text \<open>Putting block \<open>b\<close> at the front of a list.\<close>

definition push :: "nat \<Rightarrow> nat \<Rightarrow> 'm \<Rightarrow> 'm" where
  "push h b m =
    (let n = rd m h; m1 = (if n \<noteq> 0 then wr m n b else m)
     in wr (wr (wr m1 b 0) (b + 8) n) h b)"

lemma push_same:
  assumes "seg (rd m) 0 (rd m h) zs 0" and "h + 8 \<le> 16"
    and "spaced (msize m) (offsets ((b, s) # zs))"
  shows "same (links h (set (offsets ((b, s) # zs)))) m (push h b m)"
proof -
  let ?L = "links h (set (offsets ((b, s) # zs)))"
  define m1 where "m1 = (if head_of zs \<noteq> 0 then wr m (head_of zs) b else m)"
  have n: "rd m h = head_of zs" using assms(1) by (rule seg_head)
  have nz: "head_of zs \<noteq> 0 \<Longrightarrow> head_of zs \<in> set (offsets zs)"
    by (cases zs rule: head_of_cases) auto
  have b: "16 \<le> b" "b + 24 \<le> msize m" using assms(3) by auto
  have m1: "same ?L m m1"
    using nz spaced_bound [OF assms(3), of "head_of zs"] unfolding m1_def
    by (auto intro!: same_write links_subsetI same_refl)
  then have "same ?L m1 (wr (wr (wr m1 b 0) (b + 8) (head_of zs)) h b)"
    using b assms(2) same_msize [OF m1]
    by (intro same_trans [OF same_trans [OF same_write same_write] same_write] links_subsetI) auto
  with m1 show ?thesis
    unfolding push_def Let_def n m1_def by (rule same_trans)
qed

lemma push_seg:
  assumes "seg (rd m) 0 (rd m h) zs 0" and "h + 8 \<le> 16"
    and "spaced (msize m) (offsets ((b, s) # zs))" and "msize m < 2 ^ 64"
    and "rd m (b + 16) = s"
  shows "seg (rd (push h b m)) 0 (rd (push h b m) h) ((b, s) # zs) 0"
proof -
  note pu = push_def [of h b m, unfolded Let_def]
  show ?thesis
  proof (cases zs rule: head_of_cases)
    case 1
    with assms pu show ?thesis by (simp add: read_write_simps)
  next
    case (2 n u zs')
    have "\<forall>c \<in> set (offsets ((b, s) # zs)). 16 \<le> c"
      using spaced_bound [OF assms(3)] by blast
    with 2 assms pu show ?thesis
      by (clarsimp simp: read_write_simps)
  qed
qed

lemma resize_seg:
  assumes "seg (rd m) 0 (rd m h) (ys @ (b, s) # zs) 0" and "h + 8 \<le> 16"
    and "spaced (msize m) (offsets (ys @ (b, s) # zs))" and "v < 2 ^ 64"
  shows "seg (rd (wr m (b + 16) v)) 0 (rd (wr m (b + 16) v) h) (ys @ (b, v) # zs) 0"
  using assms by (clarsimp simp: read_write_simps)

lemma first_seg:
  assumes "rd m h = 0" and "h + 8 \<le> 16" and "16 \<le> b" and "b + 24 \<le> msize m" and "msize m < 2 ^ 64"
    and "rd m b = 0" and "rd m (b + 8) = 0" and "rd m (b + 16) = s"
  shows "seg (rd (wr m h b)) 0 (rd (wr m h b) h) [(b, s)] 0"
  using assms by (simp add: read_write_simps)

end

interpretation mm: word_memory rd wr length same_outside
  by unfold_locales
    (rule rd_wr_same same_outside_wr same_outside_rd same_outside_length same_outside_refl
      same_outside_trans rd_bound; assumption)+

end
