(* ===== verification/File_Backed_Buffer.thy ===== *)
theory File_Backed_Buffer
  imports Block_Lists
begin

text \<open>
  The allocator of \<open>src/src/lib/file_backed_buffer.cpp\<close>, one definition per member function,
  over the bytes of the mapping. A \<open>FileByteOffset \<open>&\<close>\<close> parameter (a list head passed by
  reference) is the address of that head. A loop takes fuel; its callers pass the length of the
  mapping, and running out of it is \<open>Diverges\<close>: on a well-formed buffer every list has fewer
  blocks than the mapping has bytes, which the refinement theorems use. Every operation runs under
  \<open>m_mutex\<close>, so it is one step from mapping to mapping.
\<close>

section \<open>Linking and unlinking\<close>

definition remove_block_from_list :: "u64 \<Rightarrow> u64 \<Rightarrow> mapping \<Rightarrow> mapping res" where
  "remove_block_from_list list_head curr_block m =
    and_then (prev_block_offset m curr_block) (\<lambda>prev.
    and_then (next_block_offset m curr_block) (\<lambda>nxt.
    and_then (if prev \<noteq> NULL_OFFSET then set_next_block_offset m prev nxt
              else store64 m list_head nxt) (\<lambda>m.
    and_then (next_block_offset m curr_block) (\<lambda>nxt.
    and_then (prev_block_offset m curr_block) (\<lambda>prev.
    and_then (if nxt \<noteq> NULL_OFFSET then set_prev_block_offset m nxt prev else Inr m) (\<lambda>m.
    and_then (set_prev_block_offset m curr_block NULL_OFFSET) (\<lambda>m.
    set_next_block_offset m curr_block NULL_OFFSET)))))))"

definition insert_block_to_used_list :: "u64 \<Rightarrow> mapping \<Rightarrow> mapping res" where
  "insert_block_to_used_list block m =
    and_then (load64 m next_used_block_offset) (\<lambda>used.
    and_then (if used \<noteq> NULL_OFFSET then set_prev_block_offset m used block else Inr m) (\<lambda>m.
    and_then (set_prev_block_offset m block NULL_OFFSET) (\<lambda>m.
    and_then (load64 m next_used_block_offset) (\<lambda>used.
    and_then (set_next_block_offset m block used) (\<lambda>m.
    store64 m next_used_block_offset block)))))"

text \<open>
  The \<open>while (true)\<close> loop of \<open>insert_block_to_free_list\<close>: the offset of the first free block
  behind \<open>block\<close>, or of the last one.
\<close>

fun find_free_position :: "nat \<Rightarrow> mapping \<Rightarrow> u64 \<Rightarrow> u64 \<Rightarrow> u64 res" where
  "find_free_position 0 m block_offset cur = Inl Diverges"
| "find_free_position (Suc fuel) m block_offset cur =
    (if block_offset < cur then Inr cur
     else and_then (next_block_offset m cur) (\<lambda>nxt.
       if nxt = NULL_OFFSET then Inr cur else find_free_position fuel m block_offset nxt))"

text \<open>
  The neighbours of the new block: \<open>prev_free_block_offset\<close> and \<open>next_free_block_offset\<close>,
  with the assertions. In the last branch the code asserts false.
\<close>

definition free_neighbours :: "mapping \<Rightarrow> u64 \<Rightarrow> u64 \<Rightarrow> (u64 \<times> u64) res" where
  "free_neighbours m block_offset cur =
    (if cur < block_offset then
       and_then (next_block_offset m cur) (\<lambda>nxt.
       and_then (assert_that (nxt = NULL_OFFSET)) (\<lambda>_. Inr (cur, nxt)))
     else if block_offset < cur then
       and_then (prev_block_offset m cur) (\<lambda>prev.
       and_then (assert_that (prev = NULL_OFFSET \<or> prev < block_offset)) (\<lambda>_. Inr (prev, cur)))
     else Inl AssertionFailed)"

text \<open>Setting the links of the new block and of its neighbours.\<close>

definition link_free_block :: "u64 \<Rightarrow> u64 \<Rightarrow> u64 \<Rightarrow> u64 \<Rightarrow> mapping \<Rightarrow> mapping res" where
  "link_free_block block cur prev nxt m =
    and_then (set_prev_block_offset m block prev) (\<lambda>m.
    and_then (set_next_block_offset m block nxt) (\<lambda>m.
    and_then (if prev \<noteq> NULL_OFFSET then set_next_block_offset m prev block
              else and_then (load64 m next_free_block_offset) (\<lambda>free_list.
                   and_then (assert_that (cur = free_list)) (\<lambda>_.
                   store64 m next_free_block_offset block))) (\<lambda>m.
    if nxt \<noteq> NULL_OFFSET then set_prev_block_offset m nxt block else Inr m)))"

text \<open>Merging the new block with its neighbours.\<close>

definition is_contiguous :: "mapping \<Rightarrow> u64 \<Rightarrow> bool res" where
  "is_contiguous m b =
    and_then (data_size m b) (\<lambda>size.
    and_then (next_block_offset m b) (\<lambda>nxt. Inr (b + sizeof_Block + size = nxt)))"

definition merge_free_block :: "u64 \<Rightarrow> u64 \<Rightarrow> u64 \<Rightarrow> mapping \<Rightarrow> mapping res" where
  "merge_free_block block prev nxt m =
    and_then (if prev \<noteq> NULL_OFFSET then is_contiguous m prev else Inr False) (\<lambda>prev_contiguous.
    and_then (if nxt \<noteq> NULL_OFFSET then is_contiguous m block else Inr False) (\<lambda>next_contiguous.
    if prev_contiguous \<and> next_contiguous then
      and_then (remove_block_from_list next_free_block_offset block m) (\<lambda>m.
      and_then (remove_block_from_list next_free_block_offset nxt m) (\<lambda>m.
      and_then (data_size m prev) (\<lambda>prev_size.
      and_then (data_size m block) (\<lambda>size.
      and_then (data_size m nxt) (\<lambda>next_size.
      set_data_size m prev (prev_size + ((sizeof_Block + size) + (sizeof_Block + next_size))))))))
    else if prev_contiguous then
      and_then (remove_block_from_list next_free_block_offset block m) (\<lambda>m.
      and_then (data_size m prev) (\<lambda>prev_size.
      and_then (data_size m block) (\<lambda>size.
      set_data_size m prev (prev_size + (sizeof_Block + size)))))
    else if next_contiguous then
      and_then (remove_block_from_list next_free_block_offset nxt m) (\<lambda>m.
      and_then (data_size m block) (\<lambda>size.
      and_then (data_size m nxt) (\<lambda>next_size.
      set_data_size m block (size + (sizeof_Block + next_size)))))
    else Inr m))"

definition insert_block_to_free_list :: "u64 \<Rightarrow> mapping \<Rightarrow> mapping res" where
  "insert_block_to_free_list block m =
    and_then (load64 m next_free_block_offset) (\<lambda>free_list.
    if free_list = NULL_OFFSET then store64 m next_free_block_offset block
    else
      and_then (find_free_position (length m) m block free_list) (\<lambda>cur.
      and_then (free_neighbours m block cur) (\<lambda>(prev, nxt).
      and_then (link_free_block block cur prev nxt m) (\<lambda>m.
      merge_free_block block prev nxt m))))"

section \<open>Allocating and freeing\<close>

text \<open>The body of the loop of \<open>alloc\<close> for a free block that is large enough.\<close>

definition use_free_block :: "u64 \<Rightarrow> u64 \<Rightarrow> mapping \<Rightarrow> mapping res" where
  "use_free_block alloc_size curr_block m =
    and_then (remove_block_from_list next_free_block_offset curr_block m) (\<lambda>m.
    and_then (data_size m curr_block) (\<lambda>size.
    and_then
      (if alloc_size + sizeof_Block + 100 \<le> size then
         (let split_block = block_data curr_block + alloc_size in
          and_then (set_data_size m split_block (size - alloc_size - sizeof_Block)) (\<lambda>m.
          and_then (insert_block_to_free_list split_block m) (\<lambda>m.
          set_data_size m curr_block alloc_size)))
       else Inr m) (\<lambda>m.
    insert_block_to_used_list curr_block m)))"

text \<open>The loop. A null result pointer is \<open>None\<close>.\<close>

fun alloc_loop :: "nat \<Rightarrow> u64 \<Rightarrow> u64 \<Rightarrow> mapping \<Rightarrow> (mapping \<times> u64 option) res" where
  "alloc_loop fuel alloc_size cur m =
    (if cur = NULL_OFFSET then Inr (m, None)
     else case fuel of
       0 \<Rightarrow> Inl Diverges
     | Suc fuel' \<Rightarrow>
         and_then (data_size m cur) (\<lambda>size.
         if alloc_size \<le> size then
           and_then (use_free_block alloc_size cur m) (\<lambda>m. Inr (m, Some (block_data cur)))
         else and_then (next_block_offset m cur) (\<lambda>nxt. alloc_loop fuel' alloc_size nxt m)))"

declare alloc_loop.simps [simp del]

definition alloc :: "u64 \<Rightarrow> mapping \<Rightarrow> (mapping \<times> u64 option) res" where
  "alloc alloc_size m =
    and_then (load64 m next_free_block_offset) (\<lambda>free_list.
    alloc_loop (length m) alloc_size free_list m)"

definition free :: "u64 \<Rightarrow> mapping \<Rightarrow> mapping res" where
  "free pointer m =
    (let block = pointer - sizeof_Block in
     and_then (remove_block_from_list next_used_block_offset block m) (\<lambda>m.
     insert_block_to_free_list block m))"

section \<open>Opening the buffer file\<close>

text \<open>
  What the constructor meets in the file system: the bytes of the file, if it exists, and
  whether creating, opening, resizing and mapping it succeed.
\<close>

record os_file =
  file_contents :: "byte list option"
  may_create :: bool
  may_open :: bool
  may_resize :: bool
  may_map :: bool

text \<open>
  The two calls of \<open>open\<close> and the \<open>ftruncate\<close> of a new file, which is filled with zeros: the
  flag \<open>new_file\<close> and the bytes behind \<open>m_fd\<close>, or \<open>None\<close> if \<open>m_fd\<close> stays negative.
\<close>

definition open_buffer_file :: "os_file \<Rightarrow> u64 \<Rightarrow> (bool \<times> byte list) option" where
  "open_buffer_file f buffer_size =
    (case file_contents f of
       None \<Rightarrow>
         if may_create f
         then Some (True, if may_resize f then replicate (unat buffer_size) 0 else [])
         else None
     | Some bytes \<Rightarrow> if may_open f then Some (False, bytes) else None)"

text \<open>\<open>get_file_size\<close> returns the file size as a 32-bit \<open>int\<close>, and -1 without a file.\<close>

definition get_file_size :: "byte list option \<Rightarrow> 32 word" where
  "get_file_size fd = (case fd of None \<Rightarrow> - 1 | Some bytes \<Rightarrow> word_of_nat (length bytes))"

text \<open>
  \<open>mmap\<close> gets that \<open>int\<close> converted to a \<open>size_t\<close>. It refuses the length 0; a length beyond the
  end of the file (a negative \<open>int\<close> is one) gives no usable mapping and counts as refused.
\<close>

definition mmap_file :: "os_file \<Rightarrow> 32 word \<Rightarrow> byte list \<Rightarrow> mapping option" where
  "mmap_file f db_size bytes =
    (let len = scast db_size :: u64 in
     if may_map f \<and> len \<noteq> 0 \<and> unat len \<le> length bytes then Some (take (unat len) bytes)
     else None)"

text \<open>The header and the one free block of a new file.\<close>

definition init_buffer :: "32 word \<Rightarrow> mapping \<Rightarrow> mapping res" where
  "init_buffer db_size m =
    and_then (store64 m next_free_block_offset sizeof_BufferHeader) (\<lambda>m.
    and_then (store64 m next_used_block_offset NULL_OFFSET) (\<lambda>m.
    and_then (load64 m next_free_block_offset) (\<lambda>new_block.
    and_then (set_data_size m new_block (scast db_size - sizeof_BufferHeader - sizeof_Block)) (\<lambda>m.
    and_then (set_prev_block_offset m new_block NULL_OFFSET) (\<lambda>m.
    set_next_block_offset m new_block NULL_OFFSET)))))"

record file_backed_buffer =
  m_db_size :: "32 word"
  m_base :: mapping

definition FileBackedBuffer :: "os_file \<Rightarrow> u64 \<Rightarrow> file_backed_buffer res" where
  "FileBackedBuffer f buffer_size =
    (let fd = open_buffer_file f buffer_size;
         db_size = get_file_size (map_option snd fd)
     in case fd of
          None \<Rightarrow> Inl AssertionFailed
        | Some (new_file, bytes) \<Rightarrow>
            (case mmap_file f db_size bytes of
               None \<Rightarrow> Inl AssertionFailed
             | Some m \<Rightarrow>
                 and_then (if new_file then init_buffer db_size m else Inr m) (\<lambda>m.
                 Inr \<lparr>m_db_size = db_size, m_base = m\<rparr>)))"

section \<open>Iterators and statistics\<close>

text \<open>A \<open>const_iterator\<close> is its member \<open>m_offset\<close>; the parent is the mapping.\<close>

definition begin_used :: "mapping \<Rightarrow> u64 res" where
  "begin_used m = load64 m next_used_block_offset"

definition begin_free :: "mapping \<Rightarrow> u64 res" where
  "begin_free m = load64 m next_free_block_offset"

definition end_blocks :: u64 where
  "end_blocks = NULL_OFFSET"

definition iter_deref :: "mapping \<Rightarrow> u64 \<Rightarrow> (u64 option \<times> u64) res" where
  "iter_deref m it =
    (if it = NULL_OFFSET then Inr (None, 0)
     else and_then (data_size m it) (\<lambda>size. Inr (Some (block_data it), size)))"

definition iter_next :: "mapping \<Rightarrow> u64 \<Rightarrow> u64 res" where
  "iter_next m it = (if it \<noteq> NULL_OFFSET then next_block_offset m it else Inr it)"

definition iter_prev :: "mapping \<Rightarrow> u64 \<Rightarrow> u64 res" where
  "iter_prev m it = (if it \<noteq> NULL_OFFSET then prev_block_offset m it else Inr it)"

text \<open>
  The loop \<open>for (iter = begin; iter != end; ++iter)\<close>: what \<open>*iter\<close> gives in each round.
\<close>

fun for_blocks :: "nat \<Rightarrow> mapping \<Rightarrow> u64 \<Rightarrow> (u64 option \<times> u64) list res" where
  "for_blocks fuel m it =
    (if it = end_blocks then Inr []
     else case fuel of
       0 \<Rightarrow> Inl Diverges
     | Suc fuel' \<Rightarrow>
         and_then (iter_deref m it) (\<lambda>x.
         and_then (iter_next m it) (\<lambda>it.
         and_then (for_blocks fuel' m it) (\<lambda>xs. Inr (x # xs)))))"

declare for_blocks.simps [simp del]

record block_stats =
  num_blocks :: u64
  smallest_block_size :: u64
  largest_block_size :: u64
  total_block_size :: u64

definition no_stats :: block_stats where
  "no_stats = \<lparr>num_blocks = 0, smallest_block_size = - 1, largest_block_size = 0, total_block_size = 0\<rparr>"

definition add_block_stats :: "u64 option \<times> u64 \<Rightarrow> block_stats \<Rightarrow> block_stats" where
  "add_block_stats data st =
    (let block_size = snd data + sizeof_Block;
         st = (if block_size < smallest_block_size st then st\<lparr>smallest_block_size := block_size\<rparr> else st);
         st = (if largest_block_size st < block_size then st\<lparr>largest_block_size := block_size\<rparr> else st)
     in st\<lparr>total_block_size := total_block_size st + block_size, num_blocks := num_blocks st + 1\<rparr>)"

text \<open>
  The integers \<open>print_stats\<close> computes before it prints; the averages and the fragmentation are
  floating-point quotients of these.
\<close>

definition print_stats :: "mapping \<Rightarrow> (block_stats \<times> block_stats) res" where
  "print_stats m =
    and_then (begin_used m) (\<lambda>it.
    and_then (for_blocks (length m) m it) (\<lambda>used.
    and_then (begin_free m) (\<lambda>it.
    and_then (for_blocks (length m) m it) (\<lambda>unused.
    Inr (fold add_block_stats used no_stats, fold add_block_stats unused no_stats)))))"

end
