(* ===== verification/Heap_Spec.thy ===== *)
theory Heap_Spec
  imports Block_Lists
begin

text \<open>
  What the allocator promises, without memory: a heap is the list of its free blocks, sorted by
  offset, and the list of its used blocks, last allocated first. \<open>heap_ok\<close> is its invariant: the
  blocks do not overlap, together they fill the file behind the header, and no two free blocks
  touch. \<open>spec_alloc\<close> and \<open>spec_free\<close> are first-fit allocation with splitting and freeing with
  coalescing on these lists; this theory proves that they keep the invariant, lose no byte and
  touch no other used block. Theory \<open>Buffer_Refinement\<close> shows that the code implements them.
\<close>

section \<open>Heaps\<close>

definition sep_blocks :: "block \<Rightarrow> block \<Rightarrow> bool" where
  "sep_blocks x y \<longleftrightarrow> fst x + 24 + snd x \<le> fst y \<or> fst y + 24 + snd y \<le> fst x"

definition total :: "block list \<Rightarrow> nat" where
  "total xs = sum_list (map (\<lambda>x. 24 + snd x) xs)"

definition blocks_ok :: "nat \<Rightarrow> block list \<Rightarrow> bool" where
  "blocks_ok L xs \<longleftrightarrow>
    sorted_wrt sep_blocks xs \<and> (\<forall>x \<in> set xs. 16 \<le> fst x \<and> fst x + 24 + snd x \<le> L) \<and>
    16 + total xs = L"

text \<open>Sorted by offset, with a gap between any two free blocks.\<close>

definition gap :: "block \<Rightarrow> block \<Rightarrow> bool" where
  "gap x y \<longleftrightarrow> fst x + 24 + snd x < fst y"

definition heap_ok :: "nat \<Rightarrow> block list \<Rightarrow> block list \<Rightarrow> bool" where
  "heap_ok L fs us \<longleftrightarrow> sorted_wrt gap fs \<and> blocks_ok L (fs @ us)"

text \<open>The addresses a list of blocks occupies.\<close>

definition extent :: "block \<Rightarrow> nat set" where
  "extent x = {fst x ..< fst x + 24 + snd x}"

definition extents :: "block list \<Rightarrow> nat set" where
  "extents xs = (\<Union>x \<in> set xs. extent x)"

section \<open>The abstract operations\<close>

text \<open>Prepending a block to the blocks behind it, merging it with the first if they touch.\<close>

fun glue :: "block \<Rightarrow> block list \<Rightarrow> block list" where
  "glue (b, s) [] = [(b, s)]"
| "glue (b, s) ((n, u) # zs) =
    (if b + 24 + s = n then (b, s + 24 + u) # zs else (b, s) # (n, u) # zs)"

text \<open>Sorted insertion with coalescing on both sides.\<close>

fun spec_insert :: "block \<Rightarrow> block list \<Rightarrow> block list" where
  "spec_insert (b, s) [] = [(b, s)]"
| "spec_insert (b, s) ((p, t) # fs) =
    (if p < b then
       (if p + 24 + t = b then glue (p, t + 24 + s) fs
        else (p, t) # spec_insert (b, s) fs)
     else glue (b, s) ((p, t) # fs))"

definition spec_alloc ::
  "nat \<Rightarrow> block list \<Rightarrow> block list \<Rightarrow> (block list \<times> block list \<times> nat) option" where
  "spec_alloc n fs us =
    (case List.extract (\<lambda>x. n \<le> snd x) fs of
       None \<Rightarrow> None
     | Some (ys, (b, s), zs) \<Rightarrow>
         if n + 124 \<le> s
         then Some (spec_insert (b + 24 + n, s - n - 24) (ys @ zs), (b, n) # us, b + 24)
         else Some (ys @ zs, (b, s) # us, b + 24))"

definition spec_free ::
  "nat \<Rightarrow> block list \<Rightarrow> block list \<Rightarrow> (block list \<times> block list) option" where
  "spec_free p fs us =
    (case List.extract (\<lambda>x. fst x + 24 = p) us of
       None \<Rightarrow> None
     | Some (ys, x, zs) \<Rightarrow> Some (spec_insert x fs, ys @ zs))"

section \<open>Facts about blocks\<close>

lemma sep_blocks_sym: "sep_blocks x y \<longleftrightarrow> sep_blocks y x"
  by (auto simp: sep_blocks_def)

lemma total_simps [simp]:
  "total [] = 0" "total (x # xs) = 24 + snd x + total xs"
  "total (xs @ ys) = total xs + total ys"
  by (simp_all add: total_def)

lemma sep_extent: "sep_blocks x y \<longleftrightarrow> extent x \<inter> extent y = {}"
proof
  assume "extent x \<inter> extent y = {}"
  then have "max (fst x) (fst y) \<notin> extent x \<or> max (fst x) (fst y) \<notin> extent y"
    by blast
  then show "sep_blocks x y"
    by (auto simp: extent_def sep_blocks_def max_def split: if_splits)
qed (auto simp: extent_def sep_blocks_def)

lemma sep_blocks_spaced:
  assumes "sorted_wrt sep_blocks xs" and "\<forall>x \<in> set xs. 16 \<le> fst x \<and> fst x + 24 + snd x \<le> L"
  shows "spaced L (offsets xs)"
proof -
  have "sorted_wrt (\<lambda>x y. apart (fst x) (fst y)) xs"
    by (rule sorted_wrt_mono_rel [OF _ assms(1)]) (auto simp: sep_blocks_def apart_def)
  moreover have "\<forall>x \<in> set xs. 16 \<le> fst x \<and> fst x + 24 \<le> L"
    using assms(2) by (meson add_leD1)
  ultimately show ?thesis by (simp add: spaced_def sorted_wrt_map)
qed

lemma blocks_ok_spaced: "blocks_ok L xs \<Longrightarrow> spaced L (offsets xs)"
  unfolding blocks_ok_def by (blast intro: sep_blocks_spaced)

lemma heap_ok_spaced: "heap_ok L fs us \<Longrightarrow> spaced L (offsets (fs @ us))"
  by (simp only: heap_ok_def blocks_ok_spaced)

lemma gap_trans: "gap x y \<Longrightarrow> gap y z \<Longrightarrow> gap x z"
  by (simp add: gap_def)

lemma extents_simps [simp]:
  "extents [] = {}" "extents (x # xs) = extent x \<union> extents xs"
  "extents (xs @ ys) = extents xs \<union> extents ys"
  by (auto simp: extents_def)

lemma extent_merge: "extent (p, t + 24 + s) = extent (p, t) \<union> extent (p + 24 + t, s)"
  by (auto simp: extent_def)

lemma extents_glue [simp]: "extents (glue y xs) = extent y \<union> extents xs"
  by (induction y xs rule: glue.induct) (auto simp: extent_merge)

lemma extents_spec_insert [simp]: "extents (spec_insert y xs) = extent y \<union> extents xs"
  by (induction y xs rule: spec_insert.induct) (auto simp: extent_merge simp del: glue.simps)

lemma total_glue [simp]: "total (glue y xs) = 24 + snd y + total xs"
  by (induction y xs rule: glue.induct) auto

lemma total_spec_insert [simp]: "total (spec_insert y xs) = 24 + snd y + total xs"
  by (induction y xs rule: spec_insert.induct) (auto simp del: glue.simps)

lemma fst_glue: "z \<in> set (glue y xs) \<Longrightarrow> fst z = fst y \<or> z \<in> set xs"
  by (induction y xs rule: glue.induct) (auto split: if_splits)

lemma fst_spec_insert:
  "z \<in> set (spec_insert y xs) \<Longrightarrow> fst z = fst y \<or> fst z \<in> fst ` set xs"
  by (induction y xs rule: spec_insert.induct)
    (auto split: if_splits dest!: fst_glue simp del: glue.simps)

lemma sep_extents: "(\<forall>y \<in> set xs. sep_blocks x y) \<longleftrightarrow> extent x \<inter> extents xs = {}"
  by (auto simp: sep_extent extents_def)

lemma extent_subset: "extent x \<subseteq> {16 ..< L} \<longleftrightarrow> 16 \<le> fst x \<and> fst x + 24 + snd x \<le> L"
proof -
  have "fst x < fst x + 24 + snd x" by simp
  then show ?thesis unfolding extent_def ivl_subset by linarith
qed

lemma extents_subset:
  "extents xs \<subseteq> {16 ..< L} \<longleftrightarrow> (\<forall>x \<in> set xs. 16 \<le> fst x \<and> fst x + 24 + snd x \<le> L)"
  unfolding extents_def UN_subset_iff extent_subset ..

lemma gap_sep: "sorted_wrt gap fs \<Longrightarrow> sorted_wrt sep_blocks fs"
  by (erule sorted_wrt_mono_rel [rotated]) (simp add: gap_def sep_blocks_def)

text \<open>The invariant, said with the addresses the free and the used blocks occupy.\<close>

lemma heap_ok_iff:
  "heap_ok L fs us \<longleftrightarrow>
    sorted_wrt gap fs \<and> sorted_wrt sep_blocks us \<and> extents fs \<inter> extents us = {} \<and>
    extents fs \<union> extents us \<subseteq> {16 ..< L} \<and> 16 + total fs + total us = L"
proof -
  have "(\<forall>x \<in> set fs. \<forall>y \<in> set us. sep_blocks x y) \<longleftrightarrow> extents fs \<inter> extents us = {}"
    unfolding sep_extents by (auto simp: extents_def)
  then show ?thesis
    unfolding heap_ok_def blocks_ok_def sorted_wrt_append
      extents_simps(3) [symmetric] extents_subset
    by (auto intro: gap_sep)
qed

lemma gap_glue:
  assumes "sorted_wrt gap xs" and "\<forall>x \<in> set xs. fst y + 24 + snd y \<le> fst x"
  shows "sorted_wrt gap (glue y xs)"
  using assms
proof (induction y xs rule: glue.induct)
  case (1 b s)
  then show ?case by simp
next
  case (2 b s n u zs)
  then show ?case by (force simp: gap_def)
qed

lemma gap_spec_insert:
  assumes "sorted_wrt gap xs" and "\<forall>x \<in> set xs. sep_blocks y x"
  shows "sorted_wrt gap (spec_insert y xs)"
  using assms
proof (induction y xs rule: spec_insert.induct)
  case (1 b s)
  then show ?case by simp
next
  case (2 b s p t fs)
  show ?case
  proof (cases "p < b")
    case True
    with 2 have pb: "p + 24 + t \<le> b" by (auto simp: sep_blocks_def)
    show ?thesis
    proof (cases "p + 24 + t = b")
      case True
      have "\<forall>x \<in> set fs. p + 24 + (t + 24 + s) \<le> fst x"
        using 2 True by (force simp: gap_def sep_blocks_def)
      with 2 True \<open>p < b\<close> show ?thesis by (simp add: gap_glue)
    next
      case False
      have "\<forall>z \<in> set (spec_insert (b, s) fs). gap (p, t) z"
        using 2 False pb by (auto simp: gap_def dest!: fst_spec_insert)
      with 2 False \<open>p < b\<close> show ?thesis by simp
    qed
  next
    case False
    have "\<forall>x \<in> set ((p, t) # fs). b + 24 + s \<le> fst x"
      using 2 False by (force simp: gap_def sep_blocks_def)
    with 2 False show ?thesis by (simp add: gap_glue del: glue.simps)
  qed
qed

lemma extract_split:
  "List.extract P xs = Some (ys, x, zs) \<longleftrightarrow> xs = ys @ x # zs \<and> P x \<and> (\<forall>y \<in> set ys. \<not> P y)"
  by (auto simp: extract_Some_iff)

section \<open>The operations keep the invariant\<close>

lemma extents_disjoint: "extents xs \<inter> extents ys = {} \<longleftrightarrow> (\<forall>x \<in> set xs. \<forall>y \<in> set ys. sep_blocks x y)"
  unfolding sep_extents by (auto simp: extents_def)

lemma spec_insert_ok:
  assumes "sorted_wrt gap fs" and "blocks_ok L (x # fs @ us)"
  shows "heap_ok L (spec_insert x fs) us"
proof -
  have x: "\<forall>y \<in> set (fs @ us). sep_blocks x y" and us: "sorted_wrt sep_blocks us"
    and fs: "\<forall>y \<in> set fs. \<forall>z \<in> set us. sep_blocks y z"
    and sub: "extents (x # fs @ us) \<subseteq> {16 ..< L}" and tot: "16 + total (x # fs @ us) = L"
    using assms(2) unfolding blocks_ok_def extents_subset by (auto simp: sorted_wrt_append)
  have "sorted_wrt gap (spec_insert x fs)"
    using x by (intro gap_spec_insert assms(1)) auto
  moreover have "extent x \<inter> extents (fs @ us) = {}"
    using x by (simp only: sep_extents)
  moreover have "extents fs \<inter> extents us = {}"
    using fs by (simp only: extents_disjoint)
  ultimately show ?thesis
    using us sub tot unfolding heap_ok_iff by auto
qed

lemma spec_alloc_Some:
  "spec_alloc n fs us = Some (fs', us', p) \<longleftrightarrow>
    (\<exists>ys b s zs. fs = ys @ (b, s) # zs \<and> n \<le> s \<and> (\<forall>y \<in> set ys. snd y < n) \<and> p = b + 24 \<and>
      (if n + 124 \<le> s
       then fs' = spec_insert (b + 24 + n, s - n - 24) (ys @ zs) \<and> us' = (b, n) # us
       else fs' = ys @ zs \<and> us' = (b, s) # us))" (is "_ \<longleftrightarrow> ?R")
proof
  assume "spec_alloc n fs us = Some (fs', us', p)"
  then obtain ys b s zs where "List.extract (\<lambda>x. n \<le> snd x) fs = Some (ys, (b, s), zs)"
    and r: "(if n + 124 \<le> s
      then Some (spec_insert (b + 24 + n, s - n - 24) (ys @ zs), (b, n) # us, b + 24)
      else Some (ys @ zs, (b, s) # us, b + 24)) = Some (fs', us', p)"
    unfolding spec_alloc_def by (auto split: option.splits prod.splits)
  then have "fs = ys @ (b, s) # zs \<and> n \<le> s \<and> (\<forall>y \<in> set ys. snd y < n)"
    by (simp add: extract_split not_le)
  with r show ?R by (intro exI [of _ ys] exI [of _ b] exI [of _ s] exI [of _ zs]) (auto split: if_splits)
next
  assume ?R
  then obtain ys b s zs where fs: "fs = ys @ (b, s) # zs" "n \<le> s" "\<forall>y \<in> set ys. snd y < n"
    and r: "p = b + 24" "if n + 124 \<le> s
       then fs' = spec_insert (b + 24 + n, s - n - 24) (ys @ zs) \<and> us' = (b, n) # us
       else fs' = ys @ zs \<and> us' = (b, s) # us" by blast
  then have "List.extract (\<lambda>x. n \<le> snd x) fs = Some (ys, (b, s), zs)"
    by (simp add: extract_split not_le)
  with r show "spec_alloc n fs us = Some (fs', us', p)"
    by (simp add: spec_alloc_def split: if_splits)
qed

lemma spec_alloc_None: "spec_alloc n fs us = None \<longleftrightarrow> (\<forall>x \<in> set fs. snd x < n)"
proof (cases "List.extract (\<lambda>x. n \<le> snd x) fs")
  case None
  then have "spec_alloc n fs us = None" by (simp add: spec_alloc_def)
  moreover have "\<forall>x \<in> set fs. snd x < n" using None by (simp add: extract_None_iff not_le)
  ultimately show ?thesis by simp
next
  case (Some r)
  then obtain ys b s zs where r: "List.extract (\<lambda>x. n \<le> snd x) fs = Some (ys, (b, s), zs)"
    by (cases r) auto
  then have "(b, s) \<in> set fs" "n \<le> s" by (auto simp: extract_split)
  moreover have "spec_alloc n fs us \<noteq> None" by (simp add: spec_alloc_def r)
  ultimately show ?thesis by force
qed

lemma spec_free_Some:
  "spec_free p fs us = Some (fs', us') \<longleftrightarrow>
    (\<exists>ys x zs. us = ys @ x # zs \<and> fst x + 24 = p \<and> (\<forall>y \<in> set ys. fst y + 24 \<noteq> p) \<and>
      fs' = spec_insert x fs \<and> us' = ys @ zs)"
proof (cases "List.extract (\<lambda>x. fst x + 24 = p) us")
  case None
  then have "spec_free p fs us = None" by (simp add: spec_free_def)
  moreover have "\<forall>x \<in> set us. fst x + 24 \<noteq> p" using None by (simp add: extract_None_iff)
  ultimately show ?thesis by auto
next
  case (Some r)
  then obtain ys x zs where r: "List.extract (\<lambda>x. fst x + 24 = p) us = Some (ys, x, zs)"
    by (cases r) auto
  then have us: "us = ys @ x # zs" "fst x + 24 = p" "\<forall>y \<in> set ys. fst y + 24 \<noteq> p"
    by (simp_all add: extract_split)
  have uniq: "ys' = ys \<and> x' = x \<and> zs' = zs"
    if "us = ys' @ x' # zs'" "fst x' + 24 = p" "\<forall>y \<in> set ys'. fst y + 24 \<noteq> p" for ys' x' zs'
  proof -
    have "List.extract (\<lambda>x. fst x + 24 = p) us = Some (ys', x', zs')"
      using that unfolding extract_split by blast
    with r show ?thesis by simp
  qed
  have free: "spec_free p fs us = Some (spec_insert x fs, ys @ zs)" by (simp add: spec_free_def r)
  show ?thesis (is "_ \<longleftrightarrow> ?R")
  proof
    assume "spec_free p fs us = Some (fs', us')"
    with free us show ?R by (intro exI [of _ ys] exI [of _ x] exI [of _ zs]) simp
  next
    assume ?R
    then obtain ys' x' zs' where "us = ys' @ x' # zs'" "fst x' + 24 = p"
      "\<forall>y \<in> set ys'. fst y + 24 \<noteq> p" "fs' = spec_insert x' fs" "us' = ys' @ zs'" by blast
    with uniq [of ys' x' zs'] free show "spec_free p fs us = Some (fs', us')" by simp
  qed
qed

lemma sep_split:
  assumes "n + 24 \<le> s"
  shows "sep_blocks z (b, s) \<Longrightarrow> sep_blocks z (b, n) \<and> sep_blocks z (b + 24 + n, s - n - 24)"
    and "sep_blocks (b, s) z \<Longrightarrow> sep_blocks (b, n) z \<and> sep_blocks (b + 24 + n, s - n - 24) z"
  using assms by (auto simp: sep_blocks_def)

lemma heap_ok_take:
  "heap_ok L (ys @ (b, s) # zs) us \<Longrightarrow> heap_ok L (ys @ zs) ((b, s) # us)"
  unfolding heap_ok_def blocks_ok_def
  by (auto simp: sorted_wrt_append sep_blocks_sym [of "(b, s)"])

lemma heap_ok_split:
  assumes "heap_ok L (ys @ (b, s) # zs) us" and "n + 24 \<le> s"
  shows "blocks_ok L ((b + 24 + n, s - n - 24) # (ys @ zs) @ ((b, n) # us))"
proof -
  have ok: "blocks_ok L ((ys @ (b, s) # zs) @ us)" using assms(1) by (simp only: heap_ok_def)
  let ?y = "(b + 24 + n, s - n - 24)" and ?x = "(b, n)"
  have rest: "sorted_wrt sep_blocks (ys @ zs @ us)"
    and out: "\<forall>z \<in> set (ys @ zs @ us). sep_blocks z (b, s)"
    using ok by (auto simp: blocks_ok_def sorted_wrt_append sep_blocks_sym [of "(b, s)"])
  have "\<forall>z \<in> set (ys @ zs @ us). sep_blocks z ?x \<and> sep_blocks z ?y \<and> sep_blocks ?x z \<and> sep_blocks ?y z"
    using out sep_split(1) [OF assms(2)] sep_blocks_sym by blast
  moreover have "sep_blocks ?y ?x" by (simp add: sep_blocks_def)
  ultimately have "sorted_wrt sep_blocks (?y # (ys @ zs) @ (?x # us))"
    using rest by (auto simp: sorted_wrt_append)
  moreover have "16 + total (?y # (ys @ zs) @ (?x # us)) = L"
    using ok assms(2) by (simp add: blocks_ok_def)
  moreover have "\<forall>x \<in> set (?y # (ys @ zs) @ (?x # us)). 16 \<le> fst x \<and> fst x + 24 + snd x \<le> L"
    using ok assms(2) by (auto simp: blocks_ok_def)
  ultimately show ?thesis unfolding blocks_ok_def by blast
qed

lemma gap_take: "sorted_wrt gap (ys @ x # zs) \<Longrightarrow> sorted_wrt gap (ys @ zs)"
  by (simp add: sorted_wrt_append)

theorem spec_alloc_ok:
  assumes "heap_ok L fs us" and "spec_alloc n fs us = Some (fs', us', p)"
  shows "heap_ok L fs' us'"
proof -
  obtain ys b s zs where fs: "fs = ys @ (b, s) # zs" and res: "if n + 124 \<le> s
       then fs' = spec_insert (b + 24 + n, s - n - 24) (ys @ zs) \<and> us' = (b, n) # us
       else fs' = ys @ zs \<and> us' = (b, s) # us"
    using assms(2) unfolding spec_alloc_Some by blast
  note ok = assms(1) [unfolded fs]
  show ?thesis
  proof (cases "n + 124 \<le> s")
    case True
    have "sorted_wrt gap (ys @ zs)"
      using ok unfolding heap_ok_def by (blast intro: gap_take)
    then have "heap_ok L (spec_insert (b + 24 + n, s - n - 24) (ys @ zs)) ((b, n) # us)"
      using True by (intro spec_insert_ok heap_ok_split [OF ok]) simp_all
    with res True show ?thesis by simp
  next
    case False
    with res heap_ok_take [OF ok] show ?thesis by simp
  qed
qed

theorem spec_free_ok:
  assumes "heap_ok L fs us" and "spec_free p fs us = Some (fs', us')"
  shows "heap_ok L fs' us'"
proof -
  obtain ys x zs where us: "us = ys @ x # zs" and res: "fs' = spec_insert x fs" "us' = ys @ zs"
    using assms(2) unfolding spec_free_Some by blast
  have "blocks_ok L (x # fs @ ys @ zs)"
    using assms(1) unfolding us heap_ok_def blocks_ok_def
    by (auto simp: sorted_wrt_append sep_blocks_sym [of _ x])
  moreover have "sorted_wrt gap fs" using assms(1) by (simp only: heap_ok_def)
  ultimately have "heap_ok L (spec_insert x fs) (ys @ zs)" by (intro spec_insert_ok)
  with res show ?thesis by simp
qed

end
