(* ===== verification/Buffer_Lists.thy ===== *)
theory Buffer_Lists
  imports File_Backed_Buffer Heap_Spec
begin

text \<open>
  The list operations of the allocator, evaluated on a mapping that holds a list of blocks.
  Each member function is first shown to compute the corresponding operation of
  \<open>word_memory\<close> (no access leaves the mapping, no assertion fails, no loop runs out of fuel);
  its effect on the list is then read off the laws of that interface. The main result is
  \<open>insert_free_refines\<close>: inserting into the free list is \<open>spec_insert\<close> on the list of blocks.
\<close>

section \<open>Reading and writing members of a block\<close>

lemma block_reads:
  assumes "b + 24 \<le> length m" and "length m < 2 ^ 63"
  shows "prev_block_offset m (u64 b) = Inr (u64 (rd m b))"
    and "next_block_offset m (u64 b) = Inr (u64 (rd m (b + 8)))"
    and "data_size m (u64 b) = Inr (u64 (rd m (b + 16)))"
  using assms load64_u64 [of b m] load64_u64 [of "b + 8" m] load64_u64 [of "b + 16" m]
  by (simp_all add: block_member_defs)

lemma block_writes:
  assumes "b + 24 \<le> length m" and "length m < 2 ^ 63" and "v < 2 ^ 64"
  shows "set_prev_block_offset m (u64 b) (u64 v) = Inr (wr m b v)"
    and "set_next_block_offset m (u64 b) (u64 v) = Inr (wr m (b + 8) v)"
    and "set_data_size m (u64 b) (u64 v) = Inr (wr m (b + 16) v)"
  using assms store64_u64 [of b m v] store64_u64 [of "b + 8" m v] store64_u64 [of "b + 16" m v]
  by (simp_all add: block_member_defs)

lemma null_writes:
  assumes "b + 24 \<le> length m" and "length m < 2 ^ 63"
  shows "set_prev_block_offset m (u64 b) 0 = Inr (wr m b 0)"
    and "set_next_block_offset m (u64 b) 0 = Inr (wr m (b + 8) 0)"
  using block_writes [OF assms, of 0] by simp_all

section \<open>Unlinking, linking and pushing\<close>

lemma remove_block_exec:
  assumes seg: "seg (rd m) 0 (rd m h) (ys @ (b, s) # zs) 0" and h: "h + 8 \<le> 16"
    and sp: "spaced (length m) (offsets (ys @ (b, s) # zs))" and len: "length m < 2 ^ 63"
  shows "remove_block_from_list (u64 h) (u64 b) m = Inr (mm.unlink h b m)"
proof -
  let ?q = "end_of 0 ys" and ?n = "head_of zs"
  note lk = mm.seg_links [OF seg]
  have b: "b + 24 \<le> length m" "16 \<le> b" using sp by auto
  have q: "?q \<noteq> 0 \<Longrightarrow> apart ?q b \<and> 16 \<le> ?q \<and> ?q + 24 \<le> length m"
    using sp by (cases ys rule: mm.end_of_cases) auto
  have n: "?n \<noteq> 0 \<Longrightarrow> apart b ?n \<and> 16 \<le> ?n \<and> ?n + 24 \<le> length m"
    using sp by (cases zs rule: mm.head_of_cases) auto
  have bd: "?q < 2 ^ 64" "?n < 2 ^ 64"
    using lk rd_bound [of m b] rd_bound [of m "b + 8"] by simp_all
  define m1 where "m1 = (if ?q \<noteq> 0 then wr m (?q + 8) ?n else wr m h ?n)"
  define m2 where "m2 = (if ?n \<noteq> 0 then wr m1 ?n ?q else m1)"
  have l1: "length m1 = length m" using q b h by (auto simp: m1_def)
  then have l2: "length m2 = length m" using n by (auto simp: m2_def)
  have s1: "(if u64 ?q \<noteq> 0 then set_next_block_offset m (u64 ?q) (u64 ?n)
      else store64 m (u64 h) (u64 ?n)) = Inr m1"
    using q h b len bd store64_u64 [of h m ?n] by (simp add: m1_def u64_simps block_writes)
  have r1: "rd m1 b = ?q" "rd m1 (b + 8) = ?n"
    using lk q b h by (auto simp: m1_def mm.read_field_apart mm.read_apart)
  have s2: "(if u64 ?n \<noteq> 0 then set_prev_block_offset m1 (u64 ?n) (u64 ?q) else Inr m1) = Inr m2"
    using n len l1 bd by (simp add: m2_def u64_simps block_writes)
  have "remove_block_from_list (u64 h) (u64 b) m = Inr (wr (wr m2 b 0) (b + 8) 0)"
    unfolding remove_block_from_list_def
    using b len l1 l2 s1 s2 r1 lk by (simp add: block_reads null_writes del: u64_eq_0)
  then show ?thesis
    by (simp only: mm.unlink_def m1_def m2_def Let_def lk)
qed

lemma insert_used_exec:
  assumes seg: "seg (rd m) 0 (rd m 8) us 0" and sp: "spaced (length m) (offsets ((b, s) # us))"
    and len: "length m < 2 ^ 63"
  shows "insert_block_to_used_list (u64 b) m = Inr (mm.push 8 b m)"
proof -
  let ?n = "rd m 8"
  have b: "b + 24 \<le> length m" "16 \<le> b" using sp by auto
  have n: "?n \<noteq> 0 \<Longrightarrow> apart b ?n \<and> 16 \<le> ?n \<and> ?n + 24 \<le> length m"
    using sp seg_head [OF seg] by (cases us rule: mm.head_of_cases) auto
  define m1 where "m1 = (if ?n \<noteq> 0 then wr m ?n b else m)"
  have l1: "length m1 = length m" using n by (auto simp: m1_def)
  have r0: "load64 m 8 = Inr (u64 ?n)"
    using load64_u64 [of 8 m] b len by simp
  have s1: "(if u64 ?n \<noteq> 0 then set_prev_block_offset m (u64 ?n) (u64 b) else Inr m) = Inr m1"
    using n b len rd_bound [of m 8] by (simp add: m1_def u64_simps block_writes)
  have "rd (wr m1 b 0) 8 = ?n"
    using b n l1 by (auto simp: m1_def mm.read_apart)
  then have r1: "load64 (wr m1 b 0) 8 = Inr (u64 ?n)"
    using load64_u64 [of 8 "wr m1 b 0"] b len l1 by simp
  have w: "store64 m' 8 (u64 b) = Inr (wr m' 8 b)" if "length m' = length m" for m'
    using store64_u64 [of 8 m' b] b len that by simp
  have "insert_block_to_used_list (u64 b) m = Inr (wr (wr (wr m1 b 0) (b + 8) ?n) 8 b)"
    unfolding insert_block_to_used_list_def
    using b len l1 s1 r0 r1 rd_bound [of m 8]
    by (simp add: block_writes null_writes w del: u64_eq_0)
  then show ?thesis
    by (simp only: mm.push_def m1_def Let_def)
qed

section \<open>Inserting a free block\<close>

lemma find_free_position_exec:
  assumes "seg (rd m) p a (ys @ zs) 0" and "ys @ zs \<noteq> []"
    and "\<forall>y \<in> set ys. fst y < b" and "\<forall>z \<in> set zs. b < fst z"
    and "\<forall>y \<in> set (ys @ zs). fst y + 24 \<le> length m" and "length m < 2 ^ 63" and "b < length m"
    and "length ys < fuel"
  shows "find_free_position fuel m (u64 b) (u64 a) =
    Inr (u64 (if zs = [] then end_of p ys else head_of zs))"
  using assms
proof (induction ys arbitrary: p a fuel)
  case Nil
  then obtain n u zs' where zs: "zs = (n, u) # zs'" by (cases zs) auto
  from Nil obtain fuel' where "fuel = Suc fuel'" by (cases fuel) auto
  with Nil zs show ?case by (simp add: u64_simps)
next
  case (Cons y ys)
  obtain q t where y: "y = (q, t)" by (cases y)
  from Cons obtain fuel' where fuel: "fuel = Suc fuel'" by (cases fuel) auto
  from Cons y have a: "a = q" "q < b" "q + 24 \<le> length m" and rest: "seg (rd m) q (rd m (q + 8)) (ys @ zs) 0"
    by auto
  have nxt: "next_block_offset m (u64 q) = Inr (u64 (rd m (q + 8)))"
    using a Cons.prems(6) by (simp add: block_reads)
  show ?case
  proof (cases "ys @ zs = []")
    case True
    with rest a nxt Cons.prems fuel y show ?thesis by (simp add: u64_simps)
  next
    case False
    then obtain c u xs where "ys @ zs = (c, u) # xs" by (cases "ys @ zs") auto
    with rest have "rd m (q + 8) \<noteq> 0" by auto
    moreover have "find_free_position fuel' m (u64 b) (u64 (rd m (q + 8))) =
        Inr (u64 (if zs = [] then end_of q ys else head_of zs))"
      using Cons.prems fuel False rest by (intro Cons.IH) auto
    ultimately show ?thesis
      using a nxt Cons.prems fuel y rd_bound [of m "q + 8"] by (simp add: u64_simps)
  qed
qed

lemma free_neighbours_exec:
  assumes seg: "seg (rd m) 0 (rd m 0) (ys @ zs) 0" and ne: "ys @ zs \<noteq> []"
    and ys: "\<forall>y \<in> set ys. fst y < b" and zs: "\<forall>z \<in> set zs. b < fst z"
    and bound: "\<forall>y \<in> set (ys @ zs). fst y + 24 \<le> length m" and len: "length m < 2 ^ 63"
    and b: "b < length m"
  shows "free_neighbours m (u64 b) (u64 (if zs = [] then end_of 0 ys else head_of zs)) =
    Inr (u64 (end_of 0 ys), u64 (head_of zs))"
proof (cases zs rule: mm.head_of_cases)
  case 1
  then obtain ys' q t where "ys = ys' @ [(q, t)]"
    using ne by (cases ys rule: mm.end_of_cases) auto
  with 1 assms show ?thesis
    by (auto simp: free_neighbours_def u64_simps block_reads)
next
  case (2 n u zs')
  then have n: "n + 24 \<le> length m" "rd m n = end_of 0 ys" "b < n"
    using bound seg zs by auto
  have "end_of 0 ys = 0 \<or> end_of 0 ys < b"
    using ys by (cases ys rule: mm.end_of_cases) auto
  with 2 n len b show ?thesis
    by (auto simp: free_neighbours_def u64_simps block_reads)
qed

lemma link_free_block_exec:
  assumes seg: "seg (rd m) 0 (rd m 0) (ys @ zs) 0" and ne: "ys @ zs \<noteq> []"
    and sp: "spaced (length m) (offsets (ys @ (b, s) # zs))" and len: "length m < 2 ^ 63"
  shows "link_free_block (u64 b) (u64 (if zs = [] then end_of 0 ys else head_of zs))
    (u64 (end_of 0 ys)) (u64 (head_of zs)) m = Inr (mm.link 0 b (end_of 0 ys) (head_of zs) m)"
proof -
  let ?q = "end_of 0 ys" and ?n = "head_of zs"
  have b: "b + 24 \<le> length m" "16 \<le> b" using sp by auto
  have q: "?q \<noteq> 0 \<Longrightarrow> 16 \<le> ?q \<and> ?q + 24 \<le> length m"
    using sp by (cases ys rule: mm.end_of_cases) auto
  have n: "?n \<noteq> 0 \<Longrightarrow> 16 \<le> ?n \<and> ?n + 24 \<le> length m"
    using sp by (cases zs rule: mm.head_of_cases) auto
  have "?q < 2 ^ 64" using q len by (cases "?q = 0") auto
  moreover have "?n < 2 ^ 64" using n len by (cases "?n = 0") auto
  ultimately have qn: "?q < 2 ^ 64" "?n < 2 ^ 64" by blast+
  have hd: "?q = 0 \<Longrightarrow> rd m 0 = ?n \<and> zs \<noteq> []"
    using seg ne sp by (cases ys rule: mm.end_of_cases) (auto dest: seg_head)
  define m1 where "m1 = wr (wr m b ?q) (b + 8) ?n"
  define m2 where "m2 = (if ?q \<noteq> 0 then wr m1 (?q + 8) b else wr m1 0 b)"
  have l1: "length m1 = length m" using b by (simp add: m1_def)
  then have l2: "length m2 = length m" using q b by (auto simp: m2_def)
  have "rd m1 0 = rd m 0" using b by (simp add: m1_def mm.read_apart)
  then have r: "load64 m1 0 = Inr (u64 (rd m 0))"
    using load64_u64 [of 0 m1] l1 b by simp
  have w: "store64 m1 0 (u64 b) = Inr (wr m1 0 b)"
    using store64_u64 [of 0 m1 b] l1 b len by simp
  have s1: "set_next_block_offset (wr m b ?q) (u64 b) (u64 ?n) = Inr m1"
    unfolding m1_def using b len qn by (intro block_writes) simp_all
  have s2: "(if u64 ?q \<noteq> 0 then set_next_block_offset m1 (u64 ?q) (u64 b)
      else and_then (load64 m1 0) (\<lambda>free_list.
        and_then (assert_that (u64 (if zs = [] then ?q else ?n) = free_list)) (\<lambda>_.
        store64 m1 0 (u64 b)))) = Inr m2"
    using hd q b len l1 qn r w by (auto simp: m2_def u64_simps block_writes)
  have s3: "(if u64 ?n \<noteq> 0 then set_prev_block_offset m2 (u64 ?n) (u64 b) else Inr m2) =
      Inr (if ?n \<noteq> 0 then wr m2 ?n b else m2)"
    using n b len l2 qn by (simp add: u64_simps block_writes)
  have "link_free_block (u64 b) (u64 (if zs = [] then ?q else ?n)) (u64 ?q) (u64 ?n) m =
      Inr (if ?n \<noteq> 0 then wr m2 ?n b else m2)"
    by (simp only: link_free_block_def NULL_OFFSET_def next_free_block_offset_def
        block_writes [OF b(1) len qn(1)] s1 and_then.simps s2 s3)
  then show ?thesis
    by (simp only: mm.link_def m1_def m2_def Let_def)
qed

section \<open>Merging\<close>

text \<open>The header of the file's list \<open>h\<close> and the block headers of a list.\<close>

definition headers :: "nat \<Rightarrow> nat set \<Rightarrow> nat set" where
  "headers h bs = {h ..< h + 8} \<union> (\<Union>b \<in> bs. {b ..< b + 24})"

lemma links_headers: "A \<subseteq> B \<Longrightarrow> links h A \<subseteq> headers h B"
  by (fastforce simp: links_def headers_def)

lemma headers_mono: "A \<subseteq> B \<Longrightarrow> headers h A \<subseteq> headers h B"
  by (auto simp: headers_def)

lemma headers_size: "b \<in> B \<Longrightarrow> {b + 16 ..< b + 16 + 8} \<subseteq> headers h B"
  by (force simp: headers_def)

lemma block_outside_links:
  assumes "h + 8 \<le> 16" and "16 \<le> c" and "\<forall>b \<in> B. apart c b"
  shows "{c ..< c + 24} \<inter> links h B = {}"
proof -
  have "{c ..< c + 24} \<inter> {b ..< b + 16} = {}" if "b \<in> B" for b
    using assms(3) that by (fastforce simp: apart_def)
  moreover have "{c ..< c + 24} \<inter> {h ..< h + 8} = {}"
    using assms(1,2) by auto
  ultimately show ?thesis unfolding links_def by blast
qed

lemma unlink_other_size:
  assumes "seg (rd m) 0 (rd m h) (ys @ (b, s) # zs) 0" and "h + 8 \<le> 16"
    and "spaced (length m) (offsets (ys @ (b, s) # zs))"
    and "16 \<le> c" and "\<forall>d \<in> set (offsets (ys @ (b, s) # zs)). apart c d"
  shows "rd (mm.unlink h b m) (c + 16) = rd m (c + 16)"
  using mm.unlink_same [OF assms(1,2,3)]
proof (rule mm.same_read)
  show "{c + 16 ..< c + 16 + 8} \<inter> links h (set (offsets (ys @ (b, s) # zs))) = {}"
    using block_outside_links [OF assms(2,4,5)] by (auto simp: disjoint_iff)
qed

lemma is_contiguous_exec:
  assumes "b + 24 + s \<le> length m" and "length m < 2 ^ 63" and "rd m (b + 16) = s"
  shows "is_contiguous m (u64 b) = Inr (b + 24 + s = rd m (b + 8))"
proof -
  have "b + 24 + s < 2 ^ 64" using assms(1,2) by simp
  moreover have "u64 b + sizeof_Block + u64 s = u64 (b + 24 + s)" by simp
  ultimately show ?thesis
    using assms rd_bound [of m "b + 8"]
    by (simp only: is_contiguous_def block_reads add_leD1 and_then.simps u64_eq)
qed

lemma resize_exec:
  assumes "q + 24 \<le> length m" and "length m < 2 ^ 63" and "v < 2 ^ 64"
  shows "set_data_size m (u64 q) (u64 v) = Inr (wr m (q + 16) v)"
  using assms by (rule block_writes(3))

text \<open>The result of merging on lists.\<close>

definition merged :: "block list \<Rightarrow> block \<Rightarrow> block list \<Rightarrow> block list" where
  "merged ys x zs =
    (if ys \<noteq> [] \<and> fst (last ys) + 24 + snd (last ys) = fst x
     then butlast ys @ glue (fst (last ys), snd (last ys) + 24 + snd x) zs
     else ys @ glue x zs)"

lemma spec_insert_front: "\<forall>z \<in> set zs. fst x < fst z \<Longrightarrow> spec_insert x zs = glue x zs"
  by (cases x; cases zs) auto

lemma spec_insert_merged:
  assumes "sorted_wrt gap (ys @ zs)" and "\<forall>y \<in> set ys. fst y < fst x" and "\<forall>z \<in> set zs. fst x < fst z"
  shows "spec_insert x (ys @ zs) = merged ys x zs"
  using assms
proof (induction ys)
  case Nil
  then show ?case
    by (simp add: merged_def spec_insert_front)
next
  case (Cons y ys)
  obtain b s p t where xy: "x = (b, s)" "y = (p, t)" by (cases x; cases y)
  show ?case
  proof (cases ys)
    case Nil
    with Cons xy show ?thesis
      by (simp add: merged_def spec_insert_front)
  next
    case (Cons z ys')
    then have "gap (p, t) z" "fst z < b" using Cons.prems xy by auto
    then have "p + 24 + t \<noteq> b" by (simp add: gap_def)
    moreover have "spec_insert (b, s) (ys @ zs) = merged ys (b, s) zs"
      using Cons.IH Cons.prems xy by simp
    ultimately show ?thesis
      using Cons.prems xy Cons by (auto simp: merged_def)
  qed
qed


text \<open>Unlinking a block of the free list, with everything the callers need.\<close>

lemma remove_free:
  assumes seg: "seg (rd m) 0 (rd m 0) (ys @ (b, s) # zs) 0"
    and sp: "spaced (length m) (offsets (ys @ (b, s) # zs))" and len: "length m < 2 ^ 63"
    and B: "set (offsets (ys @ (b, s) # zs)) \<subseteq> B"
  defines "m1 \<equiv> mm.unlink 0 b m"
  shows "remove_block_from_list next_free_block_offset (u64 b) m = Inr m1"
    and "seg (rd m1) 0 (rd m1 0) (ys @ zs) 0" and "length m1 = length m"
    and "rd m1 (b + 16) = s" and "same_outside (headers 0 B) m m1"
    and "spaced (length m) (offsets (ys @ zs))"
proof -
  have h: "(0::nat) + 8 \<le> 16" and l: "length m < 2 ^ 64" using len by simp_all
  show "remove_block_from_list next_free_block_offset (u64 b) m = Inr m1"
    using remove_block_exec [OF seg h sp len] by (simp add: m1_def)
  show "seg (rd m1) 0 (rd m1 0) (ys @ zs) 0" "rd m1 (b + 16) = s"
    unfolding m1_def by (rule mm.unlink_seg [OF seg h sp l])+
  have same: "same_outside (links 0 (set (offsets (ys @ (b, s) # zs)))) m m1"
    unfolding m1_def by (rule mm.unlink_same [OF seg h sp])
  then show "same_outside (headers 0 B) m m1"
    by (rule same_outside_mono) (rule links_headers [OF B])
  from same show "length m1 = length m" by (rule same_outside_length)
  show "spaced (length m) (offsets (ys @ zs))" using sp by simp
qed

lemma resize_free:
  assumes seg: "seg (rd m) 0 (rd m 0) (ys @ (b, s) # zs) 0"
    and sp: "spaced (length m) (offsets (ys @ (b, s) # zs))" and len: "length m < 2 ^ 63"
    and v: "v \<le> length m" and B: "b \<in> B"
  shows "set_data_size m (u64 b) (u64 v) = Inr (wr m (b + 16) v)"
    and "seg (rd (wr m (b + 16) v)) 0 (rd (wr m (b + 16) v) 0) (ys @ (b, v) # zs) 0"
    and "same_outside (headers 0 B) m (wr m (b + 16) v)"
proof -
  have b: "b + 24 \<le> length m" using sp by simp
  show "set_data_size m (u64 b) (u64 v) = Inr (wr m (b + 16) v)"
    using b len v by (intro block_writes) simp_all
  show "seg (rd (wr m (b + 16) v)) 0 (rd (wr m (b + 16) v) 0) (ys @ (b, v) # zs) 0"
    using len v by (intro mm.resize_seg [OF seg _ sp]) simp_all
  show "same_outside (headers 0 B) m (wr m (b + 16) v)"
    using b B by (intro same_outside_wr headers_size) simp_all
qed

text \<open>A free block swallows the next one.\<close>

lemma absorb_next:
  assumes seg: "seg (rd m) 0 (rd m 0) (ys @ (q, t) # (b, s) # zs) 0"
    and sp: "spaced (length m) (offsets (ys @ (q, t) # (b, s) # zs))" and len: "length m < 2 ^ 63"
    and v: "t + 24 + s \<le> length m" and B: "set (offsets (ys @ (q, t) # (b, s) # zs)) \<subseteq> B"
  shows "\<exists>m'. and_then (remove_block_from_list next_free_block_offset (u64 b) m) (\<lambda>m.
      and_then (data_size m (u64 q)) (\<lambda>q_size.
      and_then (data_size m (u64 b)) (\<lambda>size.
      set_data_size m (u64 q) (q_size + (sizeof_Block + size))))) = Inr m' \<and>
    seg (rd m') 0 (rd m' 0) (ys @ (q, t + 24 + s) # zs) 0 \<and> same_outside (headers 0 B) m m'"
proof -
  have app: "ys @ (q, t) # (b, s) # zs = (ys @ [(q, t)]) @ (b, s) # zs" by simp
  note rm = remove_free [OF seg [unfolded app] sp [unfolded app] len B [unfolded app]]
  let ?m1 = "mm.unlink 0 b m"
  have seg1: "seg (rd ?m1) 0 (rd ?m1 0) (ys @ (q, t) # zs) 0" using rm(2) by simp
  have sp1: "spaced (length ?m1) (offsets (ys @ (q, t) # zs))" using rm(3,6) by simp
  have len1: "length ?m1 < 2 ^ 63" and v1: "t + 24 + s \<le> length ?m1" and q: "q \<in> B"
    using len v rm(3) B by simp_all
  note rs = resize_free [OF seg1 sp1 len1 v1 q]
  have in1: "q + 24 \<le> length ?m1" "b + 24 \<le> length ?m1" using sp rm(3) by auto
  have sz: "data_size ?m1 (u64 q) = Inr (u64 t)" "data_size ?m1 (u64 b) = Inr (u64 s)"
    using block_reads(3) [OF in1(1) len1] block_reads(3) [OF in1(2) len1] rm(4)
      mm.seg_links(3) [OF seg1] by simp_all
  have add: "u64 t + (sizeof_Block + u64 s) = u64 (t + 24 + s)" by (simp add: add.assoc)
  show ?thesis
    unfolding rm(1) and_then.simps sz add rs(1)
    using rs(2) same_outside_trans [OF rm(5) rs(3)] by simp
qed

lemma absorb_both:
  assumes seg: "seg (rd m) 0 (rd m 0) (ys @ (q, t) # (b, s) # (n, u) # zs) 0"
    and sp: "spaced (length m) (offsets (ys @ (q, t) # (b, s) # (n, u) # zs))"
    and len: "length m < 2 ^ 63" and v: "t + 24 + s + 24 + u \<le> length m"
    and B: "set (offsets (ys @ (q, t) # (b, s) # (n, u) # zs)) \<subseteq> B"
  shows "\<exists>m'. and_then (remove_block_from_list next_free_block_offset (u64 b) m) (\<lambda>m.
      and_then (remove_block_from_list next_free_block_offset (u64 n) m) (\<lambda>m.
      and_then (data_size m (u64 q)) (\<lambda>prev_size.
      and_then (data_size m (u64 b)) (\<lambda>size.
      and_then (data_size m (u64 n)) (\<lambda>next_size.
      set_data_size m (u64 q)
        (prev_size + ((sizeof_Block + size) + (sizeof_Block + next_size)))))))) = Inr m' \<and>
    seg (rd m') 0 (rd m' 0) (ys @ (q, t + 24 + s + 24 + u) # zs) 0 \<and>
    same_outside (headers 0 B) m m'"
proof -
  have app: "ys @ (q, t) # (b, s) # (n, u) # zs = (ys @ [(q, t)]) @ (b, s) # (n, u) # zs" by simp
  note rm = remove_free [OF seg [unfolded app] sp [unfolded app] len B [unfolded app]]
  let ?m1 = "mm.unlink 0 b m"
  have app1: "(ys @ [(q, t)]) @ (n, u) # zs = ys @ (q, t) # (n, u) # zs" by simp
  have len1: "length ?m1 < 2 ^ 63" using len rm(3) by simp
  have sp1: "spaced (length ?m1) (offsets ((ys @ [(q, t)]) @ (n, u) # zs))" using rm(3,6) by simp
  have B1: "set (offsets ((ys @ [(q, t)]) @ (n, u) # zs)) \<subseteq> B" using B by auto
  note rm1 = remove_free [OF rm(2) sp1 len1 B1]
  let ?m2 = "mm.unlink 0 n ?m1"
  have seg2: "seg (rd ?m2) 0 (rd ?m2 0) (ys @ (q, t) # zs) 0" using rm1(2) by simp
  have len2: "length ?m2 < 2 ^ 63" using len1 rm1(3) by simp
  have sp2: "spaced (length ?m2) (offsets (ys @ (q, t) # zs))" using rm1(3,6) by simp
  have v2: "t + 24 + s + 24 + u \<le> length ?m2" and q: "q \<in> B"
    using v rm(3) rm1(3) B by simp_all
  note rs = resize_free [OF seg2 sp2 len2 v2 q]
  have b: "16 \<le> b" "\<forall>d \<in> set (offsets ((ys @ [(q, t)]) @ (n, u) # zs)). apart b d"
    using sp by (auto simp: apart_sym [of b])
  have "rd ?m2 (b + 16) = s"
    using unlink_other_size [OF rm(2) _ sp1 b] rm(4) by simp
  moreover have "q + 24 \<le> length ?m2" "b + 24 \<le> length ?m2" "n + 24 \<le> length ?m2"
    using sp rm(3) rm1(3) by auto
  ultimately have sz: "data_size ?m2 (u64 q) = Inr (u64 t)" "data_size ?m2 (u64 b) = Inr (u64 s)"
    "data_size ?m2 (u64 n) = Inr (u64 u)"
    using len2 rm1(4) mm.seg_links(3) [OF seg2] by (simp_all add: block_reads(3))
  have add: "u64 t + ((sizeof_Block + u64 s) + (sizeof_Block + u64 u)) = u64 (t + 24 + s + 24 + u)"
    by (simp add: ac_simps)
  show ?thesis
    unfolding rm(1) rm1(1) and_then.simps sz add rs(1)
    using rs(2) same_outside_trans [OF same_outside_trans [OF rm(5) rm1(5)] rs(3)] by simp
qed

lemma merge_free_block_refines:
  assumes seg: "seg (rd m) 0 (rd m 0) (ys @ (b, s) # zs) 0"
    and sep: "sorted_wrt sep_blocks (ys @ (b, s) # zs)"
    and bound: "\<forall>x \<in> set (ys @ (b, s) # zs). 16 \<le> fst x \<and> fst x + 24 + snd x \<le> length m"
    and len: "length m < 2 ^ 63"
    and sp: "spaced (length m) (offsets (ys @ (b, s) # zs))"
  shows "\<exists>m'. merge_free_block (u64 b) (u64 (end_of 0 ys)) (u64 (head_of zs)) m = Inr m' \<and>
    seg (rd m') 0 (rd m' 0) (merged ys (b, s) zs) 0 \<and>
    same_outside (headers 0 (set (offsets (ys @ (b, s) # zs)))) m m'" (is "\<exists>m'. ?P m'")
proof -
  note lk = mm.seg_links [OF seg]
  define prev_c where "prev_c \<longleftrightarrow> ys \<noteq> [] \<and> fst (last ys) + 24 + snd (last ys) = b"
  define next_c where "next_c \<longleftrightarrow> zs \<noteq> [] \<and> b + 24 + s = head_of zs"
  have prev: "(if u64 (end_of 0 ys) \<noteq> NULL_OFFSET then is_contiguous m (u64 (end_of 0 ys)) else Inr False) =
      Inr prev_c"
  proof (cases ys rule: mm.end_of_cases)
    case (2 ys' q t)
    with seg have "rd m (q + 16) = t" "rd m (q + 8) = b" "q \<noteq> 0" by auto
    with 2 bound len show ?thesis
      by (simp add: prev_c_def u64_simps is_contiguous_exec [of q t])
  qed (simp add: prev_c_def)
  have nxt: "(if u64 (head_of zs) \<noteq> NULL_OFFSET then is_contiguous m (u64 b) else Inr False) = Inr next_c"
  proof (cases zs rule: mm.head_of_cases)
    case (2 n u zs')
    with bound len lk show ?thesis
      by (simp add: next_c_def u64_simps is_contiguous_exec [of b s])
  qed (simp add: next_c_def)
  note ev = merge_free_block_def prev nxt and_then.simps
  show ?thesis
  proof (cases prev_c)
    case False
    show ?thesis
    proof (cases next_c)
      case False
      then have "glue (b, s) zs = (b, s) # zs"
        by (cases zs rule: mm.head_of_cases) (auto simp: next_c_def)
      with False \<open>\<not> prev_c\<close> seg have "?P m"
        unfolding ev by (simp add: merged_def prev_c_def [symmetric])
      then show ?thesis ..
    next
      case True
      then obtain n u zs' where zs: "zs = (n, u) # zs'" "b + 24 + s = n"
        by (cases zs rule: mm.head_of_cases) (auto simp: next_c_def)
      have v: "s + 24 + u \<le> length m" using bound zs by auto
      have "merged ys (b, s) zs = ys @ (b, s + 24 + u) # zs'"
        using \<open>\<not> prev_c\<close> zs by (simp add: merged_def prev_c_def [symmetric])
      with absorb_next [OF seg [unfolded zs] sp [unfolded zs] len v order_refl] zs True \<open>\<not> prev_c\<close>
      show ?thesis unfolding ev by simp
    qed
  next
    case True
    then obtain ys' q t where ys: "ys = ys' @ [(q, t)]" "q + 24 + t = b"
      by (cases ys rule: mm.end_of_cases) (auto simp: prev_c_def)
    have app: "ys @ (b, s) # zs = ys' @ (q, t) # (b, s) # zs" using ys by simp
    show ?thesis
    proof (cases next_c)
      case False
      then have "glue (q, t + 24 + s) zs = (q, t + 24 + s) # zs"
        using ys(2) by (cases zs rule: mm.head_of_cases) (auto simp: next_c_def)
      then have mg: "merged ys (b, s) zs = ys' @ (q, t + 24 + s) # zs"
        using ys by (simp add: merged_def)
      have v: "t + 24 + s \<le> length m" using bound ys by auto
      from absorb_next [OF seg [unfolded app] sp [unfolded app] len v order_refl] mg False True ys
      show ?thesis unfolding ev by simp
    next
      case nc: True
      then obtain n u zs' where zs: "zs = (n, u) # zs'" "b + 24 + s = n"
        by (cases zs rule: mm.head_of_cases) (auto simp: next_c_def)
      have mg: "merged ys (b, s) zs = ys' @ (q, t + 24 + s + 24 + u) # zs'"
        using ys zs by (simp add: merged_def)
      have v: "t + 24 + s + 24 + u \<le> length m" using bound ys zs by auto
      have app2: "ys @ (b, s) # zs = ys' @ (q, t) # (b, s) # (n, u) # zs'" using app zs by simp
      from absorb_both [OF seg [unfolded app2] sp [unfolded app2] len v order_refl] mg nc True ys zs
      show ?thesis unfolding ev by simp
    qed
  qed
qed

section \<open>Sorted insertion\<close>

lemma split_at:
  assumes "sorted_wrt gap fs" and "b \<notin> set (offsets fs)"
  obtains ys zs where "fs = ys @ zs" "\<forall>y \<in> set ys. fst y < b" "\<forall>z \<in> set zs. b < fst z"
proof
  show "fs = takeWhile (\<lambda>x. fst x < b) fs @ dropWhile (\<lambda>x. fst x < b) fs" by simp
  show "\<forall>y \<in> set (takeWhile (\<lambda>x. fst x < b) fs). fst y < b" by (auto dest: set_takeWhileD)
  show "\<forall>z \<in> set (dropWhile (\<lambda>x. fst x < b) fs). b < fst z"
    using assms
  proof (induction fs)
    case Nil
    then show ?case by simp
  next
    case (Cons x fs)
    then have "\<forall>z \<in> set (dropWhile (\<lambda>x. fst x < b) fs). b < fst z" by simp
    moreover have "b < fst z" if "\<not> fst x < b" "z \<in> set (x # fs)" for z
      using that Cons.prems by (force simp: gap_def)
    ultimately show ?case by (cases "fst x < b") auto
  qed
qed

theorem insert_free_refines:
  assumes seg: "seg (rd m) 0 (rd m 0) fs 0" and gap: "sorted_wrt gap fs"
    and sep: "\<forall>y \<in> set fs. sep_blocks (b, s) y"
    and bound: "\<forall>x \<in> set ((b, s) # fs). 16 \<le> fst x \<and> fst x + 24 + snd x \<le> length m"
    and len: "length m < 2 ^ 63" and size: "rd m (b + 16) = s"
    and null: "fs = [] \<Longrightarrow> rd m b = 0 \<and> rd m (b + 8) = 0"
  shows "\<exists>m'. insert_block_to_free_list (u64 b) m = Inr m' \<and>
    seg (rd m') 0 (rd m' 0) (spec_insert (b, s) fs) 0 \<and>
    same_outside (headers 0 (insert b (set (offsets fs)))) m m'"
proof (cases "fs = []")
  case True
  have b: "16 \<le> b" "b + 24 \<le> length m" using bound by auto
  have hd: "rd m 0 = 0" using seg True by simp
  have "load64 m 0 = Inr 0" using load64_u64 [of 0 m] b hd by simp
  moreover have "store64 m 0 (u64 b) = Inr (wr m 0 b)"
    using store64_u64 [of 0 m b] b len by simp
  ultimately have "insert_block_to_free_list (u64 b) m = Inr (wr m 0 b)"
    by (simp add: insert_block_to_free_list_def)
  moreover have "seg (rd (wr m 0 b)) 0 (rd (wr m 0 b) 0) [(b, s)] 0"
    using b len hd null [OF True] size by (intro mm.first_seg) simp_all
  moreover have "same_outside (headers 0 (insert b (set (offsets fs)))) m (wr m 0 b)"
    using b by (intro same_outside_wr) (auto simp: headers_def)
  ultimately show ?thesis using True by simp
next
  case False
  have b: "16 \<le> b" "b + 24 \<le> length m" using bound by auto
  have "b \<notin> set (offsets fs)" using sep by (auto simp: sep_blocks_def)
  then obtain ys zs where fs: "fs = ys @ zs"
    and ys: "\<forall>y \<in> set ys. fst y < b" and zs: "\<forall>z \<in> set zs. b < fst z"
    by (rule split_at [OF gap])
  let ?xs = "ys @ (b, s) # zs"
  have set_xs: "set (offsets ?xs) = insert b (set (offsets fs))" by (auto simp: fs)
  have sepx: "sorted_wrt sep_blocks ?xs"
    using gap_sep [OF gap] sep unfolding fs
    by (auto simp: sorted_wrt_append sep_blocks_sym [of _ "(b, s)"])
  have boundx: "\<forall>x \<in> set ?xs. 16 \<le> fst x \<and> fst x + 24 + snd x \<le> length m"
    using bound fs by auto
  have sp: "spaced (length m) (offsets ?xs)"
    using sepx boundx by (rule sep_blocks_spaced)
  have ne: "ys @ zs \<noteq> []" using False fs by simp
  have seg': "seg (rd m) 0 (rd m 0) (ys @ zs) 0" using seg fs by simp
  have bound': "\<forall>y \<in> set (ys @ zs). fst y + 24 \<le> length m"
    using bound fs by (auto dest: add_leD1)
  have fuel: "length ys < length m" using spaced_length [OF sp] b by simp
  have bl: "b < length m" using b by simp
  have hd: "load64 m 0 = Inr (u64 (rd m 0))" "u64 (rd m 0) \<noteq> 0"
    using load64_u64 [of 0 m] b rd_bound [of m 0] seg False bound
    by (cases fs, auto simp: u64_simps)+
  note pos = find_free_position_exec [OF seg' ne ys zs bound' len bl fuel]
  note nb = free_neighbours_exec [OF seg' ne ys zs bound' len bl]
  note lk = link_free_block_exec [OF seg' ne sp len]
  let ?m1 = "mm.link 0 b (end_of 0 ys) (head_of zs) m"
  have same1: "same_outside (links 0 (set (offsets ?xs))) m ?m1"
    by (rule mm.link_same [OF seg' _ sp]) simp
  then have len1: "length ?m1 = length m" by (rule same_outside_length)
  have seg1: "seg (rd ?m1) 0 (rd ?m1 0) ?xs 0"
    using len size by (intro mm.link_seg [OF seg' _ sp]) simp_all
  obtain m' where m': "merge_free_block (u64 b) (u64 (end_of 0 ys)) (u64 (head_of zs)) ?m1 = Inr m'"
    and seg2: "seg (rd m') 0 (rd m' 0) (merged ys (b, s) zs) 0"
    and same2: "same_outside (headers 0 (set (offsets ?xs))) ?m1 m'"
    using merge_free_block_refines [OF seg1 sepx] boundx len sp len1 by auto
  have "insert_block_to_free_list (u64 b) m = Inr m'"
    unfolding insert_block_to_free_list_def next_free_block_offset_def hd(1) and_then.simps
      NULL_OFFSET_def pos
    using hd(2) nb lk m' by simp
  moreover have "spec_insert (b, s) fs = merged ys (b, s) zs"
    using gap ys zs unfolding fs by (intro spec_insert_merged) simp_all
  moreover have "same_outside (headers 0 (insert b (set (offsets fs)))) m m'"
    unfolding set_xs [symmetric]
    using same_outside_mono [OF same1 links_headers [OF order_refl]] same2
    by (rule same_outside_trans)
  ultimately show ?thesis using seg2 by auto
qed

end
