(* ===== verification/Buffer_Refinement.thy ===== *)
theory Buffer_Refinement
  imports Buffer_Lists
begin

text \<open>
  The allocator implements \<open>Heap_Spec\<close>. \<open>heap_at m fs us\<close> says that the mapping \<open>m\<close> holds the
  free list \<open>fs\<close> and the used list \<open>us\<close>, and that these form a heap; \<open>alloc\<close> and \<open>free\<close> take
  such a mapping to one that holds the lists \<open>spec_alloc\<close> and \<open>spec_free\<close> compute, and leave
  the data of the other used blocks as they are.
\<close>

section \<open>Allocation\<close>

definition heap_at :: "mapping \<Rightarrow> block list \<Rightarrow> block list \<Rightarrow> bool" where
  "heap_at m fs us \<longleftrightarrow>
    length m < 2 ^ 31 \<and> seg (rd m) 0 (rd m 0) fs 0 \<and> seg (rd m) 0 (rd m 8) us 0 \<and>
    heap_ok (length m) fs us"

text \<open>
  \<open>insert_block_to_free_list\<close> does not write the links of a block it puts on an empty list.
  \<open>free\<close> passes a block whose links are null already, but \<open>alloc\<close> passes the rest of a split
  block, whose links are whatever user data was at that place. So splitting the only free block
  needs zeros there.
\<close>

fun clean_split :: "mapping \<Rightarrow> block list \<Rightarrow> nat \<Rightarrow> bool" where
  "clean_split m [(b, s)] n \<longleftrightarrow>
    (n + 124 \<le> s \<longrightarrow> rd m (b + 24 + n) = 0 \<and> rd m (b + 24 + n + 8) = 0)"
| "clean_split m fs n \<longleftrightarrow> True"

lemma seg_outside_headers:
  assumes "same_outside (headers h B) m m'" and "h + 8 \<le> 16"
    and "\<forall>x \<in> set xs. 16 \<le> fst x \<and> (\<forall>b \<in> B. apart (fst x) b)"
  shows "seg (rd m') p a xs n = seg (rd m) p a xs n"
  using assms(1)
proof (rule mm.seg_same)
  fix c t assume "(c, t) \<in> set xs"
  with assms(3) have c: "16 \<le> c" "\<forall>b \<in> B. apart c b" by auto
  have "{c ..< c + 24} \<inter> {b ..< b + 24} = {}" if "b \<in> B" for b
    using c(2) that by (fastforce simp: apart_def)
  moreover have "{c ..< c + 24} \<inter> {h ..< h + 8} = {}" using c(1) assms(2) by auto
  ultimately show "{c ..< c + 24} \<inter> headers h B = {}" unfolding headers_def by blast
qed

lemma rd_outside_headers:
  assumes "same_outside (headers h B) m m'" and "a + 8 \<le> h \<or> h + 8 \<le> a"
    and "\<forall>b \<in> B. a + 8 \<le> b \<or> b + 24 \<le> a"
  shows "rd m' a = rd m a"
  using assms(1)
proof (rule same_outside_rd)
  have "{a ..< a + 8} \<inter> {b ..< b + 24} = {}" if "b \<in> B" for b
    using assms(3) that by fastforce
  moreover have "{a ..< a + 8} \<inter> {h ..< h + 8} = {}" using assms(2) by auto
  ultimately show "{a ..< a + 8} \<inter> headers h B = {}" unfolding headers_def by blast
qed

lemma alloc_loop_exec:
  assumes "seg (rd m) p a fs 0" and "\<forall>x \<in> set fs. fst x + 24 \<le> length m"
    and "length m < 2 ^ 63" and "length fs \<le> fuel" and "n < 2 ^ 64"
  shows "alloc_loop fuel (u64 n) (u64 a) m =
    (case List.extract (\<lambda>x. n \<le> snd x) fs of
       None \<Rightarrow> Inr (m, None)
     | Some (ys, (b, s), zs) \<Rightarrow>
         and_then (use_free_block (u64 n) (u64 b) m) (\<lambda>m. Inr (m, Some (u64 (b + 24)))))"
  using assms
proof (induction fs arbitrary: p a fuel)
  case Nil
  then show ?case by (simp add: alloc_loop.simps extract_Nil_code)
next
  case (Cons x fs)
  obtain c t where x: "x = (c, t)" by (cases x)
  obtain fuel' where fuel: "fuel = Suc fuel'" using Cons.prems(4) by (cases fuel) auto
  have c: "a = c" "c \<noteq> 0" "c + 24 \<le> length m" "rd m (c + 16) = t"
    and rest: "seg (rd m) c (rd m (c + 8)) fs 0"
    using Cons.prems(1,2) x by auto
  have rds: "data_size m (u64 c) = Inr (u64 t)" "next_block_offset m (u64 c) = Inr (u64 (rd m (c + 8)))"
    using c Cons.prems(3) by (simp_all add: block_reads)
  have nz: "u64 c \<noteq> 0" using c Cons.prems(3) by (simp add: u64_simps)
  have t: "t < 2 ^ 64" using c(4) rd_bound [of m "c + 16"] by simp
  have IH: "alloc_loop fuel' (u64 n) (u64 (rd m (c + 8))) m =
    (case List.extract (\<lambda>x. n \<le> snd x) fs of
       None \<Rightarrow> Inr (m, None)
     | Some (ys, (b, s), zs) \<Rightarrow>
         and_then (use_free_block (u64 n) (u64 b) m) (\<lambda>m. Inr (m, Some (u64 (b + 24)))))"
    using Cons.prems fuel rest by (intro Cons.IH) auto
  show ?case
  proof (cases "n \<le> t")
    case True
    then have "u64 n \<le> u64 t" using t Cons.prems(5) by (simp add: u64_le)
    with True nz rds c(1) fuel x show ?thesis
      by (simp add: alloc_loop.simps extract_Cons_code)
  next
    case False
    then have "\<not> u64 n \<le> u64 t" using t Cons.prems(5) by (simp add: u64_le)
    with False nz rds c(1) fuel x IH show ?thesis
      by (simp add: alloc_loop.simps [of "Suc fuel'"] extract_Cons_code split: option.splits)
  qed
qed

lemma slice_outside_headers:
  assumes "same_outside (headers h B) m m'" and "h + 8 \<le> 16"
    and "\<forall>b \<in> B. b \<le> c \<or> c + 24 + u \<le> b"
  shows "slice (c + 24) u m' = slice (c + 24) u m"
  using assms(1)
proof (rule same_outside_slice)
  have "{c + 24 ..< c + 24 + u} \<inter> {b ..< b + 24} = {}" if "b \<in> B" for b
    using assms(3) that by fastforce
  moreover have "{c + 24 ..< c + 24 + u} \<inter> {h ..< h + 8} = {}" using assms(2) by auto
  ultimately show "{c + 24 ..< c + 24 + u} \<inter> headers h B = {}" unfolding headers_def by blast
qed

text \<open>Splitting: the rest of the block goes back to the free list, then the block shrinks.\<close>

lemma split_refines:
  assumes seg: "seg (rd m) 0 (rd m 0) fs 0" and len: "length m < 2 ^ 63"
    and gap: "sorted_wrt gap fs" and sep: "\<forall>y \<in> set fs. sep_blocks (b, s) y"
    and bound: "\<forall>x \<in> set ((b, s) # fs). 16 \<le> fst x \<and> fst x + 24 + snd x \<le> length m"
    and n: "n + 124 \<le> s" and size: "rd m (b + 16) = s"
    and null: "fs = [] \<Longrightarrow> rd m (b + 24 + n) = 0 \<and> rd m (b + 24 + n + 8) = 0"
  shows "\<exists>m'. and_then (set_data_size m (block_data (u64 b) + u64 n) (u64 s - u64 n - sizeof_Block)) (\<lambda>m.
      and_then (insert_block_to_free_list (block_data (u64 b) + u64 n) m) (\<lambda>m.
      set_data_size m (u64 b) (u64 n))) = Inr m' \<and>
    seg (rd m') 0 (rd m' 0) (spec_insert (b + 24 + n, s - n - 24) fs) 0 \<and>
    rd m' (b + 16) = n \<and>
    same_outside (headers 0 ({b, b + 24 + n} \<union> set (offsets fs))) m m'"
proof -
  let ?c = "b + 24 + n" and ?t = "s - n - 24"
  let ?B = "{b, ?c} \<union> set (offsets fs)"
  have b: "16 \<le> b" "b + 24 + s \<le> length m" using bound by auto
  have c: "16 \<le> ?c" "?c + 24 + ?t \<le> length m" "?c + 24 \<le> length m" using b n by auto
  have "u64 s - u64 n = u64 (s - n)" using n by (intro u64_diff) simp
  moreover have "u64 (s - n) - 24 = u64 (s - n - 24)" using n by (intro u64_diff_numeral) simp
  ultimately have sz: "u64 s - u64 n - sizeof_Block = u64 ?t"
    by (simp only: sizeof_Block_def)
  have ptr: "block_data (u64 b) + u64 n = u64 ?c" by simp
  define m1 where "m1 = wr m (?c + 16) ?t"
  have w1: "set_data_size m (u64 ?c) (u64 ?t) = Inr m1"
    unfolding m1_def using c len by (intro block_writes) simp_all
  have same1: "same_outside (headers 0 ?B) m m1"
    unfolding m1_def using c by (intro same_outside_wr headers_size) simp_all
  have l1: "length m1 = length m" using same1 by (rule same_outside_length)
  have far: "fst y + 24 \<le> ?c \<or> ?c + 24 + ?t \<le> fst y" if "y \<in> set fs" for y
    using sep that n by (fastforce simp: sep_blocks_def)
  have sepc: "\<forall>y \<in> set fs. sep_blocks (?c, ?t) y"
    using sep n by (fastforce simp: sep_blocks_def)
  have "seg (rd m1) 0 (rd m 0) fs 0 = seg (rd m) 0 (rd m 0) fs 0"
    unfolding m1_def using c far by (intro mm.seg_wr) (fastforce simp: n)+
  then have seg1: "seg (rd m1) 0 (rd m1 0) fs 0"
    using seg c by (simp add: m1_def mm.read_apart)
  have r1: "rd m1 (?c + 16) = ?t" "rd m1 ?c = rd m ?c" "rd m1 (?c + 8) = rd m (?c + 8)"
    "rd m1 (b + 16) = s"
    using c len size b by (simp_all add: m1_def mm.read_apart mm.read_same)
  have bound1: "\<forall>x \<in> set ((?c, ?t) # fs). 16 \<le> fst x \<and> fst x + 24 + snd x \<le> length m1"
    using bound c l1 by auto
  obtain m2 where ins: "insert_block_to_free_list (u64 ?c) m1 = Inr m2"
    and seg2: "seg (rd m2) 0 (rd m2 0) (spec_insert (?c, ?t) fs) 0"
    and same2: "same_outside (headers 0 (insert ?c (set (offsets fs)))) m1 m2"
    using insert_free_refines [OF seg1 gap sepc bound1] len l1 r1 null by auto
  have l2: "length m2 = length m" using same2 l1 by (simp add: same_outside_length)
  let ?m3 = "wr m2 (b + 16) n"
  have w3: "set_data_size m2 (u64 b) (u64 n) = Inr ?m3"
    using b n len l2 by (intro block_writes) simp_all
  have same3: "same_outside (headers 0 ?B) m2 ?m3"
    using b l2 by (intro same_outside_wr headers_size) simp_all
  have "fst x + 24 \<le> b \<or> b + 24 \<le> fst x" if "x \<in> set (spec_insert (?c, ?t) fs)" for x
    using fst_spec_insert [OF that] sep by (fastforce simp: sep_blocks_def)
  then have "seg (rd ?m3) 0 (rd m2 0) (spec_insert (?c, ?t) fs) 0 =
      seg (rd m2) 0 (rd m2 0) (spec_insert (?c, ?t) fs) 0"
    using b l2 by (intro mm.seg_wr) fastforce+
  then have seg3: "seg (rd ?m3) 0 (rd ?m3 0) (spec_insert (?c, ?t) fs) 0"
    using seg2 b l2 by (simp add: mm.read_apart)
  have r3: "rd ?m3 (b + 16) = n" using b n len l2 by (simp add: mm.read_same)
  have "same_outside (headers 0 ?B) m1 m2"
    by (rule same_outside_mono [OF same2 headers_mono]) auto
  then have "same_outside (headers 0 ?B) m ?m3"
    using same1 same3 by (blast intro: same_outside_trans)
  with seg3 r3 w1 ins w3 show ?thesis unfolding ptr sz by simp
qed

lemma heap_at_D:
  assumes "heap_at m fs us"
  shows "length m < 2 ^ 63" "seg (rd m) 0 (rd m 0) fs 0" "seg (rd m) 0 (rd m 8) us 0"
    "heap_ok (length m) fs us" "spaced (length m) (offsets fs)" "spaced (length m) (offsets us)"
    "spaced (length m) (offsets (fs @ us))"
    "\<forall>x \<in> set (fs @ us). 16 \<le> fst x \<and> fst x + 24 + snd x \<le> length m"
  using assms heap_ok_spaced [of "length m" fs us]
  by (simp_all add: heap_at_def heap_ok_def blocks_ok_def)

text \<open>The whole body of the allocation loop for the block \<open>(b, s)\<close>.\<close>

lemma use_free_block_refines:
  assumes at: "heap_at m fs us" and fs: "fs = ys @ (b, s) # zs" and ns: "n \<le> s"
    and clean: "clean_split m fs n"
  defines "s' \<equiv> if n + 124 \<le> s then n else s"
    and "fs' \<equiv> if n + 124 \<le> s then spec_insert (b + 24 + n, s - n - 24) (ys @ zs) else ys @ zs"
    and "B \<equiv> (if n + 124 \<le> s then {b + 24 + n} else {}) \<union> set (offsets fs)"
  assumes ok: "heap_ok (length m) fs' ((b, s') # us)"
  shows "\<exists>m2 m'. use_free_block (u64 n) (u64 b) m = Inr m' \<and> heap_at m' fs' ((b, s') # us) \<and>
    same_outside (headers 0 B) m m2 \<and> same_outside (headers 8 (set (offsets ((b, s') # us)))) m2 m'"
proof -
  note D = heap_at_D [OF at]
  note rm = remove_free [OF D(2,5) [unfolded fs] D(1) order_refl]
  let ?m1 = "mm.unlink 0 b m"
  have gap: "sorted_wrt gap (ys @ zs)"
    using D(4) fs by (simp add: heap_ok_def sorted_wrt_append)
  have sep: "\<forall>y \<in> set (ys @ zs). sep_blocks (b, s) y"
    using D(4) fs by (auto simp: heap_ok_def blocks_ok_def sorted_wrt_append sep_blocks_sym [of "(b, s)"])
  have bound: "\<forall>x \<in> set ((b, s) # ys @ zs). 16 \<le> fst x \<and> fst x + 24 + snd x \<le> length ?m1"
    using D(8) fs rm(3) by auto
  have len1: "length ?m1 < 2 ^ 63" using D(1) rm(3) by simp
  have B: "set (offsets fs) \<subseteq> B" by (simp add: B_def)
  have same1: "same_outside (headers 0 B) m ?m1"
    using rm(5) by (rule same_outside_mono) (rule headers_mono [OF B [unfolded fs]])
  have sz: "data_size ?m1 (u64 b) = Inr (u64 s)"
    using bound len1 rm(4) by (simp add: block_reads)
  have cmp: "(u64 n + sizeof_Block + 100 \<le> u64 s) = (n + 124 \<le> s)"
  proof -
    have "u64 n + sizeof_Block + 100 = u64 (n + 124)" by simp
    moreover have "n + 124 < 2 ^ 64" "s < 2 ^ 64" using ns bound len1 by auto
    ultimately show ?thesis by (simp only: u64_le)
  qed
  have null: "rd ?m1 (b + 24 + n) = 0 \<and> rd ?m1 (b + 24 + n + 8) = 0"
    if "ys @ zs = []" "n + 124 \<le> s"
  proof -
    have "rd m (b + 24 + n) = 0" "rd m (b + 24 + n + 8) = 0"
      using clean that fs by auto
    moreover have "rd ?m1 a = rd m a" if "b + 24 \<le> a" for a
      using rm(5) that \<open>ys @ zs = []\<close> bound by (intro rd_outside_headers) auto
    ultimately show ?thesis by simp
  qed
  obtain m2 where m2: "(if n + 124 \<le> s then
         (let split_block = block_data (u64 b) + u64 n in
          and_then (set_data_size ?m1 split_block (u64 s - u64 n - sizeof_Block)) (\<lambda>m.
          and_then (insert_block_to_free_list split_block m) (\<lambda>m.
          set_data_size m (u64 b) (u64 n))))
       else Inr ?m1) = Inr m2"
    and seg2: "seg (rd m2) 0 (rd m2 0) fs' 0" and size2: "rd m2 (b + 16) = s'"
    and same2: "same_outside (headers 0 B) ?m1 m2"
  proof (cases "n + 124 \<le> s")
    case True
    have eqB: "{b, b + 24 + n} \<union> set (offsets (ys @ zs)) = B"
      using True fs by (auto simp: B_def)
    show thesis
      using split_refines [OF rm(2) len1 gap sep bound True rm(4) null] that True
      unfolding Let_def fs'_def s'_def eqB by auto
  next
    case False
    show thesis
      using rm(2,4) False by (intro that [of ?m1]) (auto simp: fs'_def s'_def)
  qed
  have same12: "same_outside (headers 0 B) m m2" using same1 same2 by (rule same_outside_trans)
  then have l2: "length m2 = length m" by (rule same_outside_length)
  have spx: "spaced (length m2) (offsets (fs' @ (b, s') # us))"
    using heap_ok_spaced [OF ok] l2 by simp
  have apB: "apart (fst x) d" if x: "x \<in> set us" and d: "d \<in> B" for x d
  proof (cases "d \<in> set (offsets fs)")
    case True
    with x D(7) show ?thesis by (auto simp: apart_sym)
  next
    case False
    then have "d = b + 24 + n" "n + 124 \<le> s" using d by (auto simp: B_def split: if_splits)
    moreover have "sep_blocks (b, s) x"
      using D(4) fs x by (auto simp: heap_ok_def blocks_ok_def sorted_wrt_append)
    ultimately show ?thesis by (auto simp: sep_blocks_def apart_def)
  qed
  have "seg (rd m2) 0 (rd m 8) us 0 = seg (rd m) 0 (rd m 8) us 0"
    using D(8) apB by (intro seg_outside_headers [OF same12]) auto
  moreover have "16 \<le> d" if "d \<in> B" for d
    using that D(8) fs by (auto simp: B_def split: if_splits)
  then have "rd m2 8 = rd m 8"
    by (intro rd_outside_headers [OF same12]) auto
  ultimately have seg8: "seg (rd m2) 0 (rd m2 8) us 0" using D(3) by simp
  have sp8: "spaced (length m2) (offsets ((b, s') # us))" using spx by simp
  let ?m3 = "mm.push 8 b m2"
  have len2: "length m2 < 2 ^ 63" using l2 D(1) by simp
  have push: "insert_block_to_used_list (u64 b) m2 = Inr ?m3"
    by (rule insert_used_exec [OF seg8 sp8 len2])
  have same3: "same_outside (links 8 (set (offsets ((b, s') # us)))) m2 ?m3"
    by (rule mm.push_same [OF seg8 _ sp8]) simp
  then have same3': "same_outside (headers 8 (set (offsets ((b, s') # us)))) m2 ?m3"
    by (rule same_outside_mono) (rule links_headers [OF order_refl])
  have "seg (rd ?m3) 0 (rd ?m3 8) ((b, s') # us) 0"
    using size2 len2 by (intro mm.push_seg [OF seg8 _ sp8]) simp_all
  moreover have "seg (rd ?m3) 0 (rd m2 0) fs' 0 = seg (rd m2) 0 (rd m2 0) fs' 0"
    using spx spaced_bound [OF spx]
    by (intro seg_outside_headers [OF same3']) (auto simp: image_iff)
  moreover have "0 + 8 \<le> d" if "d \<in> set (offsets ((b, s') # us))" for d
    using spaced_bound [OF sp8 that] by simp
  then have "rd ?m3 0 = rd m2 0"
    by (intro rd_outside_headers [OF same3']) auto
  moreover have "length ?m3 = length m" using same3 l2 by (simp add: same_outside_length)
  ultimately have "heap_at ?m3 fs' ((b, s') # us)"
    using at seg2 ok by (simp add: heap_at_def)
  moreover have "use_free_block (u64 n) (u64 b) m = Inr ?m3"
    unfolding use_free_block_def rm(1) [unfolded fs] and_then.simps sz cmp m2 push ..
  ultimately show ?thesis using same12 same3' by blast
qed

lemma sorted_wrt_sym_pair:
  assumes "sorted_wrt sep_blocks us" and "x \<in> set us" and "y \<in> set us"
  shows "x = y \<or> sep_blocks y x"
  using assms by (induction us) (auto simp: sep_blocks_sym)

lemma block_start_outside:
  assumes "sorted_wrt sep_blocks us" and "x \<in> set us" and "d \<in> set (offsets us)"
  shows "d \<le> fst x \<or> fst x + 24 + snd x \<le> d"
proof -
  obtain y where "y \<in> set us" "d = fst y" using assms(3) by auto
  with sorted_wrt_sym_pair [OF assms(1,2), of y] show ?thesis by (auto simp: sep_blocks_def)
qed

text \<open>The data of a used block, as a list of bytes.\<close>

abbreviation data_of :: "mapping \<Rightarrow> block \<Rightarrow> byte list" where
  "data_of m x \<equiv> slice (fst x + 24) (snd x) m"

text \<open>The headers of the buffer and of some blocks, which is all that \<open>alloc\<close> and \<open>free\<close> write.\<close>

definition all_headers :: "nat set \<Rightarrow> nat set" where
  "all_headers bs = {0 ..< 16} \<union> (\<Union>b \<in> bs. {b ..< b + 24})"

lemma headers_subset: "h + 8 \<le> 16 \<Longrightarrow> A \<subseteq> B \<Longrightarrow> headers h A \<subseteq> all_headers B"
  by (fastforce simp: headers_def all_headers_def)

lemma alloc_exec:
  assumes at: "heap_at m fs us"
  shows "alloc (u64 n) m = alloc_loop (length m) (u64 n) (u64 (rd m 0)) m"
proof -
  have "16 \<le> length m" using at by (auto simp: heap_at_def heap_ok_def blocks_ok_def)
  then show ?thesis using load64_u64 [of 0 m] by (simp add: alloc_def)
qed

lemma alloc_refines_None:
  assumes at: "heap_at m fs us" and "n < 2 ^ 64" and "spec_alloc n fs us = None"
  shows "alloc (u64 n) m = Inr (m, None)"
proof -
  note D = heap_at_D [OF at]
  have "\<forall>x \<in> set fs. fst x + 24 \<le> length m" using spaced_bound [OF D(5)] by auto
  moreover have "length fs \<le> length m" using spaced_length [OF D(5)] by simp
  moreover have "List.extract (\<lambda>x. n \<le> snd x) fs = None"
    using assms(3) by (auto simp: spec_alloc_None extract_None_iff not_le)
  ultimately show ?thesis
    using alloc_loop_exec [OF D(2) _ D(1) _ assms(2)] by (simp add: alloc_exec [OF at])
qed

lemma alloc_refines_Some:
  assumes at: "heap_at m fs us" and n: "n < 2 ^ 64" and clean: "clean_split m fs n"
    and spec: "spec_alloc n fs us = Some (fs', us', p)"
  shows "\<exists>m'. alloc (u64 n) m = Inr (m', Some (u64 p)) \<and> heap_at m' fs' us' \<and>
    (\<forall>x \<in> set us. data_of m' x = data_of m x) \<and>
    same_outside (all_headers (insert (p + n) (set (offsets (fs @ us))))) m m'"
proof -
  note D = heap_at_D [OF at]
  obtain ys b s zs where fs: "fs = ys @ (b, s) # zs" and ns: "n \<le> s"
    and first: "\<forall>y \<in> set ys. snd y < n" and p: "p = b + 24"
    and res: "fs' = (if n + 124 \<le> s then spec_insert (b + 24 + n, s - n - 24) (ys @ zs) else ys @ zs)"
      "us' = (b, if n + 124 \<le> s then n else s) # us"
  proof -
    from spec obtain ys b s zs where "fs = ys @ (b, s) # zs" "n \<le> s" "\<forall>y \<in> set ys. snd y < n"
      "p = b + 24" and "if n + 124 \<le> s
       then fs' = spec_insert (b + 24 + n, s - n - 24) (ys @ zs) \<and> us' = (b, n) # us
       else fs' = ys @ zs \<and> us' = (b, s) # us"
      unfolding spec_alloc_Some by blast
    then show thesis by (intro that [of ys b s zs]) (simp_all split: if_splits)
  qed
  define s' where "s' = (if n + 124 \<le> s then n else s)"
  let ?B = "(if n + 124 \<le> s then {b + 24 + n} else {}) \<union> set (offsets fs)"
  have ok: "heap_ok (length m) fs' ((b, s') # us)"
    using spec_alloc_ok [OF D(4) spec] res by (simp add: s'_def)
  obtain m2 m' where use: "use_free_block (u64 n) (u64 b) m = Inr m'"
    and at': "heap_at m' fs' ((b, s') # us)" and same1: "same_outside (headers 0 ?B) m m2"
    and same2: "same_outside (headers 8 (set (offsets ((b, s') # us)))) m2 m'"
    using use_free_block_refines [OF at fs ns clean, folded s'_def res(1)] ok by blast
  have "\<forall>x \<in> set fs. fst x + 24 \<le> length m" using spaced_bound [OF D(5)] by auto
  moreover have "length fs \<le> length m" using spaced_length [OF D(5)] by simp
  moreover have "List.extract (\<lambda>x. n \<le> snd x) fs = Some (ys, (b, s), zs)"
    using fs ns first by (simp add: extract_split not_le)
  ultimately have "alloc (u64 n) m = Inr (m', Some (u64 p))"
    using alloc_loop_exec [OF D(2) _ D(1) _ n] use p by (simp add: alloc_exec [OF at])
  moreover have "data_of m' x = data_of m x" if x: "x \<in> set us" for x
  proof -
    have sepx: "sep_blocks y x" if "y \<in> set fs" for y
      using D(4) x that by (auto simp: heap_ok_def blocks_ok_def sorted_wrt_append)
    then have f: "d \<le> fst x \<or> fst x + 24 + snd x \<le> d" if "d \<in> ?B" for d
      using that sepx [of "(b, s)"] fs by (fastforce simp: sep_blocks_def split: if_splits)
    have "sorted_wrt sep_blocks us" using D(4) by (simp add: heap_ok_def blocks_ok_def sorted_wrt_append)
    then have "d \<le> fst x \<or> fst x + 24 + snd x \<le> d" if "d \<in> set (offsets us)" for d
      using x that by (rule block_start_outside)
    then have g: "d \<le> fst x \<or> fst x + 24 + snd x \<le> d" if "d \<in> set (offsets ((b, s') # us))" for d
      using that f [of b] fs by auto
    have "data_of m2 x = data_of m x"
      using f by (intro slice_outside_headers [OF same1]) auto
    moreover have "data_of m' x = data_of m2 x"
      using g by (intro slice_outside_headers [OF same2]) auto
    ultimately show ?thesis by simp
  qed
  moreover have "same_outside (all_headers (insert (p + n) (set (offsets (fs @ us))))) m m'"
  proof (rule same_outside_trans)
    show "same_outside (all_headers (insert (p + n) (set (offsets (fs @ us))))) m m2"
      by (rule same_outside_mono [OF same1 headers_subset]) (auto simp: p)
    show "same_outside (all_headers (insert (p + n) (set (offsets (fs @ us))))) m2 m'"
      by (rule same_outside_mono [OF same2 headers_subset]) (auto simp: fs)
  qed
  ultimately show ?thesis using at' res s'_def by auto
qed

section \<open>Freeing\<close>

lemma remove_used:
  assumes seg: "seg (rd m) 0 (rd m 8) (ys @ (b, s) # zs) 0"
    and sp: "spaced (length m) (offsets (ys @ (b, s) # zs))" and len: "length m < 2 ^ 63"
  defines "m1 \<equiv> mm.unlink 8 b m"
  shows "remove_block_from_list next_used_block_offset (u64 b) m = Inr m1"
    and "seg (rd m1) 0 (rd m1 8) (ys @ zs) 0" and "length m1 = length m"
    and "rd m1 b = 0" and "rd m1 (b + 8) = 0" and "rd m1 (b + 16) = s"
    and "same_outside (headers 8 (set (offsets (ys @ (b, s) # zs)))) m m1"
proof -
  have h: "(8::nat) + 8 \<le> 16" and l: "length m < 2 ^ 64" using len by simp_all
  show "remove_block_from_list next_used_block_offset (u64 b) m = Inr m1"
    using remove_block_exec [OF seg h sp len] by (simp add: m1_def)
  show "seg (rd m1) 0 (rd m1 8) (ys @ zs) 0" "rd m1 b = 0" "rd m1 (b + 8) = 0" "rd m1 (b + 16) = s"
    unfolding m1_def by (rule mm.unlink_seg [OF seg h sp l])+
  have same: "same_outside (links 8 (set (offsets (ys @ (b, s) # zs)))) m m1"
    unfolding m1_def by (rule mm.unlink_same [OF seg h sp])
  then show "same_outside (headers 8 (set (offsets (ys @ (b, s) # zs)))) m m1"
    by (rule same_outside_mono) (rule links_headers [OF order_refl])
  from same show "length m1 = length m" by (rule same_outside_length)
qed

lemma free_refines_spec:
  assumes at: "heap_at m fs us" and spec: "spec_free p fs us = Some (fs', us')"
  shows "\<exists>m'. free (u64 p) m = Inr m' \<and> heap_at m' fs' us' \<and>
    (\<forall>x \<in> set us'. data_of m' x = data_of m x) \<and>
    same_outside (all_headers (set (offsets (fs @ us)))) m m'"
proof -
  note D = heap_at_D [OF at]
  obtain ys b s zs where us: "us = ys @ (b, s) # zs" and p: "p = b + 24"
    and res: "fs' = spec_insert (b, s) fs" "us' = ys @ zs"
    using spec unfolding spec_free_Some by auto
  note rm = remove_used [OF D(3,6) [unfolded us] D(1)]
  let ?m1 = "mm.unlink 8 b m"
  have spx: "spaced (length m) (offsets (fs @ us))" by (rule D(7))
  have sixteen: "16 \<le> d" if "d \<in> set (offsets (fs @ us))" for d
    using spaced_bound [OF spx that] by simp
  have "seg (rd ?m1) 0 (rd m 0) fs 0 = seg (rd m) 0 (rd m 0) fs 0"
    using spx sixteen by (intro seg_outside_headers [OF rm(7)]) (auto simp: us)
  moreover have "0 + 8 \<le> d" if "d \<in> set (offsets (ys @ (b, s) # zs))" for d
  proof -
    have "d \<in> set (offsets (fs @ us))" using that us by auto
    from sixteen [OF this] show ?thesis by simp
  qed
  then have "rd ?m1 0 = rd m 0"
    by (intro rd_outside_headers [OF rm(7)]) auto
  ultimately have seg1: "seg (rd ?m1) 0 (rd ?m1 0) fs 0" using D(2) by simp
  have gap: "sorted_wrt gap fs" and sep: "\<forall>y \<in> set fs. sep_blocks (b, s) y"
    using D(4) by (auto simp: heap_ok_def blocks_ok_def sorted_wrt_append us
        sep_blocks_sym [of "(b, s)"])
  have bound: "\<forall>x \<in> set ((b, s) # fs). 16 \<le> fst x \<and> fst x + 24 + snd x \<le> length ?m1"
    using D(8) rm(3) by (auto simp: us)
  have len1: "length ?m1 < 2 ^ 63" using D(1) rm(3) by simp
  obtain m2 where ins: "insert_block_to_free_list (u64 b) ?m1 = Inr m2"
    and seg2: "seg (rd m2) 0 (rd m2 0) fs' 0"
    and same2: "same_outside (headers 0 (insert b (set (offsets fs)))) ?m1 m2"
  proof -
    have "\<exists>m'. insert_block_to_free_list (u64 b) ?m1 = Inr m' \<and>
        seg (rd m') 0 (rd m' 0) (spec_insert (b, s) fs) 0 \<and>
        same_outside (headers 0 (insert b (set (offsets fs)))) ?m1 m'"
      by (rule insert_free_refines [OF seg1 gap sep bound len1 rm(6)]) (simp add: rm(4,5))
    then show thesis using that unfolding res(1) by blast
  qed
  have l2: "length m2 = length m" using same2 rm(3) by (simp add: same_outside_length)
  have ap: "apart (fst x) d" if x: "x \<in> set (ys @ zs)" and d: "d \<in> insert b (set (offsets fs))" for x d
  proof (cases "d = b")
    case True
    with D(6) x show ?thesis by (auto simp: us apart_sym [of b])
  next
    case False
    with d have "d \<in> set (offsets fs)" by simp
    moreover have "fst x \<in> set (offsets us)" using x us by auto
    ultimately have "apart d (fst x)" using spx unfolding map_append spaced_append by blast
    then show ?thesis by (simp add: apart_sym)
  qed
  have "seg (rd m2) 0 (rd ?m1 8) (ys @ zs) 0 = seg (rd ?m1) 0 (rd ?m1 8) (ys @ zs) 0"
  proof (rule seg_outside_headers [OF same2])
    have "16 \<le> fst x" if "x \<in> set (ys @ zs)" for x
      using sixteen [of "fst x"] that us by auto
    then show "\<forall>x \<in> set (ys @ zs). 16 \<le> fst x \<and> (\<forall>c \<in> insert b (set (offsets fs)). apart (fst x) c)"
      using ap by blast
  qed simp
  moreover have "8 + 8 \<le> d" if "d \<in> insert b (set (offsets fs))" for d
  proof -
    have "d \<in> set (offsets (fs @ us))" using that us by auto
    from sixteen [OF this] show ?thesis by simp
  qed
  then have "rd m2 8 = rd ?m1 8"
    by (intro rd_outside_headers [OF same2]) auto
  ultimately have "seg (rd m2) 0 (rd m2 8) us' 0" using rm(2) res by simp
  then have at2: "heap_at m2 fs' us'"
    using at seg2 l2 spec_free_ok [OF D(4) spec] by (simp add: heap_at_def)
  have "u64 p - sizeof_Block = u64 b" by (simp add: p)
  then have "free (u64 p) m = Inr m2"
    by (simp only: free_def Let_def rm(1) and_then.simps ins)
  moreover have "data_of m2 x = data_of m x" if x: "x \<in> set us'" for x
  proof -
    have xu: "x \<in> set us" using x res us by auto
    have "sorted_wrt sep_blocks us" using D(4) by (simp add: heap_ok_def blocks_ok_def sorted_wrt_append)
    then have f: "d \<le> fst x \<or> fst x + 24 + snd x \<le> d" if "d \<in> set (offsets us)" for d
      using xu that by (rule block_start_outside)
    have g: "d \<le> fst x \<or> fst x + 24 + snd x \<le> d" if "d \<in> set (offsets fs)" for d
      using D(4) xu that by (fastforce simp: heap_ok_def blocks_ok_def sorted_wrt_append sep_blocks_def)
    have "data_of ?m1 x = data_of m x"
      using f unfolding us by (intro slice_outside_headers [OF rm(7)]) auto
    moreover have "data_of m2 x = data_of ?m1 x"
      using f [of b] g by (intro slice_outside_headers [OF same2]) (auto simp: us)
    ultimately show ?thesis by simp
  qed
  moreover have "same_outside (all_headers (set (offsets (fs @ us)))) m m2"
  proof (rule same_outside_trans)
    show "same_outside (all_headers (set (offsets (fs @ us)))) m ?m1"
      by (rule same_outside_mono [OF rm(7) headers_subset]) (auto simp: us)
    show "same_outside (all_headers (set (offsets (fs @ us)))) ?m1 m2"
      by (rule same_outside_mono [OF same2 headers_subset]) (auto simp: us)
  qed
  ultimately show ?thesis using at2 by blast
qed

end
