(* ===== verification/Buffer_Open.thy ===== *)
theory Buffer_Open
  imports Buffer_Refinement
begin

text \<open>
  Opening a buffer file, iterating over its blocks, and the statistics. A new file of at least
  40 and less than 2 GiB bytes opens as the heap with one free block; an existing file is mapped
  as it is; a size that an \<open>int\<close> cannot hold is not.
\<close>

section \<open>Opening\<close>

lemma word32_mod: "(word_of_nat n :: 32 word) = word_of_nat (n mod 2 ^ 32)"
proof -
  have "take_bit 32 (n mod 2 ^ 32) = take_bit 32 n"
    by (simp add: take_bit_eq_mod)
  then show ?thesis by (simp add: word_of_nat_eq_iff)
qed

lemma sint_word32:
  assumes "k < 2 ^ 32"
  shows "sint (word_of_nat k :: 32 word) = (if k < 2 ^ 31 then int k else int k - 2 ^ 32)"
proof -
  have u: "uint (word_of_nat k :: 32 word) = int k"
    using assms by (simp add: uint_nat unat_of_nat take_bit_nat_eq_self)
  show ?thesis
  proof (cases "k < 2 ^ 31")
    case True
    then show ?thesis by (simp add: sint_uint u signed_take_bit_int_eq_self)
  next
    case False
    then have "int k div 2 ^ 31 = 1" using assms by simp
    then have "bit (int k) 31" by (simp add: bit_iff_odd)
    with False assms show ?thesis
      by (simp add: sint_uint u signed_take_bit_eq_take_bit_minus take_bit_int_eq_self)
  qed
qed

text \<open>A file size, as \<open>get_file_size\<close> returns it and as \<open>mmap\<close> receives it.\<close>

lemma scast_word_of_nat:
  assumes "n mod 2 ^ 32 < 2 ^ 31"
  shows "scast (word_of_nat n :: 32 word) = u64 (n mod 2 ^ 32)"
proof -
  have "sint (word_of_nat (n mod 2 ^ 32) :: 32 word) = int (n mod 2 ^ 32)"
    using sint_word32 [of "n mod 2 ^ 32"] assms by (simp only: if_True) simp
  then show ?thesis unfolding word32_mod [of n] scast_eq by (simp only: of_int_of_nat_eq)
qed

lemma scast_negative:
  assumes "2 ^ 31 \<le> n mod 2 ^ 32"
  shows "unat (scast (word_of_nat n :: 32 word) :: u64) = n mod 2 ^ 32 + (2 ^ 64 - 2 ^ 32)"
proof -
  define k where "k = n mod 2 ^ 32"
  have k: "2 ^ 31 \<le> k" "k < 2 ^ 32" using assms by (simp_all add: k_def)
  then have "sint (word_of_nat k :: 32 word) = int k - 2 ^ 32"
    by (simp add: sint_word32)
  then have "(scast (word_of_nat n :: 32 word) :: u64) = word_of_int (int k - 2 ^ 32)"
    unfolding word32_mod [of n] scast_eq k_def [symmetric] by (simp only:)
  also have "\<dots> = word_of_int (int k - 2 ^ 32 + 2 ^ 64)"
    by (simp only: of_int_add) simp
  also have "int k - 2 ^ 32 + 2 ^ 64 = int (k + (2 ^ 64 - 2 ^ 32))" by simp
  also have "word_of_int (int (k + (2 ^ 64 - 2 ^ 32))) = u64 (k + (2 ^ 64 - 2 ^ 32))"
    by (rule of_int_of_nat_eq)
  finally have "unat (scast (word_of_nat n :: 32 word) :: u64) = unat (u64 (k + (2 ^ 64 - 2 ^ 32)))"
    by (rule arg_cong)
  also have "\<dots> = k + (2 ^ 64 - 2 ^ 32)" using k(2) by (intro u64_unat) simp
  finally show ?thesis by (simp only: k_def)
qed

lemma rd_replicate: "rd (replicate n 0) a = 0"
  by (simp add: rd_def slice_def)

definition fresh_buffer :: "mapping \<Rightarrow> mapping" where
  "fresh_buffer m = wr (wr (wr (wr (wr m 0 16) 8 0) 32 (length m - 40)) 16 0) 24 0"

lemma init_buffer_exec:
  assumes "40 \<le> length m" and "scast db_size = u64 (length m)" and "length m < 2 ^ 31"
  shows "init_buffer db_size m = Inr (fresh_buffer m)"
proof -
  have sz: "scast db_size - sizeof_BufferHeader - sizeof_Block = u64 (length m - 40)"
  proof -
    have "16 \<le> length m" "24 \<le> length m - 16" using assms(1) by simp_all
    then show ?thesis
      by (simp only: assms(2) sizeof_BufferHeader_def sizeof_Block_def u64_diff_numeral) simp
  qed
  let ?m2 = "wr (wr m 0 16) 8 0"
  have w: "store64 m 0 16 = Inr (wr m 0 16)" "store64 (wr m 0 16) 8 0 = Inr ?m2"
    using assms store64_u64 [of 0 m 16] store64_u64 [of 8 "wr m 0 16" 0] by simp_all
  have "rd ?m2 0 = 16" using assms by (simp add: mm.read_apart mm.read_same)
  then have r: "load64 ?m2 0 = Inr 16" using assms load64_u64 [of 0 ?m2] by simp
  let ?m3 = "wr ?m2 32 (length m - 40)"
  have s3: "set_data_size ?m2 16 (u64 (length m - 40)) = Inr ?m3"
    using block_writes(3) [of 16 ?m2 "length m - 40"] assms by simp
  have s4: "set_prev_block_offset ?m3 16 0 = Inr (wr ?m3 16 0)"
    using null_writes(1) [of 16 ?m3] assms by simp
  have s5: "set_next_block_offset (wr ?m3 16 0) 16 0 = Inr (wr (wr ?m3 16 0) 24 0)"
    using null_writes(2) [of 16 "wr ?m3 16 0"] assms by simp
  show ?thesis
    unfolding init_buffer_def sz fresh_buffer_def
    by (simp only: NULL_OFFSET_def next_free_block_offset_def next_used_block_offset_def
        sizeof_BufferHeader_def w and_then.simps r s3 s4 s5)
qed

lemma init_buffer_small:
  assumes "length m < 40"
  shows "init_buffer db_size m = Inl OutOfBounds"
proof -
  consider "length m < 8" | "8 \<le> length m" "length m < 16" | "16 \<le> length m" by linarith
  then show ?thesis
  proof cases
    case 1
    then show ?thesis by (simp add: init_buffer_def store64_def)
  next
    case 2
    then have "store64 m 0 16 = Inr (wr m 0 16)" using store64_u64 [of 0 m 16] by simp
    moreover have "store64 (wr m 0 16) 8 0 = Inl OutOfBounds"
      using 2 by (simp add: store64_def)
    ultimately show ?thesis by (simp add: init_buffer_def)
  next
    case 3
    let ?m2 = "wr (wr m 0 16) 8 0"
    have w: "store64 m 0 16 = Inr (wr m 0 16)" "store64 (wr m 0 16) 8 0 = Inr ?m2"
      using 3 store64_u64 [of 0 m 16] store64_u64 [of 8 "wr m 0 16" 0] by simp_all
    have "rd ?m2 0 = 16" using 3 by (simp add: mm.read_apart mm.read_same)
    then have r: "load64 ?m2 0 = Inr 16" using 3 load64_u64 [of 0 ?m2] by simp
    have "set_data_size ?m2 16 v = Inl OutOfBounds" for v
      using 3 assms by (simp add: set_data_size_def store64_def)
    then show ?thesis using w r by (simp add: init_buffer_def)
  qed
qed

lemma fresh_buffer_heap:
  assumes "40 \<le> length m" and "length m < 2 ^ 31"
  shows "heap_at (fresh_buffer m) [(16, length m - 40)] []"
  using assms
  by (simp add: heap_at_def heap_ok_def blocks_ok_def fresh_buffer_def mm.read_apart mm.read_same)


text \<open>
  A new file of \<open>n\<close> bytes is mapped for its first \<open>n mod 2 ^ 32\<close> bytes, if that is a positive
  \<open>int\<close>.
\<close>

lemma mmap_file_size:
  assumes "may_map f" and "length bytes < 2 ^ 63"
  shows "mmap_file f (get_file_size (Some bytes)) bytes =
    (let k = length bytes mod 2 ^ 32 in if k = 0 \<or> 2 ^ 31 \<le> k then None else Some (take k bytes))"
    (is "?l = ?r")
proof (cases "2 ^ 31 \<le> length bytes mod 2 ^ 32")
  case True
  have "\<not> unat (scast (get_file_size (Some bytes)) :: u64) \<le> length bytes"
  proof -
    have "(2::nat) ^ 63 \<le> 2 ^ 64 - 2 ^ 32" by simp
    then show ?thesis
      using scast_negative [OF True] assms(2)
      unfolding get_file_size_def option.case by linarith
  qed
  then have "?l = None" by (simp add: mmap_file_def Let_def)
  with True show ?thesis by (simp add: Let_def)
next
  case False
  let ?k = "length bytes mod 2 ^ 32"
  have len: "scast (get_file_size (Some bytes)) = u64 ?k"
    using False by (simp only: get_file_size_def option.case scast_word_of_nat not_le)
  have k: "?k < 2 ^ 64" "?k \<le> length bytes" by (auto intro: less_trans [of _ "2 ^ 32"])
  show ?thesis
    using False assms k unfolding mmap_file_def len Let_def by (simp only: u64_unat u64_eq_0) simp
qed

definition opened :: "byte list \<Rightarrow> mapping \<Rightarrow> file_backed_buffer" where
  "opened bytes m = \<lparr>m_db_size = get_file_size (Some bytes), m_base = m\<rparr>"

lemma FileBackedBuffer_new:
  fixes n :: nat
  defines "k \<equiv> n mod 2 ^ 32" and "zeros \<equiv> replicate n (0 :: byte)"
  assumes f: "file_contents f = None" "may_create f" "may_resize f" "may_map f" and n: "n < 2 ^ 63"
  shows "k = 0 \<or> 2 ^ 31 \<le> k \<Longrightarrow> FileBackedBuffer f (u64 n) = Inl AssertionFailed"
    and "40 \<le> k \<Longrightarrow> k < 2 ^ 31 \<Longrightarrow> FileBackedBuffer f (u64 n) =
      Inr (opened zeros (fresh_buffer (replicate k 0)))"
    and "0 < k \<Longrightarrow> k < 40 \<Longrightarrow> FileBackedBuffer f (u64 n) = Inl OutOfBounds"
proof -
  have "unat (u64 n) = n" using n by (simp add: u64_unat)
  then have fd: "open_buffer_file f (u64 n) = Some (True, zeros)"
    using f by (simp add: open_buffer_file_def zeros_def)
  have mm: "mmap_file f (get_file_size (Some zeros)) zeros =
      (if k = 0 \<or> 2 ^ 31 \<le> k then None else Some (replicate k 0))"
    using mmap_file_size [of f zeros] f(4) n
    by (simp add: Let_def zeros_def k_def take_replicate min_def)
  show "k = 0 \<or> 2 ^ 31 \<le> k \<Longrightarrow> FileBackedBuffer f (u64 n) = Inl AssertionFailed"
    using fd mm by (simp add: FileBackedBuffer_def Let_def)
  have len: "scast (get_file_size (Some zeros)) = u64 k" if "k < 2 ^ 31"
    using scast_word_of_nat [of n] that by (simp add: get_file_size_def zeros_def k_def)
  show "FileBackedBuffer f (u64 n) = Inr (opened zeros (fresh_buffer (replicate k 0)))"
    if "40 \<le> k" "k < 2 ^ 31"
    using fd mm that init_buffer_exec [of "replicate k 0"] len
    by (simp add: FileBackedBuffer_def Let_def opened_def)
  show "FileBackedBuffer f (u64 n) = Inl OutOfBounds" if "0 < k" "k < 40"
    using fd mm that init_buffer_small [of "replicate k 0"]
    by (simp add: FileBackedBuffer_def Let_def)
qed

lemma FileBackedBuffer_existing:
  assumes "file_contents f = Some bytes" and "may_open f" and "may_map f"
    and "0 < length bytes" and "length bytes < 2 ^ 31"
  shows "FileBackedBuffer f n = Inr (opened bytes bytes)"
  using assms mmap_file_size [of f bytes]
  by (simp add: FileBackedBuffer_def open_buffer_file_def Let_def opened_def)

section \<open>Iterating\<close>

lemma for_blocks_exec:
  assumes "seg (rd m) p a xs 0" and "\<forall>x \<in> set xs. fst x + 24 \<le> length m"
    and "length m < 2 ^ 63" and "length xs \<le> fuel"
  shows "for_blocks fuel m (u64 a) = Inr (map (\<lambda>(b, s). (Some (u64 (b + 24)), u64 s)) xs)"
  using assms
proof (induction xs arbitrary: p a fuel)
  case Nil
  then show ?case by (simp add: for_blocks.simps end_blocks_def)
next
  case (Cons x xs)
  obtain c t where x: "x = (c, t)" by (cases x)
  obtain fuel' where fuel: "fuel = Suc fuel'" using Cons.prems(4) by (cases fuel) auto
  have c: "a = c" "c \<noteq> 0" "c + 24 \<le> length m" "rd m (c + 16) = t"
    and rest: "seg (rd m) c (rd m (c + 8)) xs 0"
    using Cons.prems(1,2) x by auto
  have nz: "u64 c \<noteq> 0" using c Cons.prems(3) by (simp add: u64_simps)
  have "for_blocks fuel' m (u64 (rd m (c + 8))) = Inr (map (\<lambda>(b, s). (Some (u64 (b + 24)), u64 s)) xs)"
    using Cons.prems fuel rest by (intro Cons.IH) auto
  then show ?case
    using nz c Cons.prems(3) x fuel
    by (simp add: for_blocks.simps [of "Suc fuel'"] end_blocks_def iter_deref_def iter_next_def
        block_reads)
qed

lemma for_used:
  assumes "heap_at m fs us"
  shows "begin_used m = Inr (u64 (rd m 8))"
    and "for_blocks (length m) m (u64 (rd m 8)) = Inr (map (\<lambda>(b, s). (Some (u64 (b + 24)), u64 s)) us)"
    and "begin_free m = Inr (u64 (rd m 0))"
    and "for_blocks (length m) m (u64 (rd m 0)) = Inr (map (\<lambda>(b, s). (Some (u64 (b + 24)), u64 s)) fs)"
proof -
  note D = heap_at_D [OF assms]
  have "16 \<le> length m" using D(4) by (auto simp: heap_ok_def blocks_ok_def)
  then show "begin_used m = Inr (u64 (rd m 8))" "begin_free m = Inr (u64 (rd m 0))"
    using load64_u64 [of 8 m] load64_u64 [of 0 m] by (simp_all add: begin_used_def begin_free_def)
  have "length fs \<le> length m" "length us \<le> length m"
    using spaced_length [OF D(5)] spaced_length [OF D(6)] by simp_all
  moreover have "\<forall>x \<in> set fs. fst x + 24 \<le> length m" "\<forall>x \<in> set us. fst x + 24 \<le> length m"
    using spaced_bound [OF D(5)] spaced_bound [OF D(6)] by auto
  ultimately show
    "for_blocks (length m) m (u64 (rd m 8)) = Inr (map (\<lambda>(b, s). (Some (u64 (b + 24)), u64 s)) us)"
    "for_blocks (length m) m (u64 (rd m 0)) = Inr (map (\<lambda>(b, s). (Some (u64 (b + 24)), u64 s)) fs)"
    using for_blocks_exec [OF D(3) _ D(1)] for_blocks_exec [OF D(2) _ D(1)] by blast+
qed

section \<open>Statistics\<close>

definition stats_of :: "block list \<Rightarrow> block_stats" where
  "stats_of xs =
    \<lparr>num_blocks = u64 (length xs),
     smallest_block_size = (if xs = [] then - 1 else u64 (Min ((\<lambda>x. 24 + snd x) ` set xs))),
     largest_block_size = (if xs = [] then 0 else u64 (Max ((\<lambda>x. 24 + snd x) ` set xs))),
     total_block_size = u64 (total xs)\<rparr>"

lemma add_block_stats_of:
  assumes "\<forall>x \<in> set (xs @ [(b, s)]). 24 + snd x < 2 ^ 64"
  shows "add_block_stats (p, u64 s) (stats_of xs) = stats_of (xs @ [(b, s)])"
proof (cases "xs = []")
  case True
  have sz: "24 + s < 2 ^ 64" using assms by simp
  define w where "w = u64 (24 + s)"
  have "w < - 1 \<or> w = - 1" by (metis word_n1_ge order_le_less)
  moreover have "0 < w" unfolding w_def using sz u64_less [of 0 "24 + s"] by simp
  moreover have "u64 s + sizeof_Block = w" unfolding w_def by simp
  moreover have "stats_of [(b, s)] =
      \<lparr>num_blocks = 1, smallest_block_size = w, largest_block_size = w, total_block_size = w\<rparr>"
    by (simp add: stats_of_def w_def)
  ultimately show ?thesis
    using True by (auto simp: add_block_stats_def stats_of_def Let_def simp del: sizeof_Block_def)
next
  case False
  let ?A = "(\<lambda>x. 24 + snd x) ` set xs"
  have ne: "?A \<noteq> {}" using False by simp
  have "finite ?A" by simp
  note Min_in [OF this ne] Max_in [OF this ne]
  then have bounds: "Min ?A < 2 ^ 64" "Max ?A < 2 ^ 64" "24 + s < 2 ^ 64"
    using assms by fastforce+
  define lo hi w where "lo = Min ?A" and "hi = Max ?A" and "w = 24 + s"
  have new: "Min ((\<lambda>x. 24 + snd x) ` set (xs @ [(b, s)])) = min w lo"
    "Max ((\<lambda>x. 24 + snd x) ` set (xs @ [(b, s)])) = max w hi"
    using ne by (simp_all add: lo_def hi_def w_def)
  have old: "stats_of xs = \<lparr>num_blocks = u64 (length xs), smallest_block_size = u64 lo,
      largest_block_size = u64 hi, total_block_size = u64 (total xs)\<rparr>"
    using False by (simp add: stats_of_def lo_def hi_def)
  have next_st: "stats_of (xs @ [(b, s)]) = \<lparr>num_blocks = u64 (length xs + 1),
      smallest_block_size = u64 (min w lo), largest_block_size = u64 (max w hi),
      total_block_size = u64 (total xs + w)\<rparr>"
    unfolding stats_of_def new by (simp add: w_def)
  have "u64 s + sizeof_Block = u64 w" by (simp add: w_def)
  then show ?thesis
    unfolding old next_st add_block_stats_def Let_def snd_conv
    using bounds unfolding lo_def [symmetric] hi_def [symmetric] w_def [symmetric]
    by (auto simp: u64_less min_def max_def simp del: sizeof_Block_def)
qed

lemma fold_stats:
  assumes "\<forall>x \<in> set xs. 24 + snd x < 2 ^ 64"
  shows "fold add_block_stats (map (\<lambda>(b, s). (Some (u64 (b + 24)), u64 s)) xs) no_stats = stats_of xs"
  using assms
proof (induction xs rule: rev_induct)
  case Nil
  then show ?case by (simp add: no_stats_def stats_of_def)
next
  case (snoc x xs)
  obtain b s where x: "x = (b, s)" by (cases x)
  have "fold add_block_stats (map (\<lambda>(b, s). (Some (u64 (b + 24)), u64 s)) xs) no_stats = stats_of xs"
    using snoc by simp
  then show ?case
    using add_block_stats_of [of xs b s] snoc.prems x by simp
qed

lemma print_stats_exec:
  assumes "heap_at m fs us"
  shows "print_stats m = Inr (stats_of us, stats_of fs)"
proof -
  have "\<forall>x \<in> set (fs @ us). fst x + 24 + snd x \<le> length m" "length m < 2 ^ 63"
    using heap_at_D(1,8) [OF assms] by auto
  then have "\<forall>x \<in> set (fs @ us). 24 + snd x < 2 ^ 64" by fastforce
  then have "\<forall>x \<in> set us. 24 + snd x < 2 ^ 64" and "\<forall>x \<in> set fs. 24 + snd x < 2 ^ 64"
    by simp_all
  then show ?thesis
    using for_used [OF assms] by (simp add: print_stats_def fold_stats del: of_nat_add)
qed

end
