(* ===== verification/Buffer_Dirty.thy ===== *)
theory Buffer_Dirty
  imports Buffer_Open
begin

text \<open>
  What happens without \<open>clean_split\<close>. When \<open>alloc\<close> splits the only free block, the rest of it
  goes on an empty free list, and \<open>insert_block_to_free_list\<close> returns early, without writing
  the links of the block. If the 16 bytes there are old user data, the free list now holds a block
  with a stray previous link, and the next allocation writes through it. This theory proves it for
  every such heap, and that four calls on a new file lead to one.
\<close>

lemma split_only_block:
  assumes at: "heap_at m [(b, s)] us" and n: "n + 124 \<le> s"
  defines "c \<equiv> b + 24 + n"
  shows "\<exists>m'. use_free_block (u64 n) (u64 b) m = Inr m' \<and> length m' = length m \<and>
    rd m' 0 = c \<and> rd m' c = rd m c \<and> rd m' (c + 8) = rd m (c + 8) \<and> rd m' (c + 16) = s - n - 24"
proof -
  note D = heap_at_D [OF at]
  let ?t = "s - n - 24"
  have seg0: "seg (rd m) 0 (rd m 0) ([] @ (b, s) # []) 0" using D(2) by simp
  have sp0: "spaced (length m) (offsets ([] @ (b, s) # []))" using D(5) by simp
  note rm = remove_free [OF seg0 sp0 D(1) order_refl]
  let ?m1 = "mm.unlink 0 b m"
  have b: "16 \<le> b" "b + 24 + s \<le> length m" using D(8) by auto
  have c: "b + 24 \<le> c" "c + 24 + ?t \<le> length m" "c + 24 \<le> length m"
    using b n by (auto simp: c_def)
  have cl: "c < 2 ^ 63" using c D(1) by simp
  have hd1: "rd ?m1 0 = 0" using rm(2) by simp
  have keep1: "rd ?m1 a = rd m a" if "b + 24 \<le> a" for a
    using rm(5) that b by (intro rd_outside_headers) auto
  define m2 where "m2 = wr ?m1 (c + 16) ?t"
  define m3 where "m3 = wr m2 0 c"
  define m4 where "m4 = wr m3 (b + 16) n"
  have lens: "length ?m1 = length m" "length m2 = length m" "length m3 = length m" "length m4 = length m"
    using rm(3) b c by (simp_all add: m2_def m3_def m4_def)
  have sz: "data_size ?m1 (u64 b) = Inr (u64 s)"
    using b lens D(1) rm(4) by (simp add: block_reads)
  have s64: "u64 s - u64 n - sizeof_Block = u64 ?t"
  proof -
    have "u64 s - u64 n = u64 (s - n)" using n by (intro u64_diff) simp
    moreover have "u64 (s - n) - 24 = u64 (s - n - 24)" using n by (intro u64_diff_numeral) simp
    ultimately show ?thesis by (simp only: sizeof_Block_def)
  qed
  have ptr: "block_data (u64 b) + u64 n = u64 c" by (simp add: c_def)
  have cmp: "(u64 n + sizeof_Block + 100 \<le> u64 s) = True"
  proof -
    have "u64 n + sizeof_Block + 100 = u64 (n + 124)" by simp
    moreover have "n + 124 < 2 ^ 64" "s < 2 ^ 64" using n b D(1) by simp_all
    ultimately show ?thesis using n by (simp only: u64_le)
  qed
  have w2: "set_data_size ?m1 (u64 c) (u64 ?t) = Inr m2"
    unfolding m2_def using c lens D(1) by (intro block_writes) simp_all
  have "rd m2 0 = 0" using hd1 c lens b by (simp add: m2_def mm.read_apart)
  then have "load64 m2 0 = Inr 0" using load64_u64 [of 0 m2] lens b by simp
  moreover have "store64 m2 0 (u64 c) = Inr m3"
    using store64_u64 [of 0 m2 c] lens b cl by (simp add: m3_def)
  ultimately have ins: "insert_block_to_free_list (u64 c) m2 = Inr m3"
    by (simp add: insert_block_to_free_list_def)
  have w4: "set_data_size m3 (u64 b) (u64 n) = Inr m4"
    unfolding m4_def using b n lens D(1) by (intro block_writes) simp_all
  have us: "fst x + 24 + snd x \<le> b \<or> b + 24 + s \<le> fst x" "16 \<le> fst x" if "x \<in> set us" for x
    using D(4,8) that by (auto simp: heap_ok_def blocks_ok_def sep_blocks_def)
  let ?F = "headers 0 {b, c}"
  have "same_outside ?F m ?m1"
    by (rule same_outside_mono [OF rm(5) headers_mono]) simp
  also have "same_outside ?F ?m1 m2"
    unfolding m2_def using c lens by (intro same_outside_wr headers_size) simp_all
  also have "same_outside ?F m2 m3"
    unfolding m3_def using b lens by (intro same_outside_wr) (auto simp: headers_def)
  also have "same_outside ?F m3 m4"
    unfolding m4_def using b lens by (intro same_outside_wr headers_size) simp_all
  finally have same: "same_outside ?F m m4" .
  have apart_us: "\<forall>x \<in> set us. 16 \<le> fst x \<and> (\<forall>d \<in> {b, c}. apart (fst x) d)"
    using us c n by (fastforce simp: apart_def c_def)
  have "seg (rd m4) 0 (rd m 8) us 0 = seg (rd m) 0 (rd m 8) us 0"
    by (rule seg_outside_headers [OF same _ apart_us]) simp
  moreover have "rd m4 8 = rd m 8"
    using b c by (intro rd_outside_headers [OF same]) auto
  ultimately have seg8: "seg (rd m4) 0 (rd m4 8) us 0" using D(3) by simp
  have sp8: "spaced (length m4) (offsets ((b, n) # us))" using D(7) lens by simp
  have len4: "length m4 < 2 ^ 63" using lens D(1) by simp
  let ?m5 = "mm.push 8 b m4"
  have push: "insert_block_to_used_list (u64 b) m4 = Inr ?m5"
    by (rule insert_used_exec [OF seg8 sp8 len4])
  have same5: "same_outside (headers 8 (set (offsets ((b, n) # us)))) m4 ?m5"
    by (rule same_outside_mono [OF mm.push_same [OF seg8 _ sp8] links_headers [OF order_refl]]) simp
  have dist: "\<forall>d \<in> set (offsets ((b, n) # us)). a + 8 \<le> d \<or> d + 24 \<le> a" if "c \<le> a" "a + 8 \<le> c + 24" for a
    using us that c n by (fastforce simp: c_def)
  have keep5: "rd ?m5 a = rd m4 a" if "c \<le> a" "a + 8 \<le> c + 24" for a
    using that b c dist by (intro rd_outside_headers [OF same5]) auto
  have "0 + 8 \<le> d" if "d \<in> set (offsets ((b, n) # us))" for d
    using spaced_bound [OF sp8 that] by simp
  then have hd5: "rd ?m5 0 = rd m4 0"
    by (intro rd_outside_headers [OF same5]) auto
  have "rd m4 0 = c" using b c lens cl by (simp add: m4_def m3_def mm.read_apart mm.read_same)
  moreover have "rd m4 (c + 16) = ?t"
    using b c lens D(1) by (simp add: m4_def m3_def m2_def mm.read_apart mm.read_same)
  moreover have "rd m4 c = rd m c" "rd m4 (c + 8) = rd m (c + 8)"
    using b c lens keep1 [of c] keep1 [of "c + 8"]
    by (simp_all add: m4_def m3_def m2_def mm.read_apart)
  moreover have "use_free_block (u64 n) (u64 b) m = Inr ?m5"
    unfolding use_free_block_def rm(1) [unfolded append_Nil] and_then.simps sz cmp if_True Let_def
      ptr s64 w2 ins w4 push ..
  moreover have "length ?m5 = length m" using same5 lens by (simp add: same_outside_length)
  ultimately show ?thesis using hd5 keep5 [of c] keep5 [of "c + 8"] keep5 [of "c + 16"] by auto
qed

lemma dirty_split_faults:
  assumes at: "heap_at m [(b, s)] us" and n: "n + 124 \<le> s" and k: "n + 24 + k \<le> s"
    and stray: "length m \<le> rd m (b + 24 + n)" "rd m (b + 24 + n) < 2 ^ 64 - 8"
  shows "\<exists>m'. alloc (u64 n) m = Inr (m', Some (u64 (b + 24))) \<and> alloc (u64 k) m' = Inl OutOfBounds"
proof -
  note D = heap_at_D [OF at]
  let ?c = "b + 24 + n" and ?q = "rd m (b + 24 + n)"
  have b: "16 \<le> b" "b + 24 + s \<le> length m" using D(8) by auto
  obtain m' where use: "use_free_block (u64 n) (u64 b) m = Inr m'" and len: "length m' = length m"
    and hd: "rd m' 0 = ?c" and prev: "rd m' ?c = ?q" and size: "rd m' (?c + 16) = s - n - 24"
    using split_only_block [OF at n] by blast
  have "alloc (u64 n) m = Inr (m', Some (u64 (b + 24)))"
    using alloc_loop_exec [OF D(2) _ D(1), of "length m" n] use b n D(1)
    by (simp add: alloc_exec [OF at] extract_Cons_code)
  moreover have "alloc (u64 k) m' = Inl OutOfBounds"
  proof -
    obtain j where j: "length m' = Suc j"
    proof
      show "length m' = Suc (length m' - 1)" using len b by simp
    qed
    have c: "?c + 24 \<le> length m'" "length m' < 2 ^ 63" "?c \<noteq> 0" using b n len D(1) by simp_all
    have "load64 m' 0 = Inr (u64 ?c)" using load64_u64 [of 0 m'] c hd by simp
    moreover have "u64 ?c \<noteq> 0"
    proof -
      have "?c < 2 ^ 64" using c by simp
      then show ?thesis using c(3) by (simp only: u64_eq_0 not_False_eq_True)
    qed
    moreover have "data_size m' (u64 ?c) = Inr (u64 (s - n - 24))"
      using c size by (simp only: block_reads)
    moreover have "u64 k \<le> u64 (s - n - 24)"
    proof -
      have "k < 2 ^ 64" "s - n - 24 < 2 ^ 64" using k b D(1) by simp_all
      then show ?thesis using k by (simp only: u64_le)
    qed
    moreover have "prev_block_offset m' (u64 ?c) = Inr (u64 ?q)"
      using c prev by (simp only: block_reads)
    moreover have "u64 ?q \<noteq> 0"
    proof -
      have "?q \<noteq> 0" "?q < 2 ^ 64" using stray b by simp_all
      then show ?thesis by (simp only: u64_eq_0 not_False_eq_True)
    qed
    moreover have "set_next_block_offset m' (u64 ?q) v = Inl OutOfBounds" for v
    proof -
      have "u64 ?q + 8 = u64 (?q + 8)" by simp
      moreover have "unat (u64 (?q + 8)) = ?q + 8" using stray(2) by (intro u64_unat) simp
      ultimately show ?thesis
        using stray(1) len by (simp add: set_next_block_offset_def store64_def)
    qed
    moreover have "next_block_offset m' (u64 ?c) = Inr (u64 (rd m' (?c + 8)))"
      using c by (simp only: block_reads)
    ultimately show ?thesis
      by (simp add: alloc_def j alloc_loop.simps use_free_block_def remove_block_from_list_def
          del: of_nat_add)
  qed
  ultimately show ?thesis by blast
qed

text \<open>Writing into the data of a used block leaves the lists alone.\<close>

lemma heap_at_data_write:
  assumes at: "heap_at m fs us" and x: "(b, s) \<in> set us" and fit: "i + length bs \<le> s"
  shows "store_bytes m (u64 (b + 24 + i)) bs = Inr (splice_at (b + 24 + i) bs m)"
    and "heap_at (splice_at (b + 24 + i) bs m) fs us"
    and "same_outside {b + 24 ..< b + 24 + s} m (splice_at (b + 24 + i) bs m)"
proof -
  note D = heap_at_D [OF at]
  let ?m = "splice_at (b + 24 + i) bs m"
  have b: "16 \<le> b" "b + 24 + s \<le> length m"
    using bspec [OF D(8), of "(b, s)"] x by auto
  have "unat (u64 (b + 24 + i)) = b + 24 + i" using b fit D(1) by (intro u64_unat) simp
  then show "store_bytes m (u64 (b + 24 + i)) bs = Inr ?m"
    using b fit by (simp add: store_bytes_def)
  show same: "same_outside {b + 24 ..< b + 24 + s} m ?m"
    using b fit by (intro same_outside_splice) auto
  have len: "length ?m = length m" using same by (rule same_outside_length)
  have far: "{c ..< c + 24} \<inter> {b + 24 ..< b + 24 + s} = {}" if "(c, t) \<in> set (fs @ us)" for c t
  proof (cases "(c, t) = (b, s)")
    case False
    have "sorted_wrt sep_blocks (fs @ us)" using D(4) by (simp add: heap_ok_def blocks_ok_def)
    from sorted_wrt_sym_pair [OF this, of "(b, s)" "(c, t)"] that x False
    have "sep_blocks (c, t) (b, s)" by auto
    then show ?thesis by (auto simp: sep_blocks_def)
  qed auto
  have "seg (rd ?m) 0 (rd m 0) fs 0 = seg (rd m) 0 (rd m 0) fs 0"
  proof (rule mm.seg_same [OF same])
    fix c t assume "(c, t) \<in> set fs"
    then show "{c ..< c + 24} \<inter> {b + 24 ..< b + 24 + s} = {}" by (intro far [of c t]) simp
  qed
  moreover have "seg (rd ?m) 0 (rd m 8) us 0 = seg (rd m) 0 (rd m 8) us 0"
  proof (rule mm.seg_same [OF same])
    fix c t assume "(c, t) \<in> set us"
    then show "{c ..< c + 24} \<inter> {b + 24 ..< b + 24 + s} = {}" by (intro far [of c t]) simp
  qed
  moreover have "rd ?m 0 = rd m 0" "rd ?m 8 = rd m 8"
    using b by (auto intro!: same_outside_rd [OF same])
  ultimately show "heap_at ?m fs us"
    using at len by (simp add: heap_at_def)
qed

text \<open>
  A heap with stale data in its only free block: take the whole of a new 1000-byte file, fill it, and
  give it back.
\<close>

lemma reuse_leaves_data:
  defines "m0 \<equiv> fresh_buffer (replicate 1000 0)"
  shows "\<exists>m1 m2 m3. alloc 900 m0 = Inr (m1, Some 40) \<and>
    store_bytes m1 40 (replicate 900 0x78) = Inr m2 \<and> free 40 m2 = Inr m3 \<and>
    heap_at m3 [(16, 960)] [] \<and> rd m3 48 = 8680820740569200760"
proof -
  have at0: "heap_at m0 [(16, 960)] []"
    using fresh_buffer_heap [of "replicate 1000 0"] by (simp add: m0_def)
  have "spec_alloc 900 [(16, 960)] [] = Some ([], [(16, 960)], 40)"
    by (simp add: spec_alloc_def extract_Cons_code)
  from alloc_refines_Some [OF at0 _ _ this]
  obtain m1 where m1: "alloc 900 m0 = Inr (m1, Some 40)" "heap_at m1 [] [(16, 960)]"
    by auto
  have fit: "(16, 960) \<in> set [(16, 960)]" "0 + length (replicate 900 (0x78 :: byte)) \<le> 960" by simp_all
  note wr = heap_at_data_write [OF m1(2) fit]
  define m2 where "m2 = splice_at 40 (replicate 900 0x78) m1"
  have m2: "store_bytes m1 40 (replicate 900 0x78) = Inr m2" "heap_at m2 [] [(16, 960)]"
    using wr(1,2) by (simp_all add: m2_def)
  have "spec_free 40 [] [(16, 960)] = Some ([(16, 960)], [])"
    by (simp add: spec_free_def extract_Cons_code)
  from free_refines_spec [OF m2(2) this]
  obtain m3 where m3: "free 40 m2 = Inr m3" "heap_at m3 [(16, 960)] []"
    and same: "same_outside (all_headers {16}) m2 m3"
    by auto
  have len: "length m1 = 1000"
    using m1(2) by (simp add: heap_at_def heap_ok_def blocks_ok_def)
  have "{48 ..< 48 + 8} \<inter> all_headers {16} = {}" by (auto simp: all_headers_def)
  from same_outside_rd [OF same this] have "rd m3 48 = rd m2 48" .
  also have "\<dots> = le_val (slice 8 8 (replicate 900 0x78))"
  proof -
    have "slice 48 8 m2 = slice (48 - 40) 8 (replicate 900 0x78)"
      unfolding m2_def by (rule slice_splice_inner) (simp_all only: len length_replicate)
    then show ?thesis unfolding rd_def by simp
  qed
  also have "slice 8 8 (replicate 900 (0x78 :: byte)) = replicate 8 0x78"
  proof -
    have "min 8 (900 - 8) = (8::nat)" by simp
    then show ?thesis by (simp only: slice_def drop_replicate take_replicate)
  qed
  also have "replicate 8 (0x78 :: byte) = [0x78, 0x78, 0x78, 0x78, 0x78, 0x78, 0x78, 0x78]"
    by (simp add: numeral_eq_Suc)
  also have "le_val \<dots> = 8680820740569200760" by simp
  finally have stray: "rd m3 48 = 8680820740569200760" .
  with m1 m2 m3 show ?thesis by blast
qed

end
