(* ===== verification/Hash_Table.thy ===== *)
theory Hash_Table
  imports File_Backed_Buffer
begin

text \<open>
  \<open>ConcurrentHashTable\<close> of \<open>src/src/lib/hash_table.cpp\<close>, one definition per member function, for one
  thread. A \<open>std::string\<close> is its list of bytes. A \<open>Bucket *\<close> is the position of the bucket in
  \<open>m_bucket_storage\<close>, a \<open>std::deque\<close> that only grows, and the \<open>shared_ptr\<close> of a bucket is the offset
  of the data it points to. With one thread no reader holds a second reference, so replacing a
  \<open>shared_ptr\<close> runs the deleter of the old one at once. \<open>std::hash\<close> is the parameter \<open>hasher\<close>.
\<close>

section \<open>C strings\<close>

type_synonym str = "byte list"

text \<open>The string at a \<open>const char *\<close>, up to its terminating zero.\<close>

definition c_string :: "mapping \<Rightarrow> u64 \<Rightarrow> str res" where
  "c_string m p =
    (if 0 \<in> set (drop (unat p) m) then Inr (takeWhile (\<lambda>c. c \<noteq> 0) (drop (unat p) m))
     else Inl OutOfBounds)"

text \<open>\<open>strchr(p, '\0')\<close>, the address of that zero.\<close>

definition strchr_end :: "mapping \<Rightarrow> u64 \<Rightarrow> u64 res" where
  "strchr_end m p = and_then (c_string m p) (\<lambda>s. Inr (p + u64 (length s)))"

text \<open>\<open>strncpy(dst, s.c_str(), n)\<close>: \<open>s\<close> up to its first zero, filled up with zeros to \<open>n\<close> bytes.\<close>

definition strncpy_bytes :: "str \<Rightarrow> nat \<Rightarrow> byte list" where
  "strncpy_bytes s n =
    (let t = takeWhile (\<lambda>c. c \<noteq> 0) (take n (s @ [0])) in t @ replicate (n - length t) 0)"

definition strncpy :: "u64 \<Rightarrow> str \<Rightarrow> nat \<Rightarrow> mapping \<Rightarrow> mapping res" where
  "strncpy dst s n m = store_bytes m dst (strncpy_bytes s n)"

section \<open>The state\<close>

record bucket =
  next_bucket :: "nat option"
  m_key_value_data :: "u64 option"

definition Bucket :: bucket where
  "Bucket = \<lparr>next_bucket = None, m_key_value_data = None\<rparr>"

record hash_table =
  m_buffer :: file_backed_buffer
  m_bucket_storage :: "bucket list"
  m_hash_table :: "nat option list"

abbreviation memory :: "hash_table \<Rightarrow> mapping" where
  "memory t \<equiv> m_base (m_buffer t)"

abbreviation with_memory :: "hash_table \<Rightarrow> mapping \<Rightarrow> hash_table" where
  "with_memory t m \<equiv> t\<lparr>m_buffer := (m_buffer t)\<lparr>m_base := m\<rparr>\<rparr>"

definition bucket_at :: "hash_table \<Rightarrow> nat \<Rightarrow> bucket res" where
  "bucket_at t i =
    (if i < length (m_bucket_storage t) then Inr (m_bucket_storage t ! i) else Inl OutOfBounds)"

section \<open>Buckets\<close>

definition KeyValuePair_get :: "hash_table \<Rightarrow> nat \<Rightarrow> (u64 \<times> u64) res" where
  "KeyValuePair_get t i =
    and_then (bucket_at t i) (\<lambda>b.
    case m_key_value_data b of
      None \<Rightarrow> Inl NullPointer
    | Some key \<Rightarrow> and_then (strchr_end (memory t) key) (\<lambda>e. Inr (key, e + 1)))"

text \<open>
  \<open>set\<close> with a pointer only: the \<open>shared_ptr\<close> is replaced, and \<open>BufferFreer\<close> frees what the old
  one pointed to, if it was not null.
\<close>

definition BufferFreer :: "u64 \<Rightarrow> hash_table \<Rightarrow> hash_table res" where
  "BufferFreer ptr t = and_then (free ptr (memory t)) (\<lambda>m. Inr (with_memory t m))"

definition KeyValuePair_set_pointer :: "nat \<Rightarrow> u64 \<Rightarrow> hash_table \<Rightarrow> hash_table res" where
  "KeyValuePair_set_pointer i key_value_data t =
    and_then (bucket_at t i) (\<lambda>b.
    let t' = t\<lparr>m_bucket_storage :=
      (m_bucket_storage t)[i := b\<lparr>m_key_value_data := Some key_value_data\<rparr>]\<rparr>
    in case m_key_value_data b of None \<Rightarrow> Inr t' | Some old \<Rightarrow> BufferFreer old t')"

text \<open>
  \<open>set\<close> with a key and a value: it copies them to the pointer, and then sets the pointer. All of the
  copying is done before the bucket changes.
\<close>

definition copy_key_value :: "u64 \<Rightarrow> str \<Rightarrow> str \<Rightarrow> mapping \<Rightarrow> mapping res" where
  "copy_key_value key_data key val m =
    and_then (strncpy key_data key (length key + 1) m) (\<lambda>m.
    and_then (strchr_end m key_data) (\<lambda>key_data_end.
    strncpy (key_data_end + 1) val (length val + 1) m))"

definition KeyValuePair_set :: "nat \<Rightarrow> u64 \<Rightarrow> str \<Rightarrow> str \<Rightarrow> hash_table \<Rightarrow> hash_table res" where
  "KeyValuePair_set i key_value_data key val t =
    and_then (copy_key_value key_value_data key val (memory t)) (\<lambda>m.
    KeyValuePair_set_pointer i key_value_data (with_memory t m))"

definition get_new_bucket :: "hash_table \<Rightarrow> hash_table \<times> nat" where
  "get_new_bucket t =
    (t\<lparr>m_bucket_storage := m_bucket_storage t @ [Bucket]\<rparr>, length (m_bucket_storage t))"

definition store_bucket :: "nat \<Rightarrow> nat \<Rightarrow> hash_table \<Rightarrow> hash_table" where
  "store_bucket bucket hash_table_index t =
    t\<lparr>m_bucket_storage := (m_bucket_storage t)
        [bucket := (m_bucket_storage t ! bucket)\<lparr>next_bucket := m_hash_table t ! hash_table_index\<rparr>],
      m_hash_table := (m_hash_table t)[hash_table_index := Some bucket]\<rparr>"

section \<open>Searching, reading and writing\<close>

text \<open>The slot of a string: \<open>hasher(key) % m_hash_table.size()\<close>.\<close>

definition slot_of :: "(str \<Rightarrow> u64) \<Rightarrow> hash_table \<Rightarrow> str \<Rightarrow> nat" where
  "slot_of hasher t key = unat (hasher key) mod length (m_hash_table t)"

text \<open>The loop over a chain, from a bucket that is not null.\<close>

fun find_in_chain :: "nat \<Rightarrow> hash_table \<Rightarrow> str \<Rightarrow> nat \<Rightarrow> nat option res" where
  "find_in_chain 0 t key curr_bucket = Inl Diverges"
| "find_in_chain (Suc fuel) t key curr_bucket =
    and_then (KeyValuePair_get t curr_bucket) (\<lambda>(p, _).
    and_then (c_string (memory t) p) (\<lambda>s.
    if key \<noteq> s then
      and_then (bucket_at t curr_bucket) (\<lambda>b.
      case next_bucket b of
        None \<Rightarrow> Inr None
      | Some curr_bucket \<Rightarrow> find_in_chain fuel t key curr_bucket)
    else Inr (Some curr_bucket)))"

definition find_bucket_with_key ::
  "(str \<Rightarrow> u64) \<Rightarrow> hash_table \<Rightarrow> str \<Rightarrow> (nat option \<times> nat) res" where
  "find_bucket_with_key hasher t key =
    (let hash_table_index = slot_of hasher t key in
     case m_hash_table t ! hash_table_index of
       None \<Rightarrow> Inr (None, hash_table_index)
     | Some curr_bucket \<Rightarrow>
         and_then (find_in_chain (Suc (length (m_bucket_storage t))) t key curr_bucket) (\<lambda>r.
         Inr (r, hash_table_index)))"

definition get :: "(str \<Rightarrow> u64) \<Rightarrow> str \<Rightarrow> hash_table \<Rightarrow> str res" where
  "get hasher key t =
    and_then (find_bucket_with_key hasher t key) (\<lambda>(found, _).
    case found of
      None \<Rightarrow> Inr []
    | Some i \<Rightarrow>
        and_then (KeyValuePair_get t i) (\<lambda>(_, val). c_string (memory t) val))"

definition put :: "(str \<Rightarrow> u64) \<Rightarrow> str \<Rightarrow> str \<Rightarrow> hash_table \<Rightarrow> (hash_table \<times> bool) res" where
  "put hasher key val t =
    (let allocation_size = u64 (length key + 1 + length val + 1) in
     and_then (alloc allocation_size (memory t)) (\<lambda>(m, data_buffer).
     case data_buffer of
       None \<Rightarrow> Inr (with_memory t m, False)
     | Some p \<Rightarrow>
         (let t = with_memory t m in
          and_then (find_bucket_with_key hasher t key) (\<lambda>(found, index).
          case found of
            None \<Rightarrow>
              (case get_new_bucket t of (t, i) \<Rightarrow>
               and_then (KeyValuePair_set i p key val t) (\<lambda>t.
               Inr (store_bucket i index t, True)))
          | Some i \<Rightarrow>
              and_then (KeyValuePair_set i p key val t) (\<lambda>t. Inr (t, True))))))"

section \<open>Loading the buffer\<close>

definition BUFFER_SIZE :: u64 where "BUFFER_SIZE = 536870912"

definition HASH_TABLE_SIZE :: nat where "HASH_TABLE_SIZE = 266671"

text \<open>The body of the constructor's loop, for one used block.\<close>

definition load_block :: "(str \<Rightarrow> u64) \<Rightarrow> u64 \<Rightarrow> hash_table \<Rightarrow> hash_table res" where
  "load_block hasher p t =
    (case get_new_bucket t of (t, i) \<Rightarrow>
     and_then (KeyValuePair_set_pointer i p t) (\<lambda>t.
     and_then (KeyValuePair_get t i) (\<lambda>(key, _).
     and_then (c_string (memory t) key) (\<lambda>s.
     Inr (store_bucket i (slot_of hasher t s) t)))))"

text \<open>The loop; the iterator's end has a null pointer, which is never loaded.\<close>

fun load_blocks :: "(str \<Rightarrow> u64) \<Rightarrow> nat \<Rightarrow> u64 \<Rightarrow> hash_table \<Rightarrow> hash_table res" where
  "load_blocks hasher fuel it t =
    (if it = end_blocks then Inr t
     else case fuel of
       0 \<Rightarrow> Inl Diverges
     | Suc fuel' \<Rightarrow>
         and_then (iter_deref (memory t) it) (\<lambda>(data, _).
         case data of
           None \<Rightarrow> Inl NullPointer
         | Some p \<Rightarrow>
             and_then (load_block hasher p t) (\<lambda>t.
             and_then (iter_next (memory t) it) (\<lambda>it. load_blocks hasher fuel' it t))))"

declare load_blocks.simps [simp del]

definition load_table :: "(str \<Rightarrow> u64) \<Rightarrow> nat \<Rightarrow> file_backed_buffer \<Rightarrow> hash_table res" where
  "load_table hasher table_size buf =
    (let t = \<lparr>m_buffer = buf, m_bucket_storage = [], m_hash_table = replicate table_size None\<rparr> in
     and_then (begin_used (memory t)) (\<lambda>it. load_blocks hasher (length (memory t)) it t))"

definition ConcurrentHashTable :: "(str \<Rightarrow> u64) \<Rightarrow> os_file \<Rightarrow> hash_table res" where
  "ConcurrentHashTable hasher f =
    and_then (FileBackedBuffer f BUFFER_SIZE) (load_table hasher HASH_TABLE_SIZE)"

section \<open>Destruction\<close>

text \<open>
  The destructor is the implicit one. It destroys \<open>m_bucket_storage\<close> before \<open>m_buffer\<close>, and with each
  bucket its \<open>shared_ptr\<close>, whose deleter frees the block. In which order a \<open>std::deque\<close> destroys its
  elements is not specified: it is the argument \<open>order\<close>. What is left in the file are the bytes of
  the mapping.
\<close>

definition destroy_bucket :: "nat \<Rightarrow> hash_table \<Rightarrow> hash_table res" where
  "destroy_bucket i t =
    and_then (bucket_at t i) (\<lambda>b.
    case m_key_value_data b of None \<Rightarrow> Inr t | Some ptr \<Rightarrow> BufferFreer ptr t)"

definition destroy_table :: "nat list \<Rightarrow> hash_table \<Rightarrow> mapping res" where
  "destroy_table order t = and_then (fold_res destroy_bucket order t) (\<lambda>t. Inr (memory t))"

section \<open>Iterating and statistics\<close>

text \<open>A \<open>const_iterator\<close> is a position in \<open>m_bucket_storage\<close>.\<close>

definition begin_table :: "hash_table \<Rightarrow> nat" where "begin_table t = 0"

definition end_table :: "hash_table \<Rightarrow> nat" where "end_table t = length (m_bucket_storage t)"

definition table_deref :: "hash_table \<Rightarrow> nat \<Rightarrow> (str \<times> str) res" where
  "table_deref t i =
    and_then (KeyValuePair_get t i) (\<lambda>(key, val).
    and_then (c_string (memory t) key) (\<lambda>k.
    and_then (c_string (memory t) val) (\<lambda>v. Inr (k, v))))"

definition table_next :: "nat \<Rightarrow> nat" where "table_next i = i + 1"

definition table_prev :: "nat \<Rightarrow> nat" where "table_prev i = i - 1"

text \<open>
  The loop \<open>for (iter = begin(); iter != end(); ++iter)\<close>: what \<open>*iter\<close> gives in each round. A round needs
  one unit of fuel, and \<open>for_table\<close> has one for every bucket.
\<close>

fun table_loop :: "nat \<Rightarrow> hash_table \<Rightarrow> nat \<Rightarrow> (str \<times> str) list res" where
  "table_loop fuel t i =
    (if i = end_table t then Inr []
     else case fuel of
       0 \<Rightarrow> Inl Diverges
     | Suc fuel' \<Rightarrow>
         and_then (table_deref t i) (\<lambda>x.
         and_then (table_loop fuel' t (table_next i)) (\<lambda>xs. Inr (x # xs))))"

declare table_loop.simps [simp del]

definition for_table :: "hash_table \<Rightarrow> nat \<Rightarrow> (str \<times> str) list res" where
  "for_table t i = table_loop (length (m_bucket_storage t)) t i"

record table_stats =
  num_key_value_pairs :: u64
  smallest_value_size :: u64
  largest_value_size :: u64

definition no_table_stats :: table_stats where
  "no_table_stats =
    \<lparr>num_key_value_pairs = 0, smallest_value_size = - 1, largest_value_size = 0\<rparr>"

definition add_table_stats :: "str \<times> str \<Rightarrow> table_stats \<Rightarrow> table_stats" where
  "add_table_stats key_value_pair st =
    (let len = u64 (length (snd key_value_pair));
         st = (if len < smallest_value_size st then st\<lparr>smallest_value_size := len\<rparr> else st);
         st = (if largest_value_size st < len then st\<lparr>largest_value_size := len\<rparr> else st)
     in st\<lparr>num_key_value_pairs := num_key_value_pairs st + 1\<rparr>)"

text \<open>
  The integers the hash table's \<open>print_stats\<close> computes: those of the pairs, the number of slots in
  use, and those of the buffer's \<open>print_stats\<close>, which it calls last. The average and the load
  factor are floating-point.
\<close>

definition print_table_stats :: "hash_table \<Rightarrow> (table_stats \<times> nat \<times> block_stats \<times> block_stats) res" where
  "print_table_stats t =
    and_then (for_table t (begin_table t)) (\<lambda>pairs.
    and_then (print_stats (memory t)) (\<lambda>buffer_stats.
    Inr (fold add_table_stats pairs no_table_stats,
         length (filter (\<lambda>b. b \<noteq> None) (m_hash_table t)), buffer_stats)))"

end
