(* ===== verification/Allocator.thy ===== *)
theory Allocator
  imports Buffer_Dirty Hash_Table
begin

text \<open>
  The interface between the hash table and the buffer: what a client of \<open>alloc\<close> and \<open>free\<close> relies
  on. A memory \<open>m\<close> with \<open>heap m us\<close> has the used blocks \<open>us\<close>; \<open>contents m x\<close> are the bytes of
  one. Allocating adds a block and keeps the contents of the others, freeing removes one and
  keeps the contents of the rest, and writing to a block changes that block only. \<open>room m n\<close> says
  that a request of \<open>n\<close> bytes can be met, \<open>safe m n\<close> that the allocator can serve it.
\<close>

section \<open>The interface\<close>

locale allocator =
  fixes heap :: "'m \<Rightarrow> block list \<Rightarrow> bool"
    and contents :: "'m \<Rightarrow> block \<Rightarrow> byte list"
    and room :: "'m \<Rightarrow> nat \<Rightarrow> bool"
    and safe :: "'m \<Rightarrow> nat \<Rightarrow> bool"
    and acquire :: "u64 \<Rightarrow> 'm \<Rightarrow> ('m \<times> u64 option) res"
    and release :: "u64 \<Rightarrow> 'm \<Rightarrow> 'm res"
    and fill :: "'m \<Rightarrow> u64 \<Rightarrow> byte list \<Rightarrow> 'm res"
    and str_at :: "'m \<Rightarrow> u64 \<Rightarrow> byte list res"
  assumes heap_distinct: "heap m us \<Longrightarrow> distinct (offsets us)"
    and acquire_fails: "heap m us \<Longrightarrow> n < 2 ^ 64 \<Longrightarrow> \<not> room m n \<Longrightarrow> acquire (u64 n) m = Inr (m, None)"
    and acquire_works: "heap m us \<Longrightarrow> n < 2 ^ 64 \<Longrightarrow> room m n \<Longrightarrow> safe m n \<Longrightarrow>
      \<exists>m' b s. acquire (u64 n) m = Inr (m', Some (u64 (b + 24))) \<and> n \<le> s \<and> heap m' ((b, s) # us) \<and>
        (\<forall>x \<in> set us. contents m' x = contents m x)"
    and release_works: "heap m us \<Longrightarrow> x \<in> set us \<Longrightarrow>
      \<exists>m'. release (u64 (fst x + 24)) m = Inr m' \<and> heap m' (remove1 x us) \<and>
        (\<forall>y \<in> set us. y \<noteq> x \<longrightarrow> contents m' y = contents m y)"
    and fill_works: "heap m us \<Longrightarrow> x \<in> set us \<Longrightarrow> i + length bs \<le> snd x \<Longrightarrow>
      \<exists>m'. fill m (u64 (fst x + 24 + i)) bs = Inr m' \<and> heap m' us \<and>
        contents m' x = splice_at i bs (contents m x) \<and>
        (\<forall>y \<in> set us. y \<noteq> x \<longrightarrow> contents m' y = contents m y)"
    and contents_length: "heap m us \<Longrightarrow> x \<in> set us \<Longrightarrow> length (contents m x) = snd x"
    and str_works: "heap m us \<Longrightarrow> x \<in> set us \<Longrightarrow> contents m x = as @ s @ 0 # bs \<Longrightarrow> 0 \<notin> set s \<Longrightarrow>
      str_at m (u64 (fst x + 24 + length as)) = Inr s"
begin

text \<open>Two runs of bytes, the second starting inside the first or right behind it.\<close>

lemma fill_two:
  assumes heap: "heap m us" and x: "x \<in> set us" and i: "i \<le> length as"
    and fit: "length as \<le> snd x" "i + length bs \<le> snd x"
  shows "\<exists>m1 m2 r1 r2. fill m (u64 (fst x + 24)) as = Inr m1 \<and>
    fill m1 (u64 (fst x + 24 + i)) bs = Inr m2 \<and> heap m1 us \<and> heap m2 us \<and>
    contents m1 x = as @ r1 \<and> contents m2 x = take i as @ bs @ r2 \<and>
    (\<forall>y \<in> set us. y \<noteq> x \<longrightarrow> contents m2 y = contents m y)"
proof -
  obtain m1 where m1: "fill m (u64 (fst x + 24)) as = Inr m1" "heap m1 us"
    "contents m1 x = splice_at 0 as (contents m x)"
    "\<forall>y \<in> set us. y \<noteq> x \<longrightarrow> contents m1 y = contents m y"
    using fill_works [OF heap x, of 0 as] fit by auto
  obtain m2 where m2: "fill m1 (u64 (fst x + 24 + i)) bs = Inr m2" "heap m2 us"
    "contents m2 x = splice_at i bs (contents m1 x)"
    "\<forall>y \<in> set us. y \<noteq> x \<longrightarrow> contents m2 y = contents m1 y"
    using fill_works [OF m1(2) x fit(2)] by auto
  have c1: "contents m1 x = as @ drop (length as) (contents m x)"
    by (simp add: m1(3) splice_at_def)
  then have "contents m2 x = take i as @ bs @ drop (i + length bs) (contents m1 x)"
    using i by (simp add: m2(3) splice_at_def)
  moreover have "\<forall>y \<in> set us. y \<noteq> x \<longrightarrow> contents m2 y = contents m y"
    using m1(4) m2(4) by simp
  ultimately show ?thesis using m1(1,2) m2(1,2) c1 by blast
qed

text \<open>The fresh block of an allocation is not one of the used blocks.\<close>

lemma fresh_block: "heap m ((b, s) # us) \<Longrightarrow> y \<in> set us \<Longrightarrow> y \<noteq> (b, s)"
  using heap_distinct [of m "(b, s) # us"] by (metis distinct.simps(2) fst_conv image_eqI list.simps(9) set_map)

lemma heap_unique: "heap m us \<Longrightarrow> x \<in> set us \<Longrightarrow> y \<in> set us \<Longrightarrow> fst x = fst y \<Longrightarrow> x = y"
  using heap_distinct [of m us] by (auto dest: eq_key_imp_eq_value simp: distinct_map inj_on_def)

end

section \<open>The buffer as an allocator\<close>

definition used_heap :: "mapping \<Rightarrow> block list \<Rightarrow> bool" where
  "used_heap m us \<longleftrightarrow> (\<exists>fs. heap_at m fs us)"

definition has_room :: "mapping \<Rightarrow> nat \<Rightarrow> bool" where
  "has_room m n \<longleftrightarrow> (\<exists>fs us. heap_at m fs us \<and> (\<exists>x \<in> set fs. n \<le> snd x))"

definition clean_for :: "mapping \<Rightarrow> nat \<Rightarrow> bool" where
  "clean_for m n \<longleftrightarrow> (\<forall>fs us. heap_at m fs us \<longrightarrow> clean_split m fs n)"

text \<open>A mapping holds at most one free list and one used list.\<close>

lemma seg_unique: "seg r p a xs 0 \<Longrightarrow> seg r q a ys 0 \<Longrightarrow> xs = ys"
proof (induction xs arbitrary: p q a ys)
  case Nil
  then show ?case by (cases ys) auto
next
  case (Cons x xs)
  then show ?case by (cases x; cases ys) auto
qed

lemma heap_at_unique: "heap_at m fs us \<Longrightarrow> heap_at m fs' us' \<Longrightarrow> fs' = fs \<and> us' = us"
  unfolding heap_at_def by (blast dest: seg_unique)

lemma has_room_iff: "heap_at m fs us \<Longrightarrow> has_room m n \<longleftrightarrow> (\<exists>x \<in> set fs. n \<le> snd x)"
  unfolding has_room_def by (blast dest: heap_at_unique)

lemma clean_for_iff: "heap_at m fs us \<Longrightarrow> clean_for m n \<longleftrightarrow> clean_split m fs n"
  unfolding clean_for_def by (blast dest: heap_at_unique)

lemma spec_alloc_room: "spec_alloc n fs us = None \<longleftrightarrow> \<not> (\<exists>x \<in> set fs. n \<le> snd x)"
  by (auto simp: spec_alloc_None not_le)

lemma heap_at_block:
  assumes "heap_at m fs us" and "x \<in> set us"
  shows "16 \<le> fst x" "fst x + 24 + snd x \<le> length m" "length m < 2 ^ 63"
  using heap_at_D(1,8) [OF assms(1)] assms(2) by auto

lemma alloc_works:
  assumes at: "heap_at m fs us" and n: "n < 2 ^ 64" and room: "has_room m n" and safe: "clean_for m n"
  shows "\<exists>m' b s. alloc (u64 n) m = Inr (m', Some (u64 (b + 24))) \<and> n \<le> s \<and>
    used_heap m' ((b, s) # us) \<and> (\<forall>x \<in> set us. data_of m' x = data_of m x)"
proof -
  have "spec_alloc n fs us \<noteq> None"
    using room unfolding has_room_iff [OF at] spec_alloc_room by simp
  then obtain fs' us' p where spec: "spec_alloc n fs us = Some (fs', us', p)" by auto
  obtain b s where bs: "us' = (b, s) # us" "n \<le> s" "p = b + 24"
    using spec unfolding spec_alloc_Some by (auto split: if_splits)
  from alloc_refines_Some [OF at n _ spec] safe clean_for_iff [OF at]
  obtain m' where "alloc (u64 n) m = Inr (m', Some (u64 p))" "heap_at m' fs' us'"
    "\<forall>x \<in> set us. data_of m' x = data_of m x" by blast
  with bs show ?thesis unfolding used_heap_def by blast
qed

lemma free_works:
  assumes at: "heap_at m fs us" and x: "x \<in> set us"
  shows "\<exists>m'. free (u64 (fst x + 24)) m = Inr m' \<and> used_heap m' (remove1 x us) \<and>
    (\<forall>y \<in> set us. y \<noteq> x \<longrightarrow> data_of m' y = data_of m y)"
proof -
  obtain ys zs where us: "us = ys @ x # zs" and ys: "x \<notin> set ys"
    using split_list_first [OF x] by blast
  have dist: "distinct (offsets us)"
    using heap_at_D(6) [OF at] by (rule spaced_distinct)
  then have "fst x \<notin> fst ` set (ys @ zs)" unfolding us by auto
  then have new: "\<forall>y \<in> set (ys @ zs). fst y \<noteq> fst x" by (metis image_eqI)
  then have "us = ys @ x # zs \<and> fst x + 24 = fst x + 24 \<and> (\<forall>y \<in> set ys. fst y + 24 \<noteq> fst x + 24)"
    using us by simp
  then have "spec_free (fst x + 24) fs us = Some (spec_insert x fs, ys @ zs)"
    unfolding spec_free_Some by blast
  from free_refines_spec [OF at this] obtain m' where
    "free (u64 (fst x + 24)) m = Inr m'" "heap_at m' (spec_insert x fs) (ys @ zs)"
    "\<forall>y \<in> set (ys @ zs). data_of m' y = data_of m y" by blast
  moreover have "remove1 x us = ys @ zs" using ys by (simp add: us remove1_append)
  moreover have "\<forall>y \<in> set us. y \<noteq> x \<longrightarrow> y \<in> set (ys @ zs)" by (simp add: us)
  ultimately show ?thesis unfolding used_heap_def by metis
qed

lemma write_works:
  assumes at: "heap_at m fs us" and x: "x \<in> set us" and fit: "i + length bs \<le> snd x"
  shows "\<exists>m'. store_bytes m (u64 (fst x + 24 + i)) bs = Inr m' \<and> used_heap m' us \<and>
    data_of m' x = splice_at i bs (data_of m x) \<and>
    (\<forall>y \<in> set us. y \<noteq> x \<longrightarrow> data_of m' y = data_of m y)"
proof -
  obtain b s where xbs: "x = (b, s)" by (cases x)
  note b = heap_at_block [OF at x]
  have x': "(b, s) \<in> set us" and fit': "i + length bs \<le> s" using x fit xbs by simp_all
  let ?m = "splice_at (b + 24 + i) bs m"
  note wr = heap_at_data_write [OF at x' fit']
  have "data_of ?m x = splice_at i bs (data_of m x)"
  proof (rule nth_equalityI)
    show "length (data_of ?m x) = length (splice_at i bs (data_of m x))"
      using b fit by (simp add: xbs)
    fix j assume "j < length (data_of ?m x)"
    then have "j < s" using b fit by (simp add: xbs)
    then show "data_of ?m x ! j = splice_at i bs (data_of m x) ! j"
      using b fit by (simp add: xbs nth_slice nth_splice_at)
  qed
  moreover have "data_of ?m y = data_of m y" if y: "y \<in> set us" "y \<noteq> x" for y
  proof (rule same_outside_slice [OF wr(3)])
    have "sorted_wrt sep_blocks us"
      using heap_at_D(4) [OF at] by (simp add: heap_ok_def blocks_ok_def sorted_wrt_append)
    from sorted_wrt_sym_pair [OF this y(1) x] y(2) have "sep_blocks x y" by auto
    then show "{fst y + 24 ..< fst y + 24 + snd y} \<inter> {b + 24 ..< b + 24 + s} = {}"
      by (auto simp: sep_blocks_def xbs)
  qed
  ultimately show ?thesis using wr unfolding used_heap_def xbs by auto
qed

lemma c_string_works:
  assumes at: "heap_at m fs us" and x: "x \<in> set us" and data: "data_of m x = as @ s @ 0 # bs"
    and s: "0 \<notin> set s"
  shows "c_string m (u64 (fst x + 24 + length as)) = Inr s"
proof -
  note b = heap_at_block [OF at x]
  have len: "length as + length s + 1 + length bs = snd x"
    using arg_cong [OF data, of length] b by simp
  let ?p = "fst x + 24"
  have "drop ?p m = data_of m x @ drop (?p + snd x) m"
    by (metis append_take_drop_id slice_def drop_drop add.commute)
  then have rest: "drop (?p + length as) m = s @ 0 # bs @ drop (?p + snd x) m"
    by (metis (no_types, lifting) data add.commute append.assoc append_Cons append_eq_conv_conj drop_drop)
  have "unat (u64 (?p + length as)) = ?p + length as"
    using b len by (intro u64_unat) simp
  moreover have "takeWhile (\<lambda>c. c \<noteq> 0) (s @ 0 # r) = s" for r
    using s by (induction s) auto
  ultimately show ?thesis by (simp add: c_string_def rest del: of_nat_add)
qed

interpretation al: allocator used_heap data_of has_room clean_for alloc free store_bytes c_string
proof
  show "used_heap m us \<Longrightarrow> distinct (offsets us)" for m us
    unfolding used_heap_def using heap_at_D(6) spaced_distinct by blast
  show "used_heap m us \<Longrightarrow> x \<in> set us \<Longrightarrow> length (data_of m x) = snd x" for m us x
    unfolding used_heap_def using heap_at_block by fastforce
next
  fix m us n assume "used_heap m us" and n: "n < 2 ^ 64" and room: "\<not> has_room m n"
  then obtain fs where at: "heap_at m fs us" unfolding used_heap_def by blast
  have "spec_alloc n fs us = None" using room by (simp add: has_room_iff [OF at] spec_alloc_room)
  then show "alloc (u64 n) m = Inr (m, None)" by (rule alloc_refines_None [OF at n])
next
  fix m us n assume "used_heap m us" and n: "n < 2 ^ 64" "has_room m n" "clean_for m n"
  then obtain fs where at: "heap_at m fs us" unfolding used_heap_def by blast
  show "\<exists>m' b s. alloc (u64 n) m = Inr (m', Some (u64 (b + 24))) \<and> n \<le> s \<and>
    used_heap m' ((b, s) # us) \<and> (\<forall>x \<in> set us. data_of m' x = data_of m x)"
    by (rule alloc_works [OF at n])
next
  fix m us x assume "used_heap m us" and x: "x \<in> set us"
  then obtain fs where at: "heap_at m fs us" unfolding used_heap_def by blast
  show "\<exists>m'. free (u64 (fst x + 24)) m = Inr m' \<and> used_heap m' (remove1 x us) \<and>
    (\<forall>y \<in> set us. y \<noteq> x \<longrightarrow> data_of m' y = data_of m y)"
    by (rule free_works [OF at x])
next
  fix m us x i and bs :: "byte list"
  assume "used_heap m us" and x: "x \<in> set us" "i + length bs \<le> snd x"
  then obtain fs where at: "heap_at m fs us" unfolding used_heap_def by blast
  show "\<exists>m'. store_bytes m (u64 (fst x + 24 + i)) bs = Inr m' \<and> used_heap m' us \<and>
    data_of m' x = splice_at i bs (data_of m x) \<and>
    (\<forall>y \<in> set us. y \<noteq> x \<longrightarrow> data_of m' y = data_of m y)"
    by (rule write_works [OF at x])
next
  fix m us x and as s bs :: "byte list"
  assume "used_heap m us" and x: "x \<in> set us" "data_of m x = as @ s @ 0 # bs" "0 \<notin> set s"
  then obtain fs where at: "heap_at m fs us" unfolding used_heap_def by blast
  show "c_string m (u64 (fst x + 24 + length as)) = Inr s"
    by (rule c_string_works [OF at x])
qed

end
