(* ===== verification/Buffer_Runs.thy ===== *)
theory Buffer_Runs
  imports Allocator
begin

text \<open>
  Sequences of calls on one buffer. A heap is determined by the addresses its free blocks occupy, so
  freeing what was just allocated restores the free list. \<open>buffer_run\<close> is the set of memories that
  calls of \<open>alloc\<close>, \<open>free\<close> and writes to allocated blocks can reach from a new buffer; all of them
  hold a heap.
\<close>

section \<open>Free lists are canonical\<close>

lemma gap_hd:
  assumes "sorted_wrt gap (x # xs)"
  shows "fst x \<in> extents (x # xs)" "\<forall>a \<in> extents (x # xs). fst x \<le> a"
    "fst x + 24 + snd x \<notin> extents (x # xs)"
  using assms by (auto simp: extents_def extent_def gap_def)

lemma gap_tl: "sorted_wrt gap (x # xs) \<Longrightarrow> extents xs = extents (x # xs) - extent x"
  by (auto simp: extents_def extent_def gap_def)

lemma gap_canonical:
  "sorted_wrt gap xs \<Longrightarrow> sorted_wrt gap ys \<Longrightarrow> extents xs = extents ys \<Longrightarrow> xs = ys"
proof (induction xs arbitrary: ys)
  case Nil
  then show ?case by (cases ys) (auto simp: extent_def)
next
  case (Cons x xs)
  have "extents (x # xs) \<noteq> {}" using gap_hd(1) [OF Cons.prems(1)] by blast
  then obtain y ys' where ys: "ys = y # ys'" using Cons.prems(3) by (cases ys) auto
  note hx = gap_hd [OF Cons.prems(1)] and hy = gap_hd [OF Cons.prems(2) [unfolded ys]]
  have eq: "extents (x # xs) = extents (y # ys')" using Cons.prems(3) ys by simp
  have f: "fst x = fst y" using hx(1,2) hy(1,2) eq by (metis order_antisym)
  have "snd x = snd y"
  proof (rule ccontr)
    assume "snd x \<noteq> snd y"
    then consider "snd x < snd y" | "snd y < snd x" by linarith
    then show False
    proof cases
      case 1
      then have "fst x + 24 + snd x \<in> extent y" by (simp add: extent_def f)
      then show False using hx(3) eq by (metis UnI1 extents_simps(2))
    next
      case 2
      then have "fst y + 24 + snd y \<in> extent x" by (simp add: extent_def f)
      then show False using hy(3) eq by (metis UnI1 extents_simps(2))
    qed
  qed
  with f have xy: "x = y" by (simp add: prod_eq_iff)
  moreover have "xs = ys'"
  proof (rule Cons.IH)
    show "sorted_wrt gap xs" "sorted_wrt gap ys'" using Cons.prems(1,2) by (simp_all add: ys)
    show "extents xs = extents ys'"
      unfolding gap_tl [OF Cons.prems(1)] gap_tl [OF Cons.prems(2) [unfolded ys]] using eq xy by simp
  qed
  ultimately show ?case by (simp add: ys)
qed

lemma spec_alloc_free:
  assumes ok: "heap_ok L fs us" and al: "spec_alloc n fs us = Some (fs', us', p)"
  shows "spec_free p fs' us' = Some (fs, us)"
proof -
  obtain ys b s zs where fs: "fs = ys @ (b, s) # zs" and p: "p = b + 24"
    and res: "if n + 124 \<le> s
      then fs' = spec_insert (b + 24 + n, s - n - 24) (ys @ zs) \<and> us' = (b, n) # us
      else fs' = ys @ zs \<and> us' = (b, s) # us"
    using al unfolding spec_alloc_Some by blast
  obtain x where us': "us' = x # us" "fst x = b" and ext: "extent x \<union> extents fs' = extents fs"
  proof (cases "n + 124 \<le> s")
    case True
    have "extent (b, n) \<union> extent (b + 24 + n, s - n - 24) = extent (b, s)"
      using True by (auto simp: extent_def)
    then show thesis using res True by (intro that [of "(b, n)"]) (auto simp: fs)
  next
    case False
    then show thesis using res by (intro that [of "(b, s)"]) (auto simp: fs)
  qed
  have fr: "spec_free p fs' us' = Some (spec_insert x fs', us)"
    unfolding spec_free_Some by (intro exI [of _ "[]"] exI [of _ x] exI [of _ us]) (simp add: us' p)
  have "heap_ok L (spec_insert x fs') us"
    using spec_free_ok [OF spec_alloc_ok [OF ok al] fr] .
  then have "spec_insert x fs' = fs"
    using ok ext by (intro gap_canonical) (simp_all add: heap_ok_def)
  with fr show ?thesis by simp
qed

section \<open>Reachable memories\<close>

definition live_blocks :: "mapping \<Rightarrow> (u64 option \<times> u64) list res" where
  "live_blocks m = and_then (begin_used m) (for_blocks (length m) m)"

inductive buffer_run :: "mapping \<Rightarrow> bool" where
  created: "40 \<le> N \<Longrightarrow> N < 2 ^ 31 \<Longrightarrow> buffer_run (fresh_buffer (replicate N 0))"
| allocated: "buffer_run m \<Longrightarrow> clean_for m n \<Longrightarrow> n < 2 ^ 64 \<Longrightarrow> alloc (u64 n) m = Inr (m', r) \<Longrightarrow> buffer_run m'"
| freed: "buffer_run m \<Longrightarrow> live_blocks m = Inr bs \<Longrightarrow> (Some p, s) \<in> set bs \<Longrightarrow> free p m = Inr m' \<Longrightarrow>
    buffer_run m'"
| written: "buffer_run m \<Longrightarrow> live_blocks m = Inr bs \<Longrightarrow> (Some p, s) \<in> set bs \<Longrightarrow>
    i + length xs \<le> unat s \<Longrightarrow> store_bytes m (p + u64 i) xs = Inr m' \<Longrightarrow> buffer_run m'"

lemma live_blocks_heap:
  "heap_at m fs us \<Longrightarrow> live_blocks m = Inr (map (\<lambda>(b, s). (Some (u64 (b + 24)), u64 s)) us)"
  using for_used [of m fs us] by (simp add: live_blocks_def)

lemma live_block:
  assumes "heap_at m fs us" and "live_blocks m = Inr bs" and "(Some p, s) \<in> set bs"
  shows "\<exists>x \<in> set us. p = u64 (fst x + 24) \<and> unat s = snd x"
proof -
  obtain x where x: "x \<in> set us" "p = u64 (fst x + 24)" "s = u64 (snd x)"
    using assms live_blocks_heap [OF assms(1)] by auto
  moreover have "unat (u64 (snd x)) = snd x"
    using heap_at_block [OF assms(1) x(1)] by (intro u64_unat) simp
  ultimately show ?thesis by auto
qed

lemma buffer_run_heap: "buffer_run m \<Longrightarrow> \<exists>fs us. heap_at m fs us"
proof (induction rule: buffer_run.induct)
  case (created N)
  then show ?case using fresh_buffer_heap [of "replicate N 0"] by fastforce
next
  case (allocated m n m' r)
  then obtain fs us where at: "heap_at m fs us" by blast
  show ?case
  proof (cases "spec_alloc n fs us")
    case None
    then show ?thesis using alloc_refines_None [OF at allocated.hyps(3)] allocated.hyps(4) at by auto
  next
    case (Some q)
    then obtain fs' us' p where "spec_alloc n fs us = Some (fs', us', p)" by (cases q) auto
    from alloc_refines_Some [OF at allocated.hyps(3) _ this] allocated.hyps(2,4) clean_for_iff [OF at]
    show ?thesis by auto
  qed
next
  case (freed m bs p s m')
  then obtain fs us where at: "heap_at m fs us" by blast
  obtain x where x: "x \<in> set us" "p = u64 (fst x + 24)" using live_block [OF at freed.hyps(2,3)] by blast
  from free_works [OF at x(1)] freed.hyps(4) [unfolded x(2)] show ?case
    unfolding used_heap_def by auto
next
  case (written m bs p s i xs m')
  then obtain fs us where at: "heap_at m fs us" by blast
  obtain x where x: "x \<in> set us" "p = u64 (fst x + 24)" "unat s = snd x"
    using live_block [OF at written.hyps(2,3)] by blast
  have "p + u64 i = u64 (fst x + 24 + i)" by (simp add: x(2))
  with write_works [OF at x(1)] written.hyps(4,5) x(3) show ?case unfolding used_heap_def by fastforce
qed

end
