(* ===== verification/Table_Refinement.thy ===== *)
theory Table_Refinement
  imports Allocator "HOL-Library.AList"
begin

text \<open>
  The hash table implements a map from keys to values. \<open>table_rep\<close> relates a table to the list of
  the pairs in its buckets, the blocks that hold them, and the chain of each slot; \<open>table_at\<close> adds
  that the keys are distinct, that each is in the chain of its own slot, and that every used block
  of the buffer belongs to a bucket. The proofs use the buffer through the interface of theory
  \<open>Allocator\<close> only.
\<close>

section \<open>What a block holds\<close>

abbreviation upto_nul :: "str \<Rightarrow> str" where
  "upto_nul s \<equiv> takeWhile (\<lambda>c. c \<noteq> 0) s"

definition holds :: "mapping \<Rightarrow> block \<Rightarrow> str \<times> str \<Rightarrow> bool" where
  "holds m x kv \<longleftrightarrow> 0 \<notin> set (fst kv) \<and> 0 \<notin> set (snd kv) \<and>
    (\<exists>r. data_of m x = fst kv @ 0 # snd kv @ 0 # r)"

abbreviation pointer_of :: "block \<Rightarrow> u64" where
  "pointer_of x \<equiv> u64 (fst x + 24)"

lemma upto_nul_free: "0 \<notin> set (upto_nul s)"
  by (auto dest: set_takeWhileD)

lemma upto_nul_id: "0 \<notin> set s \<Longrightarrow> upto_nul s = s"
  using takeWhile_eq_all_conv [of "\<lambda>c. c \<noteq> 0" s] by metis

lemma strncpy_bytes_shape:
  "\<exists>z. strncpy_bytes s (length s + 1) = upto_nul s @ 0 # replicate z 0 \<and>
    length (upto_nul s) + 1 + z = length s + 1"
proof -
  have "takeWhile (\<lambda>c. c \<noteq> 0) (take (length s + 1) (s @ [0])) = upto_nul s"
    by (simp add: takeWhile_tail)
  moreover have "length (upto_nul s) \<le> length s" by (rule length_takeWhile_le)
  then obtain z where "length s + 1 - length (upto_nul s) = Suc z" "length (upto_nul s) + z = length s"
    by (metis Suc_diff_le add_diff_inverse_nat leD Suc_eq_plus1)
  ultimately show ?thesis by (intro exI [of _ z]) (simp add: strncpy_bytes_def Let_def)
qed

lemma holds_key:
  assumes "used_heap m us" and "x \<in> set us" and "holds m x (k, v)"
  shows "c_string m (pointer_of x) = Inr k"
  using al.str_works [OF assms(1,2), of "[]" k] assms(3) by (auto simp: holds_def)

lemma holds_value:
  assumes "used_heap m us" and "x \<in> set us" and "holds m x (k, v)"
  shows "c_string m (pointer_of x + u64 (length k) + 1) = Inr v"
proof -
  obtain r where "data_of m x = (k @ [0]) @ v @ 0 # r" "0 \<notin> set v"
    using assms(3) by (auto simp: holds_def)
  from al.str_works [OF assms(1,2) this] show ?thesis by (simp add: algebra_simps)
qed

lemma holds_cong: "data_of m' x = data_of m x \<Longrightarrow> holds m' x kv = holds m x kv"
  by (simp add: holds_def)

text \<open>Copying a key and a value to a block; what follows their first zero is cut off.\<close>

lemma copy_pair:
  assumes heap: "used_heap m us" and x: "x \<in> set us" and fit: "length k + length v + 2 \<le> snd x"
  shows "\<exists>m1 m2. strncpy (pointer_of x) k (length k + 1) m = Inr m1 \<and>
    strncpy (pointer_of x + u64 (length (upto_nul k)) + 1) v (length v + 1) m1 = Inr m2 \<and>
    copy_key_value (pointer_of x) k v m = Inr m2 \<and>
    used_heap m2 us \<and> holds m2 x (upto_nul k, upto_nul v) \<and>
    (\<forall>y \<in> set us. y \<noteq> x \<longrightarrow> data_of m2 y = data_of m y)"
proof -
  let ?k = "upto_nul k" and ?v = "upto_nul v"
  obtain y where y: "strncpy_bytes k (length k + 1) = ?k @ 0 # replicate y 0"
    "length ?k + 1 + y = length k + 1" using strncpy_bytes_shape by blast
  obtain z where z: "strncpy_bytes v (length v + 1) = ?v @ 0 # replicate z 0"
    "length ?v + 1 + z = length v + 1" using strncpy_bytes_shape by blast
  have i: "length ?k + 1 \<le> length (?k @ 0 # replicate y 0)" by simp
  have f1: "length (?k @ 0 # replicate y 0) \<le> snd x" using y fit by simp
  have f2: "length ?k + 1 + length (?v @ 0 # replicate z 0) \<le> snd x" using y z fit by simp
  obtain m1 m2 r1 r2 where w1: "store_bytes m (pointer_of x) (?k @ 0 # replicate y 0) = Inr m1"
    and w2: "store_bytes m1 (u64 (fst x + 24 + (length ?k + 1))) (?v @ 0 # replicate z 0) = Inr m2"
    and heaps: "used_heap m1 us" "used_heap m2 us"
    and c1: "data_of m1 x = (?k @ 0 # replicate y 0) @ r1"
    and c2: "data_of m2 x = take (length ?k + 1) (?k @ 0 # replicate y 0) @ (?v @ 0 # replicate z 0) @ r2"
    and rest: "\<forall>y \<in> set us. y \<noteq> x \<longrightarrow> data_of m2 y = data_of m y"
    using al.fill_two [OF heap x i f1 f2] by blast
  have "c_string m1 (pointer_of x) = Inr ?k"
    using al.str_works [OF heaps(1) x, of "[]" ?k "replicate y 0 @ r1"] c1 upto_nul_free by simp
  moreover have "holds m2 x (?k, ?v)"
    using c2 by (auto simp: holds_def dest: set_takeWhileD)
  moreover have "pointer_of x + u64 (length ?k) + 1 = u64 (fst x + 24 + (length ?k + 1))"
    by (simp add: algebra_simps)
  ultimately show ?thesis
    using w1 w2 heaps rest y(1) z(1) by (simp add: strncpy_def strchr_end_def copy_key_value_def)
qed

section \<open>Tables\<close>

fun chain :: "bucket list \<Rightarrow> nat option \<Rightarrow> nat list \<Rightarrow> bool" where
  "chain bs p [] \<longleftrightarrow> p = None"
| "chain bs p (i # is) \<longleftrightarrow> p = Some i \<and> i < length bs \<and> chain bs (next_bucket (bs ! i)) is"

definition table_rep ::
  "hash_table \<Rightarrow> block list \<Rightarrow> block list \<Rightarrow> (str \<times> str) list \<Rightarrow> nat list list \<Rightarrow> bool" where
  "table_rep t us xs kvs cs \<longleftrightarrow>
    used_heap (memory t) us \<and> distinct xs \<and> set xs \<subseteq> set us \<and>
    map m_key_value_data (m_bucket_storage t) = map (\<lambda>x. Some (pointer_of x)) xs \<and>
    list_all2 (holds (memory t)) xs kvs \<and>
    m_hash_table t \<noteq> [] \<and> length cs = length (m_hash_table t) \<and>
    (\<forall>j < length cs. chain (m_bucket_storage t) (m_hash_table t ! j) (cs ! j) \<and>
      distinct (cs ! j) \<and> set (cs ! j) \<subseteq> {..< length kvs})"

definition table_at :: "(str \<Rightarrow> u64) \<Rightarrow> hash_table \<Rightarrow> (str \<times> str) list \<Rightarrow> bool" where
  "table_at hasher t kvs \<longleftrightarrow>
    (\<exists>us xs cs. table_rep t us xs kvs cs \<and> set xs = set us \<and> distinct (map fst kvs) \<and>
      (\<forall>i < length kvs. i \<in> set (cs ! slot_of hasher t (fst (kvs ! i)))))"

lemma table_atI:
  "table_rep t us xs kvs cs \<Longrightarrow> set xs = set us \<Longrightarrow> distinct (map fst kvs) \<Longrightarrow>
    \<forall>i < length kvs. i \<in> set (cs ! slot_of hasher t (fst (kvs ! i))) \<Longrightarrow> table_at hasher t kvs"
  unfolding table_at_def by blast

lemma chain_cong:
  "chain bs p is \<Longrightarrow> (\<And>i. i \<in> set is \<Longrightarrow> i < length bs \<Longrightarrow> i < length bs' \<and> next_bucket (bs' ! i) = next_bucket (bs ! i)) \<Longrightarrow>
    chain bs' p is"
  by (induction bs p "is" rule: chain.induct) auto

lemma table_rep_lengths:
  assumes "table_rep t us xs kvs cs"
  shows "length xs = length kvs" "length (m_bucket_storage t) = length kvs"
  using assms list_all2_lengthD arg_cong [of _ _ length] unfolding table_rep_def
  by (metis, metis length_map)

lemma table_rep_block:
  assumes rep: "table_rep t us xs kvs cs" and i: "i < length kvs"
  shows "xs ! i \<in> set us" "holds (memory t) (xs ! i) (kvs ! i)"
    "bucket_at t i = Inr (m_bucket_storage t ! i)"
    "m_key_value_data (m_bucket_storage t ! i) = Some (pointer_of (xs ! i))"
proof -
  note len = table_rep_lengths [OF rep]
  show "xs ! i \<in> set us" using rep i len by (auto simp: table_rep_def)
  show "holds (memory t) (xs ! i) (kvs ! i)"
    using rep i by (auto simp: table_rep_def list_all2_conv_all_nth)
  show "bucket_at t i = Inr (m_bucket_storage t ! i)" using i len by (simp add: bucket_at_def)
  have "map m_key_value_data (m_bucket_storage t) ! i = map (\<lambda>x. Some (pointer_of x)) xs ! i"
    using rep by (simp only: table_rep_def)
  then show "m_key_value_data (m_bucket_storage t ! i) = Some (pointer_of (xs ! i))"
    using i len by simp
qed

lemma table_rep_read:
  assumes rep: "table_rep t us xs kvs cs" and i: "i < length kvs"
  shows "\<exists>p q. KeyValuePair_get t i = Inr (p, q) \<and> c_string (memory t) p = Inr (fst (kvs ! i)) \<and>
    c_string (memory t) q = Inr (snd (kvs ! i))"
proof -
  have heap: "used_heap (memory t) us" using rep by (simp only: table_rep_def)
  obtain k v where kv: "kvs ! i = (k, v)" by (cases "kvs ! i")
  note b = table_rep_block [OF rep i, unfolded kv]
  show ?thesis
    using holds_key [OF heap b(1,2)] holds_value [OF heap b(1,2)] b(3,4)
    by (simp add: KeyValuePair_get_def strchr_end_def kv)
qed

section \<open>Searching\<close>

lemma find_in_chain_exec:
  assumes rep: "table_rep t us xs kvs cs" and "chain (m_bucket_storage t) (Some c) is"
    and "set is \<subseteq> {..< length kvs}" and "length is \<le> fuel"
  shows "find_in_chain fuel t key c = Inr (List.find (\<lambda>i. fst (kvs ! i) = key) is)"
  using assms(2-)
proof (induction "is" arbitrary: c fuel)
  case Nil
  then show ?case by simp
next
  case (Cons i "is")
  then obtain fuel' where fuel: "fuel = Suc fuel'" by (cases fuel) auto
  have c: "c = i" "i < length kvs" "chain (m_bucket_storage t) (next_bucket (m_bucket_storage t ! i)) is"
    using Cons.prems by auto
  obtain p q where read: "KeyValuePair_get t i = Inr (p, q)" "c_string (memory t) p = Inr (fst (kvs ! i))"
    using table_rep_read [OF rep c(2)] by blast
  show ?case
  proof (cases "next_bucket (m_bucket_storage t ! i)")
    case None
    then have "is = []" using c(3) by (cases "is") auto
    then show ?thesis using read None table_rep_block(3) [OF rep c(2)] by (simp add: fuel c(1))
  next
    case (Some d)
    have "find_in_chain fuel' t key d = Inr (List.find (\<lambda>i. fst (kvs ! i) = key) is)"
      using Cons c(3) Some fuel by (intro Cons.IH) auto
    then show ?thesis using read Some table_rep_block(3) [OF rep c(2)] by (simp add: fuel c(1))
  qed
qed

lemma slot_bound: "table_rep t us xs kvs cs \<Longrightarrow> slot_of hasher t key < length cs"
  by (simp add: table_rep_def slot_of_def)

lemma find_bucket_exec:
  assumes rep: "table_rep t us xs kvs cs"
  shows "find_bucket_with_key hasher t key =
    Inr (List.find (\<lambda>i. fst (kvs ! i) = key) (cs ! slot_of hasher t key), slot_of hasher t key)"
proof -
  define j where "j = slot_of hasher t key"
  have j: "chain (m_bucket_storage t) (m_hash_table t ! j) (cs ! j)" "distinct (cs ! j)"
    "set (cs ! j) \<subseteq> {..< length kvs}"
    using rep slot_bound [OF rep, of hasher key] by (simp_all add: table_rep_def j_def)
  show ?thesis
  proof (cases "m_hash_table t ! j")
    case None
    then have "cs ! j = []" using j(1) by (cases "cs ! j") auto
    then show ?thesis using None by (simp add: find_bucket_with_key_def j_def [symmetric])
  next
    case (Some c)
    have "length (cs ! j) = card (set (cs ! j))" using j(2) by (simp add: distinct_card)
    also have "\<dots> \<le> length kvs" using card_mono [OF _ j(3)] by simp
    finally have "length (cs ! j) \<le> Suc (length (m_bucket_storage t))"
      using table_rep_lengths [OF rep] by simp
    with find_in_chain_exec [OF rep _ j(3)] j(1) Some show ?thesis
      by (simp add: find_bucket_with_key_def j_def [symmetric] del: find_in_chain.simps)
  qed
qed

lemma get_exec:
  assumes rep: "table_rep t us xs kvs cs"
  shows "get hasher key t =
    Inr (case List.find (\<lambda>i. fst (kvs ! i) = key) (cs ! slot_of hasher t key) of
           None \<Rightarrow> [] | Some i \<Rightarrow> snd (kvs ! i))"
proof (cases "List.find (\<lambda>i. fst (kvs ! i) = key) (cs ! slot_of hasher t key)")
  case None
  then show ?thesis by (simp add: get_def find_bucket_exec [OF rep])
next
  case (Some i)
  then have "i \<in> set (cs ! slot_of hasher t key)" by (auto simp: find_Some_iff)
  then have "i < length kvs"
    using rep slot_bound [OF rep, of hasher key] by (auto simp: table_rep_def)
  from table_rep_read [OF rep this] Some show ?thesis
    by (auto simp: get_def find_bucket_exec [OF rep])
qed

text \<open>In a table with distinct keys, each in its slot, the search finds the one pair with the key.\<close>

lemma find_slot:
  assumes "distinct (map fst kvs)" and "\<forall>i < length kvs. i \<in> set (cs ! slot_of hasher t (fst (kvs ! i)))"
    and "set (cs ! slot_of hasher t key) \<subseteq> {..< length kvs}"
  obtains (found) i where "i < length kvs" "fst (kvs ! i) = key"
      "List.find (\<lambda>i. fst (kvs ! i) = key) (cs ! slot_of hasher t key) = Some i"
    | (absent) "key \<notin> fst ` set kvs"
      "List.find (\<lambda>i. fst (kvs ! i) = key) (cs ! slot_of hasher t key) = None"
proof (cases "List.find (\<lambda>i. fst (kvs ! i) = key) (cs ! slot_of hasher t key)")
  case None
  have "key \<noteq> fst (kvs ! i)" if "i < length kvs" for i
    using None assms(2) that by (auto simp: find_None_iff)
  then have "key \<notin> fst ` set kvs" unfolding set_conv_nth by fastforce
  then show ?thesis using None by (rule absent)
next
  case (Some i)
  then have "i \<in> set (cs ! slot_of hasher t key)" "fst (kvs ! i) = key" by (auto simp: find_Some_iff)
  then show ?thesis using Some assms(3) by (intro found [of i]) auto
qed

text \<open>A string with a zero byte equals no C string, so the search never finds it.\<close>

lemma find_nul:
  assumes rep: "table_rep t us xs kvs cs" and nul: "0 \<in> set key"
  shows "List.find (\<lambda>i. fst (kvs ! i) = key) (cs ! slot_of hasher t key) = None"
proof -
  have "fst (kvs ! i) \<noteq> key" if "i \<in> set (cs ! slot_of hasher t key)" for i
  proof -
    have "i < length kvs" using rep slot_bound [OF rep, of hasher key] that by (auto simp: table_rep_def)
    from table_rep_block(2) [OF rep this] nul show ?thesis by (auto simp: holds_def)
  qed
  then show ?thesis by (simp add: find_None_iff)
qed

section \<open>Iterating\<close>

lemma table_loop_exec:
  assumes rep: "table_rep t us xs kvs cs" and "i \<le> length kvs" and "length kvs \<le> i + fuel"
  shows "table_loop fuel t i = Inr (drop i kvs)"
  using assms(2,3)
proof (induction fuel arbitrary: i)
  case 0
  then show ?case
    using table_rep_lengths(2) [OF rep] by (simp add: table_loop.simps end_table_def)
next
  case (Suc fuel)
  note len = table_rep_lengths(2) [OF rep]
  show ?case
  proof (cases "i = length kvs")
    case True
    then show ?thesis using len by (simp add: table_loop.simps end_table_def)
  next
    case False
    then have i: "i < length kvs" using Suc.prems(1) by simp
    have "table_deref t i = Inr (kvs ! i)"
      using table_rep_read [OF rep i] by (auto simp: table_deref_def)
    moreover have "table_loop fuel t (Suc i) = Inr (drop (Suc i) kvs)"
      using Suc.prems i by (intro Suc.IH) auto
    ultimately show ?thesis
      using i len by (simp add: table_loop.simps [of "Suc fuel" t i] end_table_def table_next_def Cons_nth_drop_Suc)
  qed
qed

lemma for_table_exec:
  assumes rep: "table_rep t us xs kvs cs"
  shows "for_table t (begin_table t) = Inr kvs"
  using table_loop_exec [OF rep, of 0] table_rep_lengths(2) [OF rep] by (simp add: for_table_def begin_table_def)

section \<open>Writing\<close>

text \<open>The memory may change, as long as the blocks of the buckets stay used and keep their data.\<close>

lemma table_rep_memory:
  assumes "table_rep t us xs kvs cs" and "used_heap m us'" and "set xs \<subseteq> set us'"
    and "\<forall>x \<in> set xs. data_of m x = data_of (memory t) x"
  shows "table_rep (with_memory t m) us' xs kvs cs"
proof -
  have "list_all2 (holds m) xs kvs"
    using assms(1,4) by (auto simp: table_rep_def list_all2_conv_all_nth holds_def)
  then show ?thesis using assms by (simp add: table_rep_def)
qed

text \<open>A bucket gets a pointer to another block.\<close>

lemma replace_pointer:
  assumes rep: "table_rep t us xs kvs cs" and i: "i < length kvs" and x: "x \<in> set us" "x \<notin> set xs"
    and kv: "holds (memory t) x kv"
  shows "table_rep (t\<lparr>m_bucket_storage :=
      (m_bucket_storage t)[i := (m_bucket_storage t ! i)\<lparr>m_key_value_data := Some (pointer_of x)\<rparr>]\<rparr>)
    us (xs[i := x]) (kvs[i := kv]) cs"
proof -
  note len = table_rep_lengths [OF rep]
  let ?bs = "(m_bucket_storage t)[i := (m_bucket_storage t ! i)\<lparr>m_key_value_data := Some (pointer_of x)\<rparr>]"
  have dist: "distinct xs" "set xs \<subseteq> set us" using rep by (simp_all add: table_rep_def)
  have new: "distinct (xs[i := x])" "set (xs[i := x]) \<subseteq> set us"
    using dist x set_update_subset_insert [of xs i x] by (auto simp: distinct_list_update)
  have holds: "list_all2 (holds (memory t)) (xs[i := x]) (kvs[i := kv])"
    using rep kv by (simp add: table_rep_def list_all2_update_cong)
  have ptrs: "map m_key_value_data ?bs = map (\<lambda>x. Some (pointer_of x)) (xs[i := x])"
    using rep by (simp add: table_rep_def map_update)
  have chains: "chain ?bs p is" if "chain (m_bucket_storage t) p is" for p "is"
    by (rule chain_cong [OF that]) (use i len in \<open>auto simp: nth_list_update\<close>)
  show ?thesis using rep new holds ptrs chains by (simp add: table_rep_def)
qed

text \<open>With the pointer of a bucket that had one, the old block goes back to the buffer.\<close>

lemma set_pointer_old:
  assumes rep: "table_rep t us xs kvs cs" and i: "i < length kvs" and x: "x \<in> set us" "x \<notin> set xs"
    and kv: "holds (memory t) x kv"
  shows "\<exists>t'. KeyValuePair_set_pointer i (pointer_of x) t = Inr t' \<and>
    table_rep t' (remove1 (xs ! i) us) (xs[i := x]) (kvs[i := kv]) cs \<and>
    m_hash_table t' = m_hash_table t"
proof -
  note len = table_rep_lengths [OF rep] and old = table_rep_block [OF rep i]
  have heap: "used_heap (memory t) us" and dist: "distinct xs" "set xs \<subseteq> set us"
    using rep by (simp_all add: table_rep_def)
  let ?t = "t\<lparr>m_bucket_storage :=
    (m_bucket_storage t)[i := (m_bucket_storage t ! i)\<lparr>m_key_value_data := Some (pointer_of x)\<rparr>]\<rparr>"
  obtain m' where m': "free (pointer_of (xs ! i)) (memory ?t) = Inr m'"
    and heap': "used_heap m' (remove1 (xs ! i) us)"
    and rest: "\<forall>y \<in> set us. y \<noteq> xs ! i \<longrightarrow> data_of m' y = data_of (memory ?t) y"
    using al.release_works [OF heap old(1)] by auto
  have "distinct us" using al.heap_distinct [OF heap] by (simp add: distinct_map)
  have "set (xs[i := x]) = insert x (set xs - {xs ! i})"
    using dist(1) i len(1) by (simp add: set_update_distinct)
  moreover have "x \<noteq> xs ! i" using x(2) i len(1) by auto
  ultimately have "set (xs[i := x]) \<subseteq> set us - {xs ! i}" using dist(2) x(1) by auto
  then have "table_rep (with_memory ?t m') (remove1 (xs ! i) us) (xs[i := x]) (kvs[i := kv]) cs"
    using rest \<open>distinct us\<close> by (intro table_rep_memory [OF replace_pointer [OF rep i x kv] heap']) auto
  moreover have "KeyValuePair_set_pointer i (pointer_of x) t = Inr (with_memory ?t m')"
    using old(3,4) m' by (simp add: KeyValuePair_set_pointer_def BufferFreer_def)
  ultimately show ?thesis by (intro exI [of _ "with_memory ?t m'"]) simp
qed

text \<open>
  A new bucket: it gets the pointer, which frees nothing, and then goes to the front of the chain of
  a slot.
\<close>

lemma set_pointer_new:
  assumes rep: "table_rep t us xs kvs cs" and x: "x \<in> set us" "x \<notin> set xs"
    and kv: "holds (memory t) x kv" and j: "j < length cs"
  defines "n \<equiv> length kvs"
  shows "\<exists>t'. KeyValuePair_set_pointer n (pointer_of x) (t\<lparr>m_bucket_storage := m_bucket_storage t @ [Bucket]\<rparr>)
      = Inr t' \<and> memory t' = memory t \<and> m_hash_table t' = m_hash_table t \<and>
    KeyValuePair_get t' n = KeyValuePair_get (store_bucket n j t') n \<and>
    table_rep (store_bucket n j t') us (xs @ [x]) (kvs @ [kv]) (cs[j := n # cs ! j])"
proof -
  note len = table_rep_lengths [OF rep]
  let ?b = "\<lparr>next_bucket = None, m_key_value_data = Some (pointer_of x)\<rparr>"
  let ?t = "t\<lparr>m_bucket_storage := m_bucket_storage t @ [?b]\<rparr>"
  let ?bs = "m_bucket_storage t @ [?b\<lparr>next_bucket := m_hash_table t ! j\<rparr>]"
  have st: "store_bucket n j ?t =
    t\<lparr>m_bucket_storage := ?bs, m_hash_table := (m_hash_table t)[j := Some n]\<rparr>"
    using len by (simp add: store_bucket_def n_def list_update_append nth_append)
  have chains: "chain ?bs p is" if "chain (m_bucket_storage t) p is" for p "is"
    by (rule chain_cong [OF that]) (auto simp: nth_append)
  have cs: "chain (m_bucket_storage t) (m_hash_table t ! l) (cs ! l)" "distinct (cs ! l)"
    "set (cs ! l) \<subseteq> {..< n}" if "l < length cs" for l
    using rep that by (simp_all add: table_rep_def n_def)
  have "chain ?bs ((m_hash_table t)[j := Some n] ! l) (cs[j := n # cs ! j] ! l) \<and>
    distinct (cs[j := n # cs ! j] ! l) \<and> set (cs[j := n # cs ! j] ! l) \<subseteq> {..< length (kvs @ [kv])}"
    if l: "l < length cs" for l
  proof (cases "l = j")
    case True
    have "n \<notin> set (cs ! j)" "\<forall>i \<in> set (cs ! j). i < Suc n" using cs(3) [OF j] by auto
    moreover have "n < length ?bs" "?bs ! n = ?b\<lparr>next_bucket := m_hash_table t ! j\<rparr>"
      using len by (simp_all add: n_def nth_append)
    ultimately show ?thesis
      using True j cs [OF j] chains [of "m_hash_table t ! j"] rep
      by (auto simp: n_def [symmetric] table_rep_def subset_iff)
  next
    case False
    then show ?thesis using cs [OF l] chains [of "m_hash_table t ! l"] by (auto simp: n_def)
  qed
  then have "table_rep (store_bucket n j ?t) us (xs @ [x]) (kvs @ [kv]) (cs[j := n # cs ! j])"
    using rep x kv unfolding st by (auto simp: table_rep_def list_all2_appendI)
  moreover have "KeyValuePair_set_pointer n (pointer_of x)
      (t\<lparr>m_bucket_storage := m_bucket_storage t @ [Bucket]\<rparr>) = Inr ?t"
    using len by (simp add: KeyValuePair_set_pointer_def bucket_at_def n_def Bucket_def nth_append
      list_update_append)
  moreover have "KeyValuePair_get ?t n = KeyValuePair_get (store_bucket n j ?t) n"
    unfolding st using len by (simp add: KeyValuePair_get_def bucket_at_def n_def nth_append)
  ultimately show ?thesis by (intro exI [of _ ?t]) simp
qed

lemma buffer_storage_commute:
  "t\<lparr>m_bucket_storage := bs, m_buffer := b\<rparr> = t\<lparr>m_buffer := b, m_bucket_storage := bs\<rparr>"
  by (cases t) simp

text \<open>
  \<open>put\<close> replaces the pair that the search finds, or else adds one at the front of the chain of the
  key's slot.
\<close>

lemma put_exec:
  fixes hasher
  assumes rep: "table_rep t us xs kvs cs" and n: "length key + length val + 2 < 2 ^ 64"
    and room: "has_room (memory t) (length key + length val + 2)"
    and clean: "clean_for (memory t) (length key + length val + 2)"
  defines "j \<equiv> slot_of hasher t key" and "kv \<equiv> (upto_nul key, upto_nul val)"
  shows "\<exists>t' x. put hasher key val t = Inr (t', True) \<and> m_hash_table t' \<noteq> [] \<and>
    length (m_hash_table t') = length (m_hash_table t) \<and> x \<notin> set us \<and>
    (case List.find (\<lambda>i. fst (kvs ! i) = key) (cs ! j) of
       Some i \<Rightarrow> table_rep t' (remove1 (xs ! i) (x # us)) (xs[i := x]) (kvs[i := kv]) cs
     | None \<Rightarrow> table_rep t' (x # us) (xs @ [x]) (kvs @ [kv]) (cs[j := length kvs # cs ! j]))"
proof -
  let ?n = "length key + length val + 2"
  have heap: "used_heap (memory t) us" and sub: "set xs \<subseteq> set us"
    using rep by (simp_all add: table_rep_def)
  obtain m' b s where al: "alloc (u64 ?n) (memory t) = Inr (m', Some (u64 (b + 24)))" "?n \<le> s"
    and heap': "used_heap m' ((b, s) # us)" and keep: "\<forall>x \<in> set us. data_of m' x = data_of (memory t) x"
    using al.acquire_works [OF heap n room clean] by blast
  let ?x = "(b, s)" and ?us = "(b, s) # us" and ?t = "with_memory t m'"
  have new: "?x \<notin> set us" using al.fresh_block [OF heap'] by blast
  have rep1: "table_rep ?t ?us xs kvs cs"
    using sub keep by (intro table_rep_memory [OF rep heap']) auto
  have size: "u64 (length key + 1 + length val + 1) = u64 ?n" by simp
  have j: "j < length cs" using slot_bound [OF rep] by (simp add: j_def)
  have find: "find_bucket_with_key hasher ?t key = Inr (List.find (\<lambda>i. fst (kvs ! i) = key) (cs ! j), j)"
    using find_bucket_exec [OF rep1, of hasher key] by (simp add: j_def slot_of_def)
  have x: "?x \<in> set ?us" "?n \<le> snd ?x" "?x \<notin> set xs" using new sub al(2) by auto
  obtain m2 where heap2: "used_heap m2 ?us" and kv: "holds m2 ?x kv"
    and rest: "\<forall>y \<in> set ?us. y \<noteq> ?x \<longrightarrow> data_of m2 y = data_of m' y"
    and set: "\<And>i t. memory t = m' \<Longrightarrow> KeyValuePair_set i (pointer_of ?x) key val t =
      KeyValuePair_set_pointer i (pointer_of ?x) (with_memory t m2)"
  proof -
    obtain m2 where "copy_key_value (pointer_of ?x) key val m' = Inr m2"
      "used_heap m2 ?us" "holds m2 ?x (upto_nul key, upto_nul val)"
      "\<forall>y \<in> set ?us. y \<noteq> ?x \<longrightarrow> data_of m2 y = data_of m' y"
      using copy_pair [OF heap' x(1,2)] by blast
    then show ?thesis by (intro that [of m2]) (simp_all add: KeyValuePair_set_def kv_def)
  qed
  have "\<forall>y \<in> set xs. data_of m2 y = data_of m' y" using rest x(3) sub by auto
  then have rep2: "table_rep (with_memory ?t m2) ?us xs kvs cs"
    using sub by (intro table_rep_memory [OF rep1 heap2]) auto
  have put: "put hasher key val t = (case List.find (\<lambda>i. fst (kvs ! i) = key) (cs ! j) of
      None \<Rightarrow> and_then (KeyValuePair_set_pointer (length kvs) (pointer_of ?x)
          ((with_memory ?t m2)\<lparr>m_bucket_storage := m_bucket_storage t @ [Bucket]\<rparr>))
          (\<lambda>t. Inr (store_bucket (length kvs) j t, True))
    | Some i \<Rightarrow> and_then (KeyValuePair_set_pointer i (pointer_of ?x) (with_memory ?t m2)) (\<lambda>t. Inr (t, True)))"
    using table_rep_lengths(2) [OF rep] set [of ?t] set [of "?t\<lparr>m_bucket_storage := m_bucket_storage t @ [Bucket]\<rparr>"]
    unfolding put_def Let_def size al(1)
    by (simp add: find get_new_bucket_def buffer_storage_commute del: of_nat_add split: option.splits)
  have kv': "holds (memory (with_memory ?t m2)) ?x kv" using kv by simp
  show ?thesis
  proof (cases "List.find (\<lambda>i. fst (kvs ! i) = key) (cs ! j)")
    case None
    from set_pointer_new [OF rep2 x(1,3) kv' j] obtain t' where
      "KeyValuePair_set_pointer (length kvs) (pointer_of ?x)
        ((with_memory ?t m2)\<lparr>m_bucket_storage := m_bucket_storage t @ [Bucket]\<rparr>) = Inr t'"
      "m_hash_table t' = m_hash_table t"
      and r: "table_rep (store_bucket (length kvs) j t') ?us (xs @ [?x]) (kvs @ [kv]) (cs[j := length kvs # cs ! j])"
      by auto
    moreover from r have "m_hash_table (store_bucket (length kvs) j t') \<noteq> []" by (simp add: table_rep_def)
    ultimately show ?thesis using put None new
      by (intro exI [of _ "store_bucket (length kvs) j t'"] exI [of _ ?x]) (simp add: store_bucket_def)
  next
    case (Some i)
    then have "i \<in> set (cs ! j)" by (auto simp: find_Some_iff)
    then have i: "i < length kvs" using rep j by (auto simp: table_rep_def)
    from set_pointer_old [OF rep2 i x(1,3) kv'] obtain t' where
      "KeyValuePair_set_pointer i (pointer_of ?x) (with_memory ?t m2) = Inr t'"
      and r: "table_rep t' (remove1 (xs ! i) ?us) (xs[i := ?x]) (kvs[i := kv]) cs"
      and "m_hash_table t' = m_hash_table t" by auto
    moreover from r have "m_hash_table t' \<noteq> []" by (simp add: table_rep_def)
    ultimately show ?thesis using put Some new
      by (intro exI [of _ t'] exI [of _ ?x]) simp
  qed
qed

lemma put_no_room:
  assumes rep: "table_rep t us xs kvs cs" and n: "length key + length val + 2 < 2 ^ 64"
    and room: "\<not> has_room (memory t) (length key + length val + 2)"
  shows "put hasher key val t = Inr (t, False)"
proof -
  have heap: "used_heap (memory t) us" using rep by (simp only: table_rep_def)
  have "u64 (length key + 1 + length val + 1) = u64 (length key + length val + 2)" by simp
  with al.acquire_fails [OF heap n room] show ?thesis
    by (simp add: put_def Let_def del: of_nat_add)
qed

section \<open>The table as a map\<close>

lemma update_at:
  assumes "distinct (map fst kvs)" and "i < length kvs" and "fst (kvs ! i) = k"
  shows "AList.update k v kvs = kvs[i := (k, v)]"
  using assms
proof (induction kvs arbitrary: i)
  case Nil
  then show ?case by simp
next
  case (Cons p kvs)
  show ?case
  proof (cases i)
    case 0
    then show ?thesis using Cons.prems by (cases p) simp
  next
    case (Suc j)
    then have "k \<in> set (map fst kvs)" using Cons.prems nth_mem [of j "map fst kvs"] by simp
    moreover have "fst p \<notin> set (map fst kvs)" using Cons.prems(1) by simp
    ultimately have "fst p \<noteq> k" by metis
    then show ?thesis using Cons Suc by (cases p) simp
  qed
qed

lemma update_new: "k \<notin> fst ` set kvs \<Longrightarrow> AList.update k v kvs = kvs @ [(k, v)]"
  by (induction kvs) auto

lemma get_pairs:
  assumes rep: "table_rep t us xs kvs cs" and dist: "distinct (map fst kvs)"
    and slots: "\<forall>i < length kvs. i \<in> set (cs ! slot_of hasher t (fst (kvs ! i)))"
  shows "get hasher key t = Inr (case map_of kvs key of None \<Rightarrow> [] | Some v \<Rightarrow> v)"
proof -
  have sub: "set (cs ! slot_of hasher t key) \<subseteq> {..< length kvs}"
    using rep slot_bound [OF rep, of hasher key] by (simp add: table_rep_def)
  from dist slots sub show ?thesis
  proof (cases rule: find_slot)
    case (found i)
    then have "map_of kvs key = Some (snd (kvs ! i))"
      using dist by (metis map_of_eq_Some_iff nth_mem prod.collapse)
    then show ?thesis using found by (simp add: get_exec [OF rep])
  next
    case absent
    then have "map_of kvs key = None" using map_of_eq_None_iff by fast
    then show ?thesis using absent by (simp add: get_exec [OF rep])
  qed
qed

lemma get_table:
  assumes "table_at hasher t kvs"
  shows "get hasher key t = Inr (case map_of kvs key of None \<Rightarrow> [] | Some v \<Rightarrow> v)"
  using assms get_pairs unfolding table_at_def by blast

lemma put_table:
  assumes at: "table_at hasher t kvs" and nul: "0 \<notin> set key"
    and n: "length key + length val + 2 < 2 ^ 64"
    and room: "has_room (memory t) (length key + length val + 2)"
    and clean: "clean_for (memory t) (length key + length val + 2)"
  shows "\<exists>t'. put hasher key val t = Inr (t', True) \<and>
    table_at hasher t' (AList.update key (upto_nul val) kvs)"
proof -
  obtain us xs cs where rep: "table_rep t us xs kvs cs" and dist: "distinct (map fst kvs)"
    and slots: "\<forall>i < length kvs. i \<in> set (cs ! slot_of hasher t (fst (kvs ! i)))"
    and all: "set xs = set us"
    using at unfolding table_at_def by blast
  note len = table_rep_lengths [OF rep]
  let ?j = "slot_of hasher t key"
  have jl: "?j < length cs" by (rule slot_bound [OF rep])
  have sub: "set (cs ! ?j) \<subseteq> {..< length kvs}" using rep jl by (simp add: table_rep_def)
  have key: "upto_nul key = key" using nul by (rule upto_nul_id)
  have us: "distinct us"
    using rep al.heap_distinct [of "memory t" us] by (simp add: table_rep_def distinct_map)
  obtain t' x where put: "put hasher key val t = Inr (t', True)" and new: "x \<notin> set us"
    and size: "length (m_hash_table t') = length (m_hash_table t)"
    and res: "case List.find (\<lambda>i. fst (kvs ! i) = key) (cs ! ?j) of
       Some i \<Rightarrow> table_rep t' (remove1 (xs ! i) (x # us)) (xs[i := x]) (kvs[i := (key, upto_nul val)]) cs
     | None \<Rightarrow> table_rep t' (x # us) (xs @ [x]) (kvs @ [(key, upto_nul val)]) (cs[?j := length kvs # cs ! ?j])"
    using put_exec [OF rep n room clean, of hasher] unfolding key by blast
  have slot: "slot_of hasher t' k = slot_of hasher t k" for k by (simp add: slot_of_def size)
  from dist slots sub have "table_at hasher t' (AList.update key (upto_nul val) kvs)"
  proof (cases rule: find_slot)
    case (found i)
    have "set (xs[i := x]) = insert x (set xs - {xs ! i})"
      using rep found(1) len by (intro set_update_distinct) (simp_all add: table_rep_def)
    moreover have "xs ! i \<in> set us" by (rule table_rep_block(1) [OF rep found(1)])
    ultimately have "set (xs[i := x]) = set (remove1 (xs ! i) (x # us))"
      using us new all by auto
    moreover have "map fst (kvs[i := (key, upto_nul val)]) = map fst kvs"
      by (rule nth_equalityI) (use found(1,2) in \<open>auto simp: nth_list_update\<close>)
    moreover have "\<forall>l < length kvs. l \<in> set (cs ! slot_of hasher t' (fst (kvs[i := (key, upto_nul val)] ! l)))"
      using slots found by (auto simp: slot nth_list_update)
    moreover have "table_rep t' (remove1 (xs ! i) (x # us)) (xs[i := x]) (kvs[i := (key, upto_nul val)]) cs"
      using res found(3) by simp
    note rep' = this
    ultimately show ?thesis
      using dist unfolding update_at [OF dist found(1,2)] by (intro table_atI [OF rep']) simp_all
  next
    case absent
    have "\<forall>l < Suc (length kvs). l \<in> set (cs[?j := length kvs # cs ! ?j] !
      slot_of hasher t (fst ((kvs @ [(key, upto_nul val)]) ! l)))"
    proof (intro allI impI)
      fix l assume "l < Suc (length kvs)"
      then consider "l < length kvs" | "l = length kvs" by linarith
      then show "l \<in> set (cs[?j := length kvs # cs ! ?j] !
        slot_of hasher t (fst ((kvs @ [(key, upto_nul val)]) ! l)))"
      proof cases
        case 1
        then have "l \<in> set (cs ! slot_of hasher t (fst (kvs ! l)))" using slots by blast
        then show ?thesis using 1 jl
          by (cases "slot_of hasher t (fst (kvs ! l)) = ?j") (auto simp: nth_append)
      next
        case 2
        then show ?thesis using jl by simp
      qed
    qed
    moreover have "set (xs @ [x]) = set (x # us)" using all by auto
    moreover have "table_rep t' (x # us) (xs @ [x]) (kvs @ [(key, upto_nul val)]) (cs[?j := length kvs # cs ! ?j])"
      using res absent(2) by simp
    note rep' = this
    ultimately show ?thesis
      using dist absent(1) unfolding update_new [OF absent(1)] by (intro table_atI [OF rep']) (simp_all add: slot)
  qed
  with put show ?thesis by blast
qed

end
