(* ===== verification/Table_Loading.thy ===== *)
theory Table_Loading
  imports Table_Refinement
begin

text \<open>
  Opening a table: the constructor makes one bucket per used block, in the order of the used list,
  each at the front of its chain. So it holds the pairs of the file, and where two blocks hold the
  same key the one later in the used list, which was allocated earlier, hides the other.
\<close>

section \<open>Loading\<close>

definition loaded_chains :: "(str \<Rightarrow> u64) \<Rightarrow> (str \<times> str) list \<Rightarrow> nat list list \<Rightarrow> bool" where
  "loaded_chains hasher kvs cs \<longleftrightarrow>
    (\<forall>j < length cs. cs ! j =
      rev (filter (\<lambda>i. unat (hasher (fst (kvs ! i))) mod length cs = j) [0 ..< length kvs]))"

lemma loaded_chains_snoc:
  assumes "loaded_chains hasher kvs cs" and "j = unat (hasher (fst kv)) mod length cs" and "cs \<noteq> []"
  shows "loaded_chains hasher (kvs @ [kv]) (cs[j := length kvs # cs ! j])"
proof -
  have j: "j < length cs" using assms(2,3) by simp
  have "filter (\<lambda>i. unat (hasher (fst ((kvs @ [kv]) ! i))) mod length cs = l) [0 ..< length kvs] =
    filter (\<lambda>i. unat (hasher (fst (kvs ! i))) mod length cs = l) [0 ..< length kvs]" for l
    by (rule filter_cong) (simp_all add: nth_append)
  with assms(1,2) j show ?thesis
    by (auto simp: loaded_chains_def nth_list_update)
qed

lemma load_block_exec:
  fixes hasher
  assumes rep: "table_rep t us xs kvs cs" and x: "x \<in> set us" "x \<notin> set xs"
    and kv: "holds (memory t) x kv"
  defines "j \<equiv> slot_of hasher t (fst kv)"
  shows "\<exists>t'. load_block hasher (pointer_of x) t = Inr t' \<and> memory t' = memory t \<and>
    table_rep t' us (xs @ [x]) (kvs @ [kv]) (cs[j := length kvs # cs ! j])"
proof -
  have j: "j < length cs" unfolding j_def by (rule slot_bound [OF rep])
  let ?n = "length kvs"
  obtain t' where set: "KeyValuePair_set_pointer ?n (pointer_of x)
      (t\<lparr>m_bucket_storage := m_bucket_storage t @ [Bucket]\<rparr>) = Inr t'"
    and t': "memory t' = memory t" "m_hash_table t' = m_hash_table t"
    and get: "KeyValuePair_get t' ?n = KeyValuePair_get (store_bucket ?n j t') ?n"
    and rep': "table_rep (store_bucket ?n j t') us (xs @ [x]) (kvs @ [kv]) (cs[j := ?n # cs ! j])"
    using set_pointer_new [OF rep x kv j] by blast
  have mem: "memory (store_bucket i l t) = memory t" for i l t by (simp add: store_bucket_def)
  obtain p q where "KeyValuePair_get (store_bucket ?n j t') ?n = Inr (p, q)"
    "c_string (memory t) p = Inr (fst kv)"
    using table_rep_read [OF rep', of ?n] t'(1) by (auto simp: mem)
  moreover have "slot_of hasher t' (fst kv) = j" by (simp add: j_def slot_of_def t'(2))
  ultimately have "load_block hasher (pointer_of x) t = Inr (store_bucket ?n j t')"
    using set get t'(1) table_rep_lengths(2) [OF rep]
    by (simp add: load_block_def get_new_bucket_def)
  then show ?thesis using rep' t'(1) mem by auto
qed

lemma load_blocks_exec:
  assumes at: "heap_at m fs (ys @ zs)" and "table_rep t (ys @ zs) ys kvs cs" and "memory t = m"
    and "loaded_chains hasher kvs cs" and "list_all2 (holds m) zs kvs'" and "length zs \<le> fuel"
    and "length (m_hash_table t) = N"
  shows "\<exists>t' cs'. load_blocks hasher fuel (u64 (head_of zs)) t = Inr t' \<and> memory t' = m \<and>
    table_rep t' (ys @ zs) (ys @ zs) (kvs @ kvs') cs' \<and> loaded_chains hasher (kvs @ kvs') cs' \<and>
    length (m_hash_table t') = N"
  using assms
proof (induction zs arbitrary: ys t kvs cs kvs' fuel)
  case Nil
  then show ?case by (auto simp: load_blocks.simps end_blocks_def)
next
  case (Cons x zs)
  obtain b s where x: "x = (b, s)" by (cases x)
  obtain kv kvs'' where kvs': "kvs' = kv # kvs''" "holds m x kv" "list_all2 (holds m) zs kvs''"
    using Cons.prems(5) by (cases kvs') auto
  obtain fuel' where fuel: "fuel = Suc fuel'" using Cons.prems(6) by (cases fuel) auto
  note D = heap_at_D [OF Cons.prems(1)]
  have b: "16 \<le> b" "b + 24 + s \<le> length m" "length m < 2 ^ 63" using D(1,8) x by auto
  have seg: "rd m (b + 16) = s" "rd m (b + 8) = head_of zs"
    using D(3) x by (auto dest: seg_head)
  have u: "u64 b \<noteq> 0"
  proof -
    have "b < 2 ^ 64" "b \<noteq> 0" using b by simp_all
    then show ?thesis by (simp only: u64_eq_0 not_False_eq_True)
  qed
  have size: "data_size m (u64 b) = Inr (u64 s)" and nxt: "next_block_offset m (u64 b) = Inr (u64 (head_of zs))"
    using b seg by (simp_all add: block_reads)
  have new: "x \<notin> set ys"
    using spaced_distinct [OF D(6)] by (auto simp: distinct_map)
  let ?j = "slot_of hasher t (fst kv)"
  have rep: "table_rep t (ys @ x # zs) ys kvs cs" using Cons.prems(2) .
  obtain t1 where load: "load_block hasher (pointer_of x) t = Inr t1" and mem: "memory t1 = m"
    and rep1: "table_rep t1 (ys @ x # zs) (ys @ [x]) (kvs @ [kv]) (cs[?j := length kvs # cs ! ?j])"
    using load_block_exec [OF rep _ new] kvs'(2) Cons.prems(3) by fastforce
  have len: "length cs = length (m_hash_table t)" "cs \<noteq> []"
    using rep by (auto simp: table_rep_def)
  have chains: "loaded_chains hasher (kvs @ [kv]) (cs[?j := length kvs # cs ! ?j])"
    by (rule loaded_chains_snoc [OF Cons.prems(4) _ len(2)]) (simp add: slot_of_def len(1))
  have N: "length (m_hash_table t1) = N"
    using rep1 len(1) Cons.prems(7) by (simp add: table_rep_def)
  obtain t' cs' where "load_blocks hasher fuel' (u64 (head_of zs)) t1 = Inr t'" "memory t' = m"
    "table_rep t' (ys @ x # zs) (ys @ x # zs) (kvs @ kvs') cs'" "loaded_chains hasher (kvs @ kvs') cs'"
    "length (m_hash_table t') = N"
    using Cons.IH [of "ys @ [x]" t1 "kvs @ [kv]" "cs[?j := length kvs # cs ! ?j]" kvs'' fuel']
      Cons.prems(1,6) rep1 mem chains kvs'(1,3) fuel N by auto
  moreover have "load_blocks hasher fuel (u64 b) t = load_blocks hasher fuel' (u64 (head_of zs)) t1"
    using load u size nxt mem Cons.prems(3)
    by (simp add: load_blocks.simps [of hasher "Suc fuel'"] fuel end_blocks_def iter_deref_def iter_next_def x)
  ultimately show ?case by (auto simp: x)
qed

lemma load_table_exec:
  assumes at: "heap_at (m_base buf) fs us" and kvs: "list_all2 (holds (m_base buf)) us kvs" and N: "0 < N"
  shows "\<exists>t cs. load_table hasher N buf = Inr t \<and> memory t = m_base buf \<and>
    table_rep t us us kvs cs \<and> loaded_chains hasher kvs cs \<and> length (m_hash_table t) = N"
proof -
  let ?t = "\<lparr>m_buffer = buf, m_bucket_storage = [], m_hash_table = replicate N None\<rparr>"
  have rep: "table_rep ?t ([] @ us) [] [] (replicate N [])"
    using at N by (auto simp: table_rep_def used_heap_def)
  have chains: "loaded_chains hasher [] (replicate N [])" by (simp add: loaded_chains_def)
  have at': "heap_at (m_base buf) fs ([] @ us)" using at by simp
  have "length us \<le> length (m_base buf)" using spaced_length [OF heap_at_D(6) [OF at]] by simp
  then obtain t cs where "load_blocks hasher (length (m_base buf)) (u64 (head_of us)) ?t = Inr t"
    "memory t = m_base buf" "table_rep t us us kvs cs" "loaded_chains hasher kvs cs"
    "length (m_hash_table t) = N"
    using load_blocks_exec [OF at' rep _ chains kvs, of "length (m_base buf)" N] by auto
  moreover have "begin_used (m_base buf) = Inr (u64 (head_of us))"
    using for_used(1) [OF at] seg_head [OF heap_at_D(3) [OF at]] by simp
  ultimately show ?thesis
    by (intro exI [of _ t] exI [of _ cs]) (simp add: load_table_def Let_def)
qed

section \<open>What a loaded table returns\<close>

lemma find_last:
  "map_option (\<lambda>i. snd (kvs ! i)) (List.find (\<lambda>i. fst (kvs ! i) = key) (rev [0 ..< length kvs])) =
    map_of (rev kvs) key"
proof (induction kvs rule: rev_induct)
  case Nil
  then show ?case by simp
next
  case (snoc kv kvs)
  have "List.find (\<lambda>i. fst ((kvs @ [kv]) ! i) = key) (rev [0 ..< length kvs]) =
    List.find (\<lambda>i. fst (kvs ! i) = key) (rev [0 ..< length kvs])"
    by (rule find_cong) (simp_all add: nth_append)
  moreover have "map_option (\<lambda>i. snd ((kvs @ [kv]) ! i)) (List.find P (rev [0 ..< length kvs])) =
    map_option (\<lambda>i. snd (kvs ! i)) (List.find P (rev [0 ..< length kvs]))" for P
    by (rule option.map_cong0) (auto simp: find_Some_iff nth_append rev_nth)
  ultimately show ?case using snoc by (auto simp: map_add_def split: option.splits)
qed

lemma find_filter: "(\<And>i. P i \<Longrightarrow> Q i) \<Longrightarrow> List.find P (filter Q xs) = List.find P xs"
  by (induction xs) auto

lemma find_loaded:
  assumes rep: "table_rep t us xs kvs cs" and chains: "loaded_chains hasher kvs cs"
  shows "List.find (\<lambda>i. fst (kvs ! i) = key) (cs ! slot_of hasher t key) =
    List.find (\<lambda>i. fst (kvs ! i) = key) (rev [0 ..< length kvs])"
proof -
  let ?j = "slot_of hasher t key"
  have j: "?j < length cs" by (rule slot_bound [OF rep])
  have "cs ! ?j = filter (\<lambda>i. unat (hasher (fst (kvs ! i))) mod length cs = ?j) (rev [0 ..< length kvs])"
    using chains j by (simp add: loaded_chains_def rev_filter)
  moreover have "unat (hasher key) mod length cs = ?j"
    using rep by (simp add: table_rep_def slot_of_def)
  ultimately show ?thesis by (simp only:) (rule find_filter, simp)
qed

lemma get_loaded:
  assumes rep: "table_rep t us xs kvs cs" and chains: "loaded_chains hasher kvs cs"
  shows "get hasher key t = Inr (case map_of (rev kvs) key of None \<Rightarrow> [] | Some v \<Rightarrow> v)"
  by (simp add: get_exec [OF rep] find_loaded [OF rep chains] find_last [symmetric] split: option.splits)

lemma loaded_table:
  assumes rep: "table_rep t us us kvs cs" and chains: "loaded_chains hasher kvs cs"
    and dist: "distinct (map fst kvs)"
  shows "table_at hasher t kvs"
proof (rule table_atI [OF rep refl dist], intro allI impI)
  fix i assume i: "i < length kvs"
  have "slot_of hasher t (fst (kvs ! i)) < length cs" by (rule slot_bound [OF rep])
  then show "i \<in> set (cs ! slot_of hasher t (fst (kvs ! i)))"
    using chains i rep by (auto simp: loaded_chains_def table_rep_def slot_of_def)
qed

end
