(* ===== verification/Key_Value_Map.thy ===== *)
theory Key_Value_Map
  imports Table_Loading
begin

text \<open>
  What a client of the store relies on, as a locale: reading returns the value the map has, or a
  default, and writing either updates the map and says so or leaves it and says that. The locale
  derives what this means for a run of writes: each key has the value of its last acknowledged
  write. The hash table is an instance of it.
\<close>

section \<open>Runs of writes\<close>

fun run_puts ::
  "('k \<Rightarrow> 'v \<Rightarrow> 's \<Rightarrow> ('s \<times> bool) res) \<Rightarrow> ('k \<times> 'v) list \<Rightarrow> 's \<Rightarrow> ('s \<times> bool list) res" where
  "run_puts pt [] s = Inr (s, [])"
| "run_puts pt ((k, v) # ops) s =
    and_then (pt k v s) (\<lambda>(s, b).
    and_then (run_puts pt ops s) (\<lambda>(s, bs). Inr (s, b # bs)))"

text \<open>Every write of the run meets the condition \<open>admits\<close> in the state it starts from.\<close>

fun admitted ::
  "('k \<Rightarrow> 'v \<Rightarrow> 's \<Rightarrow> ('s \<times> bool) res) \<Rightarrow> ('k \<Rightarrow> 'v \<Rightarrow> 's \<Rightarrow> bool) \<Rightarrow> ('k \<times> 'v) list \<Rightarrow> 's \<Rightarrow> bool"
where
  "admitted pt admits [] s \<longleftrightarrow> True"
| "admitted pt admits ((k, v) # ops) s \<longleftrightarrow>
    admits k v s \<and> (case pt k v s of Inl _ \<Rightarrow> False | Inr (s', _) \<Rightarrow> admitted pt admits ops s')"

definition acknowledged :: "'a list \<Rightarrow> bool list \<Rightarrow> 'a list" where
  "acknowledged ops bs = map fst (filter snd (zip ops bs))"

section \<open>The contract\<close>

locale key_value_map =
  fixes state :: "'s \<Rightarrow> ('k \<rightharpoonup> 'v) \<Rightarrow> bool"
    and admits :: "'k \<Rightarrow> 'v \<Rightarrow> 's \<Rightarrow> bool"
    and lookup :: "'k \<Rightarrow> 's \<Rightarrow> 'v res"
    and store :: "'k \<Rightarrow> 'v \<Rightarrow> 's \<Rightarrow> ('s \<times> bool) res"
    and missing :: 'v
  assumes lookup_law: "state s M \<Longrightarrow> lookup k s = Inr (case M k of None \<Rightarrow> missing | Some v \<Rightarrow> v)"
    and store_law: "state s M \<Longrightarrow> admits k v s \<Longrightarrow>
      \<exists>s' b. store k v s = Inr (s', b) \<and> state s' (if b then M(k \<mapsto> v) else M)"
begin

lemma store_lookup:
  assumes "state s M" and "admits k v s" and "store k v s = Inr (s', True)"
  shows "lookup k' s' = (if k' = k then Inr v else lookup k' s)"
proof -
  have "state s' (M(k \<mapsto> v))" using store_law [OF assms(1,2)] assms(3) by auto
  then show ?thesis using lookup_law [OF assms(1), of k'] lookup_law [of s' _ k'] by simp
qed

lemma store_refused:
  assumes "state s M" and "admits k v s" and "store k v s = Inr (s', False)"
  shows "lookup k' s' = lookup k' s"
proof -
  have "state s' M" using store_law [OF assms(1,2)] assms(3) by auto
  then show ?thesis using lookup_law [OF assms(1), of k'] lookup_law [of s' M k'] by simp
qed

lemma run_state:
  assumes "state s M" and "admitted store admits ops s"
  shows "\<exists>s' bs. run_puts store ops s = Inr (s', bs) \<and> length bs = length ops \<and>
    state s' (M ++ map_of (rev (acknowledged ops bs)))"
  using assms
proof (induction ops arbitrary: s M)
  case Nil
  then show ?case by (simp add: acknowledged_def)
next
  case (Cons op ops)
  obtain k v where op: "op = (k, v)" by (cases op)
  obtain s1 b where s1: "store k v s = Inr (s1, b)" "state s1 (if b then M(k \<mapsto> v) else M)"
    using store_law [OF Cons.prems(1), of k v] Cons.prems(2) op by auto
  then have "admitted store admits ops s1" using Cons.prems(2) op by simp
  from Cons.IH [OF s1(2) this] obtain s' bs where run: "run_puts store ops s1 = Inr (s', bs)"
    "length bs = length ops"
    "state s' ((if b then M(k \<mapsto> v) else M) ++ map_of (rev (acknowledged ops bs)))" by blast
  have "(if b then M(k \<mapsto> v) else M) ++ map_of (rev (acknowledged ops bs)) =
    M ++ map_of (rev (acknowledged (op # ops) (b # bs)))"
    by (simp add: acknowledged_def op)
  with run s1(1) show ?case by (auto simp: op)
qed

lemma run_lookup:
  assumes "state s M" and "admitted store admits ops s"
  shows "\<exists>s' bs. run_puts store ops s = Inr (s', bs) \<and> length bs = length ops \<and>
    (\<forall>k. lookup k s' = (case map_of (rev (acknowledged ops bs)) k of
      None \<Rightarrow> lookup k s | Some v \<Rightarrow> Inr v))"
proof -
  obtain s' bs where run: "run_puts store ops s = Inr (s', bs)" "length bs = length ops"
    "state s' (M ++ map_of (rev (acknowledged ops bs)))"
    using run_state [OF assms] by blast
  have "lookup k s' = (case map_of (rev (acknowledged ops bs)) k of
      None \<Rightarrow> lookup k s | Some v \<Rightarrow> Inr v)" for k
    using lookup_law [OF run(3), of k] lookup_law [OF assms(1), of k]
    by (auto simp: map_add_def split: option.split)
  with run(1,2) show ?thesis by blast
qed

end

section \<open>The hash table as a map\<close>

definition table_state :: "(str \<Rightarrow> u64) \<Rightarrow> hash_table \<Rightarrow> (str \<rightharpoonup> str) \<Rightarrow> bool" where
  "table_state hasher t M \<longleftrightarrow> (\<exists>kvs. table_at hasher t kvs \<and> map_of kvs = M)"

text \<open>
  Strings without zero bytes, whose sizes add up in a \<open>size_t\<close>, and a buffer whose allocator can
  serve the request.
\<close>

definition put_admits :: "str \<Rightarrow> str \<Rightarrow> hash_table \<Rightarrow> bool" where
  "put_admits key val t \<longleftrightarrow> 0 \<notin> set key \<and> 0 \<notin> set val \<and>
    length key + length val + 2 < 2 ^ 64 \<and> clean_for (memory t) (length key + length val + 2)"

lemma put_table_state:
  assumes "table_state hasher t M" and "put_admits key val t"
  shows "\<exists>t' b. put hasher key val t = Inr (t', b) \<and>
    table_state hasher t' (if b then M(key \<mapsto> val) else M)"
proof -
  obtain kvs where at: "table_at hasher t kvs" and M: "map_of kvs = M"
    using assms(1) unfolding table_state_def by blast
  have a: "0 \<notin> set key" "0 \<notin> set val" "length key + length val + 2 < 2 ^ 64"
    "clean_for (memory t) (length key + length val + 2)"
    using assms(2) by (simp_all add: put_admits_def)
  show ?thesis
  proof (cases "has_room (memory t) (length key + length val + 2)")
    case True
    obtain t' where "put hasher key val t = Inr (t', True)"
      "table_at hasher t' (AList.update key (upto_nul val) kvs)"
      using put_table [OF at a(1,3) True a(4)] by blast
    moreover have "map_of (AList.update key (upto_nul val) kvs) = M(key \<mapsto> val)"
      by (simp add: AList.update_conv' upto_nul_id [OF a(2)] M)
    ultimately show ?thesis unfolding table_state_def by auto
  next
    case False
    obtain us xs cs where "table_rep t us xs kvs cs" using at unfolding table_at_def by blast
    from put_no_room [OF this a(3) False] assms(1) show ?thesis by auto
  qed
qed

interpretation kv: key_value_map "table_state hasher" put_admits "get hasher" "put hasher" "[]"
  for hasher
proof
  show "table_state hasher t M \<Longrightarrow> get hasher k t = Inr (case M k of None \<Rightarrow> [] | Some v \<Rightarrow> v)" for t M k
    unfolding table_state_def using get_table by blast
  show "table_state hasher t M \<Longrightarrow> put_admits k v t \<Longrightarrow> \<exists>t' b. put hasher k v t = Inr (t', b) \<and>
    table_state hasher t' (if b then M(k \<mapsto> v) else M)" for t M k v
    by (rule put_table_state)
qed

end
