(* ===== verification/Fresh_Store.thy ===== *)
theory Fresh_Store
  imports Key_Value_Map
begin

text \<open>
  A workload on which the allocator needs no condition: filling a new store with distinct keys.
  Nothing is freed, so the buffer has one free block, whose data are still the zeros of the new
  file, and every split of it finds null links. So every write returns, and as long as the data fit,
  every write succeeds and can be read back.
\<close>

section \<open>Free blocks of zeros\<close>

definition pristine :: "mapping \<Rightarrow> block list \<Rightarrow> bool" where
  "pristine m fs \<longleftrightarrow> fs = [] \<or>
    (\<exists>b s. fs = [(b, s)] \<and> (\<forall>i. b + 24 \<le> i \<and> i < b + 24 + s \<longrightarrow> m ! i = 0))"

lemma rd_zeros:
  assumes "a + 8 \<le> length m" and "\<And>i. a \<le> i \<Longrightarrow> i < a + 8 \<Longrightarrow> m ! i = 0"
  shows "rd m a = 0"
proof -
  have "slice a 8 m = replicate 8 0"
    by (rule nth_equalityI) (use assms in \<open>simp_all add: nth_slice\<close>)
  then show ?thesis by (simp only: rd_def le_val_replicate_zero)
qed

lemma pristine_clean:
  assumes at: "heap_at m fs us" and "pristine m fs"
  shows "clean_split m fs n"
proof (cases fs)
  case Nil
  then show ?thesis by simp
next
  case (Cons x xs)
  then obtain b s where fs: "fs = [(b, s)]" and zero: "\<forall>i. b + 24 \<le> i \<and> i < b + 24 + s \<longrightarrow> m ! i = 0"
    using assms(2) by (auto simp: pristine_def)
  have "b + 24 + s \<le> length m" using heap_at_D(8) [OF at] fs by simp
  then have "rd m (b + 24 + n) = 0 \<and> rd m (b + 24 + n + 8) = 0" if "n + 124 \<le> s"
    using zero that by (auto intro!: rd_zeros)
  then show ?thesis by (simp add: fs)
qed

lemma pristine_spec:
  assumes "pristine m fs" and "spec_alloc n fs us = Some (fs', us', p)"
  obtains b s where "fs = [(b, s)]" "n \<le> s" "p = b + 24" "us' = (b, if n + 124 \<le> s then n else s) # us"
    "fs' = (if n + 124 \<le> s then [(b + 24 + n, s - n - 24)] else [])"
    "\<forall>i. b + 24 \<le> i \<and> i < b + 24 + s \<longrightarrow> m ! i = 0"
proof -
  obtain b s where fs: "fs = [(b, s)]" and zero: "\<forall>i. b + 24 \<le> i \<and> i < b + 24 + s \<longrightarrow> m ! i = 0"
    using assms by (auto simp: pristine_def spec_alloc_def extract_Nil_code)
  then show thesis
    using assms(2) by (intro that [of b s])
      (auto simp: fs spec_alloc_Some Cons_eq_append_conv split: if_splits)
qed

lemma pristine_alloc:
  assumes at: "heap_at m fs us" and zero: "pristine m fs" and n: "n < 2 ^ 64"
    and spec: "spec_alloc n fs us = Some (fs', us', p)"
  shows "\<exists>m'. alloc (u64 n) m = Inr (m', Some (u64 p)) \<and> heap_at m' fs' us' \<and> pristine m' fs'"
proof -
  obtain m' where m': "alloc (u64 n) m = Inr (m', Some (u64 p))" "heap_at m' fs' us'"
    and same: "same_outside (all_headers (insert (p + n) (set (offsets (fs @ us))))) m m'"
    using alloc_refines_Some [OF at n pristine_clean [OF at zero] spec] by blast
  obtain b s where fs: "fs = [(b, s)]" and p: "p = b + 24"
    and fs': "fs' = (if n + 124 \<le> s then [(b + 24 + n, s - n - 24)] else [])"
    and z: "\<forall>i. b + 24 \<le> i \<and> i < b + 24 + s \<longrightarrow> m ! i = 0"
    by (rule pristine_spec [OF zero spec])
  have us: "fst x + 24 \<le> b \<or> b + 24 + s \<le> fst x" "16 \<le> fst x" if "x \<in> set us" for x
    using heap_at_D(4,8) [OF at] that fs by (auto simp: heap_ok_def blocks_ok_def sep_blocks_def)
  have "m' ! i = 0" if i: "b + 24 + n + 24 \<le> i" "i < b + 24 + s" for i
  proof -
    have "i \<notin> all_headers (insert (p + n) (set (offsets (fs @ us))))"
      using us i heap_at_D(8) [OF at] by (fastforce simp: all_headers_def p fs)
    moreover have "b + 24 + s \<le> length m" using heap_at_D(8) [OF at] fs by simp
    ultimately show ?thesis using same z i by (simp add: same_outside_def)
  qed
  then have "pristine m' fs'" by (auto simp: fs' pristine_def)
  with m' show ?thesis by blast
qed

lemma pristine_write:
  assumes at: "heap_at m fs us" and zero: "pristine m fs" and x: "x \<in> set us"
    and fit: "i + length bs \<le> snd x" and st: "store_bytes m (u64 (fst x + 24 + i)) bs = Inr m'"
  shows "heap_at m' fs us \<and> pristine m' fs"
proof -
  obtain b s where xbs: "x = (b, s)" by (cases x)
  note wr = heap_at_data_write [OF at x [unfolded xbs], of i bs]
  have m': "m' = splice_at (b + 24 + i) bs m" using wr(1) fit st by (simp add: xbs)
  have "pristine m' fs"
  proof (cases fs)
    case (Cons y ys)
    then obtain c t where fs: "fs = [(c, t)]" and z: "\<forall>j. c + 24 \<le> j \<and> j < c + 24 + t \<longrightarrow> m ! j = 0"
      using zero by (auto simp: pristine_def)
    have "sep_blocks (c, t) (b, s)"
      using heap_at_D(4) [OF at] x fs xbs by (simp add: heap_ok_def blocks_ok_def)
    moreover have "c + 24 + t \<le> length m" using heap_at_D(8) [OF at] fs by simp
    ultimately have "m' ! j = 0" if "c + 24 \<le> j" "j < c + 24 + t" for j
      using wr(3) fit z that unfolding m' by (auto simp: same_outside_def sep_blocks_def xbs)
    then show ?thesis by (simp add: pristine_def fs)
  qed (simp add: pristine_def)
  with wr(2) fit show ?thesis by (simp add: m' xbs)
qed

lemma pristine_copy:
  assumes at: "heap_at m fs us" and zero: "pristine m fs" and x: "x \<in> set us"
    and fit: "length k + length v + 2 \<le> snd x" and nul: "0 \<notin> set k"
    and w1: "strncpy (pointer_of x) k (length k + 1) m = Inr m1"
    and w2: "strncpy (pointer_of x + u64 (length k) + 1) v (length v + 1) m1 = Inr m2"
  shows "heap_at m2 fs us \<and> pristine m2 fs"
proof -
  have len: "length (strncpy_bytes s (length s + 1)) = length s + 1" for s
    using strncpy_bytes_shape [of s] by fastforce
  have f1: "0 + length (strncpy_bytes k (length k + 1)) \<le> snd x"
    and f2: "length k + 1 + length (strncpy_bytes v (length v + 1)) \<le> snd x"
    unfolding len using fit by simp_all
  have s1: "store_bytes m (u64 (fst x + 24 + 0)) (strncpy_bytes k (length k + 1)) = Inr m1"
    using w1 by (simp only: strncpy_def add_0_right)
  have "pointer_of x + u64 (length k) + 1 = u64 (fst x + 24 + (length k + 1))"
    by (simp add: algebra_simps)
  then have s2: "store_bytes m1 (u64 (fst x + 24 + (length k + 1))) (strncpy_bytes v (length v + 1)) = Inr m2"
    using w2 by (simp only: strncpy_def)
  have h1: "heap_at m1 fs us \<and> pristine m1 fs" by (rule pristine_write [OF at zero x f1 s1])
  then show ?thesis using pristine_write [OF _ _ x f2 s2] by blast
qed

text \<open>The two steps of a \<open>put\<close> up to the point where the bucket changes.\<close>

lemma pristine_alloc_copy:
  assumes at: "heap_at m fs us" and zero: "pristine m fs"
    and n: "length key + length val + 2 < 2 ^ 64" and nul: "0 \<notin> set key"
    and spec: "spec_alloc (length key + length val + 2) fs us = Some (fs', us', p)"
  shows "\<exists>m1 m2. alloc (u64 (length key + length val + 2)) m = Inr (m1, Some (u64 p)) \<and>
    used_heap m1 us' \<and> copy_key_value (u64 p) key val m1 = Inr m2 \<and>
    heap_at m2 fs' us' \<and> pristine m2 fs'"
proof -
  let ?n = "length key + length val + 2"
  obtain b s where "?n \<le> s" "p = b + 24" "us' = (b, if ?n + 124 \<le> s then ?n else s) # us"
    by (rule pristine_spec [OF zero spec])
  then have x: "hd us' \<in> set us'" "?n \<le> snd (hd us')" "p = fst (hd us') + 24" by auto
  obtain m1 where al: "alloc (u64 ?n) m = Inr (m1, Some (u64 p))"
    and at1: "heap_at m1 fs' us'" and zero1: "pristine m1 fs'"
    using pristine_alloc [OF at zero n spec] by blast
  have used: "used_heap m1 us'" using at1 unfolding used_heap_def by blast
  obtain ma m2 where w: "strncpy (u64 p) key (length key + 1) m1 = Inr ma"
    "strncpy (u64 p + u64 (length key) + 1) val (length val + 1) ma = Inr m2"
    and copy: "copy_key_value (u64 p) key val m1 = Inr m2"
    using copy_pair [OF used x(1,2)] unfolding upto_nul_id [OF nul] x(3) [symmetric] by blast
  have "heap_at m2 fs' us' \<and> pristine m2 fs'"
    by (rule pristine_copy [OF at1 zero1 x(1,2) nul w [unfolded x(3)]])
  with al used copy show ?thesis by blast
qed

section \<open>Filling a table\<close>

text \<open>
  A table whose buffer is in this state, and the size of the free block; a buffer without one
  counts as 0.
\<close>

definition fresh_table ::
  "(str \<Rightarrow> u64) \<Rightarrow> hash_table \<Rightarrow> (str \<times> str) list \<Rightarrow> nat \<Rightarrow> bool" where
  "fresh_table hasher t kvs space \<longleftrightarrow> table_at hasher t kvs \<and>
    (\<exists>fs us. heap_at (memory t) fs us \<and> pristine (memory t) fs \<and> space = sum_list (map snd fs))"

lemma put_new_key:
  assumes al: "alloc (u64 (length key + length val + 2)) (memory t) = Inr (m', Some p)"
    and find: "find_bucket_with_key hasher (with_memory t m') key = Inr (None, j)"
    and copy: "copy_key_value p key val m' = Inr m2"
    and put: "put hasher key val t = Inr (t', True)"
  shows "memory t' = m2"
proof -
  have size: "u64 (length key + 1 + length val + 1) = u64 (length key + length val + 2)" by simp
  have "put hasher key val t = Inr (store_bucket (length (m_bucket_storage t)) j
    (t\<lparr>m_buffer := (m_buffer t)\<lparr>m_base := m2\<rparr>, m_bucket_storage := m_bucket_storage t @
      [Bucket\<lparr>m_key_value_data := Some p\<rparr>]\<rparr>), True)"
    unfolding put_def Let_def size al
    by (simp add: find get_new_bucket_def KeyValuePair_set_def copy KeyValuePair_set_pointer_def
        bucket_at_def Bucket_def buffer_storage_commute nth_append)
  with put show ?thesis by (auto simp: store_bucket_def)
qed

lemma fresh_put:
  assumes fresh: "fresh_table hasher t kvs space" and key: "0 \<notin> set key" "key \<notin> fst ` set kvs"
    and val: "0 \<notin> set val" and n: "length key + length val + 2 < 2 ^ 64"
  shows "\<exists>t' b space'. put hasher key val t = Inr (t', b) \<and>
    fresh_table hasher t' (if b then kvs @ [(key, val)] else kvs) space' \<and>
    (length key + length val + 126 \<le> space \<longrightarrow> b \<and> space' = space - (length key + length val + 26))"
proof -
  let ?n = "length key + length val + 2"
  obtain fs us where at: "table_at hasher t kvs" and heap: "heap_at (memory t) fs us"
    and zero: "pristine (memory t) fs" and space: "space = sum_list (map snd fs)"
    using fresh unfolding fresh_table_def by blast
  show ?thesis
  proof (cases "spec_alloc ?n fs us")
    case None
    then have small: "\<forall>x \<in> set fs. snd x < ?n" by (simp only: spec_alloc_None)
    obtain us xs cs where rep: "table_rep t us xs kvs cs" using at unfolding table_at_def by blast
    have "\<not> has_room (memory t) ?n" using small by (auto simp: has_room_iff [OF heap])
    from put_no_room [OF rep n this] have "put hasher key val t = Inr (t, False)" .
    moreover have "\<not> ?n \<le> space" using zero small by (auto simp: space pristine_def)
    ultimately show ?thesis using fresh by (intro exI [of _ t] exI [of _ False] exI [of _ space]) simp
  next
    case (Some r)
    then obtain fs' us' p where spec: "spec_alloc ?n fs us = Some (fs', us', p)" by (cases r) auto
    obtain b s where b: "fs = [(b, s)]" and ns: "?n \<le> s"
      and us': "us' = (b, if ?n + 124 \<le> s then ?n else s) # us"
      and fs': "fs' = (if ?n + 124 \<le> s then [(b + 24 + ?n, s - ?n - 24)] else [])"
      by (rule pristine_spec [OF zero spec])
    obtain m' m2 where al: "alloc (u64 ?n) (memory t) = Inr (m', Some (u64 p))"
      and used': "used_heap m' us'" and copy: "copy_key_value (u64 p) key val m' = Inr m2"
      and m2: "heap_at m2 fs' us'" "pristine m2 fs'"
      using pristine_alloc_copy [OF heap zero n key(1) spec] by blast
    have nul: "upto_nul val = val" using val by (rule upto_nul_id)
    have "has_room (memory t) ?n" using ns by (simp add: has_room_iff [OF heap] b)
    moreover have "clean_for (memory t) ?n"
      using pristine_clean [OF heap zero] clean_for_iff [OF heap] by blast
    ultimately obtain t' where put: "put hasher key val t = Inr (t', True)"
      and at': "table_at hasher t' (AList.update key (upto_nul val) kvs)"
      using put_table [OF at key(1) n] by blast
    have find: "\<exists>j. find_bucket_with_key hasher (with_memory t m') key = Inr (None, j)"
    proof -
      obtain us0 xs cs where rep: "table_rep t us0 xs kvs cs" "set xs = set us0"
        and slots: "\<forall>i < length kvs. i \<in> set (cs ! slot_of hasher t (fst (kvs ! i)))"
        and dist: "distinct (map fst kvs)"
        using at unfolding table_at_def by blast
      then have "us0 = us" using heap_at_unique [OF heap] unfolding table_rep_def used_heap_def by blast
      have keep: "\<forall>x \<in> set us. data_of m' x = data_of (memory t) x"
        using alloc_refines_Some [OF heap n pristine_clean [OF heap zero] spec] al by auto
      have "table_rep (with_memory t m') us' xs kvs cs"
        using rep keep us' by (intro table_rep_memory [OF rep(1) used']) (auto simp: \<open>us0 = us\<close>)
      note rep' = this
      have sub: "set (cs ! slot_of hasher t key) \<subseteq> {..< length kvs}"
        using rep(1) slot_bound [OF rep(1), of hasher key] by (simp add: table_rep_def)
      from dist slots sub have "List.find (\<lambda>i. fst (kvs ! i) = key) (cs ! slot_of hasher t key) = None"
      proof (cases rule: find_slot)
        case (found i)
        then show ?thesis using key(2) nth_mem [of i kvs] by force
      qed
      then show ?thesis
        using find_bucket_exec [OF rep', of hasher key] by (simp add: slot_of_def)
    qed
    then have mem: "memory t' = m2" using put_new_key [OF al _ copy put] by blast
    have "fresh_table hasher t' (kvs @ [(key, val)]) (sum_list (map snd fs'))"
      using at' m2 unfolding fresh_table_def mem update_new [OF key(2)] nul by blast
    moreover have "sum_list (map snd fs') = space - (length key + length val + 26)"
      if "length key + length val + 126 \<le> space" using that by (simp add: fs' space b)
    ultimately show ?thesis using put by (intro exI [of _ t'] exI [of _ True]) auto
  qed
qed

text \<open>What a list of pairs takes from the free block: two terminators and a block header each.\<close>

definition needed :: "(str \<times> str) list \<Rightarrow> nat" where
  "needed ops = sum_list (map (\<lambda>(k, v). length k + length v + 26) ops)"

definition storable :: "(str \<times> str) list \<Rightarrow> bool" where
  "storable ops \<longleftrightarrow>
    (\<forall>(k, v) \<in> set ops. 0 \<notin> set k \<and> 0 \<notin> set v \<and> length k + length v + 2 < 2 ^ 64)"

lemma fresh_run:
  assumes "fresh_table hasher t kvs space" and "distinct (map fst (kvs @ ops))" and "storable ops"
  shows "\<exists>t' bs space'. run_puts (put hasher) ops t = Inr (t', bs) \<and> length bs = length ops \<and>
    fresh_table hasher t' (kvs @ acknowledged ops bs) space' \<and>
    (needed ops + 100 \<le> space \<longrightarrow> bs = replicate (length ops) True)"
  using assms
proof (induction ops arbitrary: t kvs space)
  case Nil
  then show ?case by (auto simp: acknowledged_def)
next
  case (Cons op ops)
  obtain k v where op: "op = (k, v)" by (cases op)
  have kv: "0 \<notin> set k" "0 \<notin> set v" "length k + length v + 2 < 2 ^ 64" "storable ops"
    using Cons.prems(3) by (auto simp: op storable_def)
  have new: "k \<notin> fst ` set kvs" using Cons.prems(2) by (auto simp: op)
  obtain t1 b space1 where t1: "put hasher k v t = Inr (t1, b)"
    "fresh_table hasher t1 (if b then kvs @ [(k, v)] else kvs) space1"
    and fits: "length k + length v + 126 \<le> space \<longrightarrow> b \<and> space1 = space - (length k + length v + 26)"
    using fresh_put [OF Cons.prems(1) kv(1) new kv(2,3)] by blast
  let ?kvs = "if b then kvs @ [(k, v)] else kvs"
  have "distinct (map fst (?kvs @ ops))" using Cons.prems(2) by (auto simp: op)
  from Cons.IH [OF t1(2) this kv(4)] obtain t' bs space' where
    run: "run_puts (put hasher) ops t1 = Inr (t', bs)" "length bs = length ops"
      "fresh_table hasher t' (?kvs @ acknowledged ops bs) space'"
    and all: "needed ops + 100 \<le> space1 \<longrightarrow> bs = replicate (length ops) True" by blast
  have "?kvs @ acknowledged ops bs = kvs @ acknowledged (op # ops) (b # bs)"
    by (simp add: acknowledged_def op)
  moreover have "b # bs = replicate (length (op # ops)) True" if "needed (op # ops) + 100 \<le> space"
    using that fits all by (simp add: needed_def op)
  ultimately show ?case using run t1(1)
    by (intro exI [of _ t'] exI [of _ "b # bs"] exI [of _ space']) (simp add: op)
qed

lemma acknowledged_all: "acknowledged ops (replicate (length ops) True) = ops"
  by (induction ops) (simp_all add: acknowledged_def)

text \<open>What a fresh table offers to the properties that ask for room and a clean split.\<close>

lemma fresh_admits:
  assumes "fresh_table hasher t kvs space"
  shows "table_at hasher t kvs" "0 < n \<Longrightarrow> n \<le> space \<Longrightarrow> has_room (memory t) n" "clean_for (memory t) n"
    "space < n \<Longrightarrow> \<not> has_room (memory t) n"
proof -
  obtain fs us where at: "heap_at (memory t) fs us" and zero: "pristine (memory t) fs"
    and space: "space = sum_list (map snd fs)" and "table_at hasher t kvs"
    using assms unfolding fresh_table_def by blast
  then show "table_at hasher t kvs" by simp
  show "0 < n \<Longrightarrow> n \<le> space \<Longrightarrow> has_room (memory t) n"
    using zero by (auto simp: has_room_iff [OF at] pristine_def space)
  show "clean_for (memory t) n" using pristine_clean [OF at zero] clean_for_iff [OF at] by blast
  show "space < n \<Longrightarrow> \<not> has_room (memory t) n"
    using zero by (auto simp: has_room_iff [OF at] pristine_def space)
qed

lemma fresh_interrupted:
  assumes "fresh_table hasher t kvs space" and nul: "0 \<notin> set key"
    and n: "length key + length val + 126 \<le> space" "length key + length val + 2 < 2 ^ 64"
  shows "\<exists>m1 p m2. alloc (u64 (length key + length val + 2)) (memory t) = Inr (m1, Some p) \<and>
    copy_key_value p key val m1 = Inr m2 \<and> clean_for m2 k \<and>
    (k \<le> space - (length key + length val + 26) \<longrightarrow> has_room m2 k)"
proof -
  let ?n = "length key + length val + 2"
  obtain fs us where at: "heap_at (memory t) fs us" and zero: "pristine (memory t) fs"
    and space: "space = sum_list (map snd fs)"
    using assms(1) unfolding fresh_table_def by blast
  have "spec_alloc ?n fs us \<noteq> None"
    using zero n(1) by (auto simp: spec_alloc_None pristine_def space)
  then obtain fs' us' p where spec: "spec_alloc ?n fs us = Some (fs', us', p)" by auto
  obtain b s where fs: "fs = [(b, s)]"
    and fs': "fs' = (if ?n + 124 \<le> s then [(b + 24 + ?n, s - ?n - 24)] else [])"
    by (rule pristine_spec [OF zero spec])
  obtain m1 m2 where run: "alloc (u64 ?n) (memory t) = Inr (m1, Some (u64 p))"
    "copy_key_value (u64 p) key val m1 = Inr m2" and m2: "heap_at m2 fs' us'" "pristine m2 fs'"
    using pristine_alloc_copy [OF at zero n(2) nul spec] by blast
  have "clean_for m2 k" using pristine_clean [OF m2] clean_for_iff [OF m2(1)] by blast
  moreover have "has_room m2 k" if "k \<le> space - (length key + length val + 26)"
    using that n(1) by (simp add: has_room_iff [OF m2(1)] fs' space fs)
  ultimately show ?thesis using run by blast
qed

section \<open>Creating a store\<close>

lemma fresh_buffer_pristine:
  assumes "40 \<le> N"
  shows "pristine (fresh_buffer (replicate N 0)) [(16, N - 40)]"
proof -
  have step: "same_outside {0 ..< 40} (replicate N 0) (wr m a v)"
    if "same_outside {0 ..< 40} (replicate N 0) m" "a + 8 \<le> 40" for m a v
  proof (rule same_outside_trans [OF that(1) same_outside_wr])
    show "a + 8 \<le> length m" using that assms by (simp add: same_outside_length [OF that(1)])
  qed (use that(2) in auto)
  have "same_outside {0 ..< 40} (replicate N 0) (fresh_buffer (replicate N 0))"
    unfolding fresh_buffer_def by (intro step same_outside_refl) simp_all
  then have "fresh_buffer (replicate N 0) ! i = 0" if "40 \<le> i" "i < N" for i
    using that by (simp add: same_outside_def)
  then show ?thesis using assms by (auto simp: pristine_def)
qed

lemma load_fresh:
  assumes N: "40 \<le> N" "N < 2 ^ 31" and sz: "0 < table_size" and base: "m_base buf = fresh_buffer (replicate N 0)"
  shows "\<exists>t. load_table hasher table_size buf = Inr t \<and> fresh_table hasher t [] (N - 40)"
proof -
  have at: "heap_at (m_base buf) [(16, N - 40)] []"
    using fresh_buffer_heap [of "replicate N 0"] N base by simp
  obtain t cs where load: "load_table hasher table_size buf = Inr t" "memory t = m_base buf"
    "table_rep t [] [] [] cs" "loaded_chains hasher [] cs"
    using load_table_exec [OF at _ sz, of "[]" hasher] by auto
  have "table_at hasher t []" by (rule loaded_table [OF load(3,4)]) simp
  moreover have "pristine (memory t) [(16, N - 40)]"
    using fresh_buffer_pristine [OF N(1)] load(2) base by simp
  ultimately have "fresh_table hasher t [] (N - 40)"
    unfolding fresh_table_def using at load(2)
    by (intro conjI exI [of _ "[(16, N - 40)]"] exI [of _ "[]"]) simp_all
  with load(1) show ?thesis by blast
qed

lemma new_store:
  assumes "file_contents f = None" and "may_create f" and "may_resize f" and "may_map f"
  shows "\<exists>t. ConcurrentHashTable hasher f = Inr t \<and> fresh_table hasher t [] 536870872"
proof -
  define N :: nat where "N = 536870912"
  have N: "40 \<le> N mod 2 ^ 32" "N mod 2 ^ 32 < 2 ^ 31" "N < 2 ^ 63" "N mod 2 ^ 32 = N" "N - 40 = 536870872"
    by (simp_all add: N_def)
  have "BUFFER_SIZE = u64 N" by (simp add: BUFFER_SIZE_def N_def)
  then have "FileBackedBuffer f BUFFER_SIZE = Inr (opened (replicate N 0) (fresh_buffer (replicate N 0)))"
    using FileBackedBuffer_new(2) [OF assms N(3,1,2)] N(4) by simp
  moreover have "m_base (opened (replicate N 0) (fresh_buffer (replicate N 0))) = fresh_buffer (replicate N 0)"
    by (simp add: opened_def)
  moreover have "40 \<le> N" "N < 2 ^ 31" "0 < HASH_TABLE_SIZE"
    using N by (simp_all add: HASH_TABLE_SIZE_def)
  ultimately show ?thesis
    using load_fresh [of N HASH_TABLE_SIZE "opened (replicate N 0) (fresh_buffer (replicate N 0))" hasher] N(5)
    by (simp add: ConcurrentHashTable_def)
qed

end
