(* ===== verification/Buffer_Properties.thy ===== *)
theory Buffer_Properties
  imports Buffer_Runs Fresh_Store
begin

text \<open>
  The properties of the buffer, over the definitions of \<open>File_Backed_Buffer\<close>, each with an instance
  on a new buffer of 1000 bytes.
\<close>

definition small_buffer :: mapping where
  "small_buffer = fresh_buffer (replicate 1000 0)"

lemma small_buffer_heap:
  "heap_at small_buffer [(16, 960)] []" "clean_split small_buffer [(16, 960)] n"
  "clean_for small_buffer n"
proof -
  show at: "heap_at small_buffer [(16, 960)] []"
    using fresh_buffer_heap [of "replicate 1000 0"] by (simp add: small_buffer_def)
  show clean: "clean_split small_buffer [(16, 960)] n"
    using fresh_buffer_pristine [of 1000] pristine_clean [OF at] by (simp add: small_buffer_def)
  show "clean_for small_buffer n" using clean clean_for_iff [OF at] by blast
qed

lemma small_alloc:
  obtains m where "alloc 100 small_buffer = Inr (m, Some 40)" "heap_at m [(140, 836)] [(16, 100)]"
proof -
  have "spec_alloc 100 [(16, 960)] [] = Some ([(140, 836)], [(16, 100)], 40)"
    by (simp add: spec_alloc_def extract_Cons_code)
  from alloc_refines_Some [OF small_buffer_heap(1) _ small_buffer_heap(2) this] that show thesis by auto
qed

section \<open>Allocating and freeing\<close>

text \<open>
  C11: \<open>alloc\<close> implements first-fit allocation with splitting: on a mapping that holds the free blocks
  \<open>fs\<close> and the used blocks \<open>us\<close> it returns the pointer the abstract allocator returns and leaves the
  lists the abstract allocator computes, and it changes no byte of a used block. It never faults.
\<close>

theorem alloc_first_fit:
  assumes "heap_at m fs us" and "n < 2 ^ 64" and "clean_split m fs n"
    and "spec_alloc n fs us = Some (fs', us', p)"
  shows "\<exists>m'. alloc (u64 n) m = Inr (m', Some (u64 p)) \<and> heap_at m' fs' us' \<and>
    (\<forall>x \<in> set us. data_of m' x = data_of m x)"
  using alloc_refines_Some [OF assms] by blast

theorem alloc_first_fit_witness:
  "\<exists>m. alloc 100 small_buffer = Inr (m, Some 40) \<and> heap_at m [(140, 836)] [(16, 100)]"
proof -
  have "spec_alloc 100 [(16, 960)] [] = Some ([(140, 836)], [(16, 100)], 40)"
    by (simp add: spec_alloc_def extract_Cons_code)
  from alloc_first_fit [OF small_buffer_heap(1) _ small_buffer_heap(2) this] show ?thesis by auto
qed

text \<open>
  C12: \<open>free\<close> implements freeing with coalescing: the block leaves the used list and goes into the
  sorted free list, merged with a neighbour it touches on either side, and the other used blocks
  keep their bytes. It writes nothing but the headers of blocks.
\<close>

theorem free_coalesces:
  assumes "heap_at m fs us" and "spec_free p fs us = Some (fs', us')"
  shows "\<exists>m'. free (u64 p) m = Inr m' \<and> heap_at m' fs' us' \<and>
    (\<forall>x \<in> set us'. data_of m' x = data_of m x) \<and>
    same_outside (all_headers (set (offsets (fs @ us)))) m m'"
  by (rule free_refines_spec [OF assms])

theorem free_coalesces_witness:
  "\<exists>m m'. alloc 100 small_buffer = Inr (m, Some 40) \<and> free 40 m = Inr m' \<and> heap_at m' [(16, 960)] []"
proof -
  obtain m where m: "alloc 100 small_buffer = Inr (m, Some 40)" "heap_at m [(140, 836)] [(16, 100)]"
    by (rule small_alloc)
  have "spec_free 40 [(140, 836)] [(16, 100)] = Some ([(16, 960)], [])"
    by (simp add: spec_free_def extract_Cons_code)
  from free_coalesces [OF m(2) this] m(1) show ?thesis by auto
qed

text \<open>
  C13: a block that \<open>alloc\<close> returns is inside the file, has at least the requested size, and shares
  no byte, data or header, with any block in use; afterwards it is the first used block.
\<close>

theorem alloc_block_disjoint:
  assumes "heap_at m fs us" and "n < 2 ^ 64" and "clean_split m fs n"
    and "alloc (u64 n) m = Inr (m', Some p)"
  shows "\<exists>b s fs'. p = u64 (b + 24) \<and> n \<le> s \<and> 16 \<le> b \<and> b + 24 + s \<le> length m \<and>
    (\<forall>x \<in> set us. extent (b, s) \<inter> extent x = {}) \<and> heap_at m' fs' ((b, s) # us)"
proof -
  obtain fs' us' q where spec: "spec_alloc n fs us = Some (fs', us', q)"
    using alloc_refines_None [OF assms(1,2)] assms(4) by (cases "spec_alloc n fs us") auto
  from alloc_refines_Some [OF assms(1-3) this] assms(4) have p: "p = u64 q" and at: "heap_at m' fs' us'"
    by auto
  obtain b s where bs: "us' = (b, s) # us" "n \<le> s" "q = b + 24"
    using spec unfolding spec_alloc_Some by (auto split: if_splits)
  have "length m' = length m"
    using alloc_refines_Some [OF assms(1-3) spec] assms(4) by (auto simp: same_outside_length)
  moreover have "\<forall>x \<in> set us. sep_blocks (b, s) x"
    using heap_at_D(4) [OF at] bs(1) by (simp add: heap_ok_def blocks_ok_def sorted_wrt_append)
  ultimately show ?thesis
    using p at bs heap_at_block [OF at, of "(b, s)"]
    by (intro exI [of _ b] exI [of _ s] exI [of _ fs']) (auto simp: sep_extent)
qed

theorem alloc_block_disjoint_witness:
  "\<exists>m m' p b s. alloc 100 small_buffer = Inr (m, Some 40) \<and> alloc 200 m = Inr (m', Some p) \<and>
    p = u64 (b + 24) \<and> 200 \<le> s \<and> extent (b, s) \<inter> extent (16, 100) = {}"
proof -
  obtain m where m: "alloc 100 small_buffer = Inr (m, Some 40)" "heap_at m [(140, 836)] [(16, 100)]"
    by (rule small_alloc)
  have "spec_alloc 100 [(16, 960)] [] = Some ([(140, 836)], [(16, 100)], 40)"
    by (simp add: spec_alloc_def extract_Cons_code)
  from pristine_alloc [OF small_buffer_heap(1) _ _ this] m(1) fresh_buffer_pristine [of 1000]
  have "pristine m [(140, 836)]" by (simp add: small_buffer_def)
  note clean = pristine_clean [OF m(2) this, of 200]
  have "spec_alloc 200 [(140, 836)] [(16, 100)] = Some ([(364, 612)], [(140, 200), (16, 100)], 164)"
    by (simp add: spec_alloc_def extract_Cons_code)
  from alloc_refines_Some [OF m(2) _ clean this] obtain m' where "alloc 200 m = Inr (m', Some 164)" by auto
  with alloc_block_disjoint [OF m(2) _ clean, of m' 164] m(1) show ?thesis by fastforce
qed

text \<open>C14: \<open>alloc\<close> returns null exactly when every free block is too small, and then changes nothing.\<close>

theorem alloc_null_iff:
  assumes "heap_at m fs us" and "n < 2 ^ 64" and "clean_split m fs n"
  shows "alloc (u64 n) m = Inr (m', None) \<longleftrightarrow> m' = m \<and> (\<forall>x \<in> set fs. snd x < n)"
proof -
  have "m' = m \<and> (\<forall>x \<in> set fs. snd x < n)" if "alloc (u64 n) m = Inr (m', None)" for m'
  proof (cases "spec_alloc n fs us")
    case None
    then show ?thesis using alloc_refines_None [OF assms(1,2)] that by (simp add: spec_alloc_None)
  next
    case (Some q)
    then obtain fs' us' p where "spec_alloc n fs us = Some (fs', us', p)" by (cases q) auto
    from alloc_refines_Some [OF assms this] that show ?thesis by auto
  qed
  moreover have "alloc (u64 n) m = Inr (m, None)" if "\<forall>x \<in> set fs. snd x < n"
    using alloc_refines_None [OF assms(1,2)] that by (simp add: spec_alloc_None)
  ultimately show ?thesis by blast
qed

theorem alloc_null_iff_witness: "alloc 961 small_buffer = Inr (small_buffer, None)"
  using alloc_null_iff [OF small_buffer_heap(1) _ small_buffer_heap(2), of 961 small_buffer] by simp

text \<open>
  C15: freeing what was just allocated restores both lists, whether or not the block was split.
\<close>

theorem alloc_free_restores:
  assumes "heap_at m fs us" and "n < 2 ^ 64" and "clean_split m fs n"
    and "alloc (u64 n) m = Inr (m', Some p)"
  shows "\<exists>m''. free p m' = Inr m'' \<and> heap_at m'' fs us"
proof -
  obtain fs' us' q where spec: "spec_alloc n fs us = Some (fs', us', q)"
    using alloc_refines_None [OF assms(1,2)] assms(4) by (cases "spec_alloc n fs us") auto
  from alloc_refines_Some [OF assms(1-3) this] assms(4) have p: "p = u64 q" and at: "heap_at m' fs' us'"
    by auto
  have "spec_free q fs' us' = Some (fs, us)"
    by (rule spec_alloc_free [OF heap_at_D(4) [OF assms(1)] spec])
  from free_refines_spec [OF at this] show ?thesis unfolding p by blast
qed

theorem alloc_free_restores_witness:
  "\<exists>m m'. alloc 100 small_buffer = Inr (m, Some 40) \<and> free 40 m = Inr m' \<and> heap_at m' [(16, 960)] []"
proof -
  obtain m where m: "alloc 100 small_buffer = Inr (m, Some 40)" by (rule small_alloc)
  with alloc_free_restores [OF small_buffer_heap(1) _ small_buffer_heap(2), of 100 m 40] show ?thesis by auto
qed

text \<open>
  C16: whatever calls are made on a new buffer, with the pointers \<open>alloc\<close> returned and as long as no
  allocation meets a stray link, the file is at all times tiled by its header and its blocks, no two
  blocks overlap, and the free list is sorted with no two free blocks touching.
\<close>

theorem reachable_buffers_tiled:
  assumes "buffer_run m"
  shows "\<exists>fs us. heap_at m fs us \<and> 16 + total fs + total us = length m \<and> sorted_wrt gap fs \<and>
    sorted_wrt sep_blocks us \<and> extents fs \<inter> extents us = {} \<and> extents fs \<union> extents us \<subseteq> {16 ..< length m}"
proof -
  obtain fs us where at: "heap_at m fs us" using buffer_run_heap [OF assms] by blast
  then show ?thesis using heap_at_D(4) [OF at] unfolding heap_ok_iff by blast
qed

theorem reachable_buffers_tiled_witness:
  "\<exists>m fs us. alloc 100 small_buffer = Inr (m, Some 40) \<and> heap_at m fs us \<and>
    16 + total fs + total us = length m"
proof -
  obtain m where m: "alloc 100 small_buffer = Inr (m, Some 40)" by (rule small_alloc)
  have run: "buffer_run small_buffer" unfolding small_buffer_def by (rule buffer_run.created) simp_all
  have "alloc (u64 100) small_buffer = Inr (m, Some 40)" using m by simp
  then have "buffer_run m" by (rule buffer_run.allocated [OF run small_buffer_heap(3), rotated]) simp
  from reachable_buffers_tiled [OF this] m show ?thesis by blast
qed

section \<open>Iterators and statistics\<close>

text \<open>
  C17: the loops from \<open>begin_used\<close> and from \<open>begin_free\<close> end, and visit the used blocks in the order
  of their list and the free blocks in the order of their offsets, each with its pointer and size.
\<close>

theorem iterators_enumerate:
  assumes "heap_at m fs us"
  shows "and_then (begin_used m) (for_blocks (length m) m) =
      Inr (map (\<lambda>(b, s). (Some (u64 (b + 24)), u64 s)) us) \<and>
    and_then (begin_free m) (for_blocks (length m) m) =
      Inr (map (\<lambda>(b, s). (Some (u64 (b + 24)), u64 s)) fs)"
  using for_used [OF assms] by simp

theorem iterators_enumerate_witness:
  "\<exists>m. alloc 100 small_buffer = Inr (m, Some 40) \<and>
    and_then (begin_used m) (for_blocks (length m) m) = Inr [(Some 40, 100)] \<and>
    and_then (begin_free m) (for_blocks (length m) m) = Inr [(Some 164, 836)]"
proof -
  obtain m where m: "alloc 100 small_buffer = Inr (m, Some 40)" "heap_at m [(140, 836)] [(16, 100)]"
    by (rule small_alloc)
  with iterators_enumerate [OF m(2)] show ?thesis by simp
qed

text \<open>
  On the used list \<open>operator--\<close> takes back \<open>operator++\<close>; behind the last block comes the end
  iterator, which both leave where it is.
\<close>

lemma iterator_steps:
  assumes "heap_at m fs (xs @ (b, s) # ys)"
  shows "iter_next m (u64 b) = Inr (u64 (head_of ys)) \<and>
    (ys \<noteq> [] \<longrightarrow> iter_prev m (u64 (head_of ys)) = Inr (u64 b)) \<and>
    iter_next m end_blocks = Inr end_blocks \<and> iter_prev m end_blocks = Inr end_blocks"
proof -
  note D = heap_at_D [OF assms]
  have seg: "seg (rd m) b (rd m (b + 8)) ys 0" and b: "16 \<le> b" "b + 24 \<le> length m"
    using D(3,8) by auto
  have nz: "u64 c \<noteq> 0" if "16 \<le> c" "c + 24 \<le> length m" for c
  proof -
    have "c < 2 ^ 64" "c \<noteq> 0" using that D(1) by simp_all
    then show ?thesis by (simp only: u64_eq_0 not_False_eq_True)
  qed
  have "iter_next m (u64 b) = Inr (u64 (head_of ys))"
    using nz [OF b] b(2) D(1) seg_head [OF seg] by (simp add: iter_next_def block_reads)
  moreover have "iter_prev m (u64 (head_of ys)) = Inr (u64 b)" if ys: "ys \<noteq> []"
  proof -
    obtain c t zs where c: "ys = (c, t) # zs" using ys by (cases ys) auto
    have "16 \<le> c" "c + 24 \<le> length m" "rd m c = b" using D(8) seg c by auto
    then show ?thesis using nz [of c] D(1) by (simp add: iter_prev_def block_reads c)
  qed
  ultimately show ?thesis by (simp add: iter_next_def iter_prev_def end_blocks_def)
qed

text \<open>
  C19: \<open>print_stats\<close> computes the number, the least, the greatest and the total size of the used and
  of the free blocks, headers included, and the two totals and the file header add up to the file.
\<close>

theorem stats_exact:
  assumes "heap_at m fs us"
  shows "print_stats m = Inr (stats_of us, stats_of fs) \<and>
    16 + unat (total_block_size (stats_of us)) + unat (total_block_size (stats_of fs)) = length m"
proof -
  have t: "16 + total fs + total us = length m" "length m < 2 ^ 63"
    using heap_at_D(1,4) [OF assms] by (auto simp: heap_ok_def blocks_ok_def)
  then have "unat (u64 (total us)) = total us" "unat (u64 (total fs)) = total fs"
    by (intro u64_unat; simp)+
  with t print_stats_exec [OF assms] show ?thesis by (simp add: stats_of_def)
qed

theorem stats_exact_witness:
  "\<exists>m. alloc 100 small_buffer = Inr (m, Some 40) \<and>
    print_stats m = Inr (\<lparr>num_blocks = 1, smallest_block_size = 124, largest_block_size = 124, total_block_size = 124\<rparr>,
      \<lparr>num_blocks = 1, smallest_block_size = 860, largest_block_size = 860, total_block_size = 860\<rparr>)"
proof -
  obtain m where m: "alloc 100 small_buffer = Inr (m, Some 40)" "heap_at m [(140, 836)] [(16, 100)]"
    by (rule small_alloc)
  with stats_exact [OF m(2)] show ?thesis by (simp add: stats_of_def)
qed

section \<open>Opening\<close>

text \<open>
  C20: constructing a buffer on a new file of at least 40 bytes and less than 2 GiB gives a mapping
  of exactly that size with one free block that fills it behind the header, and no used block.
\<close>

theorem new_buffer_one_block:
  assumes "file_contents f = None" and "may_create f" and "may_resize f" and "may_map f"
    and "40 \<le> n" and "n < 2 ^ 31"
  shows "\<exists>buf. FileBackedBuffer f (u64 n) = Inr buf \<and> length (m_base buf) = n \<and>
    heap_at (m_base buf) [(16, n - 40)] []"
proof -
  have n: "n mod 2 ^ 32 = n" "n < 2 ^ 63" using assms(6) by simp_all
  then have "FileBackedBuffer f (u64 n) = Inr (opened (replicate n 0) (fresh_buffer (replicate n 0)))"
    using FileBackedBuffer_new(2) [OF assms(1-4) n(2)] assms(5,6) by (simp only: n(1))
  moreover have at: "heap_at (fresh_buffer (replicate n 0)) [(16, n - 40)] []"
    using fresh_buffer_heap [of "replicate n 0"] assms(5,6) by simp
  moreover have "length (fresh_buffer (replicate n 0)) = n"
    using at assms(5) by (simp add: heap_at_def heap_ok_def blocks_ok_def)
  ultimately show ?thesis by (simp add: opened_def)
qed

theorem new_buffer_one_block_witness:
  "\<exists>buf. FileBackedBuffer \<lparr>file_contents = None, may_create = True, may_open = True, may_resize = True,
      may_map = True\<rparr> 67108864 = Inr buf \<and> heap_at (m_base buf) [(16, 67108824)] []"
  using new_buffer_one_block [of "\<lparr>file_contents = None, may_create = True, may_open = True,
    may_resize = True, may_map = True\<rparr>" 67108864] by auto

text \<open>
  C21: the size of the file goes through an \<open>int\<close>. A size whose low 32 bits are 0 or at least
  \<open>2 ^ 31\<close> fails the constructor's assertion; a size of \<open>2 ^ 32\<close> bytes or more maps only what its low
  32 bits say.
\<close>

theorem large_buffer_truncated:
  assumes "file_contents f = None" and "may_create f" and "may_resize f" and "may_map f" and "n < 2 ^ 63"
  shows "if n mod 2 ^ 32 = 0 \<or> 2 ^ 31 \<le> n mod 2 ^ 32 then FileBackedBuffer f (u64 n) = Inl AssertionFailed
    else if n mod 2 ^ 32 < 40 then FileBackedBuffer f (u64 n) = Inl OutOfBounds
    else \<exists>buf. FileBackedBuffer f (u64 n) = Inr buf \<and> length (m_base buf) = n mod 2 ^ 32"
proof -
  note new = FileBackedBuffer_new [OF assms]
  let ?k = "n mod 2 ^ 32"
  consider (bad) "?k = 0 \<or> 2 ^ 31 \<le> ?k" | (small) "0 < ?k" "?k < 40" | (fits) "40 \<le> ?k" "?k < 2 ^ 31"
    by linarith
  then show ?thesis
  proof cases
    case bad
    then show ?thesis using new(1) by (simp only: if_True)
  next
    case small
    then have "\<not> (?k = 0 \<or> 2 ^ 31 \<le> ?k)" by simp
    with new(3) [OF small] small(2) show ?thesis by (simp only: if_True if_False)
  next
    case fits
    then have c: "\<not> (?k = 0 \<or> 2 ^ 31 \<le> ?k)" "\<not> ?k < 40" by simp_all
    have "heap_at (fresh_buffer (replicate ?k 0)) [(16, ?k - 40)] []"
      using fresh_buffer_heap [of "replicate ?k 0"] fits by (simp only: length_replicate)
    then have "length (fresh_buffer (replicate ?k 0)) = ?k"
      using fits(1) by (simp only: heap_at_def heap_ok_def blocks_ok_def) simp
    moreover have "m_base (opened (replicate n 0) m) = m" for m by (simp add: opened_def)
    ultimately have "\<exists>buf. FileBackedBuffer f (u64 n) = Inr buf \<and> length (m_base buf) = ?k"
      using new(2) [OF fits] by (intro exI conjI) (assumption, simp only:)
    with c show ?thesis by (simp only: if_False)
  qed
qed

theorem large_buffer_truncated_witness:
  "FileBackedBuffer \<lparr>file_contents = None, may_create = True, may_open = True, may_resize = True,
    may_map = True\<rparr> 2147483648 = Inl AssertionFailed"
  using large_buffer_truncated [of "\<lparr>file_contents = None, may_create = True, may_open = True,
    may_resize = True, may_map = True\<rparr>" 2147483648] by simp

text \<open>Opening an existing file of less than 2 GiB maps its bytes and changes none of them.\<close>

lemma existing_buffer_unchanged:
  assumes "file_contents f = Some bytes" and "may_open f" and "may_map f"
    and "0 < length bytes" and "length bytes < 2 ^ 31"
  shows "\<exists>buf. FileBackedBuffer f n = Inr buf \<and> m_base buf = bytes"
  using FileBackedBuffer_existing [OF assms] by (simp add: opened_def)

section \<open>A split that reads stale links\<close>

text \<open>
  C23: when \<open>alloc\<close> splits the only free block, \<open>insert_block_to_free_list\<close> finds the free list empty
  and returns before it writes the links of the rest. If the eight bytes there, old user data, read
  as an offset outside the file, the allocation succeeds and the next one writes outside the mapping.
\<close>

theorem split_leaves_stale_links:
  assumes "heap_at m [(b, s)] us" and "n + 124 \<le> s" and "n + 24 + k \<le> s"
    and "length m \<le> rd m (b + 24 + n)" and "rd m (b + 24 + n) < 2 ^ 64 - 8"
  shows "\<exists>m'. alloc (u64 n) m = Inr (m', Some (u64 (b + 24))) \<and> alloc (u64 k) m' = Inl OutOfBounds"
  by (rule dirty_split_faults [OF assms])

theorem split_leaves_stale_links_witness:
  "\<exists>m1 m2 m3 m4. alloc 900 small_buffer = Inr (m1, Some 40) \<and>
    store_bytes m1 40 (replicate 900 0x78) = Inr m2 \<and> free 40 m2 = Inr m3 \<and>
    alloc 8 m3 = Inr (m4, Some 40) \<and> alloc 8 m4 = Inl OutOfBounds"
proof -
  obtain m1 m2 m3 where run: "alloc 900 small_buffer = Inr (m1, Some 40)"
    "store_bytes m1 40 (replicate 900 0x78) = Inr m2" "free 40 m2 = Inr m3"
    and at: "heap_at m3 [(16, 960)] []" and stale: "rd m3 48 = 8680820740569200760"
    using reuse_leaves_data by (auto simp: small_buffer_def)
  have "length m3 = 1000" using at by (simp add: heap_at_def heap_ok_def blocks_ok_def)
  then obtain m4 where "alloc 8 m3 = Inr (m4, Some 40)" "alloc 8 m4 = Inl OutOfBounds"
    using split_leaves_stale_links [OF at, of 8 8] stale by auto
  with run show ?thesis by blast
qed

end
