(* ===== verification/Table_Restarts.thy ===== *)
theory Table_Restarts
  imports Fresh_Store "HOL-Library.Multiset"
begin

text \<open>
  What a restart makes of a table. A table at rest is loaded again with the same pairs. A process
  that dies between \<open>put\<close>'s copy of the new value and its release of the old block leaves two
  blocks for the key; after loading, the older one counts, and if the key is then written and the
  table loaded once more, the value of the interrupted \<open>put\<close> comes back over the newer one. Last,
  keys with a zero byte: the table never finds them.
\<close>

section \<open>Tables at rest\<close>

text \<open>The pairs of a table in the order of the used list.\<close>

lemma pairs_in_used_order:
  assumes rep: "table_rep t us xs kvs cs" and all: "set xs = set us"
  shows "\<exists>kvs'. list_all2 (holds (memory t)) us kvs' \<and> mset kvs' = mset kvs"
proof -
  have heap: "used_heap (memory t) us" and dx: "distinct xs" and hold: "list_all2 (holds (memory t)) xs kvs"
    using rep by (simp_all add: table_rep_def)
  have du: "distinct us" using al.heap_distinct [OF heap] by (simp add: distinct_map)
  note len = table_rep_lengths(1) [OF rep]
  define f where "f x = the (map_of (zip xs kvs) x)" for x
  have f: "f (xs ! i) = kvs ! i" if "i < length xs" for i
    using that len dx by (simp add: f_def map_of_zip_nth)
  have "map f xs = kvs" by (rule nth_equalityI) (use f len in auto)
  moreover have "mset us = mset xs" using dx du all by (simp add: set_eq_iff_mset_eq_distinct)
  ultimately have "mset (map f us) = mset kvs" by (metis mset_map)
  moreover have "holds (memory t) x (f x)" if "x \<in> set us" for x
  proof -
    have "x \<in> set xs" using that all by simp
    then obtain i where i: "i < length xs" "x = xs ! i" by (auto simp: in_set_conv_nth)
    then show ?thesis using f [OF i(1)] list_all2_nthD [OF hold i(1)] by simp
  qed
  then have "list_all2 (holds (memory t)) us (map f us)" by (simp add: list_all2_map2 list_all2_same)
  ultimately show ?thesis by blast
qed

lemma mset_map_of:
  assumes "mset kvs' = mset kvs" and "distinct (map fst kvs)"
  shows "distinct (map fst kvs') \<and> map_of kvs' = map_of kvs"
proof -
  have "mset (map fst kvs') = mset (map fst kvs)" using assms(1) by (metis mset_map)
  then have "distinct (map fst kvs')" using assms(2) by (metis mset_eq_imp_distinct_iff)
  moreover have "set kvs' = set kvs" using assms(1) by (rule mset_eq_setD)
  ultimately show ?thesis using assms(2) by (simp add: map_of_inject_set)
qed

lemma reload_table:
  assumes at: "table_at hasher t kvs" and N: "0 < N" and base: "m_base buf = memory t"
  shows "\<exists>t' kvs'. load_table hasher' N buf = Inr t' \<and> memory t' = memory t \<and>
    table_at hasher' t' kvs' \<and> mset kvs' = mset kvs"
proof -
  obtain us xs cs where rep: "table_rep t us xs kvs cs" "set xs = set us"
    and dist: "distinct (map fst kvs)" using at unfolding table_at_def by blast
  obtain fs where heap: "heap_at (m_base buf) fs us"
    using rep(1) base by (auto simp: table_rep_def used_heap_def)
  obtain kvs' where kvs': "list_all2 (holds (m_base buf)) us kvs'" "mset kvs' = mset kvs"
    using pairs_in_used_order [OF rep] base by auto
  obtain t' cs' where t': "load_table hasher' N buf = Inr t'" "memory t' = m_base buf"
    "table_rep t' us us kvs' cs'" "loaded_chains hasher' kvs' cs'"
    using load_table_exec [OF heap kvs'(1) N] by blast
  have "distinct (map fst kvs')" using mset_map_of [OF kvs'(2) dist] by blast
  from loaded_table [OF t'(3,4) this] t' kvs'(2) base show ?thesis by auto
qed

section \<open>A process that dies inside \<open>put\<close>\<close>

text \<open>
  The memory after \<open>put\<close> allocated a block and copied the pair to it: what a process leaves that
  dies before the old block is given back.
\<close>

lemma interrupted_put:
  assumes at: "table_at hasher t kvs" and nul: "0 \<notin> set key" "0 \<notin> set val"
    and n: "length key + length val + 2 < 2 ^ 64"
    and room: "has_room (memory t) (length key + length val + 2)"
    and clean: "clean_for (memory t) (length key + length val + 2)"
    and al: "alloc (u64 (length key + length val + 2)) (memory t) = Inr (m1, Some p)"
    and copy: "copy_key_value p key val m1 = Inr m2"
  shows "\<exists>fs us kvs'. heap_at m2 fs us \<and> mset kvs' = mset kvs \<and>
    list_all2 (holds m2) us ((key, val) # kvs')"
proof -
  obtain us xs cs where rep: "table_rep t us xs kvs cs" "set xs = set us"
    using at unfolding table_at_def by blast
  have heap: "used_heap (memory t) us" using rep(1) by (simp add: table_rep_def)
  obtain kvs' where kvs': "list_all2 (holds (memory t)) us kvs'" "mset kvs' = mset kvs"
    using pairs_in_used_order [OF rep] by blast
  obtain b s where p: "p = u64 (b + 24)" and s: "length key + length val + 2 \<le> s"
    and heap1: "used_heap m1 ((b, s) # us)" and keep: "\<forall>x \<in> set us. data_of m1 x = data_of (memory t) x"
    using al.acquire_works [OF heap n room clean] al by auto
  let ?x = "(b, s)"
  have x: "?x \<in> set (?x # us)" "length key + length val + 2 \<le> snd ?x" using s by simp_all
  have heap2: "used_heap m2 (?x # us)" and new: "holds m2 ?x (key, val)"
    and rest: "\<forall>y \<in> set (?x # us). y \<noteq> ?x \<longrightarrow> data_of m2 y = data_of m1 y"
    using copy_pair [OF heap1 x] copy p upto_nul_id [OF nul(1)] upto_nul_id [OF nul(2)] by auto
  have "data_of m2 y = data_of (memory t) y" if "y \<in> set us" for y
    using al.fresh_block [OF heap1 that] rest keep that by simp
  then have "list_all2 (holds m2) us kvs'"
    using kvs'(1) by (auto simp: list_all2_conv_all_nth holds_def)
  then have "list_all2 (holds m2) (?x # us) ((key, val) # kvs')" using new by simp
  with heap2 kvs'(2) show ?thesis unfolding used_heap_def by blast
qed

lemma map_of_delete_at:
  assumes "distinct (map fst kvs)" and "i < length kvs"
  shows "map_of (rev (take i kvs @ drop (Suc i) kvs)) (fst (kvs ! i)) = None"
proof -
  have "distinct (map fst (take i kvs @ kvs ! i # drop (Suc i) kvs))"
    using assms by (simp add: id_take_nth_drop [symmetric])
  then have "fst (kvs ! i) \<notin> fst ` set (take i kvs)" "fst (kvs ! i) \<notin> fst ` set (drop (Suc i) kvs)"
    by auto
  then have "fst (kvs ! i) \<notin> fst ` set (rev (take i kvs @ drop (Suc i) kvs))" by (simp add: image_Un)
  then show ?thesis using map_of_eq_None_iff by fast
qed

lemma remove1_nth: "distinct xs \<Longrightarrow> i < length xs \<Longrightarrow> remove1 (xs ! i) xs = take i xs @ drop (Suc i) xs"
  by (induction xs arbitrary: i) (auto simp: nth_Cons' take_Cons' drop_Cons')

lemma find_append: "List.find P (xs @ ys) = (case List.find P xs of None \<Rightarrow> List.find P ys | Some x \<Rightarrow> Some x)"
  by (induction xs) auto

lemma find_behind_first:
  assumes "map_of kvs key = Some v"
  shows "\<exists>i < length kvs. fst (kvs ! i) = key \<and>
    List.find (\<lambda>i. fst (((key, w) # kvs) ! i) = key) (rev [0 ..< Suc (length kvs)]) = Some (Suc i)"
proof -
  let ?P = "\<lambda>i. fst (((key, w) # kvs) ! i) = key"
  obtain l where l: "l < length kvs" "kvs ! l = (key, v)"
    using map_of_SomeD [OF assms] by (auto simp: in_set_conv_nth)
  then have "List.find ?P (rev [Suc 0 ..< Suc (length kvs)]) \<noteq> None"
    by (auto simp: find_None_iff intro!: bexI [of _ "Suc l"] simp del: upt_Suc)
  then obtain r where r: "List.find ?P (rev [Suc 0 ..< Suc (length kvs)]) = Some r" by auto
  then have "r \<in> set (rev [Suc 0 ..< Suc (length kvs)])" "?P r"
    unfolding find_Some_iff by (metis nth_mem)+
  moreover from this(1) have "Suc 0 \<le> r \<and> r < Suc (length kvs)"
    by (simp only: set_rev set_upt atLeastLessThan_iff)
  then obtain i where "r = Suc i" by (cases r) simp_all
  moreover have "rev [0 ..< Suc (length kvs)] = rev [Suc 0 ..< Suc (length kvs)] @ [0]"
    by (subst upt_conv_Cons) simp_all
  then have "List.find ?P (rev [0 ..< Suc (length kvs)]) = Some r" using r by (simp only: find_append) simp
  ultimately show ?thesis by (intro exI [of _ i]) (auto simp del: upt_Suc)
qed

text \<open>
  The key is then written again, successfully, and the table loaded a second time: it returns the
  value of the interrupted write.
\<close>

lemma interrupted_value_returns:
  assumes heap: "heap_at m2 fs us" and pairs: "list_all2 (holds m2) us ((key, val) # kvs)"
    and dist: "distinct (map fst kvs)" and old: "map_of kvs key = Some v0"
    and N: "0 < N" and base: "m_base buf = m2"
    and nul: "0 \<notin> set new" and n: "length key + length new + 2 < 2 ^ 64"
    and room: "has_room m2 (length key + length new + 2)"
    and clean: "clean_for m2 (length key + length new + 2)"
  shows "\<exists>t1 t2 t3. load_table hasher N buf = Inr t1 \<and> get hasher key t1 = Inr v0 \<and>
    put hasher key new t1 = Inr (t2, True) \<and> get hasher key t2 = Inr new \<and>
    load_table hasher N (m_buffer t2) = Inr t3 \<and> get hasher key t3 = Inr val"
proof -
  let ?kvs = "(key, val) # kvs"
  obtain t1 cs where t1: "load_table hasher N buf = Inr t1" "memory t1 = m2"
    "table_rep t1 us us ?kvs cs" "loaded_chains hasher ?kvs cs"
    using load_table_exec [of buf fs us ?kvs N hasher] heap pairs N base by auto
  have nulk: "upto_nul key = key"
    using pairs by (cases us) (auto simp: holds_def intro!: upto_nul_id)
  have nuln: "upto_nul new = new" using nul by (rule upto_nul_id)
  have get1: "get hasher key t1 = Inr v0"
    using get_loaded [OF t1(3,4), of key] old mset_map_of [of "rev kvs" kvs, OF _ dist]
    by (simp add: map_add_def)
  let ?j = "slot_of hasher t1 key"
  obtain i where i: "i < length kvs" "fst (kvs ! i) = key"
    and find: "List.find (\<lambda>i. fst (?kvs ! i) = key) (cs ! ?j) = Some (Suc i)"
    using find_behind_first [OF old, of val] find_loaded [OF t1(3,4), of key] by auto
  have mem: "has_room (memory t1) (length key + length new + 2)"
    "clean_for (memory t1) (length key + length new + 2)" using room clean t1(2) by simp_all
  obtain t2 x where t2: "put hasher key new t1 = Inr (t2, True)" "x \<notin> set us"
    "length (m_hash_table t2) = length (m_hash_table t1)"
    and rep2: "table_rep t2 (remove1 (us ! Suc i) (x # us)) (us[Suc i := x]) (?kvs[Suc i := (key, new)]) cs"
    using put_exec [OF t1(3) n mem, of hasher] unfolding find nulk nuln by auto
  have len: "length us = Suc (length kvs)" using list_all2_lengthD [OF pairs] by simp
  have get2: "get hasher key t2 = Inr new"
  proof -
    have "slot_of hasher t2 key = ?j" by (simp add: slot_of_def t2(3))
    moreover have "(\<lambda>l. fst (?kvs[Suc i := (key, new)] ! l) = key) = (\<lambda>l. fst (?kvs ! l) = key)"
      using i by (intro ext) (simp add: nth_list_update nth_Cons split: nat.splits)
    ultimately show ?thesis using i find by (simp add: get_exec [OF rep2])
  qed
  have us2: "remove1 (us ! Suc i) (x # us) = x # take (Suc i) us @ drop (Suc (Suc i)) us"
  proof -
    have "distinct us" using t1(3) by (simp add: table_rep_def)
    moreover have "us ! Suc i \<in> set us" using i(1) len by simp
    then have "us ! Suc i \<noteq> x" using t2(2) by metis
    ultimately show ?thesis using i(1) len by (simp add: remove1_nth)
  qed
  let ?rest = "(key, val) # take i kvs @ drop (Suc i) kvs"
  have "list_all2 (holds (memory t2)) (us[Suc i := x]) (?kvs[Suc i := (key, new)])"
    using rep2 by (simp only: table_rep_def)
  note pairs2 = list_all2_nthD [OF this, of "Suc i"] list_all2_takeI [OF this, of "Suc i"]
    list_all2_dropI [OF this, of "Suc (Suc i)"]
  have "list_all2 (holds (memory t2)) (x # take (Suc i) us @ drop (Suc (Suc i)) us) ((key, new) # ?rest)"
    using pairs2 i(1) len list_all2_appendI [of _ "take (Suc i) us" "(key, val) # take i kvs"]
    by simp
  moreover obtain fs2 where "heap_at (memory t2) fs2 (x # take (Suc i) us @ drop (Suc (Suc i)) us)"
    using rep2 unfolding us2 table_rep_def used_heap_def by blast
  ultimately obtain t3 cs3 where t3: "load_table hasher N (m_buffer t2) = Inr t3"
    "table_rep t3 (x # take (Suc i) us @ drop (Suc (Suc i)) us)
      (x # take (Suc i) us @ drop (Suc (Suc i)) us) ((key, new) # ?rest) cs3"
    "loaded_chains hasher ((key, new) # ?rest) cs3"
    using load_table_exec [OF _ _ N, of "m_buffer t2" fs2 _ "(key, new) # ?rest" hasher] by blast
  have "get hasher key t3 = Inr val"
  proof -
    define R where "R = take i kvs @ drop (Suc i) kvs"
    have "map_of (rev R) key = None" using map_of_delete_at [OF dist i(1)] i(2) by (simp only: R_def)
    then have "map_of (rev ((key, new) # (key, val) # R)) key = Some val"
      by (simp add: map_add_def)
    then show ?thesis using get_loaded [OF t3(2,3), of key] by (simp only: R_def [symmetric]) simp
  qed
  with t1(1) get1 t2(1) get2 t3(1) show ?thesis by blast
qed

end
