(* ===== verification/Table_Shutdown.thy ===== *)
theory Table_Shutdown
  imports Table_Restarts
begin

text \<open>
  Destroying a table: every bucket gives its block back to the buffer, so the file that is left has no
  used block, and the next table that is opened on it is empty.
\<close>

text \<open>Destroying the buckets of \<open>is\<close> takes their blocks, and no others, off the used list.\<close>

lemma destroy_buckets_exec:
  assumes rep: "table_rep t us xs kvs cs" and "distinct is" and "set is \<subseteq> {..< length kvs}"
  shows "\<exists>m us'. fold_res destroy_bucket is t = Inr (with_memory t m) \<and> used_heap m us' \<and> distinct us' \<and>
    set us' = set us - (\<lambda>i. xs ! i) ` set is"
  using assms(2,3)
proof (induction "is" rule: rev_induct)
  case Nil
  have "used_heap (memory t) us" using rep by (simp only: table_rep_def)
  then show ?case
    using al.heap_distinct [of "memory t" us]
    by (intro exI [of _ "memory t"] exI [of _ us]) (simp add: distinct_map)
next
  case (snoc i "is")
  obtain m us' where m: "fold_res destroy_bucket is t = Inr (with_memory t m)" "used_heap m us'" "distinct us'"
    "set us' = set us - (\<lambda>i. xs ! i) ` set is"
    using snoc by auto
  have i: "i < length kvs" "i \<notin> set is" "set is \<subseteq> {..< length kvs}" using snoc.prems by auto
  note len = table_rep_lengths [OF rep] and b = table_rep_block [OF rep i(1)]
  have "distinct xs" using rep by (simp only: table_rep_def)
  then have "xs ! i \<notin> (\<lambda>i. xs ! i) ` set is"
    using i len(1) by (auto simp: nth_eq_iff_index_eq)
  then have "xs ! i \<in> set us'" using b(1) m(4) by simp
  from al.release_works [OF m(2) this] obtain m' where
    "free (pointer_of (xs ! i)) m = Inr m'" "used_heap m' (remove1 (xs ! i) us')" by blast
  moreover have "bucket_at (with_memory t m) i = Inr (m_bucket_storage t ! i)"
    using b(3) by (simp add: bucket_at_def split: if_splits)
  ultimately have "destroy_bucket i (with_memory t m) = Inr (with_memory t m')"
    using b(4) by (simp add: destroy_bucket_def BufferFreer_def)
  then have "fold_res destroy_bucket (is @ [i]) t = Inr (with_memory t m')"
    using m(1) by (simp add: fold_res_append)
  then show ?case
    using m(3,4) \<open>used_heap m' _\<close> by (intro exI [of _ m'] exI [of _ "remove1 (xs ! i) us'"]) auto
qed

lemma destroy_table_empty:
  assumes at: "table_at hasher t kvs" and order: "mset order = mset [0 ..< length (m_bucket_storage t)]"
  shows "\<exists>m. destroy_table order t = Inr m \<and> used_heap m []"
proof -
  obtain us xs cs where rep: "table_rep t us xs kvs cs" and all: "set xs = set us"
    using at unfolding table_at_def by blast
  note len = table_rep_lengths [OF rep]
  have "distinct order" using mset_eq_imp_distinct_iff [OF order] by simp
  moreover have set: "set order = {..< length kvs}"
    using mset_eq_setD [OF order] by (simp only: len(2) set_upt lessThan_atLeast0)
  ultimately obtain m us' where m: "fold_res destroy_bucket order t = Inr (with_memory t m)" "used_heap m us'"
    "set us' = set us - (\<lambda>i. xs ! i) ` set order"
    using destroy_buckets_exec [OF rep, of order] by auto
  have "(\<lambda>i. xs ! i) ` {..< length kvs} = set xs" using len(1) by (auto simp: set_conv_nth)
  then have "us' = []" using m(3) set all by simp
  with m(1,2) show ?thesis by (simp add: destroy_table_def)
qed

text \<open>A table loaded from a buffer without used blocks is empty.\<close>

lemma load_empty:
  assumes heap: "used_heap (m_base buf) []" and N: "0 < N"
  shows "\<exists>t. load_table hasher N buf = Inr t \<and> table_at hasher t [] \<and> m_bucket_storage t = []"
proof -
  obtain fs where at: "heap_at (m_base buf) fs []" using heap by (auto simp: used_heap_def)
  obtain t cs where t: "load_table hasher N buf = Inr t" "table_rep t [] [] [] cs" "loaded_chains hasher [] cs"
    using load_table_exec [OF at, of "[]" N hasher] N by auto
  have "table_at hasher t []" by (rule loaded_table [OF t(2,3)]) simp
  moreover have "m_bucket_storage t = []" using table_rep_lengths(2) [OF t(2)] by simp
  ultimately show ?thesis using t(1) by blast
qed

end
