(* ===== verification/Table_Properties.thy ===== *)
theory Table_Properties
  imports Table_Shutdown
begin

text \<open>
  The properties of the hash table, over the definitions of \<open>Hash_Table\<close>, each with an instance on a
  store that is created on a file system with no buffer file.
\<close>

definition new_file :: os_file where
  "new_file = \<lparr>file_contents = None, may_create = True, may_open = True, may_resize = True, may_map = True\<rparr>"

definition stored_file :: "mapping \<Rightarrow> os_file" where
  "stored_file m = \<lparr>file_contents = Some m, may_create = True, may_open = True, may_resize = True, may_map = True\<rparr>"

lemma created:
  obtains t where "ConcurrentHashTable hasher new_file = Inr t" "fresh_table hasher t [] 536870872"
  using new_store [of new_file hasher] by (auto simp: new_file_def)

lemma created_one:
  assumes "0 \<notin> set k" and "0 \<notin> set v" and "length k + length v \<le> 100"
  obtains t t1 where "ConcurrentHashTable hasher new_file = Inr t" "fresh_table hasher t [] 536870872"
    "put hasher k v t = Inr (t1, True)"
    "fresh_table hasher t1 [(k, v)] (536870872 - (length k + length v + 26))"
proof -
  obtain t where t: "ConcurrentHashTable hasher new_file = Inr t" "fresh_table hasher t [] 536870872"
    by (rule created)
  have "length k + length v + 2 < 2 ^ 64" using assms(3) by simp
  from fresh_put [OF t(2) assms(1) _ assms(2) this] assms(3) t that show thesis by auto
qed

section \<open>Reading and writing\<close>

text \<open>
  C1: in a table that holds the pairs \<open>kvs\<close>, if the buffer has room and its allocator can serve the
  request, \<open>put\<close> succeeds and the table then holds \<open>kvs\<close> updated at the key: an old pair is
  replaced in place, a new one added at the end. The table's whole invariant is kept.
\<close>

theorem put_updates:
  assumes "table_at hasher t kvs" and "0 \<notin> set key" and "0 \<notin> set val"
    and "length key + length val + 2 < 2 ^ 64"
    and "has_room (memory t) (length key + length val + 2)"
    and "clean_for (memory t) (length key + length val + 2)"
  shows "\<exists>t'. put hasher key val t = Inr (t', True) \<and> table_at hasher t' (AList.update key val kvs)"
  using put_table [OF assms(1,2,4,5,6)] upto_nul_id [OF assms(3)] by simp

theorem put_updates_witness:
  "\<exists>t t1 t2. ConcurrentHashTable (\<lambda>_. 5) new_file = Inr t \<and> put (\<lambda>_. 5) [97] [98] t = Inr (t1, True) \<and>
    put (\<lambda>_. 5) [97] [99, 100] t1 = Inr (t2, True) \<and> table_at (\<lambda>_. 5) t2 [([97], [99, 100])]"
proof -
  obtain t t1 where t: "ConcurrentHashTable (\<lambda>_. 5) new_file = Inr t"
    "put (\<lambda>_. 5) [97] [98] t = Inr (t1, True)" "fresh_table (\<lambda>_. 5) t1 [([97], [98])] (536870872 - 28)"
    by (rule created_one [of "[97]" "[98]" "\<lambda>_. 5"]) auto
  note fresh = fresh_admits [OF t(3)]
  show ?thesis
    using put_updates [OF fresh(1), of "[97]" "[99, 100]"] fresh(2,3) t(1,2) by fastforce
qed

text \<open>
  C2: \<open>get\<close> returns the value the table holds for the key, and the empty string for a key it does
  not hold.
\<close>

theorem get_returns:
  assumes "table_at hasher t kvs"
  shows "get hasher key t = Inr (case map_of kvs key of None \<Rightarrow> [] | Some v \<Rightarrow> v)"
  using assms by (rule get_table)

theorem get_returns_witness:
  "\<exists>t t1. ConcurrentHashTable (\<lambda>_. 5) new_file = Inr t \<and> put (\<lambda>_. 5) [97] [98] t = Inr (t1, True) \<and>
    get (\<lambda>_. 5) [97] t1 = Inr [98] \<and> get (\<lambda>_. 5) [97, 97] t1 = Inr []"
proof -
  obtain t t1 where t: "ConcurrentHashTable (\<lambda>_. 5) new_file = Inr t"
    "put (\<lambda>_. 5) [97] [98] t = Inr (t1, True)" "fresh_table (\<lambda>_. 5) t1 [([97], [98])] (536870872 - 28)"
    by (rule created_one [of "[97]" "[98]" "\<lambda>_. 5"]) auto
  show ?thesis using get_returns [OF fresh_admits(1) [OF t(3)]] t(1,2) by auto
qed

text \<open>
  C3: after any run of writes that the table admits, every key has the value of its last
  acknowledged write, and a key with none has what it had before.
\<close>

theorem last_write_wins:
  assumes "table_state hasher t M" and "admitted (put hasher) put_admits ops t"
  shows "\<exists>t' bs. run_puts (put hasher) ops t = Inr (t', bs) \<and> length bs = length ops \<and>
    (\<forall>k. get hasher k t' = (case map_of (rev (acknowledged ops bs)) k of
      None \<Rightarrow> get hasher k t | Some v \<Rightarrow> Inr v))"
  using assms by (rule kv.run_lookup)

theorem last_write_wins_witness:
  "\<exists>t t' bs. ConcurrentHashTable (\<lambda>_. 5) new_file = Inr t \<and>
    run_puts (put (\<lambda>_. 5)) [([97], [98])] t = Inr (t', bs) \<and> length bs = 1 \<and>
    get (\<lambda>_. 5) [99] t' = Inr []"
proof -
  obtain t t1 where t: "ConcurrentHashTable (\<lambda>_. 5) new_file = Inr t" "fresh_table (\<lambda>_. 5) t [] 536870872"
    "put (\<lambda>_. 5) [97] [98] t = Inr (t1, True)"
    by (rule created_one [of "[97]" "[98]" "\<lambda>_. 5"]) auto
  have "table_state (\<lambda>_. 5) t Map.empty"
    using fresh_admits(1) [OF t(2)] by (auto simp: table_state_def intro!: exI [of _ "[]"])
  moreover have "admitted (put (\<lambda>_. 5)) put_admits [([97], [98])] t"
    using fresh_admits(3) [OF t(2)] t(3) by (simp add: put_admits_def)
  ultimately obtain t' bs where r: "run_puts (put (\<lambda>_. 5)) [([97], [98])] t = Inr (t', bs)" "length bs = 1"
    "\<forall>k. get (\<lambda>_. 5) k t' = (case map_of (rev (acknowledged [([97], [98])] bs)) k of
      None \<Rightarrow> get (\<lambda>_. 5) k t | Some v \<Rightarrow> Inr v)"
    using last_write_wins [of "\<lambda>_. 5" t Map.empty "[([97], [98])]"] by auto
  have "map_of (rev (acknowledged [([97 :: byte], [98 :: byte])] bs)) [99] = None"
    by (cases bs) (simp_all add: acknowledged_def)
  then have "get (\<lambda>_. 5) [99] t' = Inr []"
    using r(3) get_table [OF fresh_admits(1) [OF t(2)], of "[99]"] by simp
  with r(1,2) t(1) show ?thesis by blast
qed

text \<open>
  C4: creating a store on a new file and writing any list of pairs with distinct keys to it, as long
  as they fit: every write is acknowledged, and every \<open>get\<close> returns what was written. Nothing is
  assumed of the allocator here.
\<close>

theorem new_store_filled:
  assumes "file_contents f = None" and "may_create f" and "may_resize f" and "may_map f"
    and "distinct (map fst ops)" and "storable ops" and "needed ops + 100 \<le> 536870872"
  shows "\<exists>t t'. ConcurrentHashTable hasher f = Inr t \<and>
    run_puts (put hasher) ops t = Inr (t', replicate (length ops) True) \<and>
    (\<forall>k. get hasher k t' = Inr (case map_of ops k of None \<Rightarrow> [] | Some v \<Rightarrow> v))"
proof -
  obtain t where t: "ConcurrentHashTable hasher f = Inr t" "fresh_table hasher t [] 536870872"
    using new_store [OF assms(1-4)] by blast
  from fresh_run [OF t(2) _ assms(6)] assms(5,7) obtain t' space where
    "run_puts (put hasher) ops t = Inr (t', replicate (length ops) True)"
    "fresh_table hasher t' ops space" by (auto simp: acknowledged_all)
  with t(1) get_table fresh_admits(1) show ?thesis by blast
qed

theorem new_store_filled_witness:
  "\<exists>t t'. ConcurrentHashTable (\<lambda>_. 5) new_file = Inr t \<and>
    run_puts (put (\<lambda>_. 5)) [([97], [98]), ([99], []), ([], [100])] t = Inr (t', [True, True, True]) \<and>
    get (\<lambda>_. 5) [] t' = Inr [100]"
proof -
  let ?ops = "[([97], [98]), ([99], []), ([], [100])] :: (str \<times> str) list"
  have "replicate (length ?ops) True = [True, True, True]" by (simp add: numeral_eq_Suc)
  moreover have "distinct (map fst ?ops)" "storable ?ops" "needed ?ops + 100 \<le> 536870872"
    by (simp_all add: storable_def needed_def)
  ultimately show ?thesis
    using new_store_filled [of new_file ?ops "\<lambda>_. 5"] unfolding new_file_def by fastforce
qed

text \<open>
  C5: \<open>put\<close> fails exactly when no free block is large enough for the two strings and their
  terminators, if its allocator can serve the request; the table is then unchanged.
\<close>

theorem put_without_room:
  assumes "table_at hasher t kvs" and "length key + length val + 2 < 2 ^ 64"
    and "clean_for (memory t) (length key + length val + 2)"
  shows "\<exists>t' b. put hasher key val t = Inr (t', b) \<and>
    (b \<longleftrightarrow> has_room (memory t) (length key + length val + 2)) \<and> (\<not> b \<longrightarrow> t' = t)"
proof (cases "has_room (memory t) (length key + length val + 2)")
  case True
  have "\<exists>t'. put hasher key val t = Inr (t', True)"
  proof (cases "0 \<in> set key")
    case nul: True
    obtain us xs cs where rep: "table_rep t us xs kvs cs" using assms(1) unfolding table_at_def by blast
    from put_exec [OF rep assms(2) True assms(3), of hasher] find_nul [OF rep nul] show ?thesis
      by (auto split: option.splits)
  next
    case False
    from put_table [OF assms(1) False assms(2) True assms(3)] show ?thesis by blast
  qed
  with True show ?thesis by blast
next
  case False
  then have "put hasher key val t = Inr (t, False)"
    using assms(1) put_no_room [OF _ assms(2)] unfolding table_at_def by blast
  with False show ?thesis by blast
qed

theorem put_without_room_witness:
  "\<exists>t t1. ConcurrentHashTable (\<lambda>_. 5) new_file = Inr t \<and> put (\<lambda>_. 5) [97] [98] t = Inr (t1, True) \<and>
    (\<exists>key val. put (\<lambda>_. 5) key val t = Inr (t, False))"
proof -
  obtain t where t: "ConcurrentHashTable (\<lambda>_. 5) new_file = Inr t" "fresh_table (\<lambda>_. 5) t [] 536870872"
    by (rule created)
  note fresh = fresh_admits [OF t(2)]
  define n :: nat where "n = 536870871"
  have len: "length ([] :: str) + length (replicate n (1 :: byte)) + 2 = n + 2"
    by (simp only: length_replicate list.size add_0_left)
  have small: "length ([] :: str) + length (replicate n (1 :: byte)) + 2 < 2 ^ 64"
    unfolding len by (simp add: n_def)
  have "536870872 < length ([] :: str) + length (replicate n (1 :: byte)) + 2"
    unfolding len by (simp add: n_def)
  then have full: "\<not> has_room (memory t) (length ([] :: str) + length (replicate n (1 :: byte)) + 2)"
    by (rule fresh(4))
  with put_without_room [OF fresh(1) small fresh(3)] have "put (\<lambda>_. 5) [] (replicate n 1) t = Inr (t, False)"
    by fastforce
  moreover obtain t1 where "put (\<lambda>_. 5) [97] [98] t = Inr (t1, True)"
    using put_without_room [OF fresh(1) _ fresh(3), of "[97]" "[98]"] fresh(2) [of "length [97 :: byte] + length [98 :: byte] + 2"]
    by auto
  ultimately show ?thesis using t(1) by blast
qed

section \<open>Restarting\<close>

text \<open>
  C6: opening a store on the bytes a table left in its file gives a table that answers every \<open>get\<close>
  as the old one did, whatever the hash function of the new process.
\<close>

theorem restart_keeps_pairs:
  assumes "table_at hasher t kvs" and "file_contents f = Some (memory t)" and "may_open f" and "may_map f"
  shows "\<exists>t'. ConcurrentHashTable hasher' f = Inr t' \<and> (\<forall>key. get hasher' key t' = get hasher key t)"
proof -
  obtain us xs cs where rep: "table_rep t us xs kvs cs" and dist: "distinct (map fst kvs)"
    using assms(1) unfolding table_at_def by blast
  obtain fs where at: "heap_at (memory t) fs us"
    using rep by (auto simp: table_rep_def used_heap_def)
  then have "0 < length (memory t)" "length (memory t) < 2 ^ 31"
    by (auto simp: heap_at_def heap_ok_def blocks_ok_def)
  with assms(2-4) have "FileBackedBuffer f BUFFER_SIZE = Inr (opened (memory t) (memory t))"
    by (rule FileBackedBuffer_existing)
  moreover obtain t' kvs' where "load_table hasher' HASH_TABLE_SIZE (opened (memory t) (memory t)) = Inr t'"
    "table_at hasher' t' kvs'" "mset kvs' = mset kvs"
    using reload_table [OF assms(1), of HASH_TABLE_SIZE "opened (memory t) (memory t)" hasher']
    by (auto simp: HASH_TABLE_SIZE_def opened_def)
  moreover from this mset_map_of [OF _ dist] have "map_of kvs' = map_of kvs" by blast
  with \<open>table_at hasher' t' kvs'\<close> assms(1) have "get hasher' key t' = get hasher key t" for key
    by (simp add: get_table)
  ultimately show ?thesis by (intro exI [of _ t']) (simp add: ConcurrentHashTable_def)
qed

theorem restart_keeps_pairs_witness:
  "\<exists>t t1 t2. ConcurrentHashTable (\<lambda>_. 5) new_file = Inr t \<and> put (\<lambda>_. 5) [97] [98] t = Inr (t1, True) \<and>
    ConcurrentHashTable (\<lambda>_. 7) (stored_file (memory t1)) = Inr t2 \<and> get (\<lambda>_. 7) [97] t2 = Inr [98]"
proof -
  obtain t t1 where t: "ConcurrentHashTable (\<lambda>_. 5) new_file = Inr t"
    "put (\<lambda>_. 5) [97] [98] t = Inr (t1, True)" "fresh_table (\<lambda>_. 5) t1 [([97], [98])] (536870872 - 28)"
    by (rule created_one [of "[97]" "[98]" "\<lambda>_. 5"]) auto
  note at = fresh_admits(1) [OF t(3)]
  show ?thesis
    using restart_keeps_pairs [OF at, of "stored_file (memory t1)" "\<lambda>_. 7"] get_table [OF at, of "[97]"] t(1,2)
    by (auto simp: stored_file_def)
qed

text \<open>
  C7: a process dies in \<open>put\<close> between the copy of the new value and the release of the old block.
  The next process reads the old value, which is right, since that \<open>put\<close> never returned. It then
  writes the key, and the write is acknowledged. But the process after that reads the value of the
  \<open>put\<close> that was interrupted: the acknowledged write is lost.
\<close>

theorem interrupted_put_resurfaces:
  assumes "table_at hasher t kvs" and "map_of kvs key = Some v0"
    and "0 \<notin> set key" and "0 \<notin> set val" and "0 \<notin> set new"
    and "length key + length val + 2 < 2 ^ 64" and "length key + length new + 2 < 2 ^ 64"
    and "has_room (memory t) (length key + length val + 2)"
    and "clean_for (memory t) (length key + length val + 2)"
    and "alloc (u64 (length key + length val + 2)) (memory t) = Inr (m1, Some p)"
    and "copy_key_value p key val m1 = Inr m2"
    and "has_room m2 (length key + length new + 2)" and "clean_for m2 (length key + length new + 2)"
    and "m_base buf = m2" and "0 < table_size"
  shows "\<exists>t1 t2 t3. load_table hasher table_size buf = Inr t1 \<and> get hasher key t1 = Inr v0 \<and>
    put hasher key new t1 = Inr (t2, True) \<and> get hasher key t2 = Inr new \<and>
    load_table hasher table_size (m_buffer t2) = Inr t3 \<and> get hasher key t3 = Inr val"
proof -
  obtain fs us kvs' where at: "heap_at m2 fs us" "list_all2 (holds m2) us ((key, val) # kvs')"
    and same: "mset kvs' = mset kvs"
    using interrupted_put [OF assms(1,3,4,6,8-11)] by blast
  have "distinct (map fst kvs)" using assms(1) unfolding table_at_def by blast
  from mset_map_of [OF same this] assms(2) have "distinct (map fst kvs')" "map_of kvs' key = Some v0"
    by simp_all
  from interrupted_value_returns [OF at this assms(15,14,5,7,12,13)] show ?thesis .
qed

theorem interrupted_put_resurfaces_witness:
  "\<exists>t t0 m1 p m2 t1 t2 t3. ConcurrentHashTable (\<lambda>_. 5) new_file = Inr t \<and>
    put (\<lambda>_. 5) [97] [98] t = Inr (t0, True) \<and>
    alloc 4 (memory t0) = Inr (m1, Some p) \<and> copy_key_value p [97] [99] m1 = Inr m2 \<and>
    load_table (\<lambda>_. 5) 7 \<lparr>m_db_size = 536870912, m_base = m2\<rparr> = Inr t1 \<and>
    put (\<lambda>_. 5) [97] [100] t1 = Inr (t2, True) \<and> get (\<lambda>_. 5) [97] t2 = Inr [100] \<and>
    load_table (\<lambda>_. 5) 7 (m_buffer t2) = Inr t3 \<and> get (\<lambda>_. 5) [97] t3 = Inr [99]"
proof -
  obtain t t0 where t: "ConcurrentHashTable (\<lambda>_. 5) new_file = Inr t"
    "put (\<lambda>_. 5) [97] [98] t = Inr (t0, True)" "fresh_table (\<lambda>_. 5) t0 [([97], [98])] (536870872 - 28)"
    by (rule created_one [of "[97]" "[98]" "\<lambda>_. 5"]) auto
  note fresh = fresh_admits [OF t(3)]
  obtain m1 p m2 where m2: "alloc 4 (memory t0) = Inr (m1, Some p)" "copy_key_value p [97] [99] m1 = Inr m2"
    "clean_for m2 (Suc (Suc (Suc (Suc 0))))" "has_room m2 (Suc (Suc (Suc (Suc 0))))"
    using fresh_interrupted [OF t(3), of "[97]" "[99]" "Suc (Suc (Suc (Suc 0)))"] by auto
  obtain t1 t2 t3 where "load_table (\<lambda>_. 5) 7 \<lparr>m_db_size = 536870912, m_base = m2\<rparr> = Inr t1"
    "put (\<lambda>_. 5) [97] [100] t1 = Inr (t2, True)" "get (\<lambda>_. 5) [97] t2 = Inr [100]"
    "load_table (\<lambda>_. 5) 7 (m_buffer t2) = Inr t3" "get (\<lambda>_. 5) [97] t3 = Inr [99]"
    using interrupted_put_resurfaces [OF fresh(1), of "[97]" "[98]" "[99]" "[100]" m1 p m2
        "\<lparr>m_db_size = 536870912, m_base = m2\<rparr>" 7] fresh(2,3) m2 by auto
  with t(1,2) m2(1,2) show ?thesis by blast
qed

section \<open>Shutting down\<close>

text \<open>
  C37: the destructor of a table frees the block of every pair it holds. So a store that is destroyed,
  and not killed, leaves a file without pairs: the table that is next opened on that file is empty.
\<close>

theorem shutdown_erases_store:
  assumes "table_at hasher t kvs" and "mset order = mset [0 ..< length (m_bucket_storage t)]"
  shows "\<exists>m. destroy_table order t = Inr m \<and>
    (\<forall>f. file_contents f = Some m \<longrightarrow> may_open f \<longrightarrow> may_map f \<longrightarrow>
      (\<exists>t'. ConcurrentHashTable hasher' f = Inr t' \<and> for_table t' (begin_table t') = Inr [] \<and>
        (\<forall>key. get hasher' key t' = Inr [])))"
proof -
  obtain m where m: "destroy_table order t = Inr m" "used_heap m []"
    using destroy_table_empty [OF assms] by blast
  then obtain fs where at: "heap_at m fs []" by (auto simp: used_heap_def)
  then have size: "0 < length m" "length m < 2 ^ 31"
    by (auto simp: heap_at_def heap_ok_def blocks_ok_def)
  have "\<exists>t'. ConcurrentHashTable hasher' f = Inr t' \<and> for_table t' (begin_table t') = Inr [] \<and>
      (\<forall>key. get hasher' key t' = Inr [])"
    if f: "file_contents f = Some m" "may_open f" "may_map f" for f
  proof -
    have "FileBackedBuffer f BUFFER_SIZE = Inr (opened m m)"
      using f size by (intro FileBackedBuffer_existing) auto
    moreover obtain t' where t': "load_table hasher' HASH_TABLE_SIZE (opened m m) = Inr t'"
      "table_at hasher' t' []" "m_bucket_storage t' = []"
      using load_empty [of "opened m m" HASH_TABLE_SIZE hasher'] m(2) by (auto simp: HASH_TABLE_SIZE_def opened_def)
    moreover have "get hasher' key t' = Inr []" for key using get_table [OF t'(2)] by simp
    moreover have "for_table t' (begin_table t') = Inr []"
      using t'(3) by (simp add: for_table_def table_loop.simps begin_table_def end_table_def)
    ultimately show ?thesis by (simp add: ConcurrentHashTable_def)
  qed
  with m(1) show ?thesis by blast
qed

theorem shutdown_erases_store_witness:
  "\<exists>t t1 order m t2. ConcurrentHashTable (\<lambda>_. 5) new_file = Inr t \<and> put (\<lambda>_. 5) [97] [98] t = Inr (t1, True) \<and>
    get (\<lambda>_. 5) [97] t1 = Inr [98] \<and> destroy_table order t1 = Inr m \<and>
    ConcurrentHashTable (\<lambda>_. 5) (stored_file m) = Inr t2 \<and> get (\<lambda>_. 5) [97] t2 = Inr []"
proof -
  obtain t t1 where t: "ConcurrentHashTable (\<lambda>_. 5) new_file = Inr t"
    "put (\<lambda>_. 5) [97] [98] t = Inr (t1, True)" "fresh_table (\<lambda>_. 5) t1 [([97], [98])] (536870872 - 28)"
    by (rule created_one [of "[97]" "[98]" "\<lambda>_. 5"]) auto
  note at = fresh_admits(1) [OF t(3)]
  obtain m where m: "destroy_table [0 ..< length (m_bucket_storage t1)] t1 = Inr m"
    "\<forall>f. file_contents f = Some m \<longrightarrow> may_open f \<longrightarrow> may_map f \<longrightarrow>
      (\<exists>t'. ConcurrentHashTable (\<lambda>_. 5) f = Inr t' \<and> for_table t' (begin_table t') = Inr [] \<and>
        (\<forall>key. get (\<lambda>_. 5) key t' = Inr []))"
    using shutdown_erases_store [OF at refl, of "\<lambda>_. 5"] by blast
  have "file_contents (stored_file m) = Some m" "may_open (stored_file m)" "may_map (stored_file m)"
    by (simp_all add: stored_file_def)
  with m(2) obtain t2 where "ConcurrentHashTable (\<lambda>_. 5) (stored_file m) = Inr t2" "get (\<lambda>_. 5) [97] t2 = Inr []"
    by blast
  with t(1,2) m(1) get_table [OF at, of "[97]"] show ?thesis by auto
qed

section \<open>Zero bytes\<close>

text \<open>
  C8: a key that contains a zero byte is accepted, but \<open>get\<close> returns the empty string for it: the
  table compares the whole string with the stored C string, which ends at the zero.
\<close>

theorem nul_key_lost:
  assumes "table_at hasher t kvs" and "0 \<in> set key" and "length key + length val + 2 < 2 ^ 64"
    and "has_room (memory t) (length key + length val + 2)"
    and "clean_for (memory t) (length key + length val + 2)"
  shows "\<exists>t'. put hasher key val t = Inr (t', True) \<and> get hasher key t' = Inr []"
proof -
  obtain us xs cs where rep: "table_rep t us xs kvs cs" using assms(1) unfolding table_at_def by blast
  from put_exec [OF rep assms(3-5), of hasher] find_nul [OF rep assms(2)] obtain t' us' xs' kvs' cs' where
    "put hasher key val t = Inr (t', True)" and rep': "table_rep t' us' xs' kvs' cs'"
    by (auto split: option.splits)
  with get_exec [OF rep', of hasher key] find_nul [OF rep' assms(2)] show ?thesis by simp
qed

theorem nul_key_lost_witness:
  "\<exists>t t'. ConcurrentHashTable (\<lambda>_. 5) new_file = Inr t \<and> put (\<lambda>_. 5) [97, 0, 98] [99] t = Inr (t', True) \<and>
    get (\<lambda>_. 5) [97, 0, 98] t' = Inr []"
proof -
  obtain t where t: "ConcurrentHashTable (\<lambda>_. 5) new_file = Inr t" "fresh_table (\<lambda>_. 5) t [] 536870872"
    by (rule created)
  note fresh = fresh_admits [OF t(2)]
  show ?thesis
    using nul_key_lost [OF fresh(1), of "[97, 0, 98]" "[99]"] fresh(2,3) t(1) by fastforce
qed

text \<open>C9: a value that contains a zero byte is stored up to that byte, and \<open>put\<close> reports success.\<close>

theorem nul_value_truncated:
  assumes "table_at hasher t kvs" and "0 \<notin> set key"
    and "length key + length val + 2 < 2 ^ 64"
    and "has_room (memory t) (length key + length val + 2)"
    and "clean_for (memory t) (length key + length val + 2)"
  shows "\<exists>t'. put hasher key val t = Inr (t', True) \<and> get hasher key t' = Inr (takeWhile (\<lambda>c. c \<noteq> 0) val)"
  using put_table [OF assms] get_table by (fastforce simp: AList.update_conv')

theorem nul_value_truncated_witness:
  "\<exists>t t'. ConcurrentHashTable (\<lambda>_. 5) new_file = Inr t \<and> put (\<lambda>_. 5) [97] [98, 0, 99] t = Inr (t', True) \<and>
    get (\<lambda>_. 5) [97] t' = Inr [98]"
proof -
  obtain t where t: "ConcurrentHashTable (\<lambda>_. 5) new_file = Inr t" "fresh_table (\<lambda>_. 5) t [] 536870872"
    by (rule created)
  note fresh = fresh_admits [OF t(2)]
  show ?thesis
    using nul_value_truncated [OF fresh(1), of "[97]" "[98, 0, 99]"] fresh(2,3) t(1) by fastforce
qed

section \<open>Iterating\<close>

text \<open>
  C10: the loop from \<open>begin\<close> to \<open>end\<close> ends after one round for every bucket and lists the pairs of the
  table, each once and in the order of the buckets. They are what \<open>get\<close> returns, and \<open>get\<close> returns the
  empty string for any other key.
\<close>

theorem iteration_lists_pairs:
  assumes "table_at hasher t kvs"
  shows "for_table t (begin_table t) = Inr kvs \<and> length kvs = length (m_bucket_storage t) \<and>
    distinct (map fst kvs) \<and> (\<forall>(k, v) \<in> set kvs. get hasher k t = Inr v) \<and>
    (\<forall>k. k \<notin> fst ` set kvs \<longrightarrow> get hasher k t = Inr [])"
proof -
  obtain us xs cs where rep: "table_rep t us xs kvs cs" and dist: "distinct (map fst kvs)"
    using assms unfolding table_at_def by blast
  note get = get_table [OF assms]
  have "\<forall>(k, v) \<in> set kvs. get hasher k t = Inr v" using get map_of_is_SomeI [OF dist] by auto
  moreover have "get hasher k t = Inr []" if "k \<notin> fst ` set kvs" for k
    using get [of k] that by (simp only: map_of_eq_None_iff [THEN iffD2, OF that] option.case)
  ultimately show ?thesis using for_table_exec [OF rep] table_rep_lengths(2) [OF rep] dist by simp
qed

theorem iteration_lists_pairs_witness:
  "\<exists>t t1. ConcurrentHashTable (\<lambda>_. 5) new_file = Inr t \<and> put (\<lambda>_. 5) [97] [98] t = Inr (t1, True) \<and>
    for_table t1 (begin_table t1) = Inr [([97], [98])]"
proof -
  obtain t t1 where t: "ConcurrentHashTable (\<lambda>_. 5) new_file = Inr t"
    "put (\<lambda>_. 5) [97] [98] t = Inr (t1, True)" "fresh_table (\<lambda>_. 5) t1 [([97], [98])] (536870872 - 28)"
    by (rule created_one [of "[97]" "[98]" "\<lambda>_. 5"]) auto
  from iteration_lists_pairs [OF fresh_admits(1) [OF t(3)]] t(1,2) show ?thesis by blast
qed

end
