(* ===== verification/Concurrent_Table.thy ===== *)
theory Concurrent_Table
  imports Hash_Table
begin

text \<open>
  \<open>ConcurrentHashTable\<close> with any number of threads. A thread runs one call of \<open>get\<close> or \<open>put\<close>; a call
  that is not scheduled has not started. A step is one access to something the threads share: the
  write mutex, the head of a slot, the \<open>shared_ptr\<close> of a bucket with its reference count, the mutex of
  the buffer, or the buffer under that mutex. What happens between two such accesses concerns the
  thread only, and is part of the step. Acquire and release order the accesses of a pointer and of what
  it points to, so steps are interleaved.
\<close>

section \<open>Calls in progress\<close>

text \<open>What the bucket is searched for: to read it, or to write a value with the block it goes to.\<close>

datatype task = Reading | Writing str u64

datatype outcome = Got str | Stored bool

text \<open>
  Where a thread is. \<open>Lookup\<close> to \<open>Advance\<close> are \<open>find_bucket_with_key\<close>: before the load of the head,
  before the load of the pointer of a bucket, with a reference to its data, and behind the comparison.
  \<open>Fetch\<close> and \<open>Copy_value\<close> are the rest of \<open>get\<close>, \<open>Allocate\<close> to \<open>Unlock\<close> the rest of \<open>put\<close>. \<open>Release\<close>
  drops a reference, and \<open>Free\<close> runs the deleter if it was the last one. At \<open>Allocate\<close> and \<open>Free\<close> the
  thread waits for the mutex of the buffer, and at \<open>Allocating\<close> and \<open>Freeing\<close> it has it.
\<close>

datatype pc =
    Get_call str
  | Put_call str str
  | Allocate str str
  | Allocating str str
  | Lookup task str
  | Visit task str nat
  | Compare task str nat u64
  | Advance task str nat
  | Fetch str nat
  | Copy_value u64
  | Fill str str u64 "nat option"
  | Publish str str u64 "nat option"
  | Release u64 pc
  | Free u64 pc
  | Freeing u64 pc
  | Unlock bool
  | Return outcome

record system =
  sys_table :: hash_table
  sys_refs :: "u64 \<Rightarrow> nat"
  sys_lock :: "nat option"
  sys_mutex :: "nat option"
  sys_threads :: "pc list"

section \<open>Shared pointers\<close>

text \<open>\<open>KeyValuePair::get\<close>: an atomic load takes a reference.\<close>

definition load_pointer :: "nat \<Rightarrow> system \<Rightarrow> (system \<times> u64) res" where
  "load_pointer i s =
    and_then (bucket_at (sys_table s) i) (\<lambda>b.
    case m_key_value_data b of
      None \<Rightarrow> Inl NullPointer
    | Some p \<Rightarrow> Inr (s\<lparr>sys_refs := (sys_refs s)(p := sys_refs s p + 1)\<rparr>, p))"

text \<open>\<open>KeyValuePair::set\<close>: an atomic store of a new \<open>shared_ptr\<close>; it gives back the old one.\<close>

definition store_pointer :: "nat \<Rightarrow> u64 \<Rightarrow> system \<Rightarrow> (system \<times> u64 option) res" where
  "store_pointer i p s =
    and_then (bucket_at (sys_table s) i) (\<lambda>b.
    Inr (s\<lparr>sys_table := (sys_table s)\<lparr>m_bucket_storage :=
             (m_bucket_storage (sys_table s))[i := b\<lparr>m_key_value_data := Some p\<rparr>]\<rparr>,
           sys_refs := (sys_refs s)(p := 1)\<rparr>,
         m_key_value_data b))"

definition drop_reference :: "u64 \<Rightarrow> system \<Rightarrow> system \<times> bool" where
  "drop_reference p s = (s\<lparr>sys_refs := (sys_refs s)(p := sys_refs s p - 1)\<rparr>, sys_refs s p = 1)"

text \<open>Reading through a reference, and writing to a block.\<close>

definition on_memory :: "(mapping \<Rightarrow> mapping res) \<Rightarrow> system \<Rightarrow> system res" where
  "on_memory f s = and_then (f (memory (sys_table s))) (\<lambda>m. Inr (s\<lparr>sys_table := with_memory (sys_table s) m\<rparr>))"

section \<open>Steps\<close>

text \<open>What follows \<open>find_bucket_with_key\<close>.\<close>

fun found :: "task \<Rightarrow> str \<Rightarrow> nat option \<Rightarrow> pc" where
  "found Reading key None = Return (Got [])"
| "found Reading key (Some i) = Fetch key i"
| "found (Writing val p) key r = Fill key val p r"

text \<open>The loop goes on with the next bucket, if there is one.\<close>

fun visit :: "task \<Rightarrow> str \<Rightarrow> nat option \<Rightarrow> pc" where
  "visit task key None = found task key None"
| "visit task key (Some i) = Visit task key i"

text \<open>
  The step of thread \<open>j\<close>, and where the thread is then. A thread that waits for a mutex, or that has
  returned, stays where it is. \<open>alloc\<close> and \<open>free\<close> lock the mutex of the buffer, do their work and unlock
  it when they return.
\<close>

fun advance :: "(str \<Rightarrow> u64) \<Rightarrow> nat \<Rightarrow> pc \<Rightarrow> system \<Rightarrow> (system \<times> pc) res" where
  "advance hasher j (Get_call key) s = Inr (s, Lookup Reading key)"
| "advance hasher j (Put_call key val) s =
    (if sys_lock s = None then Inr (s\<lparr>sys_lock := Some j\<rparr>, Allocate key val) else Inr (s, Put_call key val))"
| "advance hasher j (Allocate key val) s =
    (if sys_mutex s = None then Inr (s\<lparr>sys_mutex := Some j\<rparr>, Allocating key val) else Inr (s, Allocate key val))"
| "advance hasher j (Allocating key val) s =
    and_then (alloc (u64 (length key + 1 + length val + 1)) (memory (sys_table s))) (\<lambda>(m, data_buffer).
    Inr (s\<lparr>sys_table := with_memory (sys_table s) m, sys_mutex := None\<rparr>,
      case data_buffer of None \<Rightarrow> Unlock False | Some p \<Rightarrow> Lookup (Writing val p) key))"
| "advance hasher j (Lookup task key) s =
    Inr (s, visit task key (m_hash_table (sys_table s) ! slot_of hasher (sys_table s) key))"
| "advance hasher j (Visit task key i) s =
    and_then (load_pointer i s) (\<lambda>(s, p). Inr (s, Compare task key i p))"
| "advance hasher j (Compare task key i p) s =
    and_then (strchr_end (memory (sys_table s)) p) (\<lambda>_.
    and_then (c_string (memory (sys_table s)) p) (\<lambda>k.
    Inr (s, Release p (if key \<noteq> k then Advance task key i else found task key (Some i)))))"
| "advance hasher j (Advance task key i) s =
    and_then (bucket_at (sys_table s) i) (\<lambda>b. Inr (s, visit task key (next_bucket b)))"
| "advance hasher j (Fetch key i) s =
    and_then (load_pointer i s) (\<lambda>(s, p). Inr (s, Copy_value p))"
| "advance hasher j (Copy_value p) s =
    and_then (strchr_end (memory (sys_table s)) p) (\<lambda>e.
    and_then (c_string (memory (sys_table s)) (e + 1)) (\<lambda>val. Inr (s, Release p (Return (Got val)))))"
| "advance hasher j (Fill key val p r) s =
    and_then (on_memory (copy_key_value p key val) s) (\<lambda>s. Inr (s, Publish key val p r))"
| "advance hasher j (Publish key val p (Some i)) s =
    and_then (store_pointer i p s) (\<lambda>(s, old).
    Inr (s, case old of None \<Rightarrow> Unlock True | Some q \<Rightarrow> Release q (Unlock True)))"
| "advance hasher j (Publish key val p None) s =
    (let (t, i) = get_new_bucket (sys_table s) in
     and_then (store_pointer i p (s\<lparr>sys_table := t\<rparr>)) (\<lambda>(s, _).
     Inr (s\<lparr>sys_table := store_bucket i (slot_of hasher (sys_table s) key) (sys_table s)\<rparr>, Unlock True)))"
| "advance hasher j (Release p next) s =
    (let (s, last) = drop_reference p s in Inr (s, if last then Free p next else next))"
| "advance hasher j (Free p next) s =
    (if sys_mutex s = None then Inr (s\<lparr>sys_mutex := Some j\<rparr>, Freeing p next) else Inr (s, Free p next))"
| "advance hasher j (Freeing p next) s =
    and_then (on_memory (free p) s) (\<lambda>s. Inr (s\<lparr>sys_mutex := None\<rparr>, next))"
| "advance hasher j (Unlock b) s = Inr (s\<lparr>sys_lock := None\<rparr>, Return (Stored b))"
| "advance hasher j (Return x) s = Inr (s, Return x)"

definition step :: "(str \<Rightarrow> u64) \<Rightarrow> nat \<Rightarrow> system \<Rightarrow> system res" where
  "step hasher j s =
    (if j < length (sys_threads s) then
       and_then (advance hasher j (sys_threads s ! j) s) (\<lambda>(s, pc).
       Inr (s\<lparr>sys_threads := (sys_threads s)[j := pc]\<rparr>))
     else Inr s)"

text \<open>A schedule is the list of the threads in the order of their steps.\<close>

definition run :: "(str \<Rightarrow> u64) \<Rightarrow> nat list \<Rightarrow> system \<Rightarrow> system res" where
  "run hasher = fold_res (step hasher)"

text \<open>Threads that are about to make calls on a table that no one else uses.\<close>

definition start :: "hash_table \<Rightarrow> pc list \<Rightarrow> system" where
  "start t calls =
    \<lparr>sys_table = t, sys_refs = (\<lambda>p. if Some p \<in> m_key_value_data ` set (m_bucket_storage t) then 1 else 0),
     sys_lock = None, sys_mutex = None, sys_threads = calls\<rparr>"

end
