(* ===== verification/Concurrent_Proofs.thy ===== *)
theory Concurrent_Proofs
  imports Concurrent_Table Table_Refinement
begin

text \<open>
  The invariant of a table that many threads use. It counts the references to every block and says, for
  each place a thread can be at, what the thread relies on. A step of one thread keeps what the others
  rely on.
\<close>

section \<open>References and blocks\<close>

text \<open>The references a thread has, and the blocks only this thread can get at.\<close>

fun task_block :: "task \<Rightarrow> u64 list" where
  "task_block Reading = []"
| "task_block (Writing val p) = [p]"

fun refs_of :: "pc \<Rightarrow> u64 list" where
  "refs_of (Compare task key i p) = [p]"
| "refs_of (Copy_value p) = [p]"
| "refs_of (Release p next) = p # refs_of next"
| "refs_of (Free p next) = refs_of next"
| "refs_of (Freeing p next) = refs_of next"
| "refs_of _ = []"

fun owned :: "pc \<Rightarrow> u64 list" where
  "owned (Lookup task key) = task_block task"
| "owned (Visit task key i) = task_block task"
| "owned (Compare task key i p) = task_block task"
| "owned (Advance task key i) = task_block task"
| "owned (Fill key val p r) = [p]"
| "owned (Publish key val p r) = [p]"
| "owned (Release p next) = owned next"
| "owned (Free p next) = p # owned next"
| "owned (Freeing p next) = p # owned next"
| "owned _ = []"

text \<open>Whether a thread has the write mutex.\<close>

fun writing :: "pc \<Rightarrow> bool" where
  "writing (Allocate key val) \<longleftrightarrow> True"
| "writing (Allocating key val) \<longleftrightarrow> True"
| "writing (Lookup task key) \<longleftrightarrow> task \<noteq> Reading"
| "writing (Visit task key i) \<longleftrightarrow> task \<noteq> Reading"
| "writing (Compare task key i p) \<longleftrightarrow> task \<noteq> Reading"
| "writing (Advance task key i) \<longleftrightarrow> task \<noteq> Reading"
| "writing (Fill key val p r) \<longleftrightarrow> True"
| "writing (Publish key val p r) \<longleftrightarrow> True"
| "writing (Unlock b) \<longleftrightarrow> True"
| "writing (Release p next) \<longleftrightarrow> writing next"
| "writing (Free p next) \<longleftrightarrow> writing next"
| "writing (Freeing p next) \<longleftrightarrow> writing next"
| "writing _ \<longleftrightarrow> False"

definition tally :: "(pc \<Rightarrow> u64 list) \<Rightarrow> pc list \<Rightarrow> u64 \<Rightarrow> nat" where
  "tally f pcs p = (\<Sum>pc\<leftarrow>pcs. count_list (f pc) p)"

lemma tally_update:
  assumes "j < length pcs"
  shows "tally f (pcs[j := pc]) p + count_list (f (pcs ! j)) p = tally f pcs p + count_list (f pc) p"
  using assms
proof (induction pcs arbitrary: j)
  case (Cons x xs)
  then show ?case by (cases j) (auto simp: tally_def)
qed simp

lemma count_list_pos: "p \<in> set xs \<Longrightarrow> 0 < count_list xs p"
  by (metis count_list_0_iff neq0_conv)

lemma tally_others:
  assumes "j < length pcs"
  shows "tally f pcs p = count_list (f (pcs ! j)) p + (\<Sum>i\<in>{..<length pcs} - {j}. count_list (f (pcs ! i)) p)"
  using assms unfolding tally_def sum_list_sum_nth by (simp add: atLeast0LessThan sum.remove [of _ j])

lemma tally_member:
  assumes "j < length pcs" and "p \<in> set (f (pcs ! j))"
  shows "0 < tally f pcs p"
  using tally_others [OF assms(1), of f p] count_list_pos [OF assms(2)] by simp

lemma tally_two:
  assumes "j < length pcs" and "l < length pcs" and "j \<noteq> l"
    and "p \<in> set (f (pcs ! j))" and "p \<in> set (f (pcs ! l))"
  shows "2 \<le> tally f pcs p"
proof -
  have "count_list (f (pcs ! l)) p \<le> (\<Sum>i\<in>{..<length pcs} - {j}. count_list (f (pcs ! i)) p)"
    using assms(2,3) by (intro member_le_sum) auto
  then show ?thesis
    using tally_others [OF assms(1), of f p] count_list_pos [OF assms(4)] count_list_pos [OF assms(5)] by linarith
qed

text \<open>
  The count of a block is one for the bucket that points to it and one for every reference of a thread.
  A used block is counted, or else owned by one thread.
\<close>

definition counts_ok :: "(u64 \<Rightarrow> nat) \<Rightarrow> pc list \<Rightarrow> block list \<Rightarrow> block list \<Rightarrow> bool" where
  "counts_ok refs pcs us xs \<longleftrightarrow>
    (\<forall>p. refs p = of_bool (p \<in> pointer_of ` set xs) + tally refs_of pcs p) \<and>
    (\<forall>p. tally owned pcs p + of_bool (0 < refs p) = (of_bool (p \<in> pointer_of ` set us) :: nat))"

lemma counts_okD:
  assumes "counts_ok refs pcs us xs"
  shows "refs p = of_bool (p \<in> pointer_of ` set xs) + tally refs_of pcs p"
    "tally owned pcs p + of_bool (0 < refs p) = (of_bool (p \<in> pointer_of ` set us) :: nat)"
  using assms unfolding counts_ok_def by blast+

lemma pointer_inj:
  assumes "used_heap m us" and "x \<in> set us" and "y \<in> set us" and "pointer_of x = pointer_of y"
  shows "x = y"
proof -
  obtain fs where at: "heap_at m fs us" using assms(1) by (auto simp: used_heap_def)
  have "fst x + 24 < 2 ^ 64" "fst y + 24 < 2 ^ 64"
    using heap_at_block [OF at assms(2)] heap_at_block [OF at assms(3)] by simp_all
  then have "fst x = fst y" using assms(4) by (simp only: u64_eq)
  with al.heap_unique [OF assms(1-3)] show ?thesis .
qed

section \<open>What a thread relies on\<close>

definition pair_at :: "mapping \<Rightarrow> block list \<Rightarrow> u64 \<Rightarrow> str \<times> str \<Rightarrow> bool" where
  "pair_at m us p kv \<longleftrightarrow> (\<exists>x \<in> set us. pointer_of x = p \<and> holds m x kv)"

definition space_at :: "block list \<Rightarrow> u64 \<Rightarrow> nat \<Rightarrow> bool" where
  "space_at us p n \<longleftrightarrow> (\<exists>x \<in> set us. pointer_of x = p \<and> n \<le> snd x)"

definition storable_pair :: "str \<Rightarrow> str \<Rightarrow> bool" where
  "storable_pair key val \<longleftrightarrow> 0 \<notin> set key \<and> 0 \<notin> set val \<and> length key + length val + 2 < 2 ^ 64"

text \<open>
  \<open>call\<close> is the call the thread makes, and \<open>seen v\<close> says that the key had the value \<open>v\<close> at a step of the
  thread. \<open>v_chain key\<close> is the chain of the key's slot.
\<close>

record view =
  v_mem :: mapping
  v_us :: "block list"
  v_kvs :: "(str \<times> str) list"
  v_chain :: "str \<Rightarrow> nat list"

fun task_ok :: "view \<Rightarrow> pc \<Rightarrow> task \<Rightarrow> str \<Rightarrow> bool" where
  "task_ok V call Reading key \<longleftrightarrow> call = Get_call key"
| "task_ok V call (Writing val p) key \<longleftrightarrow>
    call = Put_call key val \<and> storable_pair key val \<and> space_at (v_us V) p (length key + length val + 2)"

fun absent :: "view \<Rightarrow> (str \<Rightarrow> bool) \<Rightarrow> task \<Rightarrow> str \<Rightarrow> bool" where
  "absent V seen Reading key \<longleftrightarrow> seen []"
| "absent V seen (Writing val p) key \<longleftrightarrow> key \<notin> fst ` set (v_kvs V)"

text \<open>Bucket \<open>i\<close> is in the chain, and the key is from there on, or it is absent.\<close>

definition search_ok :: "view \<Rightarrow> (str \<Rightarrow> bool) \<Rightarrow> task \<Rightarrow> str \<Rightarrow> nat \<Rightarrow> bool" where
  "search_ok V seen task key i \<longleftrightarrow> i \<in> set (v_chain V key) \<and> i < length (v_kvs V) \<and>
    ((\<exists>l \<in> set (dropWhile (\<lambda>l. l \<noteq> i) (v_chain V key)). fst (v_kvs V ! l) = key) \<or> absent V seen task key)"

fun found_ok :: "view \<Rightarrow> str \<Rightarrow> nat option \<Rightarrow> bool" where
  "found_ok V key None \<longleftrightarrow> key \<notin> fst ` set (v_kvs V)"
| "found_ok V key (Some i) \<longleftrightarrow> i < length (v_kvs V) \<and> fst (v_kvs V ! i) = key"

fun thread_ok :: "view \<Rightarrow> pc \<Rightarrow> (str \<Rightarrow> bool) \<Rightarrow> pc \<Rightarrow> bool" where
  "thread_ok V call seen (Get_call key) \<longleftrightarrow> call = Get_call key"
| "thread_ok V call seen (Put_call key val) \<longleftrightarrow> call = Put_call key val \<and> storable_pair key val"
| "thread_ok V call seen (Allocate key val) \<longleftrightarrow> call = Put_call key val \<and> storable_pair key val"
| "thread_ok V call seen (Allocating key val) \<longleftrightarrow> call = Put_call key val \<and> storable_pair key val"
| "thread_ok V call seen (Lookup task key) \<longleftrightarrow> task_ok V call task key"
| "thread_ok V call seen (Visit task key i) \<longleftrightarrow> task_ok V call task key \<and> search_ok V seen task key i"
| "thread_ok V call seen (Compare task key i p) \<longleftrightarrow> task_ok V call task key \<and> search_ok V seen task key i \<and>
    (\<exists>v. pair_at (v_mem V) (v_us V) p (fst (v_kvs V ! i), v))"
| "thread_ok V call seen (Advance task key i) \<longleftrightarrow> task_ok V call task key \<and> search_ok V seen task key i \<and>
    fst (v_kvs V ! i) \<noteq> key"
| "thread_ok V call seen (Fetch key i) \<longleftrightarrow> call = Get_call key \<and> found_ok V key (Some i)"
| "thread_ok V call seen (Copy_value p) \<longleftrightarrow>
    (\<exists>key v. call = Get_call key \<and> seen v \<and> pair_at (v_mem V) (v_us V) p (key, v))"
| "thread_ok V call seen (Fill key val p r) \<longleftrightarrow> task_ok V call (Writing val p) key \<and> found_ok V key r"
| "thread_ok V call seen (Publish key val p r) \<longleftrightarrow> task_ok V call (Writing val p) key \<and> found_ok V key r \<and>
    pair_at (v_mem V) (v_us V) p (key, val)"
| "thread_ok V call seen (Release p next) \<longleftrightarrow> thread_ok V call seen next"
| "thread_ok V call seen (Free p next) \<longleftrightarrow> thread_ok V call seen next"
| "thread_ok V call seen (Freeing p next) \<longleftrightarrow> thread_ok V call seen next"
| "thread_ok V call seen (Unlock b) \<longleftrightarrow> (\<exists>key val. call = Put_call key val)"
| "thread_ok V call seen (Return (Got v)) \<longleftrightarrow> (\<exists>key. call = Get_call key) \<and> seen v"
| "thread_ok V call seen (Return (Stored b)) \<longleftrightarrow> (\<exists>key val. call = Put_call key val)"

text \<open>What a step of another thread may change.\<close>

definition later_view :: "view \<Rightarrow> view \<Rightarrow> bool" where
  "later_view V W \<longleftrightarrow> length (v_kvs V) \<le> length (v_kvs W) \<and>
    (\<forall>i < length (v_kvs V). fst (v_kvs W ! i) = fst (v_kvs V ! i)) \<and>
    (\<forall>key. \<forall>i \<in> set (v_chain V key). i \<in> set (v_chain W key) \<and>
      dropWhile (\<lambda>l. l \<noteq> i) (v_chain W key) = dropWhile (\<lambda>l. l \<noteq> i) (v_chain V key)) \<and>
    (\<forall>key. set (v_chain V key) \<subseteq> {..< length (v_kvs V)})"

lemma search_later:
  assumes "search_ok V seen task key i" and later: "later_view V W"
    and keys: "task \<noteq> Reading \<Longrightarrow> fst ` set (v_kvs W) = fst ` set (v_kvs V)" and seen: "\<And>v. seen v \<Longrightarrow> seen' v"
  shows "search_ok W seen' task key i" "fst (v_kvs W ! i) = fst (v_kvs V ! i)"
proof -
  let ?from = "\<lambda>V. dropWhile (\<lambda>l. l \<noteq> i) (v_chain V key)"
  have i: "i \<in> set (v_chain V key)" "i < length (v_kvs V)"
    and or: "(\<exists>l \<in> set (?from V). fst (v_kvs V ! l) = key) \<or> absent V seen task key"
    using assms(1) by (auto simp: search_ok_def)
  have same: "i \<in> set (v_chain W key)" "?from W = ?from V" "i < length (v_kvs W)"
    using i later by (auto simp: later_view_def)
  have "fst (v_kvs W ! l) = key" if "l \<in> set (?from V)" "fst (v_kvs V ! l) = key" for l
  proof -
    have "l < length (v_kvs V)" using set_dropWhileD [OF that(1)] later by (auto simp: later_view_def)
    then show ?thesis using that(2) later by (simp add: later_view_def)
  qed
  moreover have "absent W seen' task key" if "absent V seen task key"
    using that keys seen by (cases task) auto
  ultimately show "search_ok W seen' task key i" using or same by (auto simp: search_ok_def)
  show "fst (v_kvs W ! i) = fst (v_kvs V ! i)" using i later by (simp add: later_view_def)
qed

lemma found_later:
  assumes "found_ok V key r" and "later_view V W" and "r = None \<Longrightarrow> fst ` set (v_kvs W) = fst ` set (v_kvs V)"
  shows "found_ok W key r"
  using assms by (cases r) (auto simp: later_view_def)

lemma task_later:
  assumes "task_ok V call task key"
    and "\<And>p n. p \<in> set (task_block task) \<Longrightarrow> space_at (v_us V) p n \<Longrightarrow> space_at (v_us W) p n"
  shows "task_ok W call task key"
  using assms by (cases task) auto

lemma thread_ok_later:
  assumes "thread_ok V call seen pc" and later: "later_view V W"
    and "\<And>p kv. p \<in> set (refs_of pc) \<union> set (owned pc) \<Longrightarrow> pair_at (v_mem V) (v_us V) p kv \<Longrightarrow> pair_at (v_mem W) (v_us W) p kv"
    and "\<And>p n. p \<in> set (owned pc) \<Longrightarrow> space_at (v_us V) p n \<Longrightarrow> space_at (v_us W) p n"
    and "writing pc \<Longrightarrow> fst ` set (v_kvs W) = fst ` set (v_kvs V)"
    and seen: "\<And>v. seen v \<Longrightarrow> seen' v"
  shows "thread_ok W call seen' pc"
  using assms(1,3,4,5)
proof (induction pc)
  case (Lookup task key)
  then show ?case using task_later [of V call task key W] by simp
next
  case (Visit task key i)
  then show ?case using task_later [of V call task key W] search_later [of V seen task key i W seen'] later seen by simp
next
  case (Compare task key i p)
  then show ?case using task_later [of V call task key W] search_later [of V seen task key i W seen'] later seen by fastforce
next
  case (Advance task key i)
  then show ?case using task_later [of V call task key W] search_later [of V seen task key i W seen'] later seen by fastforce
next
  case (Fetch key i)
  then show ?case using found_later [OF _ later, of key "Some i"] by simp
next
  case (Copy_value p)
  then show ?case using seen by fastforce
next
  case (Fill key val p r)
  then show ?case using found_later [OF _ later, of key r] by simp
next
  case (Publish key val p r)
  then show ?case using found_later [OF _ later, of key r] by simp
next
  case (Return x)
  then show ?case using seen by (cases x) auto
qed auto

section \<open>The invariant\<close>

definition view_of :: "(str \<Rightarrow> u64) \<Rightarrow> hash_table \<Rightarrow> block list \<Rightarrow> (str \<times> str) list \<Rightarrow> nat list list \<Rightarrow> view" where
  "view_of hasher t us kvs cs =
    \<lparr>v_mem = memory t, v_us = us, v_kvs = kvs, v_chain = (\<lambda>key. cs ! slot_of hasher t key)\<rparr>"

lemma view_of_simps [simp]:
  "v_mem (view_of hasher t us kvs cs) = memory t" "v_us (view_of hasher t us kvs cs) = us"
  "v_kvs (view_of hasher t us kvs cs) = kvs" "v_chain (view_of hasher t us kvs cs) key = cs ! slot_of hasher t key"
  by (simp_all add: view_of_def)

definition shared_ok ::
  "(str \<Rightarrow> u64) \<Rightarrow> hash_table \<Rightarrow> block list \<Rightarrow> block list \<Rightarrow> (str \<times> str) list \<Rightarrow> nat list list \<Rightarrow> bool" where
  "shared_ok hasher t us xs kvs cs \<longleftrightarrow> table_rep t us xs kvs cs \<and> distinct (map fst kvs) \<and>
    (\<forall>i < length kvs. i \<in> set (cs ! slot_of hasher t (fst (kvs ! i))))"

lemma get_shared: "shared_ok hasher t us xs kvs cs \<Longrightarrow>
    get hasher key t = Inr (case map_of kvs key of None \<Rightarrow> [] | Some v \<Rightarrow> v)"
  unfolding shared_ok_def using get_pairs by blast

definition system_ok ::
  "(str \<Rightarrow> u64) \<Rightarrow> pc list \<Rightarrow> (nat \<Rightarrow> str \<Rightarrow> bool) \<Rightarrow> system \<Rightarrow>
    block list \<Rightarrow> block list \<Rightarrow> (str \<times> str) list \<Rightarrow> nat list list \<Rightarrow> bool" where
  "system_ok hasher calls seen s us xs kvs cs \<longleftrightarrow>
    shared_ok hasher (sys_table s) us xs kvs cs \<and>
    counts_ok (sys_refs s) (sys_threads s) us xs \<and>
    length (sys_threads s) = length calls \<and>
    (\<forall>j < length calls. writing (sys_threads s ! j) \<longleftrightarrow> sys_lock s = Some j) \<and>
    (\<forall>j. sys_lock s = Some j \<longrightarrow> j < length calls) \<and>
    (\<forall>j < length calls. thread_ok (view_of hasher (sys_table s) us kvs cs) (calls ! j) (seen j) (sys_threads s ! j))"

lemma counts_step:
  assumes "counts_ok refs pcs us xs" and "j < length pcs"
    and "\<And>p. refs' p + count_list (refs_of (pcs ! j)) p + of_bool (p \<in> pointer_of ` set xs) =
      refs p + count_list (refs_of pc) p + of_bool (p \<in> pointer_of ` set xs')"
    and "\<And>p. count_list (owned pc) p + of_bool (0 < refs' p) + of_bool (p \<in> pointer_of ` set us) =
      (count_list (owned (pcs ! j)) p + of_bool (0 < refs p) + of_bool (p \<in> pointer_of ` set us') :: nat)"
  shows "counts_ok refs' (pcs[j := pc]) us' xs'"
proof -
  have "refs' p = of_bool (p \<in> pointer_of ` set xs') + tally refs_of (pcs[j := pc]) p" for p
    using counts_okD(1) [OF assms(1), of p] assms(3) [of p] tally_update [OF assms(2), of refs_of pc p] by linarith
  moreover have "tally owned (pcs[j := pc]) p + of_bool (0 < refs' p) = (of_bool (p \<in> pointer_of ` set us') :: nat)" for p
    using counts_okD(2) [OF assms(1), of p] assms(4) [of p] tally_update [OF assms(2), of owned pc p] by linarith
  ultimately show ?thesis unfolding counts_ok_def by blast
qed

lemma system_ok_step:
  assumes ok: "system_ok hasher calls seen s us xs kvs cs" and j: "j < length calls"
    and threads': "sys_threads s' = (sys_threads s)[j := pc]"
    and shared: "shared_ok hasher (sys_table s') us' xs' kvs' cs'"
    and counts: "counts_ok (sys_refs s') ((sys_threads s)[j := pc]) us' xs'"
    and lock: "sys_lock s' = (if writing pc then Some j else if writing (sys_threads s ! j) then None else sys_lock s)"
      "writing pc \<Longrightarrow> writing (sys_threads s ! j) \<or> sys_lock s = None"
    and own: "thread_ok (view_of hasher (sys_table s') us' kvs' cs') (calls ! j) (seen' j) pc"
    and later: "later_view (view_of hasher (sys_table s) us kvs cs) (view_of hasher (sys_table s') us' kvs' cs')"
    and pair: "\<And>l p kv. l < length calls \<Longrightarrow> l \<noteq> j \<Longrightarrow>
      p \<in> set (refs_of (sys_threads s ! l)) \<union> set (owned (sys_threads s ! l)) \<Longrightarrow>
      pair_at (memory (sys_table s)) us p kv \<Longrightarrow> pair_at (memory (sys_table s')) us' p kv"
    and space: "\<And>l p n. l < length calls \<Longrightarrow> l \<noteq> j \<Longrightarrow> p \<in> set (owned (sys_threads s ! l)) \<Longrightarrow>
      space_at us p n \<Longrightarrow> space_at us' p n"
    and keys: "writing (sys_threads s ! j) \<or> fst ` set kvs' = fst ` set kvs"
    and ghost: "\<And>l v. seen l v \<Longrightarrow> seen' l v"
  shows "system_ok hasher calls seen' s' us' xs' kvs' cs'"
proof -
  have len: "length (sys_threads s) = length calls"
    and locks: "\<And>l. l < length calls \<Longrightarrow> writing (sys_threads s ! l) \<longleftrightarrow> sys_lock s = Some l"
    and bound: "\<And>l. sys_lock s = Some l \<Longrightarrow> l < length calls"
    and threads: "\<And>l. l < length calls \<Longrightarrow>
      thread_ok (view_of hasher (sys_table s) us kvs cs) (calls ! l) (seen l) (sys_threads s ! l)"
    using ok by (auto simp: system_ok_def)
  have "thread_ok (view_of hasher (sys_table s') us' kvs' cs') (calls ! l) (seen' l) ((sys_threads s)[j := pc] ! l)"
    if l: "l < length calls" for l
  proof (cases "l = j")
    case True
    then show ?thesis using own j len by simp
  next
    case False
    have "writing (sys_threads s ! l) \<Longrightarrow> fst ` set kvs' = fst ` set kvs"
      using keys locks [OF l] locks [OF j] False by auto
    then have "thread_ok (view_of hasher (sys_table s') us' kvs' cs') (calls ! l) (seen' l) (sys_threads s ! l)"
      using pair [OF l False] space [OF l False] ghost by (intro thread_ok_later [OF threads [OF l] later]) auto
    then show ?thesis using False by simp
  qed
  moreover have "writing ((sys_threads s)[j := pc] ! l) \<longleftrightarrow> sys_lock s' = Some l" if l: "l < length calls" for l
    using lock locks [OF l] locks [OF j] l len by (cases "l = j") auto
  moreover have "l < length calls" if "sys_lock s' = Some l" for l
    using that lock(1) j bound by (auto split: if_splits)
  ultimately show ?thesis
    using shared counts len threads' by (simp add: system_ok_def)
qed

lemma later_refl: "shared_ok hasher t us xs kvs cs \<Longrightarrow> later_view (view_of hasher t us kvs cs) (view_of hasher t' us' kvs cs)"
  if "length (m_hash_table t') = length (m_hash_table t)"
  using that slot_bound by (fastforce simp: later_view_def shared_ok_def table_rep_def slot_of_def)

text \<open>A step that changes neither the table nor the memory.\<close>

lemma quiet_step:
  assumes ok: "system_ok hasher calls seen s us xs kvs cs" and j: "j < length calls"
    and s': "sys_threads s' = (sys_threads s)[j := pc]" "sys_table s' = sys_table s"
    and refs: "\<And>p. sys_refs s' p + count_list (refs_of (sys_threads s ! j)) p = sys_refs s p + count_list (refs_of pc) p"
    and blocks: "\<And>p. count_list (owned pc) p + of_bool (0 < sys_refs s' p) =
      (count_list (owned (sys_threads s ! j)) p + of_bool (0 < sys_refs s p) :: nat)"
    and lock: "sys_lock s' = (if writing pc then Some j else if writing (sys_threads s ! j) then None else sys_lock s)"
      "writing pc \<Longrightarrow> writing (sys_threads s ! j) \<or> sys_lock s = None"
    and own: "thread_ok (view_of hasher (sys_table s) us kvs cs) (calls ! j) (seen' j) pc"
    and ghost: "\<And>l v. seen l v \<Longrightarrow> seen' l v"
  shows "system_ok hasher calls seen' s' us xs kvs cs"
proof (rule system_ok_step [OF ok j s'(1)])
  have ok': "shared_ok hasher (sys_table s) us xs kvs cs" "counts_ok (sys_refs s) (sys_threads s) us xs"
    "length (sys_threads s) = length calls"
    using ok by (simp_all add: system_ok_def)
  show "shared_ok hasher (sys_table s') us xs kvs cs" using ok'(1) s'(2) by simp
  show "counts_ok (sys_refs s') ((sys_threads s)[j := pc]) us xs"
    using refs blocks j ok'(3) by (intro counts_step [OF ok'(2)]) simp_all
  show "later_view (view_of hasher (sys_table s) us kvs cs) (view_of hasher (sys_table s') us kvs cs)"
    using later_refl [OF _ ok'(1)] s'(2) by simp
qed (use lock own ghost s'(2) in simp_all)

end
