(* ===== verification/Concurrent_Steps.thy ===== *)
theory Concurrent_Steps
  imports Concurrent_Proofs
begin

text \<open>Every step of a thread keeps the invariant, one lemma for each place the thread can be at.\<close>

section \<open>Searching\<close>

lemma visit_simps [simp]:
  "refs_of (found task key r) = []" "owned (found task key r) = task_block task"
  "writing (found task key r) \<longleftrightarrow> task \<noteq> Reading"
  "refs_of (visit task key p) = []" "owned (visit task key p) = task_block task"
  "writing (visit task key p) \<longleftrightarrow> task \<noteq> Reading"
  by (cases task; cases r; cases p; simp)+

lemma chain_from:
  "chain bs p c \<Longrightarrow> i \<in> set c \<Longrightarrow>
    \<exists>ys. dropWhile (\<lambda>l. l \<noteq> i) c = i # ys \<and> chain bs (next_bucket (bs ! i)) ys \<and> i < length bs"
  by (induction bs p c rule: chain.induct) auto

lemma dropWhile_next:
  assumes "distinct c" and "dropWhile (\<lambda>l. l \<noteq> i) c = i # n # zs"
  shows "dropWhile (\<lambda>l. l \<noteq> n) c = n # zs \<and> n \<in> set c"
proof -
  obtain as where c: "c = (as @ [i]) @ n # zs"
    using takeWhile_dropWhile_id [of "\<lambda>l. l \<noteq> i" c] assms(2)
    by (metis append.assoc append_Cons append_Nil)
  then have "n \<notin> set (as @ [i])" using assms(1) by auto
  then have "dropWhile (\<lambda>l. l \<noteq> n) c = dropWhile (\<lambda>l. l \<noteq> n) (n # zs)"
    unfolding c by (intro dropWhile_append2) auto
  then show ?thesis by (simp add: c)
qed

lemma visit_ok:
  assumes "chain bs p ys" and "task_ok V call task key"
    and ys: "\<And>n zs. ys = n # zs \<Longrightarrow> dropWhile (\<lambda>l. l \<noteq> n) (v_chain V key) = ys \<and> n \<in> set (v_chain V key) \<and> n < length (v_kvs V)"
    and ahead: "(\<exists>l \<in> set ys. fst (v_kvs V ! l) = key) \<or> absent V seen task key"
  shows "thread_ok V call seen (visit task key p)"
proof (cases p)
  case None
  then have "ys = []" using assms(1) by (cases ys) auto
  then show ?thesis using None assms(2) ahead by (cases task) auto
next
  case (Some n)
  then obtain zs where "ys = n # zs" using assms(1) by (cases ys) auto
  with ys [OF this] show ?thesis using Some assms(2) ahead by (auto simp: search_ok_def)
qed

section \<open>What a thread has seen\<close>

definition sees :: "(str \<Rightarrow> u64) \<Rightarrow> pc list \<Rightarrow> system \<Rightarrow> nat \<Rightarrow> (nat \<Rightarrow> str \<Rightarrow> bool) \<Rightarrow> nat \<Rightarrow> str \<Rightarrow> bool" where
  "sees hasher calls s j seen l v \<longleftrightarrow> seen l v \<or>
    l = j \<and> (\<exists>key. calls ! j = Get_call key \<and> get hasher key (sys_table s) = Inr v)"

lemma system_okD:
  assumes "system_ok hasher calls seen s us xs kvs cs" and "j < length calls"
  shows "table_rep (sys_table s) us xs kvs cs" "distinct (map fst kvs)"
    "\<forall>i < length kvs. i \<in> set (cs ! slot_of hasher (sys_table s) (fst (kvs ! i)))"
    "used_heap (memory (sys_table s)) us" "set xs \<subseteq> set us"
    "counts_ok (sys_refs s) (sys_threads s) us xs" "j < length (sys_threads s)"
    "length (sys_threads s) = length calls"
    "thread_ok (view_of hasher (sys_table s) us kvs cs) (calls ! j) (seen j) (sys_threads s ! j)"
    "writing (sys_threads s ! j) \<longleftrightarrow> sys_lock s = Some j"
  using assms by (auto simp: system_ok_def shared_ok_def table_rep_def)

lemma step_exec:
  assumes "system_ok hasher calls seen s us xs kvs cs" and "j < length calls"
    and "advance hasher j (sys_threads s ! j) s = Inr (s1, pc)"
  shows "step hasher j s = Inr (s1\<lparr>sys_threads := (sys_threads s1)[j := pc]\<rparr>)"
  using assms system_okD(7) [OF assms(1,2)] by (simp add: step_def)

lemma quiet_exec:
  assumes ok: "system_ok hasher calls seen s us xs kvs cs" and j: "j < length calls"
    and exec: "advance hasher j (sys_threads s ! j) s = Inr (t, pc)"
    and t: "sys_threads t = sys_threads s" "sys_table t = sys_table s"
    and refs: "\<And>p. sys_refs t p + count_list (refs_of (sys_threads s ! j)) p = sys_refs s p + count_list (refs_of pc) p"
    and blocks: "\<And>p. count_list (owned pc) p + of_bool (0 < sys_refs t p) =
      (count_list (owned (sys_threads s ! j)) p + of_bool (0 < sys_refs s p) :: nat)"
    and lock: "sys_lock t = (if writing pc then Some j else if writing (sys_threads s ! j) then None else sys_lock s)"
      "writing pc \<Longrightarrow> writing (sys_threads s ! j) \<or> sys_lock s = None"
    and own: "thread_ok (view_of hasher (sys_table s) us kvs cs) (calls ! j)
      (sees hasher calls s j seen j) pc"
  shows "\<exists>s'. step hasher j s = Inr s' \<and>
    system_ok hasher calls (sees hasher calls s j seen) s' us xs kvs cs"
proof (intro exI conjI)
  show "step hasher j s = Inr (t\<lparr>sys_threads := (sys_threads t)[j := pc]\<rparr>)" by (rule step_exec [OF ok j exec])
  show "system_ok hasher calls (sees hasher calls s j seen)
    (t\<lparr>sys_threads := (sys_threads t)[j := pc]\<rparr>) us xs kvs cs"
    using t refs blocks lock own by (intro quiet_step [OF ok j]) (simp_all add: sees_def)
qed

text \<open>The chain of the slot of a key.\<close>

lemma slot_chain:
  assumes "system_ok hasher calls seen s us xs kvs cs" and j: "j < length calls"
  shows "chain (m_bucket_storage (sys_table s)) (m_hash_table (sys_table s) ! slot_of hasher (sys_table s) key)
      (cs ! slot_of hasher (sys_table s) key)"
    "distinct (cs ! slot_of hasher (sys_table s) key)"
    "set (cs ! slot_of hasher (sys_table s) key) \<subseteq> {..< length kvs}"
  using system_okD(1) [OF assms] slot_bound [OF system_okD(1) [OF assms], of hasher key]
  by (simp_all add: table_rep_def)

lemma get_absent:
  assumes "system_ok hasher calls seen s us xs kvs cs" and "j < length calls" and "key \<notin> fst ` set kvs"
  shows "get hasher key (sys_table s) = Inr []"
proof -
  have "map_of kvs key = None" using assms(3) map_of_eq_None_iff by fast
  then show ?thesis using get_shared [of hasher "sys_table s" us xs kvs cs key] assms(1) by (simp add: system_ok_def)
qed

lemma lookup_step:
  assumes ok: "system_ok hasher calls seen s us xs kvs cs" and j: "j < length calls"
    and pc: "sys_threads s ! j = Lookup task key"
  shows "\<exists>s'. step hasher j s = Inr s' \<and>
    system_ok hasher calls (sees hasher calls s j seen) s' us xs kvs cs"
proof (rule quiet_exec [OF ok j])
  let ?slot = "slot_of hasher (sys_table s) key" and ?V = "view_of hasher (sys_table s) us kvs cs"
  let ?pc = "visit task key (m_hash_table (sys_table s) ! ?slot)"
  note D = system_okD [OF ok j] and chain = slot_chain [OF ok j, of key]
  show "advance hasher j (sys_threads s ! j) s = Inr (s, ?pc)" by (simp add: pc)
  have task: "task_ok ?V (calls ! j) task key" using D(9) pc by simp
  have "(\<exists>l \<in> set (cs ! ?slot). fst (kvs ! l) = key) \<or> absent ?V (sees hasher calls s j seen j) task key"
  proof (cases "key \<in> fst ` set kvs")
    case True
    then obtain i where "i < length kvs" "fst (kvs ! i) = key" by (auto simp: in_set_conv_nth)
    then show ?thesis using D(3) by blast
  next
    case False
    then show ?thesis
      using get_absent [OF ok j False] task by (cases task) (auto simp: sees_def)
  qed
  then show "thread_ok ?V (calls ! j) (sees hasher calls s j seen j) ?pc"
    using chain task by (intro visit_ok [OF chain(1)]) (auto simp: dropWhile_eq_self_iff)
  show "sys_lock s = (if writing ?pc then Some j else if writing (sys_threads s ! j) then None else sys_lock s)"
    using D(10) pc by auto
qed (simp_all add: pc)

lemma own_ok:
  assumes "system_ok hasher calls seen s us xs kvs cs" and "j < length calls"
  shows "thread_ok (view_of hasher (sys_table s) us kvs cs) (calls ! j)
    (sees hasher calls s j seen j) (sys_threads s ! j)"
proof (rule thread_ok_later [OF system_okD(9) [OF assms]])
  show "later_view (view_of hasher (sys_table s) us kvs cs) (view_of hasher (sys_table s) us kvs cs)"
    using later_refl [of "sys_table s" "sys_table s" hasher us xs kvs cs] assms(1) by (simp add: system_ok_def)
qed (simp_all add: sees_def)

lemma advance_step:
  assumes ok: "system_ok hasher calls seen s us xs kvs cs" and j: "j < length calls"
    and pc: "sys_threads s ! j = Advance task key i"
  shows "\<exists>s'. step hasher j s = Inr s' \<and>
    system_ok hasher calls (sees hasher calls s j seen) s' us xs kvs cs"
proof (rule quiet_exec [OF ok j])
  let ?ch = "cs ! slot_of hasher (sys_table s) key" and ?V = "view_of hasher (sys_table s) us kvs cs"
  let ?pc = "visit task key (next_bucket (m_bucket_storage (sys_table s) ! i))"
  note D = system_okD [OF ok j] and chain = slot_chain [OF ok j, of key]
  have own: "task_ok ?V (calls ! j) task key" "search_ok ?V (sees hasher calls s j seen j) task key i" "fst (kvs ! i) \<noteq> key"
    using own_ok [OF ok j] pc by simp_all
  then have i: "i \<in> set ?ch" "i < length kvs" by (simp_all add: search_ok_def)
  show "advance hasher j (sys_threads s ! j) s = Inr (s, ?pc)"
    using table_rep_block(3) [OF D(1) i(2)] by (simp add: pc)
  obtain ys where ys: "dropWhile (\<lambda>l. l \<noteq> i) ?ch = i # ys"
    "chain (m_bucket_storage (sys_table s)) (next_bucket (m_bucket_storage (sys_table s) ! i)) ys"
    using chain_from [OF chain(1) i(1)] by blast
  have "(\<exists>l \<in> set ys. fst (kvs ! l) = key) \<or> absent ?V (sees hasher calls s j seen j) task key"
    using own(2,3) ys(1) by (auto simp: search_ok_def)
  moreover have "dropWhile (\<lambda>l. l \<noteq> n) ?ch = ys \<and> n \<in> set ?ch \<and> n < length kvs" if "ys = n # zs" for n zs
    using dropWhile_next [OF chain(2), of i n zs] ys(1) that chain(3) by auto
  ultimately show "thread_ok ?V (calls ! j) (sees hasher calls s j seen j) ?pc"
    using own(1) by (intro visit_ok [OF ys(2)]) simp_all
  show "sys_lock s = (if writing ?pc then Some j else if writing (sys_threads s ! j) then None else sys_lock s)"
    using D(10) pc by auto
qed (simp_all add: pc)

text \<open>The steps that only move the thread, and those at a mutex.\<close>

lemma call_step:
  assumes ok: "system_ok hasher calls seen s us xs kvs cs" and j: "j < length calls"
    and pc: "sys_threads s ! j = Get_call key \<or> sys_threads s ! j = Put_call key val \<or>
      sys_threads s ! j = Unlock b \<or> sys_threads s ! j = Return x"
  shows "\<exists>s'. step hasher j s = Inr s' \<and>
    system_ok hasher calls (sees hasher calls s j seen) s' us xs kvs cs"
proof -
  note own = own_ok [OF ok j] and lock = system_okD(10) [OF ok j]
  consider "sys_threads s ! j = Get_call key" | "sys_threads s ! j = Put_call key val" "sys_lock s = None"
    | "sys_threads s ! j = Put_call key val" "sys_lock s \<noteq> None" | "sys_threads s ! j = Unlock b"
    | "sys_threads s ! j = Return x"
    using pc by blast
  then show ?thesis
  proof cases
    case 1
    then show ?thesis
      using own lock by (intro quiet_exec [OF ok j, where t = s and pc = "Lookup Reading key"]) auto
  next
    case 2
    then show ?thesis
      using own lock
      by (intro quiet_exec [OF ok j, where t = "s\<lparr>sys_lock := Some j\<rparr>" and pc = "Allocate key val"]) auto
  next
    case 3
    then show ?thesis
      using own lock by (intro quiet_exec [OF ok j, where t = s and pc = "Put_call key val"]) auto
  next
    case 4
    then show ?thesis
      using own lock
      by (intro quiet_exec [OF ok j, where t = "s\<lparr>sys_lock := None\<rparr>" and pc = "Return (Stored b)"]) auto
  next
    case 5
    then show ?thesis
      using own lock by (intro quiet_exec [OF ok j, where t = s and pc = "Return x"]) auto
  qed
qed

lemma mutex_step:
  assumes ok: "system_ok hasher calls seen s us xs kvs cs" and j: "j < length calls"
    and pc: "sys_threads s ! j = Allocate key val \<or> sys_threads s ! j = Free p nxt"
  shows "\<exists>s'. step hasher j s = Inr s' \<and>
    system_ok hasher calls (sees hasher calls s j seen) s' us xs kvs cs"
proof (cases "sys_mutex s = None")
  case False
  then show ?thesis
    using own_ok [OF ok j] system_okD(10) [OF ok j] pc
    by (intro quiet_exec [OF ok j, where t = s and pc = "sys_threads s ! j"]) auto
next
  case True
  note own = own_ok [OF ok j] and lock = system_okD(10) [OF ok j]
  show ?thesis
    using pc
  proof
    assume "sys_threads s ! j = Allocate key val"
    then show ?thesis
      using own lock True
      by (intro quiet_exec [OF ok j, where t = "s\<lparr>sys_mutex := Some j\<rparr>" and pc = "Allocating key val"]) auto
  next
    assume "sys_threads s ! j = Free p nxt"
    then show ?thesis
      using own lock True
      by (intro quiet_exec [OF ok j, where t = "s\<lparr>sys_mutex := Some j\<rparr>" and pc = "Freeing p nxt"]) auto
  qed
qed

section \<open>References\<close>

lemma load_pointer_exec:
  assumes ok: "system_ok hasher calls seen s us xs kvs cs" and j: "j < length calls" and i: "i < length kvs"
  shows "load_pointer i s = Inr (s\<lparr>sys_refs := (sys_refs s)(pointer_of (xs ! i) := sys_refs s (pointer_of (xs ! i)) + 1)\<rparr>,
      pointer_of (xs ! i))"
    "pair_at (memory (sys_table s)) us (pointer_of (xs ! i)) (kvs ! i)" "0 < sys_refs s (pointer_of (xs ! i))"
proof -
  note D = system_okD [OF ok j] and b = table_rep_block [OF system_okD(1) [OF ok j] i]
  show "load_pointer i s = Inr (s\<lparr>sys_refs := (sys_refs s)(pointer_of (xs ! i) := sys_refs s (pointer_of (xs ! i)) + 1)\<rparr>,
      pointer_of (xs ! i))"
    using b(3,4) by (simp add: load_pointer_def)
  show "pair_at (memory (sys_table s)) us (pointer_of (xs ! i)) (kvs ! i)"
    using b(1,2) by (auto simp: pair_at_def)
  have "xs ! i \<in> set xs" using i table_rep_lengths(1) [OF D(1)] by simp
  then have "pointer_of (xs ! i) \<in> pointer_of ` set xs" by (rule imageI)
  then show "0 < sys_refs s (pointer_of (xs ! i))"
    using counts_okD(1) [OF D(6), of "pointer_of (xs ! i)"] by simp
qed

lemma visit_step:
  assumes ok: "system_ok hasher calls seen s us xs kvs cs" and j: "j < length calls"
    and pc: "sys_threads s ! j = Visit task key i"
  shows "\<exists>s'. step hasher j s = Inr s' \<and>
    system_ok hasher calls (sees hasher calls s j seen) s' us xs kvs cs"
proof (rule quiet_exec [OF ok j])
  let ?p = "pointer_of (xs ! i)" and ?V = "view_of hasher (sys_table s) us kvs cs"
  have own: "task_ok ?V (calls ! j) task key" "search_ok ?V (sees hasher calls s j seen j) task key i"
    using own_ok [OF ok j] pc by simp_all
  then have i: "i < length kvs" by (simp add: search_ok_def)
  note load = load_pointer_exec [OF ok j i]
  show "advance hasher j (sys_threads s ! j) s =
      Inr (s\<lparr>sys_refs := (sys_refs s)(?p := sys_refs s ?p + 1)\<rparr>, Compare task key i ?p)"
    by (simp only: pc advance.simps load(1)) simp
  show "thread_ok ?V (calls ! j) (sees hasher calls s j seen j) (Compare task key i ?p)"
    using own load(2) by (cases "kvs ! i") auto
  show "sys_lock (s\<lparr>sys_refs := (sys_refs s)(?p := sys_refs s ?p + 1)\<rparr>) =
      (if writing (Compare task key i ?p) then Some j else if writing (sys_threads s ! j) then None else sys_lock s)"
    using system_okD(10) [OF ok j] pc by auto
qed (use load_pointer_exec(3) [OF ok j] own_ok [OF ok j] in \<open>auto simp: pc search_ok_def\<close>)

lemma fetch_step:
  assumes ok: "system_ok hasher calls seen s us xs kvs cs" and j: "j < length calls"
    and pc: "sys_threads s ! j = Fetch key i"
  shows "\<exists>s'. step hasher j s = Inr s' \<and>
    system_ok hasher calls (sees hasher calls s j seen) s' us xs kvs cs"
proof (rule quiet_exec [OF ok j])
  let ?p = "pointer_of (xs ! i)" and ?V = "view_of hasher (sys_table s) us kvs cs"
  note D = system_okD [OF ok j]
  have own: "calls ! j = Get_call key" "i < length kvs" "fst (kvs ! i) = key"
    using own_ok [OF ok j] pc by simp_all
  note load = load_pointer_exec [OF ok j own(2)]
  show "advance hasher j (sys_threads s ! j) s =
      Inr (s\<lparr>sys_refs := (sys_refs s)(?p := sys_refs s ?p + 1)\<rparr>, Copy_value ?p)"
    by (simp only: pc advance.simps load(1)) simp
  have "map_of kvs key = Some (snd (kvs ! i))"
    using D(2) own(2,3) by (metis map_of_eq_Some_iff nth_mem prod.collapse)
  then have "get hasher key (sys_table s) = Inr (snd (kvs ! i))"
    using get_shared [of hasher "sys_table s" us xs kvs cs key] ok by (simp add: system_ok_def)
  then show "thread_ok ?V (calls ! j) (sees hasher calls s j seen j) (Copy_value ?p)"
    using own load(2) by (cases "kvs ! i") (auto simp: sees_def)
  show "sys_lock (s\<lparr>sys_refs := (sys_refs s)(?p := sys_refs s ?p + 1)\<rparr>) =
      (if writing (Copy_value ?p) then Some j else if writing (sys_threads s ! j) then None else sys_lock s)"
    using system_okD(10) [OF ok j] pc by auto
qed (use load_pointer_exec(3) [OF ok j] own_ok [OF ok j] in \<open>auto simp: pc\<close>)

lemma pair_strings:
  assumes "used_heap m us" and "pair_at m us p (k, v)"
  shows "c_string m p = Inr k" "strchr_end m p = Inr (p + u64 (length k))" "c_string m (p + u64 (length k) + 1) = Inr v"
proof -
  obtain x where x: "x \<in> set us" "p = pointer_of x" "holds m x (k, v)" using assms(2) by (auto simp: pair_at_def)
  show "c_string m p = Inr k" using holds_key [OF assms(1) x(1,3)] x(2) by simp
  then show "strchr_end m p = Inr (p + u64 (length k))" by (simp add: strchr_end_def)
  show "c_string m (p + u64 (length k) + 1) = Inr v" using holds_value [OF assms(1) x(1,3)] x(2) by simp
qed

lemma compare_step:
  assumes ok: "system_ok hasher calls seen s us xs kvs cs" and j: "j < length calls"
    and pc: "sys_threads s ! j = Compare task key i p"
  shows "\<exists>s'. step hasher j s = Inr s' \<and>
    system_ok hasher calls (sees hasher calls s j seen) s' us xs kvs cs"
proof (rule quiet_exec [OF ok j])
  let ?k = "fst (kvs ! i)" and ?V = "view_of hasher (sys_table s) us kvs cs"
  let ?pc = "Release p (if key \<noteq> ?k then Advance task key i else found task key (Some i))"
  note D = system_okD [OF ok j]
  obtain v where own: "task_ok ?V (calls ! j) task key" "search_ok ?V (sees hasher calls s j seen j) task key i"
    "pair_at (memory (sys_table s)) us p (?k, v)"
    using own_ok [OF ok j] pc by auto
  show "advance hasher j (sys_threads s ! j) s = Inr (s, ?pc)"
    using pair_strings [OF D(4) own(3)] by (simp add: pc)
  show "thread_ok ?V (calls ! j) (sees hasher calls s j seen j) ?pc"
    using own(1,2) by (cases task) (auto simp: search_ok_def)
  show "sys_lock s = (if writing ?pc then Some j else if writing (sys_threads s ! j) then None else sys_lock s)"
    using D(10) pc by auto
qed (auto simp: pc split: if_splits)

lemma copy_value_step:
  assumes ok: "system_ok hasher calls seen s us xs kvs cs" and j: "j < length calls"
    and pc: "sys_threads s ! j = Copy_value p"
  shows "\<exists>s'. step hasher j s = Inr s' \<and>
    system_ok hasher calls (sees hasher calls s j seen) s' us xs kvs cs"
proof -
  note D = system_okD [OF ok j]
  obtain key v where own: "calls ! j = Get_call key" "sees hasher calls s j seen j v"
    "pair_at (memory (sys_table s)) us p (key, v)"
    using own_ok [OF ok j] pc by auto
  have "advance hasher j (sys_threads s ! j) s = Inr (s, Release p (Return (Got v)))"
    using pair_strings [OF D(4) own(3)] by (simp add: pc)
  then show ?thesis
    using own D(10) pc by (intro quiet_exec [OF ok j]) auto
qed

lemma release_step:
  assumes ok: "system_ok hasher calls seen s us xs kvs cs" and j: "j < length calls"
    and pc: "sys_threads s ! j = Release p nxt"
  shows "\<exists>s'. step hasher j s = Inr s' \<and>
    system_ok hasher calls (sees hasher calls s j seen) s' us xs kvs cs"
proof (rule quiet_exec [OF ok j])
  let ?s = "s\<lparr>sys_refs := (sys_refs s)(p := sys_refs s p - 1)\<rparr>"
  let ?pc = "if sys_refs s p = 1 then Free p nxt else nxt"
  note D = system_okD [OF ok j]
  show "advance hasher j (sys_threads s ! j) s = Inr (?s, ?pc)" by (simp add: pc drop_reference_def Let_def)
  have "p \<in> set (refs_of (sys_threads s ! j))" by (simp add: pc)
  then have pos: "0 < sys_refs s p"
    using tally_member [of j "sys_threads s" p refs_of] D(7) counts_okD(1) [OF D(6), of p] by simp
  then show "sys_refs ?s q + count_list (refs_of (sys_threads s ! j)) q = sys_refs s q + count_list (refs_of ?pc) q" for q
    by (cases "p = q") (auto simp: pc)
  show "count_list (owned ?pc) q + of_bool (0 < sys_refs ?s q) =
      (count_list (owned (sys_threads s ! j)) q + of_bool (0 < sys_refs s q) :: nat)" for q
    using pos by (auto simp: pc)
  show "thread_ok (view_of hasher (sys_table s) us kvs cs) (calls ! j)
      (sees hasher calls s j seen j) ?pc"
    using own_ok [OF ok j] by (simp add: pc)
  show "sys_lock ?s = (if writing ?pc then Some j else if writing (sys_threads s ! j) then None else sys_lock s)"
    using D(10) pc by auto
qed (auto simp: pc split: if_splits)

end
