(* ===== verification/Concurrent_Writes.thy ===== *)
theory Concurrent_Writes
  imports Concurrent_Steps
begin

text \<open>The steps that change the memory or the table: allocating, freeing, copying and publishing.\<close>

section \<open>Blocks\<close>

lemma pair_at_mono:
  assumes "pair_at m us p kv" and "\<And>x. x \<in> set us \<Longrightarrow> pointer_of x = p \<Longrightarrow> x \<in> set us' \<and> data_of m' x = data_of m x"
  shows "pair_at m' us' p kv"
  using assms holds_cong unfolding pair_at_def by blast

lemma space_at_mono:
  assumes "space_at us p n" and "\<And>x. x \<in> set us \<Longrightarrow> pointer_of x = p \<Longrightarrow> x \<in> set us'"
  shows "space_at us' p n"
  using assms unfolding space_at_def by blast

lemma owned_block:
  assumes ok: "system_ok hasher calls seen s us xs kvs cs" and j: "j < length calls"
    and p: "p \<in> set (owned (sys_threads s ! j))"
  shows "\<exists>x \<in> set us. pointer_of x = p" "p \<notin> pointer_of ` set xs" "sys_refs s p = 0"
    "count_list (owned (sys_threads s ! j)) p = 1"
    "l < length calls \<Longrightarrow> l \<noteq> j \<Longrightarrow> p \<notin> set (refs_of (sys_threads s ! l)) \<union> set (owned (sys_threads s ! l))"
proof -
  note D = system_okD [OF ok j] and counts = counts_okD [OF system_okD(6) [OF ok j], of p]
  have one: "1 \<le> count_list (owned (sys_threads s ! j)) p" "count_list (owned (sys_threads s ! j)) p \<le> tally owned (sys_threads s) p"
    using count_list_pos [OF p] tally_others [OF D(7), of owned p] by simp_all
  then have "p \<in> pointer_of ` set us" "tally owned (sys_threads s) p = 1" and refs: "sys_refs s p = 0"
    using counts(2) by (auto simp: of_bool_def split: if_splits)
  then show "\<exists>x \<in> set us. pointer_of x = p" "sys_refs s p = 0" "count_list (owned (sys_threads s ! j)) p = 1"
    using one by auto
  show "p \<notin> pointer_of ` set xs" using counts(1) refs by (auto simp: of_bool_def split: if_splits)
  assume l: "l < length calls" "l \<noteq> j"
  have "p \<notin> set (refs_of (sys_threads s ! l))"
    using tally_member [of l "sys_threads s" p refs_of] counts(1) refs l(1) D(8) by auto
  moreover have "p \<notin> set (owned (sys_threads s ! l))"
    using tally_two [of l "sys_threads s" j p owned] \<open>tally owned (sys_threads s) p = 1\<close> l D(7,8) p by auto
  ultimately show "p \<notin> set (refs_of (sys_threads s ! l)) \<union> set (owned (sys_threads s ! l))" by simp
qed

text \<open>The memory changes, but not for the blocks of the buckets, nor for those of other threads.\<close>

lemma memory_step:
  assumes ok: "system_ok hasher calls seen s us xs kvs cs" and j: "j < length calls"
    and exec: "advance hasher j (sys_threads s ! j) s = Inr (s\<lparr>sys_table := with_memory (sys_table s) m, sys_mutex := mx\<rparr>, pc)"
    and heap: "used_heap m us'" and sub: "set xs \<subseteq> set us'"
    and data: "\<And>x. x \<in> set us \<Longrightarrow> pointer_of x \<notin> set (owned (sys_threads s ! j)) \<Longrightarrow>
      x \<in> set us' \<and> data_of m x = data_of (memory (sys_table s)) x"
    and refs: "refs_of pc = refs_of (sys_threads s ! j)"
    and blocks: "\<And>p. count_list (owned pc) p + of_bool (p \<in> pointer_of ` set us) =
      (count_list (owned (sys_threads s ! j)) p + of_bool (p \<in> pointer_of ` set us') :: nat)"
    and lock: "writing pc = writing (sys_threads s ! j)"
    and own: "thread_ok (view_of hasher (with_memory (sys_table s) m) us' kvs cs) (calls ! j)
      (sees hasher calls s j seen j) pc"
  shows "\<exists>s'. step hasher j s = Inr s' \<and>
    system_ok hasher calls (sees hasher calls s j seen) s' us' xs kvs cs"
proof (intro exI conjI)
  let ?s = "s\<lparr>sys_table := with_memory (sys_table s) m, sys_mutex := mx\<rparr>"
  let ?s' = "?s\<lparr>sys_threads := (sys_threads ?s)[j := pc]\<rparr>"
  note D = system_okD [OF ok j]
  show "step hasher j s = Inr ?s'" by (rule step_exec [OF ok j exec])
  have "pointer_of x \<notin> set (owned (sys_threads s ! j))" if "x \<in> set xs" for x
    using owned_block(2) [OF ok j] that by blast
  then have "\<forall>x \<in> set xs. data_of m x = data_of (memory (sys_table s)) x" using data D(5) by blast
  then have rep: "table_rep (with_memory (sys_table s) m) us' xs kvs cs"
    using sub by (intro table_rep_memory [OF D(1) heap]) auto
  have shared: "shared_ok hasher (sys_table s) us xs kvs cs" using ok by (simp add: system_ok_def)
  have keep: "pair_at m us' p kv" if "l < length calls" "l \<noteq> j"
    "p \<in> set (refs_of (sys_threads s ! l)) \<union> set (owned (sys_threads s ! l))"
    "pair_at (memory (sys_table s)) us p kv" for l p kv
    using that owned_block(5) [OF ok j _ that(1,2)] data by (intro pair_at_mono [OF that(4)]) auto
  have space: "space_at us' p n" if "l < length calls" "l \<noteq> j" "p \<in> set (owned (sys_threads s ! l))" "space_at us p n" for l p n
    using that owned_block(5) [OF ok j _ that(1,2)] data by (intro space_at_mono [OF that(4)]) auto
  show "system_ok hasher calls (sees hasher calls s j seen) ?s' us' xs kvs cs"
  proof (rule system_ok_step [OF ok j, where pc = pc])
    show "shared_ok hasher (sys_table ?s') us' xs kvs cs"
      using rep D(2,3) by (simp add: shared_ok_def slot_of_def)
    show "counts_ok (sys_refs ?s') ((sys_threads s)[j := pc]) us' xs"
      using refs blocks by (intro counts_step [OF D(6,7)]) simp_all
    show "later_view (view_of hasher (sys_table s) us kvs cs) (view_of hasher (sys_table ?s') us' kvs cs)"
      by (intro later_refl [OF _ shared]) simp
  qed (use lock own keep space D(10) in \<open>auto simp: sees_def\<close>)
qed

text \<open>\<open>alloc\<close> either fails and changes nothing, or the thread owns a new block.\<close>

lemma allocate_step:
  assumes ok: "system_ok hasher calls seen s us xs kvs cs" and j: "j < length calls"
    and pc: "sys_threads s ! j = Allocating key val"
    and clean: "clean_for (memory (sys_table s)) (length key + length val + 2)"
  shows "\<exists>s' us'. step hasher j s = Inr s' \<and>
    system_ok hasher calls (sees hasher calls s j seen) s' us' xs kvs cs"
proof -
  let ?n = "length key + length val + 2" and ?m = "memory (sys_table s)"
  note D = system_okD [OF ok j]
  have own: "calls ! j = Put_call key val" "storable_pair key val" using own_ok [OF ok j] pc by simp_all
  then have n: "?n < 2 ^ 64" by (simp add: storable_pair_def)
  have size: "u64 (length key + 1 + length val + 1) = u64 ?n" by simp
  show ?thesis
  proof (cases "has_room ?m ?n")
    case False
    have "alloc (u64 ?n) ?m = Inr (?m, None)" by (rule al.acquire_fails [OF D(4) n False])
    then have "advance hasher j (sys_threads s ! j) s = Inr (s\<lparr>sys_mutex := None\<rparr>, Unlock False)"
      by (simp only: pc advance.simps size) simp
    then have "\<exists>s'. step hasher j s = Inr s' \<and>
        system_ok hasher calls (sees hasher calls s j seen) s' us xs kvs cs"
      using own(1) D(10) pc by (intro quiet_exec [OF ok j, where t = "s\<lparr>sys_mutex := None\<rparr>"]) auto
    then show ?thesis by blast
  next
    case True
    obtain m' b sz where al: "alloc (u64 ?n) ?m = Inr (m', Some (pointer_of (b, sz)))" "?n \<le> sz"
      and heap: "used_heap m' ((b, sz) # us)" and data: "\<forall>x \<in> set us. data_of m' x = data_of ?m x"
      using al.acquire_works [OF D(4) n True clean] by auto
    let ?x = "(b, sz)"
    have new: "pointer_of ?x \<notin> pointer_of ` set us"
      using pointer_inj [OF heap, of ?x] al.fresh_block [OF heap] by fastforce
    have "\<exists>s'. step hasher j s = Inr s' \<and>
        system_ok hasher calls (sees hasher calls s j seen) s' (?x # us) xs kvs cs"
    proof (rule memory_step [OF ok j _ heap])
      show "advance hasher j (sys_threads s ! j) s =
          Inr (s\<lparr>sys_table := with_memory (sys_table s) m', sys_mutex := None\<rparr>, Lookup (Writing val (pointer_of ?x)) key)"
        using al(1) by (simp only: pc advance.simps size) simp
      show "count_list (owned (Lookup (Writing val (pointer_of ?x)) key)) p + of_bool (p \<in> pointer_of ` set us) =
          (count_list (owned (sys_threads s ! j)) p + of_bool (p \<in> pointer_of ` set (?x # us)) :: nat)" for p
        using new by (cases "p = pointer_of ?x") (auto simp: pc)
    qed (use own al(2) data D(5) pc in \<open>auto simp: space_at_def\<close>)
    then show ?thesis by blast
  qed
qed

lemma free_step:
  assumes ok: "system_ok hasher calls seen s us xs kvs cs" and j: "j < length calls"
    and pc: "sys_threads s ! j = Freeing p nxt"
  shows "\<exists>s' us'. step hasher j s = Inr s' \<and>
    system_ok hasher calls (sees hasher calls s j seen) s' us' xs kvs cs"
proof -
  note D = system_okD [OF ok j]
  have p: "p \<in> set (owned (sys_threads s ! j))" by (simp add: pc)
  note o = owned_block [OF ok j p]
  obtain x where x: "x \<in> set us" "pointer_of x = p" using o(1) by blast
  obtain m' where m': "free p (memory (sys_table s)) = Inr m'" "used_heap m' (remove1 x us)"
    and data: "\<forall>y \<in> set us. y \<noteq> x \<longrightarrow> data_of m' y = data_of (memory (sys_table s)) y"
    using al.release_works [OF D(4) x(1)] x(2) by auto
  have "distinct us" using al.heap_distinct [OF D(4)] by (simp add: distinct_map)
  then have set: "set (remove1 x us) = set us - {x}" by simp
  have "pointer_of ` (set us - {x}) = pointer_of ` set us - pointer_of ` {x}"
    by (rule inj_on_image_set_diff [of _ "set us"]) (use x(1) pointer_inj [OF D(4)] in \<open>auto intro!: inj_onI\<close>)
  then have ptrs: "pointer_of ` (set us - {x}) = pointer_of ` set us - {p}" using x(2) by simp
  have free: "p \<notin> set (owned nxt)" using o(4) by (auto simp: pc count_list_0_iff)
  have "\<exists>s'. step hasher j s = Inr s' \<and>
      system_ok hasher calls (sees hasher calls s j seen) s' (remove1 x us) xs kvs cs"
  proof (rule memory_step [OF ok j _ m'(2)])
    show "advance hasher j (sys_threads s ! j) s = Inr (s\<lparr>sys_table := with_memory (sys_table s) m', sys_mutex := None\<rparr>, nxt)"
      using m'(1) by (simp add: pc on_memory_def)
    show "set xs \<subseteq> set (remove1 x us)" using set D(5) o(2) x(2) by auto
    show "count_list (owned nxt) q + of_bool (q \<in> pointer_of ` set us) =
        (count_list (owned (sys_threads s ! j)) q + of_bool (q \<in> pointer_of ` set (remove1 x us)) :: nat)" for q
      unfolding set ptrs using x by (cases "q = p") (auto simp: pc)
    show "y \<in> set (remove1 x us) \<and> data_of m' y = data_of (memory (sys_table s)) y"
      if "y \<in> set us" "pointer_of y \<notin> set (owned (sys_threads s ! j))" for y
      using that p x(2) set data by (cases "y = x") auto
    have "thread_ok (view_of hasher (sys_table s) us kvs cs) (calls ! j)
        (sees hasher calls s j seen j) nxt"
      using own_ok [OF ok j] by (simp add: pc)
    then show "thread_ok (view_of hasher (with_memory (sys_table s) m') (remove1 x us) kvs cs) (calls ! j)
        (sees hasher calls s j seen j) nxt"
    proof (rule thread_ok_later)
      have others: "q \<noteq> p" if "q \<in> set (refs_of nxt) \<union> set (owned nxt)" for q
      proof -
        have "0 < sys_refs s q" if "q \<in> set (refs_of nxt)"
          using tally_member [of j "sys_threads s" q refs_of] that D(7) counts_okD(1) [OF D(6), of q] by (simp add: pc)
        then show ?thesis using that o(3) free by auto
      qed
      have keep: "y \<in> set (remove1 x us) \<and> data_of m' y = data_of (memory (sys_table s)) y"
        if "y \<in> set us" "pointer_of y \<noteq> p" for y
        using that x(2) set data by (cases "y = x") auto
      show "later_view (view_of hasher (sys_table s) us kvs cs)
          (view_of hasher (with_memory (sys_table s) m') (remove1 x us) kvs cs)"
        using ok by (intro later_refl [of _ _ hasher us xs]) (simp_all add: system_ok_def)
      have pair: "pair_at m' (remove1 x us) q kv" if "q \<noteq> p" "pair_at (memory (sys_table s)) us q kv" for q kv
        by (rule pair_at_mono [OF that(2)]) (rule keep, use that(1) in auto)
      have space: "space_at (remove1 x us) q n" if "q \<noteq> p" "space_at us q n" for q n
        by (rule space_at_mono [OF that(2)]) (rule keep [THEN conjunct1], use that(1) in auto)
      show "pair_at (v_mem (view_of hasher (with_memory (sys_table s) m') (remove1 x us) kvs cs))
          (v_us (view_of hasher (with_memory (sys_table s) m') (remove1 x us) kvs cs)) q kv"
        if "q \<in> set (refs_of nxt) \<union> set (owned nxt)" "pair_at (v_mem (view_of hasher (sys_table s) us kvs cs))
          (v_us (view_of hasher (sys_table s) us kvs cs)) q kv" for q kv
        using pair [OF others [OF that(1)]] that(2) by simp
      show "space_at (v_us (view_of hasher (with_memory (sys_table s) m') (remove1 x us) kvs cs)) q n"
        if "q \<in> set (owned nxt)" "space_at (v_us (view_of hasher (sys_table s) us kvs cs)) q n" for q n
        using space [OF others] that by simp
    qed simp_all
  qed (simp_all add: pc)
  then show ?thesis by blast
qed

lemma fill_step:
  assumes ok: "system_ok hasher calls seen s us xs kvs cs" and j: "j < length calls"
    and pc: "sys_threads s ! j = Fill key val p r"
  shows "\<exists>s'. step hasher j s = Inr s' \<and>
    system_ok hasher calls (sees hasher calls s j seen) s' us xs kvs cs"
proof -
  note D = system_okD [OF ok j] and o = owned_block [OF ok j, of p]
  have own: "calls ! j = Put_call key val" "storable_pair key val" "space_at us p (length key + length val + 2)"
    "found_ok (view_of hasher (sys_table s) us kvs cs) key r"
    using own_ok [OF ok j] pc by simp_all
  then obtain x where x: "x \<in> set us" "pointer_of x = p" "length key + length val + 2 \<le> snd x"
    by (auto simp: space_at_def)
  have nul: "upto_nul key = key" "upto_nul val = val" using own(2) by (simp_all add: storable_pair_def upto_nul_id)
  obtain m' where m': "copy_key_value p key val (memory (sys_table s)) = Inr m'" "used_heap m' us" "holds m' x (key, val)"
    and data: "\<forall>y \<in> set us. y \<noteq> x \<longrightarrow> data_of m' y = data_of (memory (sys_table s)) y"
    using copy_pair [OF D(4) x(1,3)] x(2) nul by auto
  show ?thesis
  proof (rule memory_step [OF ok j _ m'(2) D(5)])
    show "advance hasher j (sys_threads s ! j) s =
        Inr (s\<lparr>sys_table := with_memory (sys_table s) m', sys_mutex := sys_mutex s\<rparr>, Publish key val p r)"
      using m'(1) by (simp add: pc on_memory_def)
    have "found_ok (view_of hasher (with_memory (sys_table s) m') us kvs cs) key r" using own(4) by (cases r) simp_all
    then show "thread_ok (view_of hasher (with_memory (sys_table s) m') us kvs cs) (calls ! j)
        (sees hasher calls s j seen j) (Publish key val p r)"
      using own(1-3) x m'(3) by (auto simp: pair_at_def)
    show "y \<in> set us \<and> data_of m' y = data_of (memory (sys_table s)) y"
      if "y \<in> set us" "pointer_of y \<notin> set (owned (sys_threads s ! j))" for y
      using that x(2) data by (auto simp: pc)
  qed (simp_all add: pc)
qed

section \<open>Publishing\<close>

lemma publish_old_step:
  assumes ok: "system_ok hasher calls seen s us xs kvs cs" and j: "j < length calls"
    and pc: "sys_threads s ! j = Publish key val p (Some i)"
  shows "\<exists>s' xs' kvs'. step hasher j s = Inr s' \<and>
    system_ok hasher calls (sees hasher calls s j seen) s' us xs' kvs' cs \<and>
    later_view (view_of hasher (sys_table s) us kvs cs) (view_of hasher (sys_table s') us kvs' cs) \<and>
    map_of kvs' = (map_of kvs)(key \<mapsto> val)"
proof -
  let ?t = "sys_table s" and ?kvs = "kvs[i := (key, val)]" and ?q = "pointer_of (xs ! i)"
  note D = system_okD [OF ok j] and o = owned_block [OF ok j, of p]
  have own: "calls ! j = Put_call key val" "i < length kvs" "fst (kvs ! i) = key" "pair_at (memory ?t) us p (key, val)"
    using own_ok [OF ok j] pc by simp_all
  then obtain x where x: "x \<in> set us" "pointer_of x = p" "holds (memory ?t) x (key, val)" by (auto simp: pair_at_def)
  have o: "p \<notin> pointer_of ` set xs" "sys_refs s p = 0" using o pc by simp_all
  then have new: "x \<notin> set xs" using x(2) by blast
  note b = table_rep_block [OF D(1) own(2)] and len = table_rep_lengths [OF D(1)]
  let ?bs = "(m_bucket_storage ?t)[i := (m_bucket_storage ?t ! i)\<lparr>m_key_value_data := Some p\<rparr>]"
  let ?s = "s\<lparr>sys_table := ?t\<lparr>m_bucket_storage := ?bs\<rparr>, sys_refs := (sys_refs s)(p := 1)\<rparr>"
  let ?pc = "Release ?q (Unlock True)"
  have rep: "table_rep (?t\<lparr>m_bucket_storage := ?bs\<rparr>) us (xs[i := x]) ?kvs cs"
    using replace_pointer [OF D(1) own(2) x(1) new x(3)] x(2) by simp
  have "advance hasher j (sys_threads s ! j) s = Inr (?s, ?pc)"
    using b(3,4) by (simp add: pc store_pointer_def)
  then have step: "step hasher j s = Inr (?s\<lparr>sys_threads := (sys_threads ?s)[j := ?pc]\<rparr>)" by (rule step_exec [OF ok j])
  have keys: "map fst ?kvs = map fst kvs" using own(2,3) by (metis fst_conv list_update_id map_update)
  have fst: "fst (?kvs ! l) = fst (kvs ! l)" if "l < length kvs" for l
    using that own(3) by (cases "l = i") auto
  have shared: "shared_ok hasher (?t\<lparr>m_bucket_storage := ?bs\<rparr>) us (xs[i := x]) ?kvs cs"
    using rep D(2,3) fst keys by (simp add: shared_ok_def slot_of_def)
  have xsi: "xs ! i \<in> set us" "?q \<in> pointer_of ` set xs" using b(1) own(2) len(1) by auto
  have "distinct xs" using D(1) by (simp only: table_rep_def)
  then have "set (xs[i := x]) = insert x (set xs - {xs ! i})" using own(2) len(1) by (simp add: set_update_distinct)
  moreover have "pointer_of ` (set xs - {xs ! i}) = pointer_of ` set xs - pointer_of ` {xs ! i}"
    by (rule inj_on_image_set_diff [of _ "set us"]) (use xsi D(5) pointer_inj [OF D(4)] in \<open>auto intro!: inj_onI\<close>)
  ultimately have ptrs: "pointer_of ` set (xs[i := x]) = insert p (pointer_of ` set xs - {?q})" using x(2) by simp
  have "?q \<noteq> p" using xsi(2) o(1) by auto
  have later: "later_view (view_of hasher (sys_table s) us kvs cs)
      (view_of hasher (sys_table (?s\<lparr>sys_threads := (sys_threads ?s)[j := ?pc]\<rparr>)) us ?kvs cs)"
    using later_refl [of ?t ?t hasher us xs kvs cs us] ok fst by (simp add: later_view_def system_ok_def slot_of_def)
  have "system_ok hasher calls (sees hasher calls s j seen)
      (?s\<lparr>sys_threads := (sys_threads ?s)[j := ?pc]\<rparr>) us (xs[i := x]) ?kvs cs"
  proof (rule system_ok_step [OF ok j _ _ _ _ _ _ later, where pc = ?pc])
    show "counts_ok (sys_refs (?s\<lparr>sys_threads := (sys_threads ?s)[j := ?pc]\<rparr>)) ((sys_threads s)[j := ?pc]) us (xs[i := x])"
    proof (rule counts_step [OF D(6,7)])
      show "sys_refs (?s\<lparr>sys_threads := (sys_threads ?s)[j := ?pc]\<rparr>) r + count_list (refs_of (sys_threads s ! j)) r +
          of_bool (r \<in> pointer_of ` set xs) =
          sys_refs s r + count_list (refs_of ?pc) r + of_bool (r \<in> pointer_of ` set (xs[i := x]))" for r
        unfolding ptrs using o xsi(2) \<open>?q \<noteq> p\<close> by (cases "r = p"; cases "r = ?q") (auto simp: pc)
      show "count_list (owned ?pc) r + of_bool (0 < sys_refs (?s\<lparr>sys_threads := (sys_threads ?s)[j := ?pc]\<rparr>) r) +
          of_bool (r \<in> pointer_of ` set us) =
          (count_list (owned (sys_threads s ! j)) r + of_bool (0 < sys_refs s r) + of_bool (r \<in> pointer_of ` set us) :: nat)" for r
        using o by (cases "r = p") (auto simp: pc)
    qed
  qed (use shared own(1) pc D(10) in \<open>auto simp: sees_def\<close>)
  moreover have "map_of ?kvs = (map_of kvs)(key \<mapsto> val)"
    using update_at [OF D(2) own(2,3), of val] by (metis AList.update_conv')
  ultimately show ?thesis using step later by blast
qed

lemma publish_new_step:
  assumes ok: "system_ok hasher calls seen s us xs kvs cs" and j: "j < length calls"
    and pc: "sys_threads s ! j = Publish key val p None"
  shows "\<exists>s' xs' kvs' cs'. step hasher j s = Inr s' \<and>
    system_ok hasher calls (sees hasher calls s j seen) s' us xs' kvs' cs' \<and>
    later_view (view_of hasher (sys_table s) us kvs cs) (view_of hasher (sys_table s') us kvs' cs') \<and>
    map_of kvs' = (map_of kvs)(key \<mapsto> val)"
proof -
  let ?t = "sys_table s" and ?n = "length kvs" and ?kvs = "kvs @ [(key, val)]"
  let ?slot = "slot_of hasher ?t key"
  let ?cs = "cs[?slot := ?n # cs ! ?slot]"
  note D = system_okD [OF ok j] and o = owned_block [OF ok j, of p]
  have own: "calls ! j = Put_call key val" "key \<notin> fst ` set kvs" "pair_at (memory ?t) us p (key, val)"
    using own_ok [OF ok j] pc by simp_all
  then obtain x where x: "x \<in> set us" "pointer_of x = p" "holds (memory ?t) x (key, val)" by (auto simp: pair_at_def)
  have o: "p \<notin> pointer_of ` set xs" "sys_refs s p = 0" using o pc by simp_all
  then have new: "x \<notin> set xs" using x(2) by blast
  have slot: "?slot < length cs" by (rule slot_bound [OF D(1)])
  let ?t1 = "?t\<lparr>m_bucket_storage := m_bucket_storage ?t @ [Bucket]\<rparr>"
  obtain t' where t': "KeyValuePair_set_pointer ?n p ?t1 = Inr t'" "memory t' = memory ?t" "m_hash_table t' = m_hash_table ?t"
    and rep: "table_rep (store_bucket ?n ?slot t') us (xs @ [x]) ?kvs ?cs"
    using set_pointer_new [OF D(1) x(1) new x(3) slot] x(2) by auto
  have bucket: "bucket_at ?t1 ?n = Inr Bucket"
    using table_rep_lengths(2) [OF D(1)] by (simp add: bucket_at_def nth_append)
  have t1: "t' = ?t1\<lparr>m_bucket_storage := (m_bucket_storage ?t1)[?n := Bucket\<lparr>m_key_value_data := Some p\<rparr>]\<rparr>"
    using t'(1) bucket by (simp add: KeyValuePair_set_pointer_def Bucket_def)
  let ?s = "s\<lparr>sys_table := store_bucket ?n ?slot t', sys_refs := (sys_refs s)(p := 1)\<rparr>"
  let ?s' = "?s\<lparr>sys_threads := (sys_threads ?s)[j := Unlock True]\<rparr>"
  have slots: "slot_of hasher t' k = slot_of hasher ?t k" "slot_of hasher (store_bucket ?n ?slot t') k = slot_of hasher ?t k" for k
    using t'(3) by (simp_all add: slot_of_def store_bucket_def)
  have "store_pointer ?n p (s\<lparr>sys_table := ?t1\<rparr>) = Inr (s\<lparr>sys_table := t', sys_refs := (sys_refs s)(p := 1)\<rparr>, None)"
    using bucket by (simp add: store_pointer_def t1) (simp add: Bucket_def)
  then have "advance hasher j (sys_threads s ! j) s = Inr (?s, Unlock True)"
    using table_rep_lengths(2) [OF D(1)] slots(1) by (simp add: pc get_new_bucket_def)
  then have step: "step hasher j s = Inr ?s'" by (rule step_exec [OF ok j])
  have bound: "set (cs ! slot_of hasher ?t k) \<subseteq> {..< ?n}" for k by (rule slot_chain(3) [OF ok j])
  have chains: "dropWhile (\<lambda>l. l \<noteq> i) (?cs ! slot_of hasher ?t k) = dropWhile (\<lambda>l. l \<noteq> i) (cs ! slot_of hasher ?t k) \<and>
      i \<in> set (?cs ! slot_of hasher ?t k)" if "i \<in> set (cs ! slot_of hasher ?t k)" for i k
    using that bound [of k] slot by (cases "slot_of hasher ?t k = ?slot") auto
  have "i \<in> set (?cs ! slot_of hasher ?t (fst (?kvs ! i)))" if "i < length ?kvs" for i
  proof (cases "i = ?n")
    case True
    then show ?thesis using slot by simp
  next
    case False
    then show ?thesis using that D(3) chains by (simp add: nth_append)
  qed
  then have shared: "shared_ok hasher (sys_table ?s') us (xs @ [x]) ?kvs ?cs"
    using rep D(2) own(2) slots(2) by (auto simp: shared_ok_def)
  have mem: "memory (store_bucket ?n ?slot t') = memory ?t" using t'(2) by (simp add: store_bucket_def)
  have later: "later_view (view_of hasher (sys_table s) us kvs cs) (view_of hasher (sys_table ?s') us ?kvs ?cs)"
    using chains bound slots(2) by (simp add: later_view_def nth_append)
  have "system_ok hasher calls (sees hasher calls s j seen) ?s' us (xs @ [x]) ?kvs ?cs"
  proof (rule system_ok_step [OF ok j _ shared _ _ _ _ later, where pc = "Unlock True"])
    have ptrs: "pointer_of ` set (xs @ [x]) = insert p (pointer_of ` set xs)" using x(2) by auto
    show "counts_ok (sys_refs ?s') ((sys_threads s)[j := Unlock True]) us (xs @ [x])"
    proof (rule counts_step [OF D(6,7)])
      show "sys_refs ?s' r + count_list (refs_of (sys_threads s ! j)) r + of_bool (r \<in> pointer_of ` set xs) =
          sys_refs s r + count_list (refs_of (Unlock True)) r + of_bool (r \<in> pointer_of ` set (xs @ [x]))" for r
        unfolding ptrs using o by (cases "r = p") (auto simp: pc)
      show "count_list (owned (Unlock True)) r + of_bool (0 < sys_refs ?s' r) + of_bool (r \<in> pointer_of ` set us) =
          (count_list (owned (sys_threads s ! j)) r + of_bool (0 < sys_refs s r) + of_bool (r \<in> pointer_of ` set us) :: nat)" for r
        using o by (cases "r = p") (auto simp: pc)
    qed
  qed (use own(1) pc D(10) mem in \<open>auto simp: sees_def\<close>)
  moreover have "map_of ?kvs = (map_of kvs)(key \<mapsto> val)"
    using update_new [OF own(2), of val] by (metis AList.update_conv')
  ultimately show ?thesis using step later by blast
qed

section \<open>Any step\<close>

text \<open>The allocator can serve the request, if the step makes one.\<close>

definition step_admits :: "nat \<Rightarrow> system \<Rightarrow> bool" where
  "step_admits j s \<longleftrightarrow> (j < length (sys_threads s) \<longrightarrow>
    (case sys_threads s ! j of
       Allocating key val \<Rightarrow> clean_for (memory (sys_table s)) (length key + length val + 2)
     | _ \<Rightarrow> True))"

text \<open>What the step of a thread does to the pairs: only \<open>Publish\<close> changes them.\<close>

fun effect :: "pc \<Rightarrow> (str \<rightharpoonup> str) \<Rightarrow> str \<rightharpoonup> str" where
  "effect (Publish key val p r) M = M(key \<mapsto> val)"
| "effect _ M = M"

lemma store_bucket_slots [simp]: "length (m_hash_table (store_bucket i n t)) = length (m_hash_table t)"
  by (simp add: store_bucket_def)

lemma pointer_slots:
  "load_pointer i s = Inr (s', p) \<Longrightarrow> length (m_hash_table (sys_table s')) = length (m_hash_table (sys_table s))"
  "store_pointer i p s = Inr (s', old) \<Longrightarrow> length (m_hash_table (sys_table s')) = length (m_hash_table (sys_table s))"
  "on_memory f s = Inr s' \<Longrightarrow> length (m_hash_table (sys_table s')) = length (m_hash_table (sys_table s))"
  by (auto simp: load_pointer_def store_pointer_def on_memory_def and_then_Inr_iff split: option.splits)

lemma advance_slots:
  assumes "advance hasher j pc s = Inr (s', pc')"
  shows "length (m_hash_table (sys_table s')) = length (m_hash_table (sys_table s))"
proof (cases pc)
  case (Publish key val p r)
  then show ?thesis
    using assms by (cases r) (auto simp: and_then_Inr_iff Let_def get_new_bucket_def dest!: pointer_slots)
next
  case (Release p nxt)
  then show ?thesis using assms by (auto simp: drop_reference_def Let_def)
qed (use assms in \<open>auto simp: and_then_Inr_iff dest!: pointer_slots split: if_splits\<close>)

lemma step_slots: "step hasher j s = Inr s' \<Longrightarrow> length (m_hash_table (sys_table s')) = length (m_hash_table (sys_table s))"
  by (auto simp: step_def and_then_Inr_iff dest: advance_slots split: if_splits)

text \<open>A step that publishes nothing keeps the pairs and the chains.\<close>

lemma other_step:
  assumes ok: "system_ok hasher calls seen s us xs kvs cs" and j: "j < length calls" and admits: "step_admits j s"
    and pc: "\<And>key val p r. sys_threads s ! j \<noteq> Publish key val p r"
  shows "\<exists>s' us'. step hasher j s = Inr s' \<and> system_ok hasher calls (sees hasher calls s j seen) s' us' xs kvs cs"
proof (cases "sys_threads s ! j")
  case (Allocating key val)
  then have "clean_for (memory (sys_table s)) (length key + length val + 2)"
    using admits system_okD(7) [OF ok j] by (simp add: step_admits_def)
  from allocate_step [OF ok j Allocating this] show ?thesis .
next
  case (Freeing p nxt)
  from free_step [OF ok j this] show ?thesis .
qed (use pc mutex_step [OF ok j] lookup_step [OF ok j] advance_step [OF ok j] call_step [OF ok j] visit_step [OF ok j] fetch_step [OF ok j]
    compare_step [OF ok j] copy_value_step [OF ok j] release_step [OF ok j] fill_step [OF ok j] in fastforce)+

lemma step_ok:
  assumes ok: "system_ok hasher calls seen s us xs kvs cs" and j: "j < length calls" and admits: "step_admits j s"
  shows "\<exists>s' us' xs' kvs' cs'. step hasher j s = Inr s' \<and>
    system_ok hasher calls (sees hasher calls s j seen) s' us' xs' kvs' cs' \<and>
    later_view (view_of hasher (sys_table s) us kvs cs) (view_of hasher (sys_table s') us' kvs' cs') \<and>
    map_of kvs' = effect (sys_threads s ! j) (map_of kvs)"
proof (cases "\<exists>key val p r. sys_threads s ! j = Publish key val p r")
  case True
  then obtain key val p r where pc: "sys_threads s ! j = Publish key val p r" by blast
  show ?thesis
  proof (cases r)
    case None
    from publish_new_step [OF ok j pc [unfolded None]] pc show ?thesis by (simp only: effect.simps) blast
  next
    case (Some i)
    from publish_old_step [OF ok j pc [unfolded Some]] pc show ?thesis by (simp only: effect.simps) blast
  qed
next
  case False
  then obtain s' us' where s': "step hasher j s = Inr s'"
    "system_ok hasher calls (sees hasher calls s j seen) s' us' xs kvs cs"
    using other_step [OF ok j admits] by blast
  have "shared_ok hasher (sys_table s) us xs kvs cs" using ok by (simp add: system_ok_def)
  from later_refl [OF step_slots [OF s'(1)] this] s' False show ?thesis
    by (cases "sys_threads s ! j") (simp only: effect.simps, blast)+
qed

end
