(* ===== verification/Concurrent_Runs.thy ===== *)
theory Concurrent_Runs
  imports Concurrent_Writes
begin

text \<open>
  Runs of a table that many threads use, from the calls they make. The history of a run lists the
  updates in the order of the steps that publish them.
\<close>

section \<open>Calls, histories and results\<close>

fun call_ok :: "pc \<Rightarrow> bool" where
  "call_ok (Get_call key) \<longleftrightarrow> True"
| "call_ok (Put_call key val) \<longleftrightarrow> storable_pair key val"
| "call_ok _ \<longleftrightarrow> False"

text \<open>Every allocation of the run is one the allocator can serve.\<close>

fun run_admits :: "(str \<Rightarrow> u64) \<Rightarrow> nat list \<Rightarrow> system \<Rightarrow> bool" where
  "run_admits hasher [] s \<longleftrightarrow> True"
| "run_admits hasher (j # sched) s \<longleftrightarrow> step_admits j s \<and>
    (case step hasher j s of Inl e \<Rightarrow> True | Inr s' \<Rightarrow> run_admits hasher sched s')"

fun published :: "pc \<Rightarrow> (str \<times> str) option" where
  "published (Publish key val p r) = Some (key, val)"
| "published _ = None"

definition update_of :: "nat \<Rightarrow> system \<Rightarrow> (nat \<times> str \<times> str) list" where
  "update_of j s =
    (if j < length (sys_threads s) then (case published (sys_threads s ! j) of None \<Rightarrow> [] | Some kv \<Rightarrow> [(j, kv)])
     else [])"

fun history :: "(str \<Rightarrow> u64) \<Rightarrow> nat list \<Rightarrow> system \<Rightarrow> (nat \<times> str \<times> str) list" where
  "history hasher [] s = []"
| "history hasher (j # sched) s =
    (case step hasher j s of Inl e \<Rightarrow> [] | Inr s' \<Rightarrow> update_of j s @ history hasher sched s')"

text \<open>The pairs after the updates of a history, and what \<open>get\<close> returns then.\<close>

definition apply_updates :: "(nat \<times> str \<times> str) list \<Rightarrow> (str \<rightharpoonup> str) \<Rightarrow> str \<rightharpoonup> str" where
  "apply_updates h M = fold (\<lambda>(j, key, val) M. M(key \<mapsto> val)) h M"

definition value_of :: "(str \<rightharpoonup> str) \<Rightarrow> str \<Rightarrow> str" where
  "value_of M key = (case M key of None \<Rightarrow> [] | Some v \<Rightarrow> v)"

lemma apply_updates_simps [simp]:
  "apply_updates [] M = M" "apply_updates (g @ h) M = apply_updates h (apply_updates g M)"
  by (simp_all add: apply_updates_def)

lemma effect_updates: "j < length (sys_threads s) \<Longrightarrow> effect (sys_threads s ! j) M = apply_updates (update_of j s) M"
  by (cases "sys_threads s ! j") (simp_all add: update_of_def apply_updates_def)

section \<open>The start\<close>

lemma tally_calls:
  assumes "\<forall>c \<in> set calls. call_ok c"
  shows "tally refs_of calls p = 0" "tally owned calls p = 0"
proof -
  have "refs_of c = [] \<and> owned c = []" if "call_ok c" for c using that by (cases c) auto
  then have "\<forall>c \<in> set calls. count_list (refs_of c) p = 0" "\<forall>c \<in> set calls. count_list (owned c) p = 0"
    using assms by auto
  then show "tally refs_of calls p = 0" "tally owned calls p = 0" by (simp_all add: tally_def)
qed

lemma start_ok:
  assumes at: "table_at hasher t kvs" and calls: "\<forall>c \<in> set calls. call_ok c"
  shows "\<exists>us xs cs. system_ok hasher calls (\<lambda>j v. False) (start t calls) us xs kvs cs"
proof -
  obtain us xs cs where rep: "table_rep t us xs kvs cs" and all: "set xs = set us" and dist: "distinct (map fst kvs)"
    and slots: "\<forall>i < length kvs. i \<in> set (cs ! slot_of hasher t (fst (kvs ! i)))"
    using at unfolding table_at_def by blast
  have "Some p \<in> m_key_value_data ` set (m_bucket_storage t) \<longleftrightarrow> p \<in> pointer_of ` set xs" for p
  proof -
    have "set (map m_key_value_data (m_bucket_storage t)) = set (map (\<lambda>x. Some (pointer_of x)) xs)"
      using rep by (simp only: table_rep_def)
    then have "m_key_value_data ` set (m_bucket_storage t) = Some ` pointer_of ` set xs"
      by (simp only: set_map image_image)
    then show ?thesis by auto
  qed
  then have counts: "counts_ok (sys_refs (start t calls)) calls us xs"
    using tally_calls [OF calls] all by (simp add: counts_ok_def start_def)
  have threads: "\<not> writing (calls ! j) \<and> thread_ok V (calls ! j) (\<lambda>v. False) (calls ! j)" if "j < length calls" for j V
  proof -
    have "call_ok (calls ! j)" using calls that by simp
    then show ?thesis by (cases "calls ! j") simp_all
  qed
  have "system_ok hasher calls (\<lambda>j v. False) (start t calls) us xs kvs cs"
    using rep dist slots counts threads by (simp add: system_ok_def shared_ok_def start_def)
  then show ?thesis by blast
qed

section \<open>Runs\<close>

text \<open>Each thread publishes once at most, and only a \<open>put\<close> that returns true has published.\<close>

fun committed :: "pc \<Rightarrow> bool" where
  "committed (Unlock b) \<longleftrightarrow> b"
| "committed (Return x) \<longleftrightarrow> x = Stored True"
| "committed (Release p next) \<longleftrightarrow> committed next"
| "committed (Free p next) \<longleftrightarrow> committed next"
| "committed (Freeing p next) \<longleftrightarrow> committed next"
| "committed _ \<longleftrightarrow> False"

lemma committed_found [simp]: "\<not> committed (found task key r)" "\<not> committed (visit task key r)"
  by (cases task; cases r; simp)+

lemma advance_committed:
  assumes "advance hasher j pc s = Inr (s', pc')"
  shows "committed pc' \<longleftrightarrow> committed pc \<or> published pc \<noteq> None"
  using assms
proof (cases pc)
  case (Publish key val p r)
  then show ?thesis using assms by (cases r) (auto simp: and_then_Inr_iff Let_def split: option.splits prod.splits)
qed (auto simp: and_then_Inr_iff Let_def split: option.splits prod.splits if_splits)

text \<open>
  A run that the allocator admits does not fault and keeps the invariant. What a thread has seen is a
  value at one of its own steps, and the pairs are those after the updates of the history.
\<close>

lemma run_ok:
  assumes "system_ok hasher calls seen s us xs kvs cs" and "run_admits hasher sched s"
  shows "\<exists>s' seen' us' xs' kvs' cs'. run hasher sched s = Inr s' \<and> system_ok hasher calls seen' s' us' xs' kvs' cs' \<and>
    map_of kvs' = apply_updates (history hasher sched s) (map_of kvs) \<and>
    (\<forall>j v. seen' j v \<longrightarrow> seen j v \<or> (\<exists>ps qs key. sched = ps @ j # qs \<and> calls ! j = Get_call key \<and>
      v = value_of (apply_updates (history hasher ps s) (map_of kvs)) key))"
  using assms
proof (induction sched arbitrary: seen s us xs kvs cs)
  case Nil
  then show ?case by (intro exI conjI) (auto simp: run_def)
next
  case (Cons j0 sched)
  have len: "length (sys_threads s) = length calls" using Cons.prems(1) by (simp add: system_ok_def)
  show ?case
  proof (cases "j0 < length calls")
    case False
    then have step: "step hasher j0 s = Inr s" "update_of j0 s = []" using len by (simp_all add: step_def update_of_def)
    then have "run_admits hasher sched s" using Cons.prems(2) by simp
    from Cons.IH [OF Cons.prems(1) this] obtain s' seen' us' xs' kvs' cs' where
      IH: "run hasher sched s = Inr s'" "system_ok hasher calls seen' s' us' xs' kvs' cs'"
        "map_of kvs' = apply_updates (history hasher sched s) (map_of kvs)"
        "\<And>j v. seen' j v \<Longrightarrow> seen j v \<or> (\<exists>ps qs key. sched = ps @ j # qs \<and> calls ! j = Get_call key \<and>
          v = value_of (apply_updates (history hasher ps s) (map_of kvs)) key)" by blast
    have "seen j v \<or> (\<exists>ps qs key. j0 # sched = ps @ j # qs \<and> calls ! j = Get_call key \<and>
        v = value_of (apply_updates (history hasher ps s) (map_of kvs)) key)" if "seen' j v" for j v
      using IH(4) [OF that]
    proof
      assume "\<exists>ps qs key. sched = ps @ j # qs \<and> calls ! j = Get_call key \<and>
        v = value_of (apply_updates (history hasher ps s) (map_of kvs)) key"
      then obtain ps qs key where "sched = ps @ j # qs" "calls ! j = Get_call key"
        "v = value_of (apply_updates (history hasher ps s) (map_of kvs)) key" by blast
      then show ?thesis using step by (intro disjI2 exI [of _ "j0 # ps"] exI [of _ qs] exI [of _ key]) simp
    qed simp
    moreover have "run hasher (j0 # sched) s = Inr s'" using step(1) IH(1) by (simp add: run_def)
    moreover have "map_of kvs' = apply_updates (history hasher (j0 # sched) s) (map_of kvs)" using IH(3) step by simp
    ultimately show ?thesis using IH(2) by blast
  next
    case True
    have admits: "step_admits j0 s" using Cons.prems(2) by simp
    from step_ok [OF Cons.prems(1) True admits] obtain s1 us1 xs1 kvs1 cs1 where
      s1: "step hasher j0 s = Inr s1" "system_ok hasher calls (sees hasher calls s j0 seen) s1 us1 xs1 kvs1 cs1"
        "map_of kvs1 = apply_updates (update_of j0 s) (map_of kvs)"
      using effect_updates [of j0 s] True len by auto
    then have "run_admits hasher sched s1" using Cons.prems(2) by simp
    from Cons.IH [OF s1(2) this] obtain s' seen' us' xs' kvs' cs' where
      IH: "run hasher sched s1 = Inr s'" "system_ok hasher calls seen' s' us' xs' kvs' cs'"
        "map_of kvs' = apply_updates (history hasher sched s1) (map_of kvs1)"
        "\<And>l v. seen' l v \<Longrightarrow> sees hasher calls s j0 seen l v \<or> (\<exists>ps qs key. sched = ps @ l # qs \<and> calls ! l = Get_call key \<and>
          v = value_of (apply_updates (history hasher ps s1) (map_of kvs1)) key)" by blast
    have hist: "apply_updates (history hasher (j0 # ps) s) (map_of kvs) = apply_updates (history hasher ps s1) (map_of kvs1)" for ps
      using s1(1,3) by simp
    have "seen l v \<or> (\<exists>ps qs key. j0 # sched = ps @ l # qs \<and> calls ! l = Get_call key \<and>
        v = value_of (apply_updates (history hasher ps s) (map_of kvs)) key)" if "seen' l v" for l v
      using IH(4) [OF that]
    proof
      assume "sees hasher calls s j0 seen l v"
      then consider "seen l v" | key where "l = j0" "calls ! j0 = Get_call key" "get hasher key (sys_table s) = Inr v"
        by (auto simp: sees_def)
      then show ?thesis
      proof cases
        case 2
        have "get hasher key (sys_table s) = Inr (value_of (map_of kvs) key)"
          using get_shared [of hasher "sys_table s" us xs kvs cs key] Cons.prems(1)
          by (simp add: system_ok_def value_of_def)
        then show ?thesis using 2 by (intro disjI2 exI [of _ "[]"] exI [of _ sched] exI [of _ key]) simp
      qed simp
    next
      assume "\<exists>ps qs key. sched = ps @ l # qs \<and> calls ! l = Get_call key \<and>
          v = value_of (apply_updates (history hasher ps s1) (map_of kvs1)) key"
      then obtain ps qs key where "sched = ps @ l # qs" "calls ! l = Get_call key"
        "v = value_of (apply_updates (history hasher ps s1) (map_of kvs1)) key" by blast
      then show ?thesis using hist by (intro disjI2 exI [of _ "j0 # ps"] exI [of _ qs] exI [of _ key]) simp
    qed
    moreover have "run hasher (j0 # sched) s = Inr s'" using s1(1) IH(1) by (simp add: run_def)
    moreover have "map_of kvs' = apply_updates (history hasher (j0 # sched) s) (map_of kvs)"
      using IH(3) hist by simp
    ultimately show ?thesis using IH(2) by blast
  qed
qed

lemma pointer_threads:
  "load_pointer i s = Inr (s', p) \<Longrightarrow> sys_threads s' = sys_threads s"
  "store_pointer i p s = Inr (s', old) \<Longrightarrow> sys_threads s' = sys_threads s"
  "on_memory f s = Inr s' \<Longrightarrow> sys_threads s' = sys_threads s"
  by (auto simp: load_pointer_def store_pointer_def on_memory_def and_then_Inr_iff split: option.splits)

lemma advance_threads:
  assumes "advance hasher j pc s = Inr (s', pc')"
  shows "sys_threads s' = sys_threads s"
proof (cases pc)
  case (Publish key val p r)
  then show ?thesis
    using assms by (cases r) (auto simp: and_then_Inr_iff Let_def get_new_bucket_def dest!: pointer_threads)
next
  case (Release p nxt)
  then show ?thesis using assms by (auto simp: drop_reference_def Let_def)
qed (use assms in \<open>auto simp: and_then_Inr_iff dest!: pointer_threads split: if_splits\<close>)

lemma update_of_self:
  assumes "(l, kv) \<in> set (update_of j s)"
  shows "l = j \<and> j < length (sys_threads s) \<and> published (sys_threads s ! j) = Some kv"
proof (cases "j < length (sys_threads s)")
  case True
  then show ?thesis using assms by (cases "published (sys_threads s ! j)") (simp_all add: update_of_def)
next
  case False
  then show ?thesis using assms by (simp add: update_of_def)
qed

lemma distinct_update: "distinct (map fst (update_of j s))"
  by (simp add: update_of_def split: option.splits)

lemma step_committed:
  assumes step: "step hasher j s = Inr s'" and l: "l < length (sys_threads s)"
  shows "committed (sys_threads s' ! l) \<longleftrightarrow> committed (sys_threads s ! l) \<or> l \<in> fst ` set (update_of j s)"
proof (cases "j < length (sys_threads s)")
  case True
  obtain s1 pc where s1: "advance hasher j (sys_threads s ! j) s = Inr (s1, pc)"
    and s': "s' = s1\<lparr>sys_threads := (sys_threads s1)[j := pc]\<rparr>"
    using step True by (auto simp: step_def and_then_Inr_iff)
  have threads: "sys_threads s' = (sys_threads s)[j := pc]" using advance_threads [OF s1] s' by simp
  show ?thesis
  proof (cases "l = j")
    case True
    have "committed (sys_threads s' ! j) \<longleftrightarrow> committed pc" using threads \<open>j < _\<close> by simp
    then show ?thesis
      using True advance_committed [OF s1] \<open>j < _\<close>
      by (cases "published (sys_threads s ! j)") (simp_all add: update_of_def)
  next
    case False
    then show ?thesis using threads update_of_self by fastforce
  qed
next
  case False
  then show ?thesis using step by (simp add: step_def update_of_def)
qed

lemma step_length: "step hasher j s = Inr s' \<Longrightarrow> length (sys_threads s') = length (sys_threads s)"
  by (auto simp: step_def and_then_Inr_iff dest: advance_threads split: if_splits)

lemma published_not_committed: "published pc = Some kv \<Longrightarrow> \<not> committed pc"
  by (cases pc) auto

lemma history_committed:
  assumes "run hasher sched s = Inr s'"
  shows "(\<forall>l < length (sys_threads s). committed (sys_threads s' ! l) \<longleftrightarrow>
      committed (sys_threads s ! l) \<or> l \<in> fst ` set (history hasher sched s)) \<and>
    distinct (map fst (history hasher sched s)) \<and>
    (\<forall>l \<in> fst ` set (history hasher sched s). l < length (sys_threads s) \<and> \<not> committed (sys_threads s ! l))"
  using assms
proof (induction sched arbitrary: s)
  case Nil
  then show ?case by (simp add: run_def)
next
  case (Cons j sched)
  obtain s1 where s1: "step hasher j s = Inr s1" and run: "run hasher sched s1 = Inr s'"
    using Cons.prems by (auto simp: run_def and_then_Inr_iff)
  let ?u = "update_of j s" and ?h = "history hasher sched s1"
  have h: "history hasher (j # sched) s = ?u @ ?h" using s1 by simp
  note IH = Cons.IH [OF run, unfolded step_length [OF s1]] and com = step_committed [OF s1]
  have u: "l < length (sys_threads s)" "\<not> committed (sys_threads s ! l)" if "l \<in> fst ` set ?u" for l
    using that update_of_self published_not_committed by fastforce+
  then have "l \<notin> fst ` set ?u" if "l \<in> fst ` set ?h" for l using IH com that by blast
  then have "distinct (map fst (?u @ ?h))" using IH distinct_update by (auto simp: image_iff)
  moreover have "l < length (sys_threads s) \<and> \<not> committed (sys_threads s ! l)" if "l \<in> fst ` set (?u @ ?h)" for l
    using that u IH com by (metis (no_types, lifting) UnE image_Un set_append)
  ultimately show ?case unfolding h using IH com by (simp add: image_Un)
qed

lemma history_calls:
  assumes "system_ok hasher calls seen s us xs kvs cs" and "run_admits hasher sched s"
    and "(l, key, val) \<in> set (history hasher sched s)"
  shows "calls ! l = Put_call key val"
  using assms
proof (induction sched arbitrary: seen s us xs kvs cs)
  case Nil
  then show ?case by simp
next
  case (Cons j sched)
  have len: "length (sys_threads s) = length calls" using Cons.prems(1) by (simp add: system_ok_def)
  obtain s1 where s1: "step hasher j s = Inr s1" using Cons.prems(3) by (cases "step hasher j s") auto
  then have "(l, key, val) \<in> set (update_of j s) \<or> (l, key, val) \<in> set (history hasher sched s1)"
    using Cons.prems(3) by simp
  then show ?case
  proof
    assume "(l, key, val) \<in> set (update_of j s)"
    from update_of_self [OF this] have j: "l = j" "j < length calls"
      and "published (sys_threads s ! j) = Some (key, val)" using len by simp_all
    then obtain p r where "sys_threads s ! j = Publish key val p r" by (cases "sys_threads s ! j") auto
    then show ?thesis using system_okD(9) [OF Cons.prems(1) j(2)] j(1) by simp
  next
    assume h: "(l, key, val) \<in> set (history hasher sched s1)"
    have "\<exists>seen us xs kvs cs. system_ok hasher calls seen s1 us xs kvs cs"
    proof (cases "j < length calls")
      case True
      then show ?thesis using step_ok [OF Cons.prems(1) True] Cons.prems(2) s1 by fastforce
    next
      case False
      then have "s1 = s" using s1 len by (simp add: step_def)
      then show ?thesis using Cons.prems(1) by blast
    qed
    then show ?thesis using Cons.IH [OF _ _ h] Cons.prems(2) s1 by auto
  qed
qed

section \<open>Quiet tables\<close>

text \<open>When all threads have returned, every used block belongs to a bucket again.\<close>

lemma quiet_table:
  assumes ok: "system_ok hasher calls seen s us xs kvs cs" and returned: "\<forall>pc \<in> set (sys_threads s). \<exists>x. pc = Return x"
  shows "table_at hasher (sys_table s) kvs" "sys_lock s = None"
proof -
  have shared: "shared_ok hasher (sys_table s) us xs kvs cs" and counts: "counts_ok (sys_refs s) (sys_threads s) us xs"
    and locks: "\<And>j. j < length calls \<Longrightarrow> writing (sys_threads s ! j) \<longleftrightarrow> sys_lock s = Some j"
      "\<And>j. sys_lock s = Some j \<Longrightarrow> j < length calls"
    and len: "length (sys_threads s) = length calls"
    using ok by (auto simp: system_ok_def)
  have "count_list (refs_of pc) p = 0 \<and> count_list (owned pc) p = 0 \<and> \<not> writing pc" if "pc \<in> set (sys_threads s)" for pc p
    using returned that by fastforce
  then have tallies: "tally refs_of (sys_threads s) p = 0" "tally owned (sys_threads s) p = 0" for p
    by (simp_all add: tally_def)
  have "p \<in> pointer_of ` set us \<longleftrightarrow> p \<in> pointer_of ` set xs" for p
  proof -
    have "sys_refs s p = of_bool (p \<in> pointer_of ` set xs)"
      using counts_okD(1) [OF counts, of p] by (simp only: tallies add_0_right)
    then have "0 < sys_refs s p \<longleftrightarrow> p \<in> pointer_of ` set xs" by (simp only: zero_less_of_bool_iff)
    moreover have "of_bool (0 < sys_refs s p) = (of_bool (p \<in> pointer_of ` set us) :: nat)"
      using counts_okD(2) [OF counts, of p] by (simp only: tallies add_0_left)
    ultimately show ?thesis by (simp only: of_bool_eq_iff)
  qed
  then have ptrs: "pointer_of ` set us = pointer_of ` set xs" by blast
  have heap: "used_heap (memory (sys_table s)) us" and sub: "set xs \<subseteq> set us"
    using shared by (simp_all add: shared_ok_def table_rep_def)
  have "x \<in> set xs" if x: "x \<in> set us" for x
  proof -
    have "pointer_of x \<in> pointer_of ` set xs" using ptrs x by blast
    then obtain y where "y \<in> set xs" "pointer_of x = pointer_of y" by blast
    then show ?thesis using pointer_inj [OF heap x] sub by blast
  qed
  then have "set xs = set us" using sub by blast
  then show "table_at hasher (sys_table s) kvs" using shared by (auto simp: shared_ok_def intro: table_atI)
  have "sys_lock s \<noteq> Some j" for j
  proof
    assume "sys_lock s = Some j"
    then have "j < length calls" "writing (sys_threads s ! j)" using locks by auto
    then show False using returned len nth_mem [of j "sys_threads s"] by fastforce
  qed
  then show "sys_lock s = None" by (cases "sys_lock s") auto
qed

end
