(* ===== verification/Concurrent_Progress.thy ===== *)
theory Concurrent_Progress
  imports Concurrent_Runs
begin

text \<open>
  Calls end. A call of \<open>get\<close> needs a number of its own steps that does not depend on what the other
  threads do, but for waiting for the mutex of the buffer when it has to free a block: once it has loaded
  the head of a slot, the chain behind it does not change any more.
\<close>

text \<open>A bound for the steps that are left, with at most \<open>K\<close> buckets in the table.\<close>

definition rest_of :: "view \<Rightarrow> str \<Rightarrow> nat \<Rightarrow> nat" where
  "rest_of V key i = length (dropWhile (\<lambda>l. l \<noteq> i) (v_chain V key))"

fun steps_left :: "nat \<Rightarrow> view \<Rightarrow> pc \<Rightarrow> nat" where
  "steps_left K V (Get_call key) = 6 * K + 8"
| "steps_left K V (Put_call key val) = 6 * K + 10"
| "steps_left K V (Allocate key val) = 6 * K + 9"
| "steps_left K V (Allocating key val) = 6 * K + 8"
| "steps_left K V (Lookup task key) = 6 * K + 7"
| "steps_left K V (Visit task key i) = 6 * rest_of V key i + 6"
| "steps_left K V (Compare task key i p) = 6 * rest_of V key i + 5"
| "steps_left K V (Advance task key i) = 6 * rest_of V key i + 1"
| "steps_left K V (Fetch key i) = 5"
| "steps_left K V (Copy_value p) = 4"
| "steps_left K V (Fill key val p r) = 6"
| "steps_left K V (Publish key val p r) = 5"
| "steps_left K V (Release p next) = steps_left K V next + 3"
| "steps_left K V (Free p next) = steps_left K V next + 2"
| "steps_left K V (Freeing p next) = steps_left K V next + 1"
| "steps_left K V (Unlock b) = 1"
| "steps_left K V (Return x) = 0"

text \<open>A thread that has returned or waits for a mutex stays where it is.\<close>

fun idle :: "pc \<Rightarrow> system \<Rightarrow> bool" where
  "idle (Return x) s \<longleftrightarrow> True"
| "idle (Put_call key val) s \<longleftrightarrow> sys_lock s \<noteq> None"
| "idle (Allocate key val) s \<longleftrightarrow> sys_mutex s \<noteq> None"
| "idle (Free p next) s \<longleftrightarrow> sys_mutex s \<noteq> None"
| "idle _ s \<longleftrightarrow> False"

text \<open>The bucket a thread is at is in the chain of its key.\<close>

fun placed :: "view \<Rightarrow> pc \<Rightarrow> bool" where
  "placed V (Visit task key i) \<longleftrightarrow> i \<in> set (v_chain V key)"
| "placed V (Compare task key i p) \<longleftrightarrow> i \<in> set (v_chain V key)"
| "placed V (Advance task key i) \<longleftrightarrow> i \<in> set (v_chain V key)"
| "placed V (Release p next) \<longleftrightarrow> placed V next"
| "placed V (Free p next) \<longleftrightarrow> placed V next"
| "placed V (Freeing p next) \<longleftrightarrow> placed V next"
| "placed V _ \<longleftrightarrow> True"

lemma thread_placed: "thread_ok V call seen pc \<Longrightarrow> placed V pc"
  by (induction pc) (auto simp: search_ok_def)

lemma later_chain:
  assumes "later_view V W" and "i \<in> set (v_chain V key)"
  shows "i \<in> set (v_chain W key)" "rest_of W key i = rest_of V key i"
proof -
  have "i \<in> set (v_chain W key) \<and> dropWhile (\<lambda>l. l \<noteq> i) (v_chain W key) = dropWhile (\<lambda>l. l \<noteq> i) (v_chain V key)"
    using assms unfolding later_view_def by blast
  then show "i \<in> set (v_chain W key)" "rest_of W key i = rest_of V key i" by (simp_all only: rest_of_def)
qed

lemma left_later:
  assumes "later_view V W" and "placed V pc"
  shows "placed W pc" "steps_left K W pc = steps_left K V pc"
proof -
  have "placed W pc \<and> steps_left K W pc = steps_left K V pc"
    using assms(2) by (induction pc) (simp_all only: placed.simps steps_left.simps later_chain [OF assms(1)] simp_thms)
  then show "placed W pc" "steps_left K W pc = steps_left K V pc" by blast+
qed

lemma rest_pos: "i \<in> set (v_chain V key) \<Longrightarrow> 0 < rest_of V key i"
  by (auto simp: rest_of_def)

lemma found_left: "placed V (found task key r) \<and> steps_left K V (found task key r) \<le> 6"
  by (cases task; cases r; simp)

lemma visit_left:
  assumes "chain bs p ys"
    and "\<And>n zs. ys = n # zs \<Longrightarrow> dropWhile (\<lambda>l. l \<noteq> n) (v_chain V key) = ys \<and> n \<in> set (v_chain V key)"
  shows "placed V (visit task key p)" "steps_left K V (visit task key p) \<le> 6 * length ys + 6"
proof -
  have "placed V (visit task key p) \<and> steps_left K V (visit task key p) \<le> 6 * length ys + 6"
  proof (cases p)
    case None
    then show ?thesis using found_left [where V = V and K = K and task = task and key = key and r = None] by simp
  next
    case (Some n)
    then obtain zs where "ys = n # zs" using assms(1) by (cases ys) auto
    with assms(2) [OF this] Some show ?thesis by (simp add: rest_of_def)
  qed
  then show "placed V (visit task key p)" "steps_left K V (visit task key p) \<le> 6 * length ys + 6" by simp_all
qed

lemma advance_left:
  assumes ok: "system_ok hasher calls seen s us xs kvs cs" and j: "j < length calls" and K: "length kvs \<le> K"
    and exec: "advance hasher j (sys_threads s ! j) s = Inr (s', pc')"
    and busy: "\<not> idle (sys_threads s ! j) s"
  defines "V \<equiv> view_of hasher (sys_table s) us kvs cs"
  shows "placed V pc' \<and> steps_left K V pc' < steps_left K V (sys_threads s ! j)"
proof -
  note placed = thread_placed [OF system_okD(9) [OF ok j], folded V_def]
  show ?thesis
  proof (cases "sys_threads s ! j")
    case (Lookup task key)
    let ?ch = "cs ! slot_of hasher (sys_table s) key"
    note chain = slot_chain [OF ok j, of key]
    have pc': "pc' = visit task key (m_hash_table (sys_table s) ! slot_of hasher (sys_table s) key)"
      using exec unfolding Lookup by auto
    have "length ?ch = card (set ?ch)" using chain(2) by (simp add: distinct_card)
    also have "\<dots> \<le> length kvs" using card_mono [OF _ chain(3)] by simp
    finally have less: "6 * length ?ch + 6 < 6 * K + 7" using K by simp
    have head: "dropWhile (\<lambda>l. l \<noteq> n) (v_chain V key) = ?ch \<and> n \<in> set (v_chain V key)" if "?ch = n # zs" for n zs
      using that by (simp add: V_def)
    note left = visit_left [OF chain(1) head]
    from left(1) le_less_trans [OF left(2) less] show ?thesis by (simp add: pc' Lookup)
  next
    case (Compare task key i p)
    have "0 < rest_of V key i" using placed Compare by (simp add: rest_pos)
    then show ?thesis
      using exec Compare placed found_left [where V = V and K = K and task = task and key = key and r = "Some i"]
      by (auto simp: and_then_Inr_iff)
  next
    case (Advance task key i)
    let ?ch = "cs ! slot_of hasher (sys_table s) key"
    note chain = slot_chain [OF ok j, of key]
    have i: "i \<in> set ?ch" using placed Advance by (simp add: V_def)
    obtain ys where ys: "dropWhile (\<lambda>l. l \<noteq> i) ?ch = i # ys"
      "chain (m_bucket_storage (sys_table s)) (next_bucket (m_bucket_storage (sys_table s) ! i)) ys"
      "i < length (m_bucket_storage (sys_table s))"
      using chain_from [OF chain(1) i] by blast
    have pc': "pc' = visit task key (next_bucket (m_bucket_storage (sys_table s) ! i))"
      using exec unfolding Advance using ys(3) by (auto simp: bucket_at_def)
    have "rest_of V key i = Suc (length ys)" using ys(1) by (simp add: rest_of_def V_def)
    then have less: "6 * length ys + 6 < 6 * rest_of V key i + 1" by simp
    have head: "dropWhile (\<lambda>l. l \<noteq> n) (v_chain V key) = ys \<and> n \<in> set (v_chain V key)" if "ys = n # zs" for n zs
      using dropWhile_next [OF chain(2), of i n zs] ys(1) that by (simp add: V_def)
    note left = visit_left [OF ys(2) head]
    from left(1) le_less_trans [OF left(2) less] show ?thesis by (simp add: pc' Advance)
  next
    case (Publish key val p r)
    then show ?thesis using exec by (cases r) (auto simp: and_then_Inr_iff Let_def split: option.splits prod.splits)
  next
    case (Return x)
    then show ?thesis using busy by simp
  qed (use exec busy placed in \<open>auto simp: and_then_Inr_iff drop_reference_def Let_def split: if_splits option.splits\<close>)
qed

lemma advance_idle: "idle pc s \<Longrightarrow> advance hasher j pc s = Inr (s, pc)"
  by (cases pc) auto

section \<open>The mutex of the buffer\<close>

fun holding :: "pc \<Rightarrow> bool" where
  "holding (Allocating key val) \<longleftrightarrow> True"
| "holding (Freeing p next) \<longleftrightarrow> True"
| "holding _ \<longleftrightarrow> False"

text \<open>What follows a release does not have the mutex.\<close>

fun tidy :: "pc \<Rightarrow> bool" where
  "tidy (Release p next) \<longleftrightarrow> \<not> holding next \<and> tidy next"
| "tidy (Free p next) \<longleftrightarrow> \<not> holding next \<and> tidy next"
| "tidy (Freeing p next) \<longleftrightarrow> \<not> holding next \<and> tidy next"
| "tidy _ \<longleftrightarrow> True"

definition mutex_ok :: "system \<Rightarrow> bool" where
  "mutex_ok s \<longleftrightarrow> (\<forall>pc \<in> set (sys_threads s). tidy pc) \<and>
    (\<forall>j < length (sys_threads s). holding (sys_threads s ! j) \<longleftrightarrow> sys_mutex s = Some j) \<and>
    (\<forall>j. sys_mutex s = Some j \<longrightarrow> j < length (sys_threads s))"

lemma found_mutex [simp]:
  "\<not> holding (found task key r)" "tidy (found task key r)" "\<not> holding (visit task key r)" "tidy (visit task key r)"
  by (cases task; cases r; simp)+

lemma pointer_mutex:
  "load_pointer i s = Inr (s', p) \<Longrightarrow> sys_mutex s' = sys_mutex s"
  "store_pointer i p s = Inr (s', old) \<Longrightarrow> sys_mutex s' = sys_mutex s"
  "on_memory f s = Inr s' \<Longrightarrow> sys_mutex s' = sys_mutex s"
  by (auto simp: load_pointer_def store_pointer_def on_memory_def and_then_Inr_iff split: option.splits)

lemma advance_mutex:
  assumes exec: "advance hasher j pc s = Inr (s', pc')" and "tidy pc"
  shows "tidy pc'" "sys_mutex s' = (if holding pc then None else if holding pc' then Some j else sys_mutex s)"
    "holding pc' \<Longrightarrow> \<not> holding pc \<and> sys_mutex s = None"
proof -
  have "tidy pc' \<and> sys_mutex s' = (if holding pc then None else if holding pc' then Some j else sys_mutex s) \<and>
    (holding pc' \<longrightarrow> \<not> holding pc \<and> sys_mutex s = None)"
  proof (cases pc)
    case (Publish key val p r)
    then show ?thesis
      using exec by (cases r) (auto simp: and_then_Inr_iff Let_def get_new_bucket_def dest!: pointer_mutex split: option.splits)
  next
    case (Release p nxt)
    then show ?thesis using exec assms(2) by (auto simp: drop_reference_def Let_def split: if_splits)
  qed (use exec assms(2) in \<open>auto simp: and_then_Inr_iff dest!: pointer_mutex split: if_splits option.splits\<close>)
  then show "tidy pc'" "sys_mutex s' = (if holding pc then None else if holding pc' then Some j else sys_mutex s)"
    "holding pc' \<Longrightarrow> \<not> holding pc \<and> sys_mutex s = None" by blast+
qed

lemma step_mutex:
  assumes ok: "mutex_ok s" and step: "step hasher j s = Inr s'"
  shows "mutex_ok s'"
proof (cases "j < length (sys_threads s)")
  case True
  obtain s1 pc where s1: "advance hasher j (sys_threads s ! j) s = Inr (s1, pc)"
    and s': "s' = s1\<lparr>sys_threads := (sys_threads s1)[j := pc]\<rparr>"
    using step True by (auto simp: step_def and_then_Inr_iff)
  have threads: "sys_threads s' = (sys_threads s)[j := pc]" using advance_threads [OF s1] s' by simp
  have tidy: "\<forall>pc \<in> set (sys_threads s). tidy pc"
    and locks: "\<And>l. l < length (sys_threads s) \<Longrightarrow> holding (sys_threads s ! l) \<longleftrightarrow> sys_mutex s = Some l"
    and bound: "\<And>l. sys_mutex s = Some l \<Longrightarrow> l < length (sys_threads s)"
    using ok by (simp_all add: mutex_ok_def)
  note adv = advance_mutex [OF s1 tidy [rule_format, OF nth_mem [OF True]]]
  have mutex: "sys_mutex s' = sys_mutex s1" by (simp add: s')
  have "\<forall>pc \<in> set (sys_threads s'). tidy pc"
    using tidy adv(1) set_update_subset_insert [of "sys_threads s" j pc] threads by auto
  moreover have "holding (sys_threads s' ! l) \<longleftrightarrow> sys_mutex s' = Some l" if "l < length (sys_threads s)" for l
    using adv(2,3) locks [OF that] locks [OF True] that unfolding threads mutex by (cases "l = j") auto
  moreover have "l < length (sys_threads s)" if "sys_mutex s' = Some l" for l
    using adv(2) bound that True unfolding mutex by (auto split: if_splits)
  ultimately show ?thesis using threads by (simp add: mutex_ok_def)
next
  case False
  then show ?thesis using step ok by (simp add: step_def)
qed

lemma mutex_free:
  assumes "mutex_ok s" and "\<forall>pc \<in> set (sys_threads s). \<not> holding pc"
  shows "sys_mutex s = None"
proof (rule ccontr)
  assume "sys_mutex s \<noteq> None"
  then obtain j where "sys_mutex s = Some j" by blast
  then have "j < length (sys_threads s)" "holding (sys_threads s ! j)" using assms(1) by (auto simp: mutex_ok_def)
  then show False using assms(2) nth_mem by blast
qed

lemma start_mutex:
  assumes "\<forall>c \<in> set calls. call_ok c"
  shows "mutex_ok (start t calls)"
proof -
  have "tidy c \<and> \<not> holding c" if "call_ok c" for c using that by (cases c) auto
  then show ?thesis using assms by (simp add: mutex_ok_def start_def)
qed

section \<open>The number of buckets\<close>

lemma dom_updates: "finite (dom M) \<Longrightarrow> finite (dom (apply_updates h M)) \<and> card (dom (apply_updates h M)) \<le> card (dom M) + length h"
proof (induction h arbitrary: M)
  case Nil
  then show ?case by simp
next
  case (Cons u h)
  obtain j key val where u: "u = (j, key, val)" by (cases u)
  have step: "apply_updates (u # h) M = apply_updates h (M(key \<mapsto> val))" by (simp add: apply_updates_def u)
  have "card (dom (M(key \<mapsto> val))) \<le> Suc (card (dom M))" using Cons.prems by (simp add: card_insert_if)
  moreover have fin: "finite (dom (M(key \<mapsto> val)))" using Cons.prems by simp
  have "finite (dom (apply_updates h (M(key \<mapsto> val))))"
    "card (dom (apply_updates h (M(key \<mapsto> val)))) \<le> card (dom (M(key \<mapsto> val))) + length h"
    using Cons.IH [OF fin] by blast+
  ultimately show ?case unfolding step length_Cons by linarith
qed

lemma buckets_bound:
  assumes "distinct (map fst kvs)" and "map_of kvs = apply_updates h (map_of kvs0)"
    and "distinct (map fst h)" and "fst ` set h \<subseteq> {..< n}"
  shows "length kvs \<le> length kvs0 + n"
proof -
  have "length kvs = card (dom (map_of kvs))"
    using assms(1) distinct_card [of "map fst kvs"] by (simp add: dom_map_of_conv_image_fst)
  also have "\<dots> \<le> card (dom (map_of kvs0)) + length h"
    using dom_updates [OF finite_dom_map_of, of h kvs0] assms(2) by simp
  also have "card (dom (map_of kvs0)) \<le> length kvs0"
    by (metis card_length dom_map_of_conv_image_fst length_map list.set_map)
  also have "length h \<le> n"
    using distinct_card [OF assms(3)] card_mono [OF _ assms(4)] by simp
  finally show ?thesis by simp
qed

section \<open>Runs\<close>

lemma run_snoc [simp]: "run hasher (ps @ [j]) s = and_then (run hasher ps s) (step hasher j)"
  by (cases "run hasher ps s"; cases "and_then (run hasher ps s) (step hasher j)") (simp_all add: run_def fold_res_append)

lemma run_admits_snoc:
  "run_admits hasher (ps @ [j]) s \<longleftrightarrow> run_admits hasher ps s \<and> (case run hasher ps s of Inl e \<Rightarrow> True | Inr s' \<Rightarrow> step_admits j s')"
  by (induction ps arbitrary: s) (simp_all add: run_def split: sum.splits)

lemma run_admits_append: "run_admits hasher (ps @ qs) s \<Longrightarrow> run_admits hasher ps s"
  by (induction ps arbitrary: s) (auto split: sum.splits)

lemma history_snoc: "run hasher ps s = Inr s1 \<Longrightarrow> step hasher j s1 = Inr s2 \<Longrightarrow>
  history hasher (ps @ [j]) s = history hasher ps s @ update_of j s1"
  by (induction ps arbitrary: s) (auto simp: run_def and_then_Inr_iff)

lemma left_done: "steps_left K V pc = 0 \<Longrightarrow> \<exists>x. pc = Return x"
  by (cases pc) auto

text \<open>What is known of a state after a schedule.\<close>

definition reached :: "(str \<Rightarrow> u64) \<Rightarrow> hash_table \<Rightarrow> (str \<times> str) list \<Rightarrow> pc list \<Rightarrow> nat list \<Rightarrow> system \<Rightarrow> view \<Rightarrow> bool" where
  "reached hasher t kvs0 calls sched s V \<longleftrightarrow> run hasher sched (start t calls) = Inr s \<and>
    mutex_ok s \<and> (\<exists>seen us xs kvs cs. system_ok hasher calls seen s us xs kvs cs \<and> V = view_of hasher (sys_table s) us kvs cs \<and>
      map_of kvs = apply_updates (history hasher sched (start t calls)) (map_of kvs0))"

lemma reachedI:
  assumes "run hasher sched (start t calls) = Inr s" and "system_ok hasher calls seen s us xs kvs cs" and "mutex_ok s"
    and "map_of kvs = apply_updates (history hasher sched (start t calls)) (map_of kvs0)"
  shows "reached hasher t kvs0 calls sched s (view_of hasher (sys_table s) us kvs cs)"
  unfolding reached_def using assms by blast

lemma reached_start:
  assumes "table_at hasher t kvs0" and "\<forall>c \<in> set calls. call_ok c"
  shows "\<exists>V. reached hasher t kvs0 calls [] (start t calls) V"
proof -
  obtain us xs cs where "system_ok hasher calls (\<lambda>j v. False) (start t calls) us xs kvs0 cs"
    using start_ok [OF assms] by blast
  from reachedI [OF _ this start_mutex [OF assms(2)], of "[]" t kvs0] show ?thesis by (auto simp: run_def)
qed

text \<open>
  A step of a thread leaves the others as many steps as before, and the thread itself fewer, unless it is
  idle.
\<close>

lemma reached_step:
  assumes reached: "reached hasher t kvs0 calls sched s V" and K: "K = length kvs0 + length calls"
    and admits: "step_admits l s"
  shows "\<exists>s' W. reached hasher t kvs0 calls (sched @ [l]) s' W \<and>
    (if l < length calls \<and> \<not> idle (sys_threads s ! l) s then
       (\<forall>j < length calls. j \<noteq> l \<longrightarrow> sys_threads s' ! j = sys_threads s ! j \<and>
         steps_left K W (sys_threads s' ! j) = steps_left K V (sys_threads s ! j)) \<and>
       steps_left K W (sys_threads s' ! l) < steps_left K V (sys_threads s ! l)
     else s' = s \<and> W = V)"
proof -
  let ?s0 = "start t calls"
  obtain seen us xs kvs cs where run: "run hasher sched ?s0 = Inr s" and ok: "system_ok hasher calls seen s us xs kvs cs"
    and V: "V = view_of hasher (sys_table s) us kvs cs" and pairs: "map_of kvs = apply_updates (history hasher sched ?s0) (map_of kvs0)"
    and mutex: "mutex_ok s"
    using reached unfolding reached_def by blast
  have len: "length (sys_threads s) = length calls" and shared: "shared_ok hasher (sys_table s) us xs kvs cs"
    using ok by (simp_all add: system_ok_def)
  show ?thesis
  proof (cases "l < length calls \<and> \<not> idle (sys_threads s ! l) s")
    case False
    then have step: "step hasher l s = Inr s"
      using advance_idle [of "sys_threads s ! l" s hasher l] len by (auto simp: step_def)
    have "update_of l s = []" using False len by (cases "sys_threads s ! l") (auto simp: update_of_def)
    then have "reached hasher t kvs0 calls (sched @ [l]) s V"
      unfolding V using run pairs history_snoc [OF run step] step by (intro reachedI [OF _ ok mutex]) simp_all
    then show ?thesis using False by auto
  next
    case True
    then have l: "l < length calls" and busy: "\<not> idle (sys_threads s ! l) s" by simp_all
    from step_ok [OF ok l admits] obtain s' us' xs' kvs' cs' where step: "step hasher l s = Inr s'"
      and ok': "system_ok hasher calls (sees hasher calls s l seen) s' us' xs' kvs' cs'"
      and later: "later_view V (view_of hasher (sys_table s') us' kvs' cs')"
      and pairs': "map_of kvs' = effect (sys_threads s ! l) (map_of kvs)" unfolding V by blast
    let ?W = "view_of hasher (sys_table s') us' kvs' cs'"
    have "map_of kvs' = apply_updates (history hasher (sched @ [l]) ?s0) (map_of kvs0)"
      using pairs pairs' effect_updates [of l s] l len history_snoc [OF run step] by simp
    then have "reached hasher t kvs0 calls (sched @ [l]) s' ?W"
      using run step by (intro reachedI [OF _ ok' step_mutex [OF mutex step]]) simp_all
    moreover have "distinct (map fst kvs)" using shared by (simp add: shared_ok_def)
    then have K': "length kvs \<le> K"
      using buckets_bound [OF _ pairs, of "length calls"] history_committed [OF run] unfolding K
      by (fastforce simp: start_def)
    moreover obtain s1 pc where s1: "advance hasher l (sys_threads s ! l) s = Inr (s1, pc)"
      and s': "s' = s1\<lparr>sys_threads := (sys_threads s1)[l := pc]\<rparr>"
      using step l len by (auto simp: step_def and_then_Inr_iff)
    moreover have threads: "sys_threads s' = (sys_threads s)[l := pc]" using advance_threads [OF s1] s' by simp
    moreover have "steps_left K ?W (sys_threads s ! j) = steps_left K V (sys_threads s ! j)" if "j < length calls" for j
      using left_later(2) [OF later] thread_placed [OF system_okD(9) [OF ok that]] V by blast
    moreover have "steps_left K ?W pc < steps_left K V (sys_threads s ! l)"
      using advance_left [OF ok l K' s1 busy] left_later(2) [OF later, of pc K] V by simp
    ultimately show ?thesis using True len by (intro exI [of _ s'] exI [of _ ?W]) auto
  qed
qed

lemma reached_own:
  assumes "reached hasher t kvs0 calls sched s V" and "j < length calls"
  shows "\<exists>seen. thread_ok V (calls ! j) seen (sys_threads s ! j)"
proof -
  obtain seen us xs kvs cs where "system_ok hasher calls seen s us xs kvs cs" "V = view_of hasher (sys_table s) us kvs cs"
    using assms(1) unfolding reached_def by blast
  then show ?thesis using system_okD(9) assms(2) by blast
qed

lemma reached_admits:
  assumes "reached hasher t kvs0 calls sched s V" and "run_admits hasher (sched @ [l]) (start t calls)"
  shows "run_admits hasher sched (start t calls)" "step_admits l s"
  using assms by (simp_all add: run_admits_snoc reached_def)

text \<open>
  A thread that reads waits for the mutex of the buffer only, and only where it frees a block. The steps
  a call of \<open>get\<close> has made otherwise and those that are left for it do not exceed the bound.
\<close>

definition waits :: "nat \<Rightarrow> system \<Rightarrow> bool" where
  "waits j s \<longleftrightarrow> j < length (sys_threads s) \<and> sys_mutex s \<noteq> None \<and> (\<exists>p next. sys_threads s ! j = Free p next)"

fun waiting_turns :: "(str \<Rightarrow> u64) \<Rightarrow> nat \<Rightarrow> nat list \<Rightarrow> system \<Rightarrow> nat" where
  "waiting_turns hasher j [] s = 0"
| "waiting_turns hasher j (l # sched) s = of_bool (l = j \<and> waits j s) +
    (case step hasher l s of Inl e \<Rightarrow> 0 | Inr s' \<Rightarrow> waiting_turns hasher j sched s')"

lemma waiting_snoc: "run hasher ps s = Inr s1 \<Longrightarrow>
    waiting_turns hasher j (ps @ [l]) s = waiting_turns hasher j ps s + of_bool (l = j \<and> waits j s1)"
  by (induction ps arbitrary: s) (auto simp: run_def and_then_Inr_iff split: sum.splits)

lemma get_left:
  assumes at: "table_at hasher t kvs0" and calls: "\<forall>c \<in> set calls. call_ok c" and K: "K = length kvs0 + length calls"
    and j: "j < length calls" and call: "calls ! j = Get_call key"
    and admits: "run_admits hasher sched (start t calls)"
  shows "\<exists>s V. reached hasher t kvs0 calls sched s V \<and> ((\<exists>x. sys_threads s ! j = Return x) \<or>
    steps_left K V (sys_threads s ! j) + count_list sched j \<le> 6 * K + 8 + waiting_turns hasher j sched (start t calls))"
  using admits
proof (induction sched rule: rev_induct)
  case Nil
  obtain V where "reached hasher t kvs0 calls [] (start t calls) V" using reached_start [OF at calls] by blast
  then show ?case using call by (intro exI conjI) (auto simp: start_def)
next
  case (snoc l ps)
  let ?w = "\<lambda>sched. waiting_turns hasher j sched (start t calls)"
  have "run_admits hasher ps (start t calls)" using snoc.prems by (simp add: run_admits_snoc)
  from snoc.IH [OF this] obtain s V where s: "reached hasher t kvs0 calls ps s V"
    and left: "(\<exists>x. sys_threads s ! j = Return x) \<or> steps_left K V (sys_threads s ! j) + count_list ps j \<le> 6 * K + 8 + ?w ps"
    by blast
  from reached_step [OF s K reached_admits(2) [OF s snoc.prems]] obtain s' W where
    s': "reached hasher t kvs0 calls (ps @ [l]) s' W" and step: "if l < length calls \<and> \<not> idle (sys_threads s ! l) s then
       (\<forall>j < length calls. j \<noteq> l \<longrightarrow> sys_threads s' ! j = sys_threads s ! j \<and>
         steps_left K W (sys_threads s' ! j) = steps_left K V (sys_threads s ! j)) \<and>
       steps_left K W (sys_threads s' ! l) < steps_left K V (sys_threads s ! l)
     else s' = s \<and> W = V" by blast
  have run: "run hasher ps (start t calls) = Inr s" using s by (simp add: reached_def)
  have len: "length (sys_threads s) = length calls" using s by (auto simp: reached_def system_ok_def)
  have "idle (sys_threads s ! j) s \<longleftrightarrow> (\<exists>x. sys_threads s ! j = Return x) \<or> waits j s"
    using reached_own [OF s j] call j len by (cases "sys_threads s ! j") (auto simp: waits_def)
  then have "(\<exists>x. sys_threads s' ! j = Return x) \<or>
      steps_left K W (sys_threads s' ! j) + count_list (ps @ [l]) j \<le> 6 * K + 8 + ?w (ps @ [l])"
    using step left j unfolding waiting_snoc [OF run] by (cases "l = j") (auto split: if_splits)
  with s' show ?case by blast
qed

section \<open>Fair schedules\<close>

definition total_left :: "nat \<Rightarrow> view \<Rightarrow> system \<Rightarrow> nat" where
  "total_left K V s = (\<Sum>j < length (sys_threads s). steps_left K V (sys_threads s ! j))"

lemma reached_threads:
  assumes "reached hasher t kvs0 calls sched s V"
  shows "length (sys_threads s) = length calls"
  using assms by (auto simp: reached_def system_ok_def)

lemma total_step:
  assumes s: "reached hasher t kvs0 calls sched s V" and K: "K = length kvs0 + length calls"
    and admits: "step_admits l s"
  shows "\<exists>s' W. reached hasher t kvs0 calls (sched @ [l]) s' W \<and>
    (total_left K W s' < total_left K V s \<or> s' = s \<and> W = V \<and> (l < length calls \<longrightarrow> idle (sys_threads s ! l) s))"
proof -
  from reached_step [OF assms] obtain s' W where s': "reached hasher t kvs0 calls (sched @ [l]) s' W"
    and step: "if l < length calls \<and> \<not> idle (sys_threads s ! l) s then
       (\<forall>j < length calls. j \<noteq> l \<longrightarrow> sys_threads s' ! j = sys_threads s ! j \<and>
         steps_left K W (sys_threads s' ! j) = steps_left K V (sys_threads s ! j)) \<and>
       steps_left K W (sys_threads s' ! l) < steps_left K V (sys_threads s ! l)
     else s' = s \<and> W = V" by blast
  show ?thesis
  proof (cases "l < length calls \<and> \<not> idle (sys_threads s ! l) s")
    case True
    then have le: "steps_left K W (sys_threads s' ! j) \<le> steps_left K V (sys_threads s ! j)" if "j < length calls" for j
      using step that by (cases "j = l") auto
    have "total_left K W s' < total_left K V s"
      unfolding total_left_def reached_threads [OF s] reached_threads [OF s']
      using True step le by (intro sum_strict_mono_ex1) auto
    with s' show ?thesis by blast
  qed (use s' step in auto)
qed

lemma total_round:
  assumes "reached hasher t kvs0 calls sched s V" and K: "K = length kvs0 + length calls"
    and "run_admits hasher (sched @ r) (start t calls)"
  shows "\<exists>s' W. reached hasher t kvs0 calls (sched @ r) s' W \<and>
    (total_left K W s' < total_left K V s \<or>
     s' = s \<and> W = V \<and> (\<forall>l \<in> set r. l < length calls \<longrightarrow> idle (sys_threads s ! l) s))"
  using assms(3)
proof (induction r rule: rev_induct)
  case Nil
  then show ?case using assms(1) by auto
next
  case (snoc l r)
  have "run_admits hasher (sched @ r) (start t calls)"
    using snoc.prems by (simp add: run_admits_snoc flip: append_assoc)
  from snoc.IH [OF this] obtain s1 V1 where s1: "reached hasher t kvs0 calls (sched @ r) s1 V1"
    and round: "total_left K V1 s1 < total_left K V s \<or>
      s1 = s \<and> V1 = V \<and> (\<forall>l \<in> set r. l < length calls \<longrightarrow> idle (sys_threads s ! l) s)" by blast
  have "step_admits l s1" using reached_admits(2) [OF s1] snoc.prems by simp
  from total_step [OF s1 K this] obtain s' W where "reached hasher t kvs0 calls ((sched @ r) @ [l]) s' W"
    "total_left K W s' < total_left K V1 s1 \<or> s' = s1 \<and> W = V1 \<and> (l < length calls \<longrightarrow> idle (sys_threads s1 ! l) s1)"
    by blast
  with round show ?case by (intro exI [of _ s'] exI [of _ W]) auto
qed

text \<open>There is no deadlock: the thread that has the mutex of the buffer is not idle, and if no one has it,
  then the one that has the write mutex is not.\<close>

lemma all_idle:
  assumes "reached hasher t kvs0 calls sched s V" and idle: "\<forall>j < length calls. idle (sys_threads s ! j) s"
  shows "\<forall>pc \<in> set (sys_threads s). \<exists>x. pc = Return x"
proof -
  obtain seen us xs kvs cs where ok: "system_ok hasher calls seen s us xs kvs cs" and mutex: "mutex_ok s"
    using assms(1) unfolding reached_def by blast
  have "sys_mutex s = None"
  proof (rule ccontr)
    assume held: "sys_mutex s \<noteq> None"
    then have "\<not> (\<forall>pc \<in> set (sys_threads s). \<not> holding pc)" using mutex_free [OF mutex] by (rule contrapos_nn)
    then obtain pc where pc: "pc \<in> set (sys_threads s)" "holding pc" by blast
    then obtain j where "j < length calls" "sys_threads s ! j = pc"
      using reached_threads [OF assms(1)] by (auto simp: in_set_conv_nth)
    then show False using idle pc(2) by (cases pc) auto
  qed
  moreover have "sys_lock s = None"
  proof (rule ccontr)
    assume "sys_lock s \<noteq> None"
    then obtain j where "sys_lock s = Some j" by blast
    then have "j < length calls" "writing (sys_threads s ! j)" using ok by (auto simp: system_ok_def)
    then show False using idle \<open>sys_mutex s = None\<close> by (cases "sys_threads s ! j") auto
  qed
  ultimately have "\<exists>x. pc = Return x" if "idle pc s" for pc using that by (cases pc) auto
  then show ?thesis using idle reached_threads [OF assms(1)] by (metis in_set_conv_nth)
qed

text \<open>In a round every thread is scheduled once at least.\<close>

lemma rounds_left:
  assumes at: "table_at hasher t kvs0" and calls: "\<forall>c \<in> set calls. call_ok c" and K: "K = length kvs0 + length calls"
    and admits: "run_admits hasher (concat rounds) (start t calls)"
    and fair: "\<forall>r \<in> set rounds. {..< length calls} \<subseteq> set r"
  shows "\<exists>s V. reached hasher t kvs0 calls (concat rounds) s V \<and>
    total_left K V s \<le> length calls * (6 * K + 10) - length rounds"
  using admits fair
proof (induction rounds rule: rev_induct)
  case Nil
  obtain V where V: "reached hasher t kvs0 calls [] (start t calls) V" using reached_start [OF at calls] by blast
  have "steps_left K V c \<le> 6 * K + 10" if "c \<in> set calls" for c
    using calls that by (cases c) auto
  then have "total_left K V (start t calls) \<le> (\<Sum>j < length calls. 6 * K + 10)"
    unfolding total_left_def by (simp only: start_def system.simps) (intro sum_mono, simp)
  with V show ?case by auto
next
  case (snoc r rounds)
  have "run_admits hasher (concat rounds) (start t calls)"
    using snoc.prems(1) run_admits_append by fastforce
  then obtain s V where s: "reached hasher t kvs0 calls (concat rounds) s V"
    "total_left K V s \<le> length calls * (6 * K + 10) - length rounds"
    using snoc.IH snoc.prems(2) by auto
  have "run_admits hasher (concat rounds @ r) (start t calls)" using snoc.prems(1) by simp
  from total_round [OF s(1) K this] obtain s' W where s': "reached hasher t kvs0 calls (concat rounds @ r) s' W"
    and less: "total_left K W s' < total_left K V s \<or>
      s' = s \<and> W = V \<and> (\<forall>l \<in> set r. l < length calls \<longrightarrow> idle (sys_threads s ! l) s)" by blast
  have "total_left K W s' \<le> length calls * (6 * K + 10) - length (rounds @ [r])"
    using less
  proof
    assume "s' = s \<and> W = V \<and> (\<forall>l \<in> set r. l < length calls \<longrightarrow> idle (sys_threads s ! l) s)"
    then have same: "s' = s" "\<forall>j < length calls. idle (sys_threads s ! j) s" using snoc.prems(2) by auto
    have "steps_left K W (sys_threads s' ! j) = 0" if "j < length (sys_threads s')" for j
      using all_idle [OF s(1) same(2)] same(1) that nth_mem by fastforce
    then show ?thesis by (simp add: total_left_def)
  qed (use s(2) in simp)
  with s' show ?case by auto
qed

lemma total_done:
  assumes "total_left K V s = 0"
  shows "\<forall>pc \<in> set (sys_threads s). \<exists>x. pc = Return x"
  using assms by (auto simp: total_left_def in_set_conv_nth intro!: left_done)

section \<open>Runs that allocate no more\<close>

fun settled :: "pc \<Rightarrow> bool" where
  "settled (Put_call key val) \<longleftrightarrow> False"
| "settled (Allocate key val) \<longleftrightarrow> False"
| "settled (Allocating key val) \<longleftrightarrow> False"
| "settled (Release p next) \<longleftrightarrow> settled next"
| "settled (Free p next) \<longleftrightarrow> settled next"
| "settled (Freeing p next) \<longleftrightarrow> settled next"
| "settled _ \<longleftrightarrow> True"

lemma settled_found [simp]: "settled (found task key r)" "settled (visit task key r)"
  by (cases task; cases r; simp)+

lemma advance_settled:
  assumes "advance hasher j pc s = Inr (s', pc')" and "settled pc \<or> (\<exists>key val. pc = Allocating key val)"
  shows "settled pc'"
  using assms
proof (cases pc)
  case (Publish key val p r)
  then show ?thesis using assms by (cases r) (auto simp: and_then_Inr_iff Let_def split: option.splits prod.splits)
qed (auto simp: and_then_Inr_iff Let_def split: option.splits prod.splits if_splits)

lemma settled_admits:
  assumes "\<forall>l \<in> set sched. l < length (sys_threads s) \<longrightarrow> settled (sys_threads s ! l)"
  shows "run_admits hasher sched s"
  using assms
proof (induction sched arbitrary: s)
  case Nil
  then show ?case by simp
next
  case (Cons j sched)
  have "step_admits j s" using Cons.prems by (cases "sys_threads s ! j") (auto simp: step_admits_def)
  moreover have "run_admits hasher sched s'" if step: "step hasher j s = Inr s'" for s'
  proof (cases "j < length (sys_threads s)")
    case True
    obtain s1 pc where s1: "advance hasher j (sys_threads s ! j) s = Inr (s1, pc)"
      and s': "s' = s1\<lparr>sys_threads := (sys_threads s1)[j := pc]\<rparr>"
      using step True by (auto simp: step_def and_then_Inr_iff)
    then have "sys_threads s' = (sys_threads s)[j := pc]" using advance_threads [OF s1] by simp
    moreover have "settled pc" using advance_settled [OF s1] Cons.prems True by simp
    ultimately have "\<forall>l \<in> set sched. l < length (sys_threads s') \<longrightarrow> settled (sys_threads s' ! l)"
      using Cons.prems True by (auto simp: nth_list_update)
    then show ?thesis by (rule Cons.IH)
  next
    case False
    then show ?thesis using step Cons.IH [of s] Cons.prems by (simp add: step_def)
  qed
  ultimately show ?case by (simp split: sum.splits)
qed

lemma returned_waits_no_more:
  "sys_threads s ! j = Return x \<Longrightarrow> waiting_turns hasher j (replicate n j) s = 0"
proof (induction n)
  case (Suc n)
  have "\<not> waits j s" using Suc.prems by (simp add: waits_def)
  moreover have "(sys_threads s)[j := Return x] = sys_threads s" using Suc.prems list_update_id by metis
  then have "step hasher j s = Inr s" using Suc.prems by (simp add: step_def)
  ultimately show ?case using Suc by simp
qed simp

end
