(* ===== verification/Concurrent_Properties.thy ===== *)
theory Concurrent_Properties
  imports Concurrent_Progress Table_Properties
begin

text \<open>
  The properties of a table that many threads use, each with an instance on a new store, where one
  thread writes a key and another reads it.
\<close>

lemma run_start:
  assumes "table_at hasher t kvs" and "\<forall>c \<in> set calls. call_ok c" and "run_admits hasher sched (start t calls)"
  shows "\<exists>s seen us xs kvs' cs. run hasher sched (start t calls) = Inr s \<and> system_ok hasher calls seen s us xs kvs' cs \<and>
    map_of kvs' = apply_updates (history hasher sched (start t calls)) (map_of kvs) \<and>
    (\<forall>j v. seen j v \<longrightarrow> (\<exists>ps qs key. sched = ps @ j # qs \<and> calls ! j = Get_call key \<and>
      v = value_of (apply_updates (history hasher ps (start t calls)) (map_of kvs)) key))"
proof -
  obtain us xs cs where "system_ok hasher calls (\<lambda>j v. False) (start t calls) us xs kvs cs"
    using start_ok [OF assms(1,2)] by blast
  from run_ok [OF this assms(3)] show ?thesis by (simp only: simp_thms)
qed

text \<open>The step at which a \<open>get\<close> takes effect comes before it returns.\<close>

lemma step_returned: "step hasher l s = Inr s' \<Longrightarrow> sys_threads s ! j = Return x \<Longrightarrow> sys_threads s' ! j = Return x"
  by (cases "l = j") (auto simp: step_def and_then_Inr_iff dest!: advance_threads split: if_splits)

lemma run_returned: "run hasher sched s = Inr s' \<Longrightarrow> sys_threads s ! j = Return x \<Longrightarrow> sys_threads s' ! j = Return x"
  by (induction sched arbitrary: s) (auto simp: run_def and_then_Inr_iff dest: step_returned)

lemma get_point:
  assumes "table_at hasher t kvs" and "\<forall>c \<in> set calls. call_ok c" and "run_admits hasher sched (start t calls)"
    and "run hasher sched (start t calls) = Inr s" and j: "j < length calls" and "sys_threads s ! j = Return (Got v)"
  shows "\<exists>ps qs key s0. sched = ps @ j # qs \<and> run hasher ps (start t calls) = Inr s0 \<and>
    (\<forall>x. sys_threads s0 ! j \<noteq> Return x) \<and> calls ! j = Get_call key \<and>
    v = value_of (apply_updates (history hasher ps (start t calls)) (map_of kvs)) key"
  using assms(3,4,6)
proof (induction sched arbitrary: s rule: rev_induct)
  case Nil
  then have "calls ! j = Return (Got v)" by (auto simp: run_def start_def)
  moreover have "call_ok (calls ! j)" using assms(2) j by simp
  ultimately show ?case by simp
next
  case (snoc l sched)
  obtain s1 where s1: "run hasher sched (start t calls) = Inr s1" and step: "step hasher l s1 = Inr s"
    using snoc.prems(2) by (auto simp: and_then_Inr_iff)
  show ?case
  proof (cases "\<exists>x. sys_threads s1 ! j = Return x")
    case True
    then have "sys_threads s1 ! j = Return (Got v)" using step_returned [OF step] snoc.prems(3) by fastforce
    moreover have "run_admits hasher sched (start t calls)" using snoc.prems(1) run_admits_append by blast
    ultimately obtain ps qs key s0 where "sched = ps @ j # qs" "run hasher ps (start t calls) = Inr s0"
      "\<forall>x. sys_threads s0 ! j \<noteq> Return x" "calls ! j = Get_call key"
      "v = value_of (apply_updates (history hasher ps (start t calls)) (map_of kvs)) key"
      using snoc.IH [OF _ s1] by blast
    then show ?thesis by (intro exI [of _ ps] exI [of _ "qs @ [l]"] exI [of _ key] exI [of _ s0]) simp
  next
    case False
    from run_start [OF assms(1,2) snoc.prems(1)] obtain s2 us xs kvs' cs seen where "run hasher (sched @ [l]) (start t calls) = Inr s2"
      and ok: "system_ok hasher calls seen s2 us xs kvs' cs"
      and "map_of kvs' = apply_updates (history hasher (sched @ [l]) (start t calls)) (map_of kvs)"
      and seen: "\<forall>j v. seen j v \<longrightarrow> (\<exists>ps qs key. sched @ [l] = ps @ j # qs \<and> calls ! j = Get_call key \<and>
        v = value_of (apply_updates (history hasher ps (start t calls)) (map_of kvs)) key)"
      by (elim exE conjE)
    then have "s2 = s" using snoc.prems(2) by simp
    then have "seen j v" using system_okD(9) [OF ok j] snoc.prems(3) by simp
    then obtain ps qs key where ps: "sched @ [l] = ps @ j # qs" and key: "calls ! j = Get_call key"
      "v = value_of (apply_updates (history hasher ps (start t calls)) (map_of kvs)) key"
      using seen by blast
    then obtain rs where rs: "sched = ps @ rs" by (cases qs rule: rev_cases) auto
    then obtain s0 where s0: "run hasher ps (start t calls) = Inr s0" "run hasher rs s0 = Inr s1"
      using s1 by (auto simp: run_def fold_res_append and_then_Inr_iff)
    have "sys_threads s0 ! j \<noteq> Return x" for x using run_returned [OF s0(2)] False by blast
    with ps key s0(1) show ?thesis by blast
  qed
qed

lemma reached_quiet:
  assumes "reached hasher t kvs calls sched s V" and "\<forall>pc \<in> set (sys_threads s). \<exists>x. pc = Return x"
  shows "sys_lock s = None \<and> sys_mutex s = None \<and> (\<exists>kvs'. table_at hasher (sys_table s) kvs' \<and>
    map_of kvs' = apply_updates (history hasher sched (start t calls)) (map_of kvs))"
proof -
  have "\<forall>pc \<in> set (sys_threads s). \<not> holding pc" using assms(2) by fastforce
  with assms(1) have "sys_mutex s = None" using mutex_free unfolding reached_def by blast
  with assms(1) show ?thesis using quiet_table [OF _ assms(2)] unfolding reached_def by blast
qed

section \<open>The instance\<close>

definition write_and_read :: "pc list" where
  "write_and_read = [Put_call [97] [98], Get_call [97]]"

lemma write_and_read_ok: "\<forall>c \<in> set write_and_read. call_ok c" "length write_and_read = 2"
  by (simp_all add: write_and_read_def storable_pair_def)

text \<open>The writer takes the write mutex, the reader starts, and the writer allocates.\<close>

lemma write_and_read_admits:
  assumes "clean_for (memory t) 4"
  shows "run_admits hasher (0 # 1 # 0 # 0 # rest) (start t write_and_read)"
proof -
  let ?s = "(start t write_and_read)\<lparr>sys_lock := Some 0, sys_mutex := Some 0,
    sys_threads := [Allocating [97] [98], Lookup Reading [97]]\<rparr>"
  have "run_admits hasher rest s'" if step: "step hasher 0 ?s = Inr s'" for s'
  proof -
    obtain s1 pc where s1: "advance hasher 0 (Allocating [97] [98]) ?s = Inr (s1, pc)"
      and s': "s' = s1\<lparr>sys_threads := (sys_threads s1)[0 := pc]\<rparr>"
      using step by (auto simp: step_def and_then_Inr_iff)
    then have "sys_threads s' = [pc, Lookup Reading [97]]" using advance_threads [OF s1] by simp
    moreover have "settled pc" using advance_settled [OF s1] by blast
    ultimately show ?thesis by (intro settled_admits) (auto simp: less_Suc_eq numeral_2_eq_2)
  qed
  then have "run_admits hasher (0 # rest) ?s"
    using assms by (simp add: step_admits_def start_def numeral_eq_Suc split: sum.splits)
  then show ?thesis by (simp add: step_admits_def step_def start_def write_and_read_def)
qed

lemma write_and_read_new:
  obtains t where "ConcurrentHashTable hasher new_file = Inr t" "table_at hasher t []"
    "\<forall>rest. run_admits hasher (0 # 1 # 0 # 0 # rest) (start t write_and_read)"
proof -
  obtain t where t: "ConcurrentHashTable hasher new_file = Inr t" "fresh_table hasher t [] 536870872"
    by (rule created)
  note fresh = fresh_admits [OF t(2)]
  show thesis using that [OF t(1) fresh(1)] write_and_read_admits [OF fresh(3)] by blast
qed

lemma empty_slot:
  assumes "table_at hasher t []"
  shows "m_hash_table t ! slot_of hasher t key = None"
proof -
  obtain us xs cs where rep: "table_rep t us xs [] cs" using assms unfolding table_at_def by blast
  then have "chain (m_bucket_storage t) (m_hash_table t ! slot_of hasher t key) (cs ! slot_of hasher t key)"
    and "cs ! slot_of hasher t key = []"
    using slot_bound [OF rep, of hasher key] by (auto simp: table_rep_def)
  then show ?thesis by simp
qed

section \<open>Linearizability\<close>

text \<open>
  C38: calls of \<open>get\<close> and \<open>put\<close> by any number of threads are linearizable. In whatever order the
  threads make their steps, no step faults, and the calls that have returned behave as if each had been
  done at once at one of its own steps: the updates are those of the history, at most one for every
  thread, with the key and the value of its call; a \<open>put\<close> has returned true if and only if its update is
  in the history; a \<open>get\<close> has returned the value its key had at one of the steps its thread made before
  it returned; and a \<open>get\<close> that is made afterwards sees all the updates.
\<close>

theorem concurrent_calls_linearizable:
  assumes "table_at hasher t kvs" and "\<forall>c \<in> set calls. call_ok c" and "run_admits hasher sched (start t calls)"
  shows "\<exists>s h. run hasher sched (start t calls) = Inr s \<and> h = history hasher sched (start t calls) \<and>
    distinct (map fst h) \<and> (\<forall>(j, key, val) \<in> set h. j < length calls \<and> calls ! j = Put_call key val) \<and>
    (\<forall>j < length calls. \<forall>b. sys_threads s ! j = Return (Stored b) \<longrightarrow> (b \<longleftrightarrow> j \<in> fst ` set h)) \<and>
    (\<forall>j < length calls. \<forall>v. sys_threads s ! j = Return (Got v) \<longrightarrow>
      (\<exists>ps qs key s0. sched = ps @ j # qs \<and> run hasher ps (start t calls) = Inr s0 \<and>
        (\<forall>x. sys_threads s0 ! j \<noteq> Return x) \<and> calls ! j = Get_call key \<and>
        v = value_of (apply_updates (history hasher ps (start t calls)) (map_of kvs)) key)) \<and>
    (\<forall>key. get hasher key (sys_table s) = Inr (value_of (apply_updates h (map_of kvs)) key))"
proof -
  obtain us xs cs where init: "system_ok hasher calls (\<lambda>j v. False) (start t calls) us xs kvs cs"
    using start_ok [OF assms(1,2)] by blast
  from run_start [OF assms] obtain s us' xs' kvs' cs' seen where run: "run hasher sched (start t calls) = Inr s"
    and ok: "system_ok hasher calls seen s us' xs' kvs' cs'"
    and pairs: "map_of kvs' = apply_updates (history hasher sched (start t calls)) (map_of kvs)"
    and "\<forall>j v. seen j v \<longrightarrow> (\<exists>ps qs key. sched = ps @ j # qs \<and> calls ! j = Get_call key \<and>
      v = value_of (apply_updates (history hasher ps (start t calls)) (map_of kvs)) key)"
    by (elim exE conjE)
  let ?h = "history hasher sched (start t calls)"
  have threads: "sys_threads (start t calls) = calls" by (simp add: start_def)
  have fresh: "\<not> committed (calls ! j)" if "j < length calls" for j
    using assms(2) nth_mem [OF that] by (cases "calls ! j") auto
  note com = history_committed [OF run, unfolded threads]
  have "\<forall>(j, key, val) \<in> set ?h. j < length calls \<and> calls ! j = Put_call key val"
    using com history_calls [OF init assms(3)] by fastforce
  moreover have "b \<longleftrightarrow> j \<in> fst ` set ?h" if "j < length calls" "sys_threads s ! j = Return (Stored b)" for j b
    using com fresh that by fastforce
  moreover note get_point [OF assms run]
  moreover have "get hasher key (sys_table s) = Inr (value_of (apply_updates ?h (map_of kvs)) key)" for key
    using get_shared [of hasher "sys_table s" us' xs' kvs' cs' key] ok pairs by (simp add: system_ok_def value_of_def)
  moreover have "distinct (map fst ?h)" using com by blast
  ultimately show ?thesis
    by (intro exI [of _ s] exI [of _ ?h] conjI allI impI run refl) assumption+
qed

theorem concurrent_calls_linearizable_witness:
  "\<exists>t s. ConcurrentHashTable (\<lambda>_. 5) new_file = Inr t \<and>
    run (\<lambda>_. 5) [0, 1, 0, 0, 0, 1, 0, 0, 1, 1, 0] (start t write_and_read) = Inr s \<and>
    distinct (map fst (history (\<lambda>_. 5) [0, 1, 0, 0, 0, 1, 0, 0, 1, 1, 0] (start t write_and_read)))"
proof -
  obtain t where t: "ConcurrentHashTable (\<lambda>_. 5) new_file = Inr t" "table_at (\<lambda>_. 5) t []"
    "\<forall>rest. run_admits (\<lambda>_. 5) (0 # 1 # 0 # 0 # rest) (start t write_and_read)"
    using write_and_read_new [where hasher = "\<lambda>_. 5"] by blast
  from concurrent_calls_linearizable [OF t(2) write_and_read_ok(1) t(3) [rule_format]] t(1) show ?thesis by blast
qed

section \<open>Progress\<close>

text \<open>
  C39: there is no deadlock and nothing is lost. In a schedule of enough rounds, in each of which every
  thread has a turn, all calls return; both mutexes are free then, and the table has its invariant again:
  the blocks in use are exactly those of its pairs, so that every block a \<open>put\<close> has replaced is freed
  once its last reader has left it.
\<close>

theorem fair_calls_return:
  assumes "table_at hasher t kvs" and "\<forall>c \<in> set calls. call_ok c"
    and "run_admits hasher (concat rounds) (start t calls)"
    and "\<forall>r \<in> set rounds. {..< length calls} \<subseteq> set r"
    and "length calls * (6 * (length kvs + length calls) + 10) \<le> length rounds"
  shows "\<exists>s kvs'. run hasher (concat rounds) (start t calls) = Inr s \<and>
    (\<forall>pc \<in> set (sys_threads s). \<exists>x. pc = Return x) \<and> sys_lock s = None \<and> sys_mutex s = None \<and> table_at hasher (sys_table s) kvs' \<and>
    map_of kvs' = apply_updates (history hasher (concat rounds) (start t calls)) (map_of kvs)"
proof -
  obtain s V where s: "reached hasher t kvs calls (concat rounds) s V"
    "total_left (length kvs + length calls) V s = 0"
    using rounds_left [OF assms(1,2) refl assms(3,4)] assms(5) by (auto simp: diff_is_0_eq)
  from reached_quiet [OF s(1) total_done [OF s(2)]] total_done [OF s(2)] s(1) show ?thesis
    unfolding reached_def by blast
qed

theorem fair_calls_return_witness:
  "\<exists>t s kvs'. ConcurrentHashTable (\<lambda>_. 5) new_file = Inr t \<and>
    run (\<lambda>_. 5) (concat ([0, 1, 0, 0] # replicate 50 [0, 1])) (start t write_and_read) = Inr s \<and>
    (\<forall>pc \<in> set (sys_threads s). \<exists>x. pc = Return x) \<and> table_at (\<lambda>_. 5) (sys_table s) kvs'"
proof -
  obtain t where t: "ConcurrentHashTable (\<lambda>_. 5) new_file = Inr t" "table_at (\<lambda>_. 5) t []"
    "\<forall>rest. run_admits (\<lambda>_. 5) (0 # 1 # 0 # 0 # rest) (start t write_and_read)"
    using write_and_read_new [where hasher = "\<lambda>_. 5"] by blast
  have admits: "run_admits (\<lambda>_. 5) (concat ([0, 1, 0, 0] # replicate 50 [0, 1])) (start t write_and_read)"
    using t(3) [rule_format, of "concat (replicate 50 [0, 1])"] by (simp only: concat.simps append.simps)
  have rounds: "\<forall>r \<in> set ([0, 1, 0, 0] # replicate 50 [0, 1]). {..< length write_and_read} \<subseteq> set r"
    by (auto simp: write_and_read_ok)
  from fair_calls_return [OF t(2) write_and_read_ok(1) admits rounds] t(1) show ?thesis
    by (simp only: write_and_read_ok length_Cons length_replicate list.size) auto
qed

text \<open>
  C40: reads do not wait for writers, but for one case. A \<open>get\<close> has returned once it has had
  \<open>6 * (n + m) + 8\<close> turns, with \<open>n\<close> pairs in the table and \<open>m\<close> calls at the start, whatever the other
  threads do; not counted are the turns at which it is the last reader of a block that a \<open>put\<close> has
  replaced, has to free that block, and finds the mutex of the buffer taken by another thread. It never
  waits for the write mutex.
\<close>

theorem get_waits_only_to_free:
  assumes "table_at hasher t kvs" and "\<forall>c \<in> set calls. call_ok c" and "run_admits hasher sched (start t calls)"
    and "j < length calls" and "calls ! j = Get_call key"
    and "6 * (length kvs + length calls) + 8 + waiting_turns hasher j sched (start t calls) \<le> count_list sched j"
  shows "\<exists>s v. run hasher sched (start t calls) = Inr s \<and> sys_threads s ! j = Return (Got v)"
proof -
  obtain s V where s: "reached hasher t kvs calls sched s V"
    and left: "(\<exists>x. sys_threads s ! j = Return x) \<or>
      steps_left (length kvs + length calls) V (sys_threads s ! j) + count_list sched j \<le>
        6 * (length kvs + length calls) + 8 + waiting_turns hasher j sched (start t calls)"
    using get_left [OF assms(1,2) refl assms(4,5,3)] by blast
  have "\<exists>x. sys_threads s ! j = Return x"
  proof (cases "steps_left (length kvs + length calls) V (sys_threads s ! j) = 0")
    case False
    then have "\<not> steps_left (length kvs + length calls) V (sys_threads s ! j) + count_list sched j
        \<le> 6 * (length kvs + length calls) + 8 + waiting_turns hasher j sched (start t calls)"
      using assms(6) by linarith
    with left show ?thesis by blast
  qed (rule left_done)
  then obtain x where x: "sys_threads s ! j = Return x" by blast
  then have "\<exists>v. x = Got v" using reached_own [OF s assms(4)] assms(5) by (cases x) auto
  with x s show ?thesis unfolding reached_def by blast
qed

text \<open>
  In the instance the writer stops when it has the write mutex and the mutex of the buffer, and the reader
  returns all the same.
\<close>

theorem get_waits_only_to_free_witness:
  "\<exists>t s v. ConcurrentHashTable (\<lambda>_. 5) new_file = Inr t \<and>
    run (\<lambda>_. 5) (0 # 0 # replicate 20 1) (start t write_and_read) = Inr s \<and>
    sys_threads s ! 1 = Return (Got v)"
proof -
  obtain t where t: "ConcurrentHashTable (\<lambda>_. 5) new_file = Inr t" "table_at (\<lambda>_. 5) t []"
    using write_and_read_new [where hasher = "\<lambda>_. 5"] by blast
  let ?s = "\<lambda>pc. (start t write_and_read)\<lparr>sys_lock := Some 0, sys_mutex := Some 0,
    sys_threads := [Allocating [97] [98], pc]\<rparr>"
  let ?read = "replicate 20 (1 :: nat)"
  have read: "?read = 1 # 1 # replicate 18 1" by (simp add: numeral_eq_Suc)
  have steps: "step (\<lambda>_. 5) 0 (start t write_and_read) =
      Inr ((start t write_and_read)\<lparr>sys_lock := Some 0, sys_threads := [Allocate [97] [98], Get_call [97]]\<rparr>)"
    "step (\<lambda>_. 5) 0 ((start t write_and_read)\<lparr>sys_lock := Some 0, sys_threads := [Allocate [97] [98], Get_call [97]]\<rparr>) =
      Inr (?s (Get_call [97]))"
    "step (\<lambda>_. 5) 1 (?s (Get_call [97])) = Inr (?s (Lookup Reading [97]))"
    "step (\<lambda>_. 5) 1 (?s (Lookup Reading [97])) = Inr (?s (Return (Got [])))"
    using empty_slot [OF t(2)] by (simp_all add: step_def start_def write_and_read_def)
  have "run_admits (\<lambda>_. 5) ?read (?s (Get_call [97]))"
    by (rule settled_admits) simp
  then have admits: "run_admits (\<lambda>_. 5) (0 # 0 # ?read) (start t write_and_read)"
    using steps(1,2) by (simp add: step_admits_def start_def write_and_read_def)
  have "waiting_turns (\<lambda>_. 5) 1 (replicate 18 1) (?s (Return (Got []))) = 0"
    by (rule returned_waits_no_more) simp
  then have "waiting_turns (\<lambda>_. 5) 1 (0 # 0 # ?read) (start t write_and_read) = 0"
    unfolding read using steps by (simp add: waits_def start_def write_and_read_def)
  moreover have "count_list (replicate n (1 :: nat)) 1 = n" for n by (induction n) simp_all
  ultimately have "6 * (length ([] :: (str \<times> str) list) + length write_and_read) + 8 +
      waiting_turns (\<lambda>_. 5) 1 (0 # 0 # ?read) (start t write_and_read) \<le> count_list (0 # 0 # ?read) 1"
    by (simp add: write_and_read_ok)
  from get_waits_only_to_free [OF t(2) write_and_read_ok(1) admits _ _ this] t(1) show ?thesis
    by (fastforce simp: write_and_read_def)
qed

end
