(* ===== verification/Diagrammer.thy ===== *)
theory Diagrammer
  imports File_Backed_Buffer Font8x8
begin

text \<open>
  The usage diagram of \<open>src/src/lib/file_backed_buffer_diagrammer.cpp\<close>: an \<open>Image\<close> with a pixel for
  every four bytes of the buffer, the blocks plotted in colours and annotated with their sizes. A
  C \<open>int\<close> is an integer here, as the values stay small, except where the code converts from
  \<open>unsigned int\<close> or \<open>size_t\<close>. \<open>m_image[\<dots>]\<close> is an unchecked access: outside the vector it is
  \<open>OutOfBounds\<close>. The three floating-point results that fix the dimensions of the image are computed
  on natural numbers with the rounding of a 24-bit significand written out.
\<close>

section \<open>Constants\<close>

definition MAX_DIAGRAM_DIMENSION :: nat where [simp]: "MAX_DIAGRAM_DIMENSION = 12000"

definition NUM_BYTES_PER_PIXEL :: nat where [simp]: "NUM_BYTES_PER_PIXEL = 4"

definition NUM_CHANNELS :: nat where [simp]: "NUM_CHANNELS = 3"

type_synonym colour = "byte \<times> byte \<times> byte"

definition RGB_ANNOTATION :: colour where "RGB_ANNOTATION = (0xFF, 0xFF, 0xFF)"

definition RGB_OVERHEAD :: colour where "RGB_OVERHEAD = (0x90, 0xD5, 0xFF)"

definition RGB_DATA :: colour where "RGB_DATA = (0x2E, 0x6F, 0x40)"

definition RGB_UNUSED :: colour where "RGB_UNUSED = (0x55, 0x55, 0x55)"

section \<open>Image\<close>

record image =
  m_num_rows :: int
  m_num_cols :: int
  m_image :: "byte list"

text \<open>\<open>NUM_CHANNELS\<close> is \<open>unsigned\<close>, so the products with it are computed modulo \<open>2 ^ 32\<close>.\<close>

definition Image :: "int \<Rightarrow> int \<Rightarrow> image" where
  "Image num_rows num_cols =
    \<lparr>m_num_rows = num_rows, m_num_cols = num_cols,
     m_image = replicate (unat (3 * word_of_int num_rows * word_of_int num_cols :: 32 word)) 0\<rparr>"

definition xy_to_idx :: "image \<Rightarrow> int \<Rightarrow> int \<Rightarrow> int" where
  "xy_to_idx img x y =
    (if x < 0 \<or> m_num_cols img \<le> x then - 1
     else if y < 0 \<or> m_num_rows img \<le> y then - 1
     else y * m_num_cols img + x)"

definition idx_to_xy :: "image \<Rightarrow> int \<Rightarrow> int \<times> int" where
  "idx_to_xy img idx =
    (if idx < 0 \<or> m_num_rows img * m_num_cols img \<le> idx then (- 1, - 1)
     else (idx mod m_num_cols img, idx div m_num_cols img))"

definition store_image_byte :: "32 word \<Rightarrow> byte \<Rightarrow> image \<Rightarrow> image res" where
  "store_image_byte i c img =
    (if unat i < length (m_image img) then Inr (img\<lparr>m_image := (m_image img)[unat i := c]\<rparr>)
     else Inl OutOfBounds)"

definition set_pixel :: "int \<Rightarrow> colour \<Rightarrow> image \<Rightarrow> image res" where
  "set_pixel pixel_idx color img =
    (if pixel_idx < 0 then Inr img
     else
       (let i = word_of_int pixel_idx * 3 :: 32 word in
        and_then (store_image_byte i (fst color) img) (\<lambda>img.
        and_then (store_image_byte (i + 1) (fst (snd color)) img) (\<lambda>img.
        store_image_byte (i + 2) (snd (snd color)) img))))"

text \<open>The rows and columns of one character, and the characters of a text.\<close>

definition draw_char :: "int \<Rightarrow> int \<Rightarrow> colour \<Rightarrow> nat \<times> byte \<Rightarrow> image \<Rightarrow> image res" where
  "draw_char x_start y_start color ic img =
    (case ic of (i, c) \<Rightarrow>
     if unat c < length font8x8_basic then
       fold_res (\<lambda>y. fold_res (\<lambda>x img.
         if bit (font8x8_basic ! unat c ! y) x
         then set_pixel (xy_to_idx img (x_start + 8 * int i + int x) (y_start + int y)) color img
         else Inr img) [0 ..< 8]) [0 ..< 8] img
     else Inl OutOfBounds)"

definition draw_text :: "int \<Rightarrow> int \<Rightarrow> byte list \<Rightarrow> colour \<Rightarrow> image \<Rightarrow> image res" where
  "draw_text x_start y_start text color =
    fold_res (draw_char x_start y_start color) (enumerate 0 text)"

section \<open>The dimensions of the diagram\<close>

text \<open>The exponent of the leading bit, and an \<open>int\<close> converted to \<open>float\<close>, to nearest, ties to even.\<close>

fun log2_floor :: "nat \<Rightarrow> nat" where
  "log2_floor n = (if n < 2 then 0 else Suc (log2_floor (n div 2)))"

declare log2_floor.simps [simp del]

definition float_of_nat :: "nat \<Rightarrow> nat" where
  "float_of_nat n =
    (if n < 2 ^ 24 then n
     else
       (let u = 2 ^ (log2_floor n - 23); q = n div u; r = n mod u in
        if 2 * r < u \<or> (2 * r = u \<and> even q) then q * u else (q + 1) * u))"

text \<open>\<open>std::ceil(static_cast<float>(m_db_size) / 4.0f)\<close>; dividing by 4 is exact.\<close>

definition num_pixels :: "nat \<Rightarrow> nat" where
  "num_pixels db_size = (float_of_nat db_size + 3) div 4"

text \<open>
  \<open>std::ceil(std::sqrt(num_pixels))\<close>. Between \<open>k\<close> and \<open>k + 1\<close> the root is rounded down to \<open>k\<close> if it
  is less than half a unit in the last place above \<open>k\<close>; it never lies on the half, as the root of a
  natural number that is no square is irrational.
\<close>

fun sqrt_floor_from :: "nat \<Rightarrow> nat \<Rightarrow> nat \<Rightarrow> nat" where
  "sqrt_floor_from 0 k n = k"
| "sqrt_floor_from (Suc b) k n =
    (if (k + 2 ^ b) * (k + 2 ^ b) \<le> n then sqrt_floor_from b (k + 2 ^ b) n else sqrt_floor_from b k n)"

definition diagram_dimension :: "nat \<Rightarrow> nat" where
  "diagram_dimension pixels =
    (let k = sqrt_floor_from 16 0 pixels in
     if k * k = pixels then k
     else if pixels * 2 ^ 48 < (k * 2 ^ 24 + 2 ^ log2_floor k) ^ 2 then k
     else k + 1)"

text \<open>\<open>std::ceil(num_pixels / num_cols)\<close>, with the quotient rounded to a \<open>float\<close>.\<close>

definition diagram_rows :: "nat \<Rightarrow> nat \<Rightarrow> nat" where
  "diagram_rows pixels num_cols =
    (let k = pixels div num_cols; r = pixels mod num_cols in
     if r = 0 then k
     else if r * 2 ^ 24 \<le> num_cols * 2 ^ log2_floor k \<and> 0 < k then k
     else k + 1)"

section \<open>Plotting\<close>

text \<open>An \<open>unsigned int\<close> passed as an \<open>int\<close>.\<close>

definition to_int :: "32 word \<Rightarrow> int" where
  "to_int w = sint w"

text \<open>A loop over \<open>n\<close> pixels.\<close>

definition plot_pixels :: "32 word \<Rightarrow> nat \<Rightarrow> colour \<Rightarrow> image \<Rightarrow> image res" where
  "plot_pixels pixel_offset n color =
    fold_res (\<lambda>i. set_pixel (to_int (pixel_offset + word_of_nat i)) color) [0 ..< n]"

text \<open>The loop over the used or the free blocks: the header of each block, then its data.\<close>

fun plot_blocks :: "nat \<Rightarrow> colour \<Rightarrow> mapping \<Rightarrow> u64 \<Rightarrow> image \<Rightarrow> image res" where
  "plot_blocks fuel color m cur img =
    (if cur = NULL_OFFSET then Inr img
     else case fuel of
       0 \<Rightarrow> Inl Diverges
     | Suc fuel' \<Rightarrow>
         and_then (plot_pixels (word_of_nat (unat cur div 4)) 6 RGB_OVERHEAD img) (\<lambda>img.
         and_then (data_size m cur) (\<lambda>size.
         and_then (plot_pixels (word_of_nat (unat (cur + sizeof_Block) div 4)) (unat size div 4) color img) (\<lambda>img.
         and_then (next_block_offset m cur) (\<lambda>cur.
         plot_blocks fuel' color m cur img)))))"

declare plot_blocks.simps [simp del]

text \<open>\<open>snprintf\<close> with \<open>%luB\<close> behind a letter and a colon; the buffer of 64 characters always suffices.\<close>

fun decimal :: "nat \<Rightarrow> byte list" where
  "decimal n = (if n < 10 then [48 + word_of_nat n] else decimal (n div 10) @ [48 + word_of_nat (n mod 10)])"

declare decimal.simps [simp del]

definition annotation :: "byte \<Rightarrow> u64 \<Rightarrow> byte list" where
  "annotation letter bytes = [letter, 58] @ decimal (unat bytes) @ [66]"

fun annotate_blocks :: "nat \<Rightarrow> byte \<Rightarrow> mapping \<Rightarrow> u64 \<Rightarrow> image \<Rightarrow> image res" where
  "annotate_blocks fuel letter m cur img =
    (if cur = NULL_OFFSET then Inr img
     else case fuel of
       0 \<Rightarrow> Inl Diverges
     | Suc fuel' \<Rightarrow>
         (let pixel_offset = word_of_nat (unat (cur + sizeof_Block) div 4) :: 32 word;
              (x, y) = idx_to_xy img (to_int (pixel_offset + 1)) in
          and_then (data_size m cur) (\<lambda>size.
          and_then (draw_text x y (annotation letter size) RGB_ANNOTATION img) (\<lambda>img.
          and_then (next_block_offset m cur) (\<lambda>cur.
          annotate_blocks fuel' letter m cur img)))))"

declare annotate_blocks.simps [simp del]

text \<open>
  \<open>dump_usage\<close> up to the call of the PNG encoder: \<open>None\<close> if the buffer is too big for a diagram,
  otherwise the image. The lists are read from the mapping.
\<close>

definition plot_usage :: "mapping \<Rightarrow> image \<Rightarrow> image res" where
  "plot_usage m img =
    and_then (plot_pixels 0 4 RGB_OVERHEAD img) (\<lambda>img.
    and_then (load64 m next_used_block_offset) (\<lambda>cur.
    and_then (plot_blocks (length m) RGB_DATA m cur img) (\<lambda>img.
    and_then (load64 m next_free_block_offset) (\<lambda>cur.
    plot_blocks (length m) RGB_UNUSED m cur img))))"

definition annotate_usage :: "mapping \<Rightarrow> image \<Rightarrow> image res" where
  "annotate_usage m img =
    and_then (load64 m next_used_block_offset) (\<lambda>cur.
    and_then (annotate_blocks (length m) 85 m cur img) (\<lambda>img.
    and_then (load64 m next_free_block_offset) (\<lambda>cur.
    annotate_blocks (length m) 70 m cur img)))"

definition usage_diagram :: "file_backed_buffer \<Rightarrow> image option res" where
  "usage_diagram buf =
    (let pixels = num_pixels (nat (sint (m_db_size buf)));
         num_cols = diagram_dimension pixels in
     if MAX_DIAGRAM_DIMENSION < num_cols then Inr None
     else
       (let num_rows = diagram_rows pixels num_cols in
        and_then (plot_usage (m_base buf) (Image (int num_rows) (int num_cols))) (\<lambda>img.
        and_then (annotate_usage (m_base buf) img) (\<lambda>img. Inr (Some img)))))"

end
