(* ===== verification/Diagram_Proofs.thy ===== *)
theory Diagram_Proofs
  imports Diagrammer Buffer_Open
begin

text \<open>
  What the diagrammer draws and when it stays inside its image. \<open>image_ok\<close> says that the vector of an
  image has three bytes for each pixel; a pixel index below the number of pixels is then safe, and
  so is every index \<open>draw_text\<close> computes.
\<close>

section \<open>Pixels\<close>

definition image_ok :: "image \<Rightarrow> bool" where
  "image_ok img \<longleftrightarrow> 0 \<le> m_num_rows img \<and> 0 \<le> m_num_cols img \<and>
    3 * (m_num_rows img * m_num_cols img) < 2 ^ 32 \<and>
    int (length (m_image img)) = 3 * (m_num_rows img * m_num_cols img)"

abbreviation shape :: "image \<Rightarrow> int \<times> int \<times> nat" where
  "shape img \<equiv> (m_num_rows img, m_num_cols img, length (m_image img))"

abbreviation num_pixels_of :: "image \<Rightarrow> int" where
  "num_pixels_of img \<equiv> m_num_rows img * m_num_cols img"

lemma image_ok_shape: "shape img' = shape img \<Longrightarrow> image_ok img' = image_ok img"
  by (simp add: image_ok_def)

lemma image_ok_length:
  assumes "image_ok img"
  shows "length (m_image img) = 3 * nat (num_pixels_of img)"
proof -
  have "0 \<le> num_pixels_of img" "int (length (m_image img)) = 3 * num_pixels_of img"
    using assms by (simp_all add: image_ok_def)
  then have "int (length (m_image img)) = int (3 * nat (num_pixels_of img))" by simp
  then show ?thesis by (simp only: of_nat_eq_iff)
qed

lemma triple_distinct: "a \<noteq> b \<Longrightarrow> k < 3 \<Longrightarrow> l < 3 \<Longrightarrow> 3 * a + k \<noteq> 3 * b + (l :: nat)"
  by presburger

lemma triple_bound: "a < b \<Longrightarrow> 3 * a + 2 < 3 * (b :: nat)"
  by simp

lemma pixel_index_bound:
  assumes "image_ok img" and "0 \<le> j" and "j < num_pixels_of img"
  shows "3 * nat j + 2 < length (m_image img)" "3 * j + 2 < 2 ^ 32"
proof -
  have "nat j < nat (num_pixels_of img)" using assms(2,3) by (simp only: nat_less_eq_zless)
  then show "3 * nat j + 2 < length (m_image img)"
    unfolding image_ok_length [OF assms(1)] by (rule triple_bound)
  show "3 * j + 2 < 2 ^ 32" using assms by (simp add: image_ok_def)
qed

definition pixel_at :: "image \<Rightarrow> int \<Rightarrow> colour" where
  "pixel_at img i =
    (m_image img ! (3 * nat i), m_image img ! (3 * nat i + 1), m_image img ! (3 * nat i + 2))"

lemma Image_ok:
  assumes "0 \<le> rows" and "0 \<le> cols" and "3 * (rows * cols) < 2 ^ 32"
  shows "image_ok (Image rows cols)"
proof -
  have "(3 * word_of_int rows * word_of_int cols :: 32 word) = word_of_int (3 * (rows * cols))"
    by simp
  moreover have "int (unat (word_of_int (3 * (rows * cols)) :: 32 word)) = 3 * (rows * cols)"
    using assms by (simp only: uint_nat [symmetric] uint_word_of_int) simp
  ultimately show ?thesis
    using assms by (simp only: image_ok_def Image_def image.simps length_replicate)
qed

lemma channel_index:
  assumes "0 \<le> i" and "3 * i + int k < 2 ^ 32"
  shows "unat (word_of_int i * 3 + word_of_nat k :: 32 word) = 3 * nat i + k"
proof -
  have "(word_of_int i * 3 + word_of_nat k :: 32 word) = word_of_nat (3 * nat i + k)"
    using assms(1) by (simp add: mult.commute)
  moreover have "3 * nat i + k < 2 ^ 32" using assms by simp
  ultimately show ?thesis by (simp only: unat_of_nat take_bit_nat_eq_self) (simp add: take_bit_nat_eq_self)
qed

lemma set_pixel_exec:
  assumes ok: "image_ok img" and i: "0 \<le> i" "i < num_pixels_of img"
  shows "set_pixel i (r, g, b) img = Inr (img\<lparr>m_image :=
    (m_image img)[3 * nat i := r, 3 * nat i + 1 := g, 3 * nat i + 2 := b]\<rparr>)"
proof -
  have len: "3 * nat i + 2 < length (m_image img)" "3 * i + 2 < 2 ^ 32"
    using pixel_index_bound [OF ok i] by simp_all
  have "unat (word_of_int i * 3 :: 32 word) = 3 * nat i" "unat (word_of_int i * 3 + 1 :: 32 word) = 3 * nat i + 1"
    "unat (word_of_int i * 3 + 2 :: 32 word) = 3 * nat i + 2"
    using channel_index [of i 0] channel_index [of i 1] channel_index [of i 2] i(1) len(2) by simp_all
  with len i(1) show ?thesis by (simp add: set_pixel_def store_image_byte_def Let_def)
qed

lemma set_pixel_works:
  assumes ok: "image_ok img" and i: "i < num_pixels_of img"
  shows "\<exists>img'. set_pixel i c img = Inr img' \<and> shape img' = shape img \<and>
    (\<forall>j. 0 \<le> j \<and> j < num_pixels_of img \<longrightarrow> pixel_at img' j = (if j = i then c else pixel_at img j))"
proof (cases "i < 0")
  case True
  then show ?thesis by (auto simp: set_pixel_def)
next
  case False
  obtain r g b where c: "c = (r, g, b)" by (cases c)
  let ?img = "img\<lparr>m_image := (m_image img)[3 * nat i := r, 3 * nat i + 1 := g, 3 * nat i + 2 := b]\<rparr>"
  have len: "3 * nat j + 2 < length (m_image img)" if "0 \<le> j" "j < num_pixels_of img" for j
    using pixel_index_bound(1) [OF ok that] .
  have "pixel_at ?img j = (if j = i then c else pixel_at img j)" if "0 \<le> j" "j < num_pixels_of img" for j
  proof (cases "j = i")
    case True
    then show ?thesis using len [of i] False i by (simp add: pixel_at_def c nth_list_update)
  next
    case ne: False
    then have "nat j \<noteq> nat i" using that False by simp
    from triple_distinct [OF this]
    have "3 * nat j + k \<noteq> 3 * nat i + l" if "k < 3" "l < 3" for k l using that by blast
    from this [of 0 0] this [of 0 1] this [of 0 2] this [of 1 0] this [of 1 1] this [of 1 2]
      this [of 2 0] this [of 2 1] this [of 2 2] ne show ?thesis
      by (simp add: pixel_at_def)
  qed
  then show ?thesis using set_pixel_exec [OF ok _ i, of r g b] False c by (intro exI [of _ ?img]) auto
qed

lemma set_pixel_out_of_bounds:
  assumes "image_ok img" and "num_pixels_of img \<le> i" and "3 * i < 2 ^ 32"
  shows "set_pixel i c img = Inl OutOfBounds"
proof -
  have "0 \<le> i" using assms(1,2) mult_nonneg_nonneg [of "m_num_rows img" "m_num_cols img"]
    by (simp add: image_ok_def)
  moreover have "unat (word_of_int i * 3 :: 32 word) = 3 * nat i"
    using channel_index [of i 0] assms(3) \<open>0 \<le> i\<close> by simp
  moreover have "length (m_image img) \<le> 3 * nat i"
    using assms(2) by (simp add: image_ok_length [OF assms(1)])
  ultimately show ?thesis by (simp add: set_pixel_def store_image_byte_def Let_def)
qed

section \<open>Text\<close>

lemma xy_to_idx_bound:
  assumes "0 \<le> m_num_rows img" and "0 \<le> m_num_cols img"
  shows "xy_to_idx img x y < num_pixels_of img \<or> xy_to_idx img x y = - 1"
proof (cases "xy_to_idx img x y = - 1")
  case False
  then have b: "0 \<le> x" "x < m_num_cols img" "0 \<le> y" "y < m_num_rows img"
    by (auto simp: xy_to_idx_def split: if_splits)
  have "y * m_num_cols img + x < (y + 1) * m_num_cols img" using b by (simp add: distrib_right)
  also have "\<dots> \<le> num_pixels_of img" using b by (intro mult_right_mono) simp_all
  finally show ?thesis using b by (simp add: xy_to_idx_def)
qed simp

lemma xy_idx_roundtrip:
  assumes "0 \<le> x" and "x < m_num_cols img" and "0 \<le> y" and "y < m_num_rows img"
  shows "idx_to_xy img (xy_to_idx img x y) = (x, y)"
proof -
  have i: "xy_to_idx img x y = y * m_num_cols img + x" using assms by (simp add: xy_to_idx_def)
  moreover have "0 \<le> y * m_num_cols img + x" using assms by simp
  moreover have "y * m_num_cols img + x < num_pixels_of img"
    using xy_to_idx_bound [of img x y] assms i calculation(2) by simp
  moreover have "(y * m_num_cols img + x) mod m_num_cols img = x" "(y * m_num_cols img + x) div m_num_cols img = y"
    using assms by simp_all
  ultimately show ?thesis by (simp add: idx_to_xy_def)
qed

lemma draw_char_works:
  assumes ok: "image_ok img" and c: "unat c < 128"
  shows "\<exists>img'. draw_char x y col (i, c) img = Inr img' \<and> shape img' = shape img"
proof -
  have pix: "\<exists>img'. (if bit w x' then set_pixel (xy_to_idx img1 (x + 8 * int i + int x') (y + int y')) col img1
      else Inr img1) = Inr img' \<and> shape img' = shape img" if s: "shape img1 = shape img" for img1 x' y' and w :: byte
  proof -
    have ok1: "image_ok img1" using image_ok_shape [OF s] ok by simp
    have "0 \<le> num_pixels_of img1" using ok1 by (simp add: image_ok_def)
    then have "xy_to_idx img1 (x + 8 * int i + int x') (y + int y') < num_pixels_of img1"
      using xy_to_idx_bound [of img1 "x + 8 * int i + int x'" "y + int y'"] ok1
      by (auto simp: image_ok_def)
    from set_pixel_works [OF ok1 this, of col] s show ?thesis by auto
  qed
  have row: "\<exists>img'. fold_res (\<lambda>x' img. if bit w x'
      then set_pixel (xy_to_idx img (x + 8 * int i + int x') (y + int y')) col img else Inr img) [0 ..< 8] img1
      = Inr img' \<and> shape img' = shape img" if s: "shape img1 = shape img" for img1 y' and w :: byte
    by (rule fold_res_inv [where I = "\<lambda>img'. shape img' = shape img"]) (use s pix in auto)
  have "\<exists>img'. fold_res (\<lambda>y'. fold_res (\<lambda>x' img. if bit (font8x8_basic ! unat c ! y') x'
      then set_pixel (xy_to_idx img (x + 8 * int i + int x') (y + int y')) col img else Inr img) [0 ..< 8])
      [0 ..< 8] img = Inr img' \<and> shape img' = shape img"
    by (rule fold_res_inv [where I = "\<lambda>img'. shape img' = shape img"]) (use row in auto)
  then show ?thesis using c by (simp add: draw_char_def)
qed

lemma draw_text_works:
  assumes ok: "image_ok img" and ascii: "\<forall>c \<in> set text. unat c < 128"
  shows "\<exists>img'. draw_text x y text col img = Inr img' \<and> shape img' = shape img"
  unfolding draw_text_def
proof (rule fold_res_inv [where I = "\<lambda>img'. shape img' = shape img"])
  fix ic img1 assume ic: "ic \<in> set (enumerate 0 text)" and s: "shape img1 = shape img"
  obtain i c where "ic = (i, c)" by (cases ic)
  moreover from this ic have "c \<in> set text" by (auto simp: in_set_enumerate_eq simp del: in_set_conv_decomp)
  moreover have "image_ok img1" using image_ok_shape [OF s] ok by simp
  ultimately show "\<exists>img'. draw_char x y col ic img1 = Inr img' \<and> shape img' = shape img"
    using draw_char_works [of img1 c x y col i] ascii s by auto
qed simp

lemma decimal_ascii: "c \<in> set (decimal n) \<Longrightarrow> unat c < 128"
proof (induction n rule: decimal.induct)
  case (1 n)
  have digit: "unat (48 + word_of_nat k :: byte) < 128" if "k < 10" for k
  proof -
    have "(48 + word_of_nat k :: byte) = word_of_nat (48 + k)" by simp
    moreover have "48 + k < 2 ^ 8" using that by simp
    ultimately have "unat (48 + word_of_nat k :: byte) = 48 + k"
      by (simp only: unat_of_nat take_bit_nat_eq_self) (simp add: take_bit_nat_eq_self)
    then show ?thesis using that by simp
  qed
  show ?case
  proof (cases "n < 10")
    case True
    then show ?thesis using 1 digit by (simp add: decimal.simps [of n])
  next
    case False
    then show ?thesis using 1 digit [of "n mod 10"] by (auto simp: decimal.simps [of n])
  qed
qed

lemma annotation_ascii: "unat letter < 128 \<Longrightarrow> \<forall>c \<in> set (annotation letter n). unat c < 128"
  using decimal_ascii by (auto simp: annotation_def)

section \<open>Plotting\<close>

lemma to_int_nat: "k < 2 ^ 31 \<Longrightarrow> to_int (word_of_nat k) = int k"
  using sint_word32 [of k] by (simp add: to_int_def)

lemma image_ok_small: "image_ok img \<Longrightarrow> num_pixels_of img < 2 ^ 31"
  by (simp add: image_ok_def)

lemma plot_pixels_works:
  assumes ok: "image_ok img" and fit: "int (start + n) \<le> num_pixels_of img"
  shows "\<exists>img'. plot_pixels (word_of_nat start) n c img = Inr img' \<and> shape img' = shape img \<and>
    (\<forall>j. 0 \<le> j \<and> j < num_pixels_of img \<longrightarrow> pixel_at img' j =
      (if int start \<le> j \<and> j < int (start + n) then c else pixel_at img j))"
  using fit
proof (induction n)
  case 0
  then show ?case by (auto simp: plot_pixels_def)
next
  case (Suc n)
  then obtain img1 where img1: "plot_pixels (word_of_nat start) n c img = Inr img1" "shape img1 = shape img"
    "\<forall>j. 0 \<le> j \<and> j < num_pixels_of img \<longrightarrow> pixel_at img1 j =
      (if int start \<le> j \<and> j < int (start + n) then c else pixel_at img j)" by auto
  have ok1: "image_ok img1" using image_ok_shape [OF img1(2)] ok by simp
  have idx: "to_int (word_of_nat start + word_of_nat n) = int (start + n)"
    using to_int_nat [of "start + n"] image_ok_small [OF ok] Suc.prems by simp
  have "int (start + n) < num_pixels_of img1" using Suc.prems img1(2) by simp
  from set_pixel_works [OF ok1 this, of c] obtain img2 where img2:
    "set_pixel (int (start + n)) c img1 = Inr img2" "shape img2 = shape img1"
    "\<forall>j. 0 \<le> j \<and> j < num_pixels_of img1 \<longrightarrow> pixel_at img2 j = (if j = int (start + n) then c else pixel_at img1 j)"
    by blast
  have "plot_pixels (word_of_nat start) (Suc n) c img = Inr img2"
    using img1(1) img2(1) idx by (simp add: plot_pixels_def fold_res_append)
  then show ?case using img1(2,3) img2(2,3) by (intro exI [of _ img2]) auto
qed

lemma plot_pixels_out_of_bounds:
  assumes ok: "image_ok img" and P: "num_pixels_of img = int P"
    and over: "start \<le> P" "P < start + n" and small: "3 * P < 2 ^ 32"
  shows "plot_pixels (word_of_nat start) n c img = Inl OutOfBounds"
proof -
  define a where "a = P - start"
  have "a < n" using over by (simp add: a_def)
  from less_imp_Suc_add [OF this] obtain k where n: "n = a + Suc k" by auto
  have upt: "[0 ..< n] = [0 ..< a] @ a # [Suc a ..< n]"
    unfolding n by (metis add_Suc_right le_add1 less_add_Suc1 upt_add_eq_append upt_conv_Cons zero_le)
  have "int (start + a) \<le> num_pixels_of img" using over P by (simp add: a_def)
  from plot_pixels_works [OF ok this, of c] obtain img1 where img1:
    "plot_pixels (word_of_nat start) a c img = Inr img1" "shape img1 = shape img" by blast
  have ok1: "image_ok img1" using image_ok_shape [OF img1(2)] ok by simp
  have "to_int (word_of_nat start + word_of_nat a) = int P"
    using to_int_nat [of P] small over by (simp add: a_def flip: of_nat_add)
  moreover have "set_pixel (int P) c img1 = Inl OutOfBounds"
    using img1(2) P small by (intro set_pixel_out_of_bounds [OF ok1]) simp_all
  ultimately show ?thesis using img1(1) unfolding plot_pixels_def upt fold_res_append by simp
qed

text \<open>
  What plotting a block does to one pixel: the header takes six pixels, the data the next
  \<open>size div 4\<close>. The pixels of blocks that do not overlap are different ones.
\<close>

definition first_pixel :: "block \<Rightarrow> int" where "first_pixel x = int (fst x div 4)"

definition data_pixels :: "block \<Rightarrow> int" where "data_pixels x = int (snd x div 4)"

definition paint :: "colour \<Rightarrow> block \<Rightarrow> int \<Rightarrow> colour \<Rightarrow> colour" where
  "paint c x j old =
    (if first_pixel x + 6 \<le> j \<and> j < first_pixel x + 6 + data_pixels x then c
     else if first_pixel x \<le> j \<and> j < first_pixel x + 6 then RGB_OVERHEAD else old)"

definition pixels_of :: "block \<Rightarrow> int set" where
  "pixels_of x = {first_pixel x ..< first_pixel x + 6 + data_pixels x}"

lemma data_pixels_nonneg: "0 \<le> data_pixels x"
  by (simp add: data_pixels_def)

lemma paint_outside: "j \<notin> pixels_of x \<Longrightarrow> paint c x j old = old"
  using data_pixels_nonneg [of x] unfolding paint_def pixels_of_def by auto

lemma paint_inside: "j \<in> pixels_of x \<Longrightarrow> paint c x j old = paint c x j old'"
  unfolding paint_def pixels_of_def by auto

lemma sep_blocks_pixels: "sep_blocks x y \<Longrightarrow> pixels_of x \<inter> pixels_of y = {}"
proof -
  have less: "b div 4 + 6 + s div 4 \<le> c div 4" if "b + 24 + s \<le> c" for b s c :: nat
  proof -
    have "b div 4 * 4 \<le> b" "s div 4 * 4 \<le> s" by simp_all
    then have "(b div 4 + 6 + s div 4) * 4 \<le> c" using that unfolding distrib_right by linarith
    then show ?thesis by (simp only: less_eq_div_iff_mult_less_eq zero_less_numeral)
  qed
  have "first_pixel x + 6 + data_pixels x \<le> first_pixel y" if "fst x + 24 + snd x \<le> fst y" for x y
    using less [OF that] unfolding first_pixel_def data_pixels_def by linarith
  moreover assume "sep_blocks x y"
  ultimately have "first_pixel x + 6 + data_pixels x \<le> first_pixel y \<or>
      first_pixel y + 6 + data_pixels y \<le> first_pixel x"
    unfolding sep_blocks_def by blast
  then show ?thesis by (auto simp: pixels_of_def)
qed

lemma fold_paint_outside:
  "\<forall>x \<in> set xs. j \<notin> pixels_of x \<Longrightarrow> fold (\<lambda>x. paint c x j) xs old = old"
  by (induction xs arbitrary: old) (simp_all add: paint_outside)

lemma fold_paint_inside:
  assumes "sorted_wrt sep_blocks xs" and "x \<in> set xs" and "j \<in> pixels_of x"
  shows "fold (\<lambda>x. paint c x j) xs old = paint c x j old'"
  using assms
proof (induction xs arbitrary: old)
  case (Cons y ys)
  show ?case
  proof (cases "y = x")
    case True
    then have "\<forall>z \<in> set ys. j \<notin> pixels_of z" using Cons.prems sep_blocks_pixels by fastforce
    then show ?thesis using True Cons.prems(3) paint_inside [of j x c old old']
      by (simp add: fold_paint_outside)
  next
    case False
    then show ?thesis using Cons by simp
  qed
qed simp

lemma plot_blocks_works:
  assumes "seg (rd m) p a xs 0" and "\<forall>x \<in> set xs. 16 \<le> fst x \<and> fst x + 24 + snd x \<le> length m"
    and "length m < 2 ^ 31" and "length xs \<le> fuel"
    and "image_ok img" and "int (length m div 4) \<le> num_pixels_of img"
  shows "\<exists>img'. plot_blocks fuel c m (u64 a) img = Inr img' \<and> shape img' = shape img \<and>
    (\<forall>j. 0 \<le> j \<and> j < num_pixels_of img \<longrightarrow>
      pixel_at img' j = fold (\<lambda>x. paint c x j) xs (pixel_at img j))"
  using assms
proof (induction xs arbitrary: p a fuel img)
  case Nil
  then show ?case by (simp add: plot_blocks.simps)
next
  case (Cons x xs)
  obtain b s where x: "x = (b, s)" by (cases x)
  obtain fuel' where fuel: "fuel = Suc fuel'" using Cons.prems(4) by (cases fuel) auto
  have b: "a = b" "b + 24 + s \<le> length m" "16 \<le> b" "rd m (b + 16) = s"
    and rest: "seg (rd m) b (rd m (b + 8)) xs 0" using Cons.prems(1,2) x by auto
  have u: "u64 b \<noteq> 0"
  proof -
    have "b < 2 ^ 64" "b \<noteq> 0" using b(2,3) Cons.prems(3) by simp_all
    then show ?thesis by (simp only: u64_eq_0 not_False_eq_True)
  qed
  have un: "unat (u64 b) = b" "unat (u64 b + sizeof_Block) = b + 24" "unat (u64 s) = s"
    using b(2) Cons.prems(3) u64_unat [of b] u64_unat [of "b + 24"] u64_unat [of s] by simp_all
  have "int (b div 4 + 6) \<le> num_pixels_of img" "int ((b + 24) div 4 + s div 4) \<le> num_pixels_of img"
    using b(2) Cons.prems(6) by linarith+
  from plot_pixels_works [OF Cons.prems(5) this(1), of RGB_OVERHEAD] this(2) obtain img1 where
    img1: "plot_pixels (word_of_nat (b div 4)) 6 RGB_OVERHEAD img = Inr img1" "shape img1 = shape img"
      "\<forall>j. 0 \<le> j \<and> j < num_pixels_of img \<longrightarrow> pixel_at img1 j =
        (if int (b div 4) \<le> j \<and> j < int (b div 4 + 6) then RGB_OVERHEAD else pixel_at img j)"
    and fit: "int ((b + 24) div 4 + s div 4) \<le> num_pixels_of img1" by auto
  have ok1: "image_ok img1" using image_ok_shape [OF img1(2)] Cons.prems(5) by simp
  from plot_pixels_works [OF this fit, of c] obtain img2 where
    img2: "plot_pixels (word_of_nat ((b + 24) div 4)) (s div 4) c img1 = Inr img2" "shape img2 = shape img"
      "\<forall>j. 0 \<le> j \<and> j < num_pixels_of img \<longrightarrow> pixel_at img2 j =
        (if int ((b + 24) div 4) \<le> j \<and> j < int ((b + 24) div 4 + s div 4) then c else pixel_at img1 j)"
    using img1(2) by auto
  have ok2: "image_ok img2" using image_ok_shape [OF img2(2)] Cons.prems(5) by simp
  have "\<exists>img'. plot_blocks fuel' c m (u64 (rd m (b + 8))) img2 = Inr img' \<and> shape img' = shape img2 \<and>
    (\<forall>j. 0 \<le> j \<and> j < num_pixels_of img2 \<longrightarrow>
      pixel_at img' j = fold (\<lambda>x. paint c x j) xs (pixel_at img2 j))"
    using Cons.prems rest fuel ok2 img2(2) by (intro Cons.IH) auto
  then obtain img' where img': "plot_blocks fuel' c m (u64 (rd m (b + 8))) img2 = Inr img'"
    "shape img' = shape img2" "\<forall>j. 0 \<le> j \<and> j < num_pixels_of img2 \<longrightarrow>
      pixel_at img' j = fold (\<lambda>x. paint c x j) xs (pixel_at img2 j)" by blast
  have run: "plot_blocks fuel c m (u64 a) img = Inr img'"
    using u un img1(1) img2(1) img'(1) block_reads [of b m] b Cons.prems(3)
    by (simp add: plot_blocks.simps [of "Suc fuel'"] fuel)
  have "pixel_at img' j = fold (\<lambda>x. paint c x j) (x # xs) (pixel_at img j)"
    if "0 \<le> j" "j < num_pixels_of img" for j
  proof -
    have "first_pixel x = int (b div 4)" "data_pixels x = int (s div 4)" "(b + 24) div 4 = b div 4 + 6"
      by (simp_all add: first_pixel_def data_pixels_def x)
    then have "pixel_at img2 j = paint c x j (pixel_at img j)"
      using img1(3) img2(3) that by (simp only: paint_def of_nat_add) simp
    then show ?thesis using that img'(3) img2(2) by simp
  qed
  then show ?case using run img'(2) img2(2) by auto
qed

lemma annotate_blocks_works:
  assumes "seg (rd m) p a xs 0" and "\<forall>x \<in> set xs. 16 \<le> fst x \<and> fst x + 24 + snd x \<le> length m"
    and "length m < 2 ^ 31" and "length xs \<le> fuel" and "image_ok img" and "unat letter < 128"
  shows "\<exists>img'. annotate_blocks fuel letter m (u64 a) img = Inr img' \<and> shape img' = shape img"
  using assms
proof (induction xs arbitrary: p a fuel img)
  case Nil
  then show ?case by (simp add: annotate_blocks.simps)
next
  case (Cons x xs)
  obtain b s where x: "x = (b, s)" by (cases x)
  obtain fuel' where fuel: "fuel = Suc fuel'" using Cons.prems(4) by (cases fuel) auto
  have b: "a = b" "b + 24 + s \<le> length m" "16 \<le> b" "rd m (b + 16) = s"
    and rest: "seg (rd m) b (rd m (b + 8)) xs 0" using Cons.prems(1,2) x by auto
  have u: "u64 b \<noteq> 0"
  proof -
    have "b < 2 ^ 64" "b \<noteq> 0" using b(2,3) Cons.prems(3) by simp_all
    then show ?thesis by (simp only: u64_eq_0 not_False_eq_True)
  qed
  obtain xx yy where xy: "idx_to_xy img (to_int (word_of_nat (unat (u64 b + sizeof_Block) div 4) + 1)) = (xx, yy)"
    by fastforce
  obtain img1 where img1: "draw_text xx yy (annotation letter (u64 s)) RGB_ANNOTATION img = Inr img1"
    "shape img1 = shape img"
    using draw_text_works [OF Cons.prems(5) annotation_ascii [OF Cons.prems(6)]] by blast
  have ok1: "image_ok img1" using image_ok_shape [OF img1(2)] Cons.prems(5) by simp
  have "\<exists>img'. annotate_blocks fuel' letter m (u64 (rd m (b + 8))) img1 = Inr img' \<and> shape img' = shape img1"
    using Cons.prems rest fuel ok1 by (intro Cons.IH) auto
  moreover have "data_size m (u64 b) = Inr (u64 s)" "next_block_offset m (u64 b) = Inr (u64 (rd m (b + 8)))"
    using b Cons.prems(3) by (simp_all add: block_reads)
  ultimately show ?case
    using u xy img1 by (auto simp: annotate_blocks.simps [of "Suc fuel'"] fuel b(1) Let_def)
qed

section \<open>The diagram of a heap\<close>

lemma num_blocks_fit:
  assumes "blocks_ok L xs"
  shows "length xs \<le> L"
proof -
  have "24 * length ys \<le> total ys" for ys by (induction ys) (simp_all add: total_def)
  from this [of xs] show ?thesis using assms by (simp add: blocks_ok_def)
qed

lemma heap_at_lists:
  assumes at: "heap_at m fs us"
  shows "length m < 2 ^ 31" "16 \<le> length m" "length fs \<le> length m" "length us \<le> length m"
    "load64 m next_free_block_offset = Inr (u64 (rd m 0))"
    "load64 m next_used_block_offset = Inr (u64 (rd m 8))"
    "sorted_wrt sep_blocks (fs @ us)"
proof -
  have ok: "blocks_ok (length m) (fs @ us)" "length m < 2 ^ 31"
    using at by (simp_all add: heap_at_def heap_ok_def)
  from num_blocks_fit [OF ok(1)] show "length m < 2 ^ 31" "length fs \<le> length m" "length us \<le> length m"
    using ok(2) by simp_all
  show "sorted_wrt sep_blocks (fs @ us)" using ok(1) by (simp only: blocks_ok_def)
  show "16 \<le> length m" using ok(1) by (simp add: blocks_ok_def)
  then show "load64 m next_free_block_offset = Inr (u64 (rd m 0))"
    "load64 m next_used_block_offset = Inr (u64 (rd m 8))"
    using load64_u64 [of 0 m] load64_u64 [of 8 m] ok(2) by simp_all
qed

lemma plot_usage_works:
  assumes at: "heap_at m fs us" and ok: "image_ok img" and fit: "int (length m div 4) \<le> num_pixels_of img"
  shows "\<exists>img'. plot_usage m img = Inr img' \<and> shape img' = shape img \<and>
    (\<forall>j. 0 \<le> j \<and> j < num_pixels_of img \<longrightarrow> pixel_at img' j =
      fold (\<lambda>x. paint RGB_UNUSED x j) fs (fold (\<lambda>x. paint RGB_DATA x j) us
        (if j < 4 then RGB_OVERHEAD else pixel_at img j)))"
proof -
  note D = heap_at_lists [OF at]
  have "4 \<le> length m div 4" using D(2) by linarith
  then have "int (0 + 4) \<le> num_pixels_of img" using fit by linarith
  from plot_pixels_works [OF ok this, of RGB_OVERHEAD] obtain img1 where
    img1: "plot_pixels 0 4 RGB_OVERHEAD img = Inr img1" "shape img1 = shape img"
      "\<forall>j. 0 \<le> j \<and> j < num_pixels_of img \<longrightarrow>
        pixel_at img1 j = (if j < 4 then RGB_OVERHEAD else pixel_at img j)" by auto
  have ok1: "image_ok img1" using image_ok_shape [OF img1(2)] ok by simp
  have us: "\<forall>x \<in> set us. 16 \<le> fst x \<and> fst x + 24 + snd x \<le> length m"
    and fs: "\<forall>x \<in> set fs. 16 \<le> fst x \<and> fst x + 24 + snd x \<le> length m"
    using heap_at_D(8) [OF at] by simp_all
  have fit1: "int (length m div 4) \<le> num_pixels_of img1" using fit img1(2) by simp
  obtain img2 where
    img2: "plot_blocks (length m) RGB_DATA m (u64 (rd m 8)) img1 = Inr img2" "shape img2 = shape img1"
      "\<forall>j. 0 \<le> j \<and> j < num_pixels_of img1 \<longrightarrow>
        pixel_at img2 j = fold (\<lambda>x. paint RGB_DATA x j) us (pixel_at img1 j)"
    using plot_blocks_works [OF heap_at_D(3) [OF at] us D(1,4) ok1 fit1, of RGB_DATA] by blast
  have ok2: "image_ok img2" using image_ok_shape [OF img2(2)] ok1 by simp
  have fit2: "int (length m div 4) \<le> num_pixels_of img2" using fit1 img2(2) by simp
  obtain img3 where
    img3: "plot_blocks (length m) RGB_UNUSED m (u64 (rd m 0)) img2 = Inr img3" "shape img3 = shape img2"
      "\<forall>j. 0 \<le> j \<and> j < num_pixels_of img2 \<longrightarrow>
        pixel_at img3 j = fold (\<lambda>x. paint RGB_UNUSED x j) fs (pixel_at img2 j)"
    using plot_blocks_works [OF heap_at_D(2) [OF at] fs D(1,3) ok2 fit2, of RGB_UNUSED] by blast
  have "plot_usage m img = Inr img3"
    using D(5,6) img1(1) img2(1) img3(1) by (simp add: plot_usage_def)
  then show ?thesis using img1(2,3) img2(2,3) img3(2,3) by (intro exI [of _ img3]) auto
qed

lemma annotate_usage_works:
  assumes at: "heap_at m fs us" and ok: "image_ok img"
  shows "\<exists>img'. annotate_usage m img = Inr img' \<and> shape img' = shape img"
proof -
  note D = heap_at_lists [OF at]
  have us: "\<forall>x \<in> set us. 16 \<le> fst x \<and> fst x + 24 + snd x \<le> length m"
    and fs: "\<forall>x \<in> set fs. 16 \<le> fst x \<and> fst x + 24 + snd x \<le> length m"
    using heap_at_D(8) [OF at] by simp_all
  obtain img1 where img1: "annotate_blocks (length m) 85 m (u64 (rd m 8)) img = Inr img1" "shape img1 = shape img"
    using annotate_blocks_works [OF heap_at_D(3) [OF at] us D(1,4) ok, of 85] by auto
  have ok1: "image_ok img1" using image_ok_shape [OF img1(2)] ok by simp
  obtain img2 where img2: "annotate_blocks (length m) 70 m (u64 (rd m 0)) img1 = Inr img2" "shape img2 = shape img1"
    using annotate_blocks_works [OF heap_at_D(2) [OF at] fs D(1,3) ok1, of 70] by auto
  show ?thesis using D(5,6) img1 img2 by (simp add: annotate_usage_def)
qed

lemma usage_diagram_works:
  assumes at: "heap_at (m_base buf) fs us" and size: "sint (m_db_size buf) = int (length (m_base buf))"
    and c: "c = diagram_dimension (num_pixels (length (m_base buf)))"
    and r: "r = diagram_rows (num_pixels (length (m_base buf))) c"
    and fits: "c \<le> 12000" "3 * (r * c) < 2 ^ 32" "length (m_base buf) div 4 \<le> r * c"
  shows "\<exists>img. usage_diagram buf = Inr (Some img) \<and> m_num_rows img = int r \<and> m_num_cols img = int c \<and>
    length (m_image img) = 3 * (r * c)"
proof -
  let ?img = "Image (int r) (int c)"
  have "3 * (int r * int c) < 2 ^ 32" using fits(2) by (simp flip: of_nat_mult)
  then have ok: "image_ok ?img" by (intro Image_ok) simp_all
  have rc: "m_num_rows ?img = int r" "m_num_cols ?img = int c" by (simp_all add: Image_def)
  then have "int (length (m_base buf) div 4) \<le> num_pixels_of ?img"
    using fits(3) by (simp only: of_nat_le_iff flip: of_nat_mult)
  from plot_usage_works [OF at ok this] obtain img1 where
    img1: "plot_usage (m_base buf) ?img = Inr img1" "shape img1 = shape ?img" by blast
  have ok1: "image_ok img1" using image_ok_shape [OF img1(2)] ok by simp
  from annotate_usage_works [OF at ok1] obtain img2 where
    img2: "annotate_usage (m_base buf) img1 = Inr img2" "shape img2 = shape img1" by blast
  have "usage_diagram buf = Inr (Some img2)"
    using img1(1) img2(1) fits(1) size
    by (simp add: usage_diagram_def Let_def c [symmetric] r [symmetric])
  moreover have "length (m_image ?img) = 3 * (r * c)"
    using image_ok_length [OF ok] by (simp add: rc flip: of_nat_mult)
  ultimately show ?thesis using img1(2) img2(2) rc by (intro exI [of _ img2]) simp
qed

end
