(* ===== verification/Diagram_Dimensions.thy ===== *)
theory Diagram_Dimensions
  imports Diagrammer
begin

text \<open>
  The dimensions the rounded arithmetic of \<open>dump_usage\<close> gives an image: the executable logarithm and
  square root are the mathematical ones, and up to 64 MiB the rounding does no harm.
\<close>

section \<open>The dimensions\<close>

lemma log2_floor_eq: "2 ^ l \<le> n \<Longrightarrow> n < 2 ^ Suc l \<Longrightarrow> log2_floor n = l"
proof (induction l arbitrary: n)
  case 0
  then show ?case by (simp add: log2_floor.simps)
next
  case (Suc l)
  have "2 ^ l \<le> n div 2" "n div 2 < 2 ^ Suc l" using Suc.prems by (simp_all add: less_mult_imp_div_less)
  from Suc.IH [OF this] have "log2_floor (n div 2) = l" .
  moreover have "2 \<le> n"
  proof -
    have "(2 :: nat) ^ 1 \<le> 2 ^ Suc l" by (rule power_increasing) simp_all
    from order_trans [OF this Suc.prems(1)] show ?thesis by simp
  qed
  ultimately show ?case by (simp add: log2_floor.simps [of n])
qed

lemma log2_floor_bounds: "0 < n \<Longrightarrow> 2 ^ log2_floor n \<le> n \<and> n < 2 ^ Suc (log2_floor n)"
proof (induction n rule: log2_floor.induct)
  case (1 n)
  show ?case
  proof (cases "n < 2")
    case True
    then show ?thesis using 1 by (simp add: log2_floor.simps [of n])
  next
    case False
    then have "2 ^ log2_floor (n div 2) \<le> n div 2" "n div 2 < 2 ^ Suc (log2_floor (n div 2))"
      using 1 by simp_all
    then have "2 * 2 ^ log2_floor (n div 2) \<le> n" "n < 2 * 2 ^ Suc (log2_floor (n div 2))" by linarith+
    then show ?thesis using False by (simp add: log2_floor.simps [of n])
  qed
qed

lemma log2_floor_less:
  assumes "n < 2 ^ k" and "0 < k"
  shows "log2_floor n < k"
proof (cases "n = 0")
  case True
  then show ?thesis using assms by (simp add: log2_floor.simps)
next
  case False
  then have "2 ^ log2_floor n \<le> n" using log2_floor_bounds [of n] by simp
  then have "(2 :: nat) ^ log2_floor n < 2 ^ k" using assms(1) by linarith
  then show ?thesis by simp
qed

lemma sqrt_floor_from:
  "k * k \<le> n \<Longrightarrow> n < (k + 2 ^ b) * (k + 2 ^ b) \<Longrightarrow>
    sqrt_floor_from b k n * sqrt_floor_from b k n \<le> n \<and>
    n < (sqrt_floor_from b k n + 1) * (sqrt_floor_from b k n + 1)"
proof (induction b arbitrary: k)
  case 0
  then show ?case by simp
next
  case (Suc b)
  show ?case
  proof (cases "(k + 2 ^ b) * (k + 2 ^ b) \<le> n")
    case True
    have "n < (k + 2 ^ b + 2 ^ b) * (k + 2 ^ b + 2 ^ b)"
      using Suc.prems(2) by (simp only: power_Suc mult_2 add.assoc)
    from Suc.IH [OF True this] True show ?thesis by simp
  next
    case False
    then have "n < (k + 2 ^ b) * (k + 2 ^ b)" by simp
    from Suc.IH [OF Suc.prems(1) this] False show ?thesis by simp
  qed
qed

lemma sqrt_floor_works:
  assumes "n < 2 ^ 32" and "k = sqrt_floor_from 16 0 n"
  shows "k * k \<le> n" "n < (k + 1) * (k + 1)"
  using sqrt_floor_from [of 0 n 16] assms by (simp_all del: sqrt_floor_from.simps)

lemma square_unique:
  fixes j k n :: nat
  assumes "j * j \<le> n" "n < (j + 1) * (j + 1)" "k * k \<le> n" "n < (k + 1) * (k + 1)"
  shows "j = k"
proof (rule ccontr)
  assume "j \<noteq> k"
  then consider "j + 1 \<le> k" | "k + 1 \<le> j" by linarith
  then show False
  proof cases
    case 1
    then have "(j + 1) * (j + 1) \<le> k * k" by (intro mult_le_mono)
    then show False using assms by linarith
  next
    case 2
    then have "(k + 1) * (k + 1) \<le> j * j" by (intro mult_le_mono)
    then show False using assms by linarith
  qed
qed

lemma sqrt_floor_eq: "n < 2 ^ 32 \<Longrightarrow> k * k \<le> n \<Longrightarrow> n < (k + 1) * (k + 1) \<Longrightarrow> sqrt_floor_from 16 0 n = k"
  using sqrt_floor_works [of n] square_unique by metis

text \<open>
  Up to \<open>2 ^ 24\<close> pixels, which is a buffer of 64 MiB, the rounding does no harm: the dimensions are the
  exact ones, and the image has a pixel for every four bytes.
\<close>

lemma dimension_exact:
  assumes "p \<le> 2 ^ 24"
  shows "p \<le> diagram_dimension p * diagram_dimension p" "diagram_dimension p \<le> 4096"
proof -
  define k where "k = sqrt_floor_from 16 0 p"
  have "p < 2 ^ 32" using assms by simp
  note k = sqrt_floor_works [OF this k_def]
  have k4096: "k \<le> 4096"
  proof (rule ccontr)
    assume "\<not> k \<le> 4096"
    then have "4097 * 4097 \<le> k * k" by (intro mult_le_mono) simp_all
    then show False using k(1) assms by simp
  qed
  show "p \<le> diagram_dimension p * diagram_dimension p" and "diagram_dimension p \<le> 4096"
  proof -
    have up: "\<not> p * 2 ^ 48 < (k * 2 ^ 24 + 2 ^ log2_floor k) ^ 2" if "k * k \<noteq> p"
    proof -
      have "k * k + 1 \<le> p" using that k(1) by linarith
      have kl: "k < 4096"
      proof (rule ccontr)
        assume "\<not> k < 4096"
        then have "k = 4096" using k4096 by simp
        then show False using \<open>k * k + 1 \<le> p\<close> assms by simp
      qed
      let ?l = "2 ^ log2_floor k :: nat"
      have "log2_floor k < 12" using kl by (intro log2_floor_less) simp_all
      then have "?l \<le> 2 ^ 11" by (intro power_increasing) simp_all
      then have "2 * (k * ?l) \<le> 2 * (4095 * 2 ^ 11)" "?l * ?l \<le> 2 ^ 11 * 2 ^ 11"
        using kl by (intro mult_le_mono; simp)+
      moreover have "(k * 2 ^ 24 + ?l) ^ 2 = k * k * 2 ^ 48 + 2 * (k * ?l) * 2 ^ 24 + ?l * ?l"
        by (simp add: power2_eq_square algebra_simps)
      ultimately have "(k * 2 ^ 24 + ?l) ^ 2 \<le> k * k * 2 ^ 48 + 2 ^ 48" by simp
      also have "\<dots> = (k * k + 1) * 2 ^ 48" by simp
      also have "\<dots> \<le> p * 2 ^ 48" using \<open>k * k + 1 \<le> p\<close> by (rule mult_le_mono1)
      finally show ?thesis by simp
    qed
    have dim: "diagram_dimension p = (if k * k = p then k else k + 1)"
      using up by (auto simp: diagram_dimension_def Let_def k_def [symmetric])
    show "p \<le> diagram_dimension p * diagram_dimension p" using k dim by (auto split: if_splits)
    show "diagram_dimension p \<le> 4096"
    proof (cases "k * k = p")
      case False
      have "k \<noteq> 4096" using False k(1) assms by auto
      then show ?thesis using k4096 dim False by simp
    qed (use k4096 dim in simp)
  qed
qed

lemma rows_exact:
  assumes "p \<le> c * c" and "0 < c" and "c \<le> 4096"
  shows "p \<le> diagram_rows p c * c" "diagram_rows p c \<le> 4096"
proof -
  define k where "k = p div c"
  define r where "r = p mod c"
  have p: "p = k * c + r" "r < c" using assms(2) by (simp_all add: k_def r_def)
  have "k * c \<le> c * c" using p assms(1) by linarith
  then have kc: "k \<le> c" using assms(2) by simp
  have up: "\<not> (r * 2 ^ 24 \<le> c * 2 ^ log2_floor k \<and> 0 < k) \<and> k < c" if "r \<noteq> 0"
  proof -
    have "k \<noteq> c" using that p assms(1) by auto
    then have "k < c" using kc by simp
    then have "log2_floor k < 12" using assms(3) by (intro log2_floor_less) simp_all
    then have "(2 :: nat) ^ log2_floor k \<le> 2 ^ 11" by (intro power_increasing) simp_all
    then have "c * 2 ^ log2_floor k \<le> 4096 * 2 ^ 11" using assms(3) by (intro mult_le_mono) simp_all
    then show ?thesis using that \<open>k < c\<close> by simp
  qed
  have "diagram_rows p c = (if r = 0 then k else k + 1)"
    using up by (auto simp: diagram_rows_def Let_def k_def [symmetric] r_def [symmetric])
  then show "p \<le> diagram_rows p c * c" "diagram_rows p c \<le> 4096"
    using p kc assms(3) up by (auto split: if_splits)
qed

lemma num_pixels_exact:
  assumes "n \<le> 2 ^ 26"
  shows "n div 4 \<le> num_pixels n" "num_pixels n \<le> 2 ^ 24" "0 < n \<Longrightarrow> 0 < num_pixels n"
proof -
  have "n div 4 \<le> num_pixels n \<and> num_pixels n \<le> 2 ^ 24 \<and> (0 < n \<longrightarrow> 0 < num_pixels n)"
  proof -
    consider (small) "n < 2 ^ 24" | (two) "2 ^ 24 \<le> n" "n < 2 ^ 25" | (four) "2 ^ 25 \<le> n" "n < 2 ^ 26"
      | (eight) "n = 2 ^ 26" using assms by linarith
    then show ?thesis
    proof cases
      case small
      then have "num_pixels n = (n + 3) div 4" by (simp add: num_pixels_def float_of_nat_def)
      then show ?thesis using small by (intro conjI) presburger+
    next
      case two
      have "log2_floor n = 24" using two by (intro log2_floor_eq) simp_all
      then have f: "float_of_nat n = (if n mod 2 = 0 \<or> even (n div 2) then n div 2 * 2 else (n div 2 + 1) * 2)"
        using two by (auto simp: float_of_nat_def Let_def)
      have "float_of_nat n \<le> n + 1 \<and> n \<le> float_of_nat n + 1 \<and> even (float_of_nat n)"
        unfolding f by (simp, presburger)
      then have "n \<le> float_of_nat n + 1" "float_of_nat n \<le> n + 1" "even (float_of_nat n)" by simp_all
      moreover from this have "n div 4 \<le> num_pixels n" unfolding num_pixels_def by presburger
      moreover have "num_pixels n \<le> 2 ^ 24" using calculation two by (simp add: num_pixels_def)
      moreover have "0 < num_pixels n" using calculation two by (simp add: num_pixels_def)
      ultimately show ?thesis by simp
    next
      case four
      have "log2_floor n = 25" using four by (intro log2_floor_eq) simp_all
      then have f: "float_of_nat n = (if n mod 4 < 2 \<or> (n mod 4 = 2 \<and> even (n div 4)) then n div 4 * 4
          else (n div 4 + 1) * 4)"
        using four by (auto simp: float_of_nat_def Let_def)
      then consider "float_of_nat n = n div 4 * 4" | "float_of_nat n = (n div 4 + 1) * 4" by presburger
      then have "num_pixels n = n div 4 \<or> num_pixels n = n div 4 + 1"
        by cases (simp_all add: num_pixels_def)
      then show ?thesis using four by auto
    next
      case eight
      have "log2_floor n = 26" using eight by (intro log2_floor_eq) simp_all
      then show ?thesis using eight by (simp add: num_pixels_def float_of_nat_def)
    qed
  qed
  then show "n div 4 \<le> num_pixels n" "num_pixels n \<le> 2 ^ 24" "0 < n \<Longrightarrow> 0 < num_pixels n" by blast+
qed

text \<open>
  Which buffers are too big for a diagram. The root of up to 144000011 pixels is rounded to at most 12000,
  and the size of the buffer to a multiple of 64 first.
\<close>

lemma dimension_too_big:
  assumes "p < 2 ^ 32"
  shows "12000 < diagram_dimension p \<longleftrightarrow> 144000012 \<le> p"
proof -
  define k where "k = sqrt_floor_from 16 0 p"
  note k = sqrt_floor_works [OF assms k_def]
  have dim: "k \<le> diagram_dimension p" "diagram_dimension p \<le> k + 1"
    by (simp_all add: diagram_dimension_def Let_def k_def [symmetric])
  consider "k < 12000" | "k = 12000" | "12001 \<le> k" by linarith
  then show ?thesis
  proof cases
    case 1
    then have "(k + 1) * (k + 1) \<le> 12000 * 12000" by (intro mult_le_mono) simp_all
    then show ?thesis using 1 dim(2) k(2) by simp
  next
    case 2
    have "log2_floor 12000 = 13" by (rule log2_floor_eq) simp_all
    then have "diagram_dimension p = (if p \<le> 144000011 then 12000 else 12001)"
      using 2 k(1) by (simp add: diagram_dimension_def Let_def k_def [symmetric])
    then show ?thesis by simp
  next
    case 3
    then have "12001 * 12001 \<le> k * k" by (intro mult_le_mono) simp_all
    then show ?thesis using 3 dim(1) k(1) by simp
  qed
qed

lemma float_of_nat_bounds:
  assumes n: "2 ^ l \<le> n" "n < 2 ^ Suc l" and l: "24 \<le> l"
  shows "2 ^ l \<le> float_of_nat n" "float_of_nat n \<le> 2 ^ Suc l"
proof -
  define u :: nat where "u = 2 ^ (l - 23)"
  have log: "log2_floor n = l" by (rule log2_floor_eq [OF n])
  have "(2 :: nat) ^ 24 \<le> 2 ^ l" using l by (intro power_increasing) simp_all
  then have big: "\<not> n < 2 ^ 24" using n(1) by linarith
  have "l = 23 + (l - 23)" "Suc l = 24 + (l - 23)" using l by simp_all
  then have pow: "2 ^ l = 2 ^ 23 * u" "2 ^ Suc l = 2 ^ 24 * u" unfolding u_def by (metis power_add)+
  have "0 < u" by (simp add: u_def)
  then have "2 ^ 23 \<le> n div u" using n(1) by (simp only: pow less_eq_div_iff_mult_less_eq)
  moreover have "n div u < 2 ^ 24" using n(2) by (simp only: pow less_mult_imp_div_less)
  ultimately have q: "2 ^ 23 * u \<le> n div u * u" "(n div u + 1) * u \<le> 2 ^ 24 * u" by (intro mult_le_mono1; simp)+
  have "float_of_nat n = n div u * u \<or> float_of_nat n = (n div u + 1) * u"
    unfolding float_of_nat_def Let_def log u_def [symmetric] if_not_P [OF big] by (simp only: if_split_eq1) blast
  moreover have "n div u * u \<le> (n div u + 1) * u" by (rule mult_le_mono1) simp
  ultimately show "2 ^ l \<le> float_of_nat n" "float_of_nat n \<le> 2 ^ Suc l"
    unfolding pow using q by (elim disjE; linarith)+
qed

lemma num_pixels_too_big:
  assumes "n < 2 ^ 31"
  shows "144000012 \<le> num_pixels n \<longleftrightarrow> 576000032 < n" "num_pixels n < 2 ^ 32"
proof -
  have "(144000012 \<le> num_pixels n \<longleftrightarrow> 576000032 < n) \<and> num_pixels n < 2 ^ 32"
  proof -
    consider (small) "n < 2 ^ 24" | (below) "2 ^ 24 \<le> n" "n < 2 ^ 29" | (near) "2 ^ 29 \<le> n" "n < 2 ^ 30"
      | (above) "2 ^ 30 \<le> n" using assms by linarith
    then show ?thesis
    proof cases
      case small
      then have "num_pixels n = (n + 3) div 4" "(n + 3) div 4 \<le> (2 ^ 24 + 3) div 4"
        by (simp_all add: num_pixels_def float_of_nat_def div_le_mono)
      then show ?thesis using small by simp
    next
      case below
      define l where "l = log2_floor n"
      have n: "2 ^ l \<le> n" "n < 2 ^ Suc l" using log2_floor_bounds [of n] below by (simp_all add: l_def)
      have "24 \<le> l"
      proof (rule ccontr)
        assume "\<not> 24 \<le> l"
        then have "(2 :: nat) ^ Suc l \<le> 2 ^ 24" by (intro power_increasing) simp_all
        then show False using n(2) below(1) by linarith
      qed
      moreover have "l < 29" using below(2) by (simp add: l_def log2_floor_less)
      then have "(2 :: nat) ^ Suc l \<le> 2 ^ 29" by (intro power_increasing) simp_all
      ultimately have "float_of_nat n \<le> 2 ^ 29" using float_of_nat_bounds(2) [OF n] by linarith
      then have "num_pixels n \<le> (2 ^ 29 + 3) div 4" unfolding num_pixels_def by (intro div_le_mono) simp
      then show ?thesis using below(2) by simp
    next
      case near
      have "log2_floor n = 29" using near by (intro log2_floor_eq) simp_all
      then have f: "float_of_nat n = (if 2 * (n mod 64) < 64 \<or> (2 * (n mod 64) = 64 \<and> even (n div 64))
          then n div 64 * 64 else (n div 64 + 1) * 64)"
        using near by (simp add: float_of_nat_def Let_def)
      have n: "n = n div 64 * 64 + n mod 64" by simp
      have p: "num_pixels n = (if 2 * (n mod 64) < 64 \<or> (2 * (n mod 64) = 64 \<and> even (n div 64))
          then n div 64 * 16 else (n div 64 + 1) * 16)"
        unfolding num_pixels_def f by auto
      consider "n div 64 < 9000000" | "n div 64 = 9000000" | "9000001 \<le> n div 64" by linarith
      then show ?thesis
      proof cases
        case 2
        then have "n = 576000000 + n mod 64" using n by simp
        then show ?thesis using p 2 by auto
      qed (use p n near in \<open>auto split: if_splits\<close>)
    next
      case above
      note b = float_of_nat_bounds [of 30 n, OF above]
      have "2 ^ 30 \<le> float_of_nat n" "float_of_nat n \<le> 2 ^ 31" using b assms by simp_all
      then have "(2 ^ 30 + 3) div 4 \<le> num_pixels n" "num_pixels n \<le> (2 ^ 31 + 3) div 4"
        unfolding num_pixels_def by (intro div_le_mono; simp)+
      then show ?thesis using above by simp
    qed
  qed
  then show "144000012 \<le> num_pixels n \<longleftrightarrow> 576000032 < n" "num_pixels n < 2 ^ 32" by blast+
qed

end
