(* ===== verification/Diagram_Properties.thy ===== *)
theory Diagram_Properties
  imports Diagram_Proofs Diagram_Dimensions Buffer_Properties
begin

text \<open>
  The properties of the usage diagram, over the definitions of \<open>Diagrammer\<close> and the buffers that the
  constructor of \<open>File_Backed_Buffer\<close> makes.
\<close>

definition new_file :: os_file where
  "new_file = \<lparr>file_contents = None, may_create = True, may_open = True, may_resize = True, may_map = True\<rparr>"

text \<open>A new buffer: its one free block, and the size it remembers.\<close>

lemma new_buffer_diagram:
  assumes "file_contents f = None" and "may_create f" and "may_resize f" and "may_map f"
    and "40 \<le> n" and "n < 2 ^ 31"
  obtains buf where "FileBackedBuffer f (u64 n) = Inr buf" "heap_at (m_base buf) [(16, n - 40)] []"
    "length (m_base buf) = n" "sint (m_db_size buf) = int n"
proof -
  have n: "n mod 2 ^ 32 = n" "n < 2 ^ 63" using assms(6) by simp_all
  have "FileBackedBuffer f (u64 n) = Inr (opened (replicate n 0) (fresh_buffer (replicate n 0)))"
    using FileBackedBuffer_new(2) [OF assms(1-4) n(2)] assms(5,6) by (simp only: n(1))
  moreover have at: "heap_at (fresh_buffer (replicate n 0)) [(16, n - 40)] []"
    using fresh_buffer_heap [of "replicate n 0"] assms(5,6) by simp
  moreover have "length (fresh_buffer (replicate n 0)) = n"
    using at assms(5) by (simp add: heap_at_def heap_ok_def blocks_ok_def)
  moreover have "sint (get_file_size (Some (replicate n 0))) = int n"
    using sint_word32 [of n] assms(6) by (simp add: get_file_size_def)
  ultimately show thesis using that by (simp add: opened_def)
qed

section \<open>Pixels\<close>

text \<open>
  \<open>idx_to_xy\<close> is the inverse of \<open>xy_to_idx\<close> on the pixels of an image, and \<open>xy_to_idx\<close> of a point
  outside the image is \<open>- 1\<close>, which \<open>set_pixel\<close> ignores.
\<close>

lemma pixel_index_roundtrip:
  "idx_to_xy img (xy_to_idx img x y) =
    (if 0 \<le> x \<and> x < m_num_cols img \<and> 0 \<le> y \<and> y < m_num_rows img then (x, y) else (- 1, - 1)) \<and>
   (\<not> (0 \<le> x \<and> x < m_num_cols img \<and> 0 \<le> y \<and> y < m_num_rows img) \<longrightarrow>
     set_pixel (xy_to_idx img x y) c img = Inr img)"
proof (cases "0 \<le> x \<and> x < m_num_cols img \<and> 0 \<le> y \<and> y < m_num_rows img")
  case True
  then show ?thesis using xy_idx_roundtrip by simp
next
  case False
  then have "xy_to_idx img x y = - 1" by (auto simp: xy_to_idx_def)
  then show ?thesis using False by (auto simp: idx_to_xy_def set_pixel_def)
qed

text \<open>
  C25: after the plotting loops every pixel has its colour: the four pixels of the buffer's header have
  the colour of overhead, and so do the first six pixels of every block; the \<open>size div 4\<close> pixels behind
  them have the colour of used or of unused data. No block paints over another or over the header, in
  whatever order the used list has them. All other pixels, which are those behind the buffer and those
  that the rounding of offsets leaves between two blocks, are as they were.
\<close>

theorem plot_usage_colours:
  assumes "heap_at m fs us" and "image_ok img" and "int (length m div 4) \<le> num_pixels_of img"
  shows "\<exists>img'. plot_usage m img = Inr img' \<and>
    (\<forall>x \<in> set (fs @ us). \<forall>j < num_pixels_of img.
      (first_pixel x \<le> j \<and> j < first_pixel x + 6 \<longrightarrow> pixel_at img' j = RGB_OVERHEAD) \<and>
      (first_pixel x + 6 \<le> j \<and> j < first_pixel x + 6 + data_pixels x \<longrightarrow>
        pixel_at img' j = (if x \<in> set us then RGB_DATA else RGB_UNUSED))) \<and>
    (\<forall>j. 0 \<le> j \<and> j < 4 \<longrightarrow> pixel_at img' j = RGB_OVERHEAD) \<and>
    (\<forall>j. 4 \<le> j \<and> j < num_pixels_of img \<and>
        (\<forall>x \<in> set (fs @ us). j < first_pixel x \<or> first_pixel x + 6 + data_pixels x \<le> j) \<longrightarrow>
      pixel_at img' j = pixel_at img j)"
proof -
  from plot_usage_works [OF assms] obtain img' where img': "plot_usage m img = Inr img'"
    "\<forall>j. 0 \<le> j \<and> j < num_pixels_of img \<longrightarrow> pixel_at img' j =
      fold (\<lambda>x. paint RGB_UNUSED x j) fs (fold (\<lambda>x. paint RGB_DATA x j) us
        (if j < 4 then RGB_OVERHEAD else pixel_at img j))" by blast
  have sorted: "sorted_wrt sep_blocks fs" "sorted_wrt sep_blocks us" "\<forall>x \<in> set fs. \<forall>y \<in> set us. sep_blocks x y"
    using heap_at_lists(7) [OF assms(1)] by (auto simp: sorted_wrt_append)
  have colour: "pixel_at img' j = paint (if x \<in> set us then RGB_DATA else RGB_UNUSED) x j RGB_OVERHEAD"
    if x: "x \<in> set (fs @ us)" and j: "j \<in> pixels_of x" "j < num_pixels_of img" for x j
  proof -
    have "0 \<le> j" using j(1) by (auto simp: pixels_of_def first_pixel_def)
    note at_j = img'(2) [rule_format, OF conjI [OF this j(2)]]
    show ?thesis
    proof (cases "x \<in> set us")
      case True
      have "\<forall>y \<in> set fs. j \<notin> pixels_of y" using sorted(3) True j(1) sep_blocks_pixels by fastforce
      with at_j fold_paint_inside [OF sorted(2) True j(1)] True show ?thesis
        by (simp add: fold_paint_outside)
    next
      case False
      then have "x \<in> set fs" using x by simp
      with at_j fold_paint_inside [OF sorted(1) _ j(1)] False show ?thesis by simp
    qed
  qed
  have "pixel_at img' j = RGB_OVERHEAD"
    if x: "x \<in> set (fs @ us)" and j: "j < num_pixels_of img" "first_pixel x \<le> j" "j < first_pixel x + 6" for x j
    using colour [OF x _ j(1)] j(2,3) data_pixels_nonneg [of x] by (simp add: pixels_of_def paint_def)
  moreover have "pixel_at img' j = (if x \<in> set us then RGB_DATA else RGB_UNUSED)"
    if x: "x \<in> set (fs @ us)" and j: "j < num_pixels_of img" "first_pixel x + 6 \<le> j"
      "j < first_pixel x + 6 + data_pixels x" for x j
    using colour [OF x _ j(1)] j(2,3) by (simp add: pixels_of_def paint_def)
  moreover have "pixel_at img' j = RGB_OVERHEAD" if j: "0 \<le> j" "j < 4" for j
  proof -
    have out: "\<forall>x \<in> set (fs @ us). j \<notin> pixels_of x"
    proof
      fix x assume "x \<in> set (fs @ us)"
      then have "16 \<le> fst x" using heap_at_D(8) [OF assms(1)] by auto
      then have "4 \<le> first_pixel x" unfolding first_pixel_def by linarith
      then show "j \<notin> pixels_of x" using j(2) by (simp add: pixels_of_def)
    qed
    have "16 \<le> length m" using heap_at_lists(2) [OF assms(1)] .
    then have "j < num_pixels_of img" using assms(3) j(2) by linarith
    with img'(2) j out show ?thesis by (simp add: fold_paint_outside)
  qed
  moreover have "pixel_at img' j = pixel_at img j" if j: "4 \<le> j" "j < num_pixels_of img"
    and out: "\<forall>x \<in> set (fs @ us). j < first_pixel x \<or> first_pixel x + 6 + data_pixels x \<le> j" for j
  proof -
    have "\<forall>x \<in> set (fs @ us). j \<notin> pixels_of x" using out by (simp only: pixels_of_def atLeastLessThan_iff) fastforce
    with img'(2) j show ?thesis by (simp add: fold_paint_outside)
  qed
  ultimately show ?thesis using img'(1) by (intro exI [of _ img']) blast
qed

theorem plot_usage_colours_witness:
  "\<exists>m img'. alloc 100 small_buffer = Inr (m, Some 40) \<and> plot_usage m (Image 16 16) = Inr img' \<and>
    pixel_at img' 4 = RGB_OVERHEAD \<and> pixel_at img' 10 = RGB_DATA \<and> pixel_at img' 34 = RGB_DATA \<and>
    pixel_at img' 35 = RGB_OVERHEAD \<and> pixel_at img' 41 = RGB_UNUSED \<and> pixel_at img' 249 = RGB_UNUSED \<and>
    pixel_at img' 3 = RGB_OVERHEAD \<and> pixel_at img' 250 = pixel_at (Image 16 16) 250"
proof -
  obtain m where m: "alloc 100 small_buffer = Inr (m, Some 40)" "heap_at m [(140, 836)] [(16, 100)]"
    by (rule small_alloc)
  have len: "length m = 1000" using m(2) by (simp add: heap_at_def heap_ok_def blocks_ok_def total_def)
  have img: "image_ok (Image 16 16)" by (rule Image_ok) simp_all
  have n: "num_pixels_of (Image 16 16) = 256" by (simp add: Image_def)
  have "int (length m div 4) \<le> num_pixels_of (Image 16 16)" by (simp add: len n)
  from plot_usage_colours [OF m(2) img this] obtain img' where img': "plot_usage m (Image 16 16) = Inr img'" and
    col: "\<forall>x \<in> set ([(140, 836)] @ [(16, 100)]). \<forall>j < num_pixels_of (Image 16 16).
      (first_pixel x \<le> j \<and> j < first_pixel x + 6 \<longrightarrow> pixel_at img' j = RGB_OVERHEAD) \<and>
      (first_pixel x + 6 \<le> j \<and> j < first_pixel x + 6 + data_pixels x \<longrightarrow>
        pixel_at img' j = (if x \<in> set [(16, 100)] then RGB_DATA else RGB_UNUSED))"
    and hdr: "\<forall>j. 0 \<le> j \<and> j < 4 \<longrightarrow> pixel_at img' j = RGB_OVERHEAD"
    and rest: "\<forall>j. 4 \<le> j \<and> j < num_pixels_of (Image 16 16) \<and>
        (\<forall>x \<in> set ([(140, 836)] @ [(16, 100)]). j < first_pixel x \<or> first_pixel x + 6 + data_pixels x \<le> j) \<longrightarrow>
      pixel_at img' j = pixel_at (Image 16 16) j"
    by (elim exE conjE)
  have u: "(16, 100) \<in> set ([(140, 836)] @ [(16, 100)])" and f: "(140, 836) \<in> set ([(140, 836)] @ [(16, 100)])"
    for x :: nat by simp_all
  note cu = col [rule_format, OF u] and cf = col [rule_format, OF f]
  have "pixel_at img' 4 = RGB_OVERHEAD" "pixel_at img' 10 = RGB_DATA" "pixel_at img' 34 = RGB_DATA"
    using cu [of 4] cu [of 10] cu [of 34] by (simp_all add: n first_pixel_def data_pixels_def)
  moreover have "pixel_at img' 35 = RGB_OVERHEAD" "pixel_at img' 41 = RGB_UNUSED" "pixel_at img' 249 = RGB_UNUSED"
    using cf [of 35] cf [of 41] cf [of 249] by (simp_all add: n first_pixel_def data_pixels_def)
  moreover have "pixel_at img' 3 = RGB_OVERHEAD" using hdr by simp
  moreover have "pixel_at img' 250 = pixel_at (Image 16 16) 250"
    using rest [rule_format, of 250] by (simp add: n first_pixel_def data_pixels_def)
  ultimately show ?thesis using m(1) img' by blast
qed

section \<open>The whole diagram\<close>

text \<open>
  C26: drawing the diagram of a well-formed buffer of at most 64 MiB, or of the default size 512 MiB, succeeds:
  every pixel and every character stays inside the image, whose dimensions are at most 12000.
\<close>

theorem usage_diagram_safe:
  assumes at: "heap_at (m_base buf) fs us" and len: "length (m_base buf) = n"
    and size: "sint (m_db_size buf) = int n" and n: "n \<le> 2 ^ 26 \<or> n = 2 ^ 29"
  shows "\<exists>img. usage_diagram buf = Inr (Some img) \<and> m_num_rows img \<le> 12000 \<and> m_num_cols img \<le> 12000 \<and>
    int (length (m_image img)) = 3 * m_num_rows img * m_num_cols img"
proof -
  define p where "p = num_pixels n"
  define c where "c = diagram_dimension p"
  define r where "r = diagram_rows p c"
  have "16 \<le> n" using heap_at_lists(2) [OF at] len by simp
  have dims: "c \<le> 12000 \<and> r \<le> 12000 \<and> 3 * (r * c) < 2 ^ 32 \<and> n div 4 \<le> r * c"
  proof (cases "n \<le> 2 ^ 26")
    case True
    note pix = num_pixels_exact [OF True, folded p_def]
    note dim = dimension_exact [OF pix(2), folded c_def]
    have "0 < c" using dim(1) pix(3) \<open>16 \<le> n\<close> by (cases c) simp_all
    note rows = rows_exact [OF dim(1) this dim(2), folded r_def]
    have "r * c \<le> 4096 * 4096" using rows(2) dim(2) by (rule mult_le_mono)
    moreover have "n div 4 \<le> r * c" using pix(1) rows(1) by (rule order_trans)
    ultimately show ?thesis using dim(2) rows(2) by simp
  next
    case False
    then have n: "n = 2 ^ 29" using n by simp
    have "log2_floor n = 29" using n by (intro log2_floor_eq) simp_all
    then have p: "p = 134217728" by (simp add: p_def num_pixels_def float_of_nat_def n)
    have "sqrt_floor_from 16 0 p = 11585" by (rule sqrt_floor_eq) (simp_all add: p)
    moreover have log: "log2_floor 11585 = 13" "log2_floor 11584 = 13" by (rule log2_floor_eq; simp)+
    ultimately have c: "c = 11586" by (simp add: c_def diagram_dimension_def p)
    have "r = 11585" using log by (simp add: r_def diagram_rows_def p c)
    then show ?thesis by (simp add: c n)
  qed
  obtain img where "usage_diagram buf = Inr (Some img)" "m_num_rows img = int r" "m_num_cols img = int c"
    "length (m_image img) = 3 * (r * c)"
    using usage_diagram_works [OF at, of c r] dims size len by (auto simp: p_def c_def r_def)
  then show ?thesis using dims by (intro exI [of _ img]) simp
qed

theorem usage_diagram_safe_witness:
  "\<exists>buf img. FileBackedBuffer new_file 536870912 = Inr buf \<and> usage_diagram buf = Inr (Some img)"
proof -
  obtain buf where buf: "FileBackedBuffer new_file (u64 536870912) = Inr buf"
    "heap_at (m_base buf) [(16, 536870912 - 40)] []" "length (m_base buf) = 536870912"
    "sint (m_db_size buf) = int 536870912"
    by (rule new_buffer_diagram [of new_file 536870912]) (simp_all add: new_file_def)
  with usage_diagram_safe [OF buf(2,3,4)] show ?thesis by auto
qed

text \<open>
  C27: exactly the buffers of more than 576000032 bytes get no diagram, and nothing is drawn then: the
  size is rounded to a multiple of 64 and the root of the number of pixels to a \<open>float\<close>, so that the
  limit is not at the 576000000 bytes that 12000 rows of 12000 pixels have room for.
\<close>

theorem usage_diagram_too_big:
  assumes "sint (m_db_size buf) = int n"
  shows "usage_diagram buf = Inr None \<longleftrightarrow> 576000032 < n"
proof -
  have "int n < 2 ^ 31" using sint_less [of "m_db_size buf"] assms by simp
  then have n: "n < 2 ^ 31" by simp
  note p = num_pixels_too_big [OF n]
  have big: "12000 < diagram_dimension (num_pixels n) \<longleftrightarrow> 576000032 < n"
    using dimension_too_big [OF p(2)] p(1) by blast
  show ?thesis
  proof (cases "576000032 < n")
    case True
    then show ?thesis using assms big by (simp add: usage_diagram_def Let_def)
  next
    case False
    have "and_then r (\<lambda>img. and_then (f img) (\<lambda>img. Inr (Some img))) \<noteq> Inr None" for r :: "image res" and f
      by (auto simp: and_then_Inr_iff)
    then show ?thesis using assms big False by (simp add: usage_diagram_def Let_def)
  qed
qed

theorem usage_diagram_too_big_witness:
  "\<exists>buf. FileBackedBuffer new_file 1073741824 = Inr buf \<and> usage_diagram buf = Inr None"
proof -
  obtain buf where buf: "FileBackedBuffer new_file (u64 1073741824) = Inr buf"
    "sint (m_db_size buf) = int 1073741824"
    by (rule new_buffer_diagram [of new_file 1073741824]) (simp_all add: new_file_def)
  from usage_diagram_too_big [OF buf(2)] buf(1) show ?thesis by simp
qed

text \<open>
  C28: the number of pixels is computed as a \<open>float\<close>, whose 24 bits round 100000004 bytes down to
  100000000. The image of such a buffer has 5000 rows of 5000 pixels, one less than the free block
  needs, and the loop that plots it writes behind the end of the image.
\<close>

theorem usage_diagram_overflows:
  assumes "file_contents f = None" and "may_create f" and "may_resize f" and "may_map f"
  shows "\<exists>buf. FileBackedBuffer f 100000004 = Inr buf \<and> usage_diagram buf = Inl OutOfBounds"
proof -
  obtain buf where buf: "FileBackedBuffer f (u64 100000004) = Inr buf"
    "heap_at (m_base buf) [(16, 99999964)] []" "length (m_base buf) = 100000004"
    "sint (m_db_size buf) = int 100000004"
    using new_buffer_diagram [OF assms, of 100000004] by auto
  let ?m = "m_base buf" and ?img = "Image 5000 5000"
  have "log2_floor 100000004 = 26" by (rule log2_floor_eq) simp_all
  then have p: "num_pixels 100000004 = 25000000" by (simp add: num_pixels_def float_of_nat_def)
  have "sqrt_floor_from 16 0 25000000 = 5000" by (rule sqrt_floor_eq) simp_all
  then have c: "diagram_dimension 25000000 = 5000" by (simp add: diagram_dimension_def)
  have r: "diagram_rows 25000000 5000 = 5000" by (simp add: diagram_rows_def)
  have img: "image_ok ?img" by (rule Image_ok) simp_all
  have np: "num_pixels_of ?img = int 25000000" by (simp add: Image_def)
  have rd: "rd ?m 8 = 0" "rd ?m 0 = 16" "rd ?m 32 = 99999964"
    using heap_at_D(2,3) [OF buf(2)] by simp_all
  note D = heap_at_lists [OF buf(2)]
  have "int (0 + 4) \<le> num_pixels_of ?img" by (simp add: np)
  from plot_pixels_works [OF img this, of RGB_OVERHEAD] obtain img1 where
    img1: "plot_pixels 0 4 RGB_OVERHEAD ?img = Inr img1" "shape img1 = shape ?img" by auto
  have ok1: "image_ok img1" using image_ok_shape [OF img1(2)] img by simp
  have "int (4 + 6) \<le> num_pixels_of img1" using img1(2) np by simp
  from plot_pixels_works [OF ok1 this, of RGB_OVERHEAD] obtain img2 where
    img2: "plot_pixels (word_of_nat 4) 6 RGB_OVERHEAD img1 = Inr img2" "shape img2 = shape img1" by blast
  have ok2: "image_ok img2" using image_ok_shape [OF img2(2)] ok1 by simp
  have "num_pixels_of img2 = int 25000000" using img1(2) img2(2) np by simp
  from plot_pixels_out_of_bounds [OF ok2 this, of 10 24999991 RGB_UNUSED]
  have over: "plot_pixels (word_of_nat 10) 24999991 RGB_UNUSED img2 = Inl OutOfBounds" by simp
  have size: "data_size ?m 16 = Inr 99999964"
    using block_reads(3) [of 16 ?m] buf(3) rd(3) by simp
  have "plot_blocks (length ?m) RGB_UNUSED ?m 16 img1 = Inl OutOfBounds"
  proof -
    obtain k where "length ?m = Suc k" using buf(3) by (cases "length ?m") simp_all
    then show ?thesis using img2(1) over size by (simp add: plot_blocks.simps [of "Suc k"])
  qed
  moreover have "plot_blocks (length ?m) RGB_DATA ?m 0 img1 = Inr img1" by (simp add: plot_blocks.simps)
  ultimately have "plot_usage ?m ?img = Inl OutOfBounds"
    using img1(1) D(5,6) rd(1,2) by (simp add: plot_usage_def)
  then have "usage_diagram buf = Inl OutOfBounds"
    using buf(4) by (simp add: usage_diagram_def Let_def p c r)
  then show ?thesis using buf(1) by auto
qed

theorem usage_diagram_overflows_witness:
  "\<exists>buf. FileBackedBuffer new_file 100000004 = Inr buf \<and> usage_diagram buf = Inl OutOfBounds"
  using usage_diagram_overflows [of new_file] by (simp add: new_file_def)

end
