(* ===== verification/Fpng_Bytes.thy ===== *)
theory Fpng_Bytes
  imports KV_Prelude
begin

text \<open>
  The byte-level helpers of \<open>src/external_libs/fpng/src/fpng.cpp\<close>: 32-bit arithmetic, byte swapping,
  and the reads and writes of multi-byte values. They are given in the portable form that composes
  shifted bytes; the unaligned loads of the x86 build read the same values.
\<close>

unbundle bit_operations_syntax

type_synonym u32 = "32 word"

section \<open>32-bit numbers\<close>

abbreviation u32 :: "nat \<Rightarrow> u32" where
  "u32 n \<equiv> word_of_nat n"

named_theorems u32_simps \<open>32-bit arithmetic on numbers that do not wrap\<close>

lemma u32_unat [u32_simps]: "n < 2 ^ 32 \<Longrightarrow> unat (u32 n) = n"
  by (simp add: unat_of_nat take_bit_nat_eq_self)

lemma u32_add [u32_simps]: "u32 a + u32 b = u32 (a + b)"
  by simp

lemma u32_add_numeral [u32_simps]: "u32 a + numeral k = u32 (a + numeral k)"
  by simp

lemma u32_diff [u32_simps]: "b \<le> a \<Longrightarrow> u32 a - u32 b = u32 (a - b)"
  by (simp add: of_nat_diff)

lemma u32_eq [u32_simps]: "a < 2 ^ 32 \<Longrightarrow> b < 2 ^ 32 \<Longrightarrow> (u32 a = u32 b) \<longleftrightarrow> a = b"
  by (metis u32_unat)

lemma u32_less [u32_simps]: "a < 2 ^ 32 \<Longrightarrow> b < 2 ^ 32 \<Longrightarrow> (u32 a < u32 b) \<longleftrightarrow> a < b"
  by (simp add: word_less_nat_alt u32_unat)

lemma u32_le [u32_simps]: "a < 2 ^ 32 \<Longrightarrow> b < 2 ^ 32 \<Longrightarrow> (u32 a \<le> u32 b) \<longleftrightarrow> a \<le> b"
  by (simp add: word_le_nat_alt u32_unat)

lemma unat_u32_less: "unat (w :: u32) < 2 ^ 32"
  using unsigned_less [of w, where ?'a = nat] by simp

lemma unat_byte_less: "unat (b :: byte) < 256"
  using unsigned_less [of b, where ?'a = nat] by simp

lemma ucast_unat: "(ucast (w :: 'a :: len word) :: 'b :: len word) = word_of_nat (unat w)"
  by simp

definition FPNG_MAX_SUPPORTED_DIM :: u32 where "FPNG_MAX_SUPPORTED_DIM = push_bit 24 1"

definition FPNG_FDEC_VERSION :: byte where "FPNG_FDEC_VERSION = 0"

definition minimum :: "'a :: linorder \<Rightarrow> 'a \<Rightarrow> 'a" where
  "minimum a b = (if a < b then a else b)"

definition maximum :: "'a :: linorder \<Rightarrow> 'a \<Rightarrow> 'a" where
  "maximum a b = (if a > b then a else b)"

section \<open>Byte order\<close>

definition simple_swap32 :: "u32 \<Rightarrow> u32" where
  "simple_swap32 x = drop_bit 24 x OR (drop_bit 8 x AND 0x0000FF00) OR (push_bit 8 x AND 0x00FF0000) OR push_bit 24 x"

definition simple_swap64 :: "u64 \<Rightarrow> u64" where
  "simple_swap64 x = push_bit 32 (ucast (simple_swap32 (ucast x))) OR ucast (simple_swap32 (ucast (drop_bit 32 x)))"

definition READ_LE32 :: "byte list \<Rightarrow> u32" where
  "READ_LE32 p = ucast (p ! 0) OR push_bit 8 (ucast (p ! 1)) OR push_bit 16 (ucast (p ! 2)) OR push_bit 24 (ucast (p ! 3))"

definition READ_BE32 :: "byte list \<Rightarrow> u32" where
  "READ_BE32 p = ucast (p ! 3) OR push_bit 8 (ucast (p ! 2)) OR push_bit 16 (ucast (p ! 1)) OR push_bit 24 (ucast (p ! 0))"

definition WRITE_LE32 :: "u32 \<Rightarrow> byte list" where
  "WRITE_LE32 v = [ucast v, ucast (drop_bit 8 v), ucast (drop_bit 16 v), ucast (drop_bit 24 v)]"

definition WRITE_LE64 :: "u64 \<Rightarrow> byte list" where
  "WRITE_LE64 v = [ucast v, ucast (drop_bit 8 v), ucast (drop_bit 16 v), ucast (drop_bit 24 v),
    ucast (drop_bit 32 v), ucast (drop_bit 40 v), ucast (drop_bit 48 v), ucast (drop_bit 56 v)]"

definition READ_RGB_PIXEL :: "byte list \<Rightarrow> u32" where
  "READ_RGB_PIXEL p = ucast (p ! 0) OR push_bit 8 (ucast (p ! 1)) OR push_bit 16 (ucast (p ! 2))"

definition endian_check :: bool where
  "endian_check \<longleftrightarrow> WRITE_LE32 0x1234ABCD ! 0 = 0xCD"

text \<open>The four bytes of a value, most significant first, as the encoder writes checksums and lengths.\<close>

definition be32 :: "u32 \<Rightarrow> byte list" where
  "be32 v = [ucast (drop_bit 24 v), ucast (drop_bit 16 v), ucast (drop_bit 8 v), ucast v]"

section \<open>Round trips\<close>

lemma endian_check [simp]: "endian_check"
  by (simp add: endian_check_def WRITE_LE32_def)

lemma length_be32 [simp]: "length (be32 v) = 4"
  by (simp add: be32_def)

text \<open>Two 32-bit words are equal if they agree in every byte.\<close>

lemma word32_eqI:
  fixes x y :: u32
  assumes "\<And>k. k < 8 \<Longrightarrow> bit x k = bit y k" and "\<And>k. k < 8 \<Longrightarrow> bit x (8 + k) = bit y (8 + k)"
    and "\<And>k. k < 8 \<Longrightarrow> bit x (16 + k) = bit y (16 + k)" and "\<And>k. k < 8 \<Longrightarrow> bit x (24 + k) = bit y (24 + k)"
  shows "x = y"
proof (rule bit_word_eqI)
  fix n assume "n < LENGTH(32)"
  then consider "n < 8" | k where "k < 8" "n = 8 + k" | k where "k < 8" "n = 16 + k" | k where "k < 8" "n = 24 + k"
    using le_Suc_ex [of 8 n] le_Suc_ex [of 16 n] le_Suc_ex [of 24 n] by fastforce
  then show "bit x n = bit y n" using assms by cases simp_all
qed

lemma byte_high_bits:
  "\<not> bit (b :: byte) (8 + k)" "\<not> bit (b :: byte) (16 + k)" "\<not> bit (b :: byte) (24 + k)"
  using bit_imp_le_length [of b] by fastforce+

lemma bit_mask_byte: "bit (push_bit n (mask 8) :: u32) k \<longleftrightarrow> n \<le> k \<and> k < n + 8 \<and> k < 32"
  by (auto simp: bit_simps)

lemma byte_masks: "bit (0x0000FF00 :: u32) k \<longleftrightarrow> 8 \<le> k \<and> k < 16"
  "bit (0x00FF0000 :: u32) k \<longleftrightarrow> 16 \<le> k \<and> k < 24"
  using bit_mask_byte [of 8 k] bit_mask_byte [of 16 k] by (auto simp: mask_eq_exp_minus_1)

lemma read_be32_be32 [simp]: "READ_BE32 (be32 v @ xs) = v"
  by (rule word32_eqI) (simp_all add: READ_BE32_def be32_def bit_simps)

lemma read_le32_write_le32: "READ_LE32 (WRITE_LE32 v) = v"
  by (rule word32_eqI) (simp_all add: READ_LE32_def WRITE_LE32_def bit_simps)

lemma read_be32_swap: "READ_BE32 p = simple_swap32 (READ_LE32 p)"
  by (rule word32_eqI)
    (simp_all add: READ_BE32_def READ_LE32_def simple_swap32_def byte_masks byte_high_bits bit_simps
      del: bit_numeral_word_iff)

end
