(* ===== verification/Fpng_Adler_Proofs.thy ===== *)
theory Fpng_Adler_Proofs
  imports Fpng_Adler
begin

text \<open>
  Neither Adler-32 loop overflows: \<open>exact_sums\<close> are the two sums as natural numbers, without any
  reduction. Their bounds show that 5552 bytes, or 5552 rows of sixteen, fit into 32 bits, and the
  columns of the SSE lanes recombine to the same sums.
\<close>

section \<open>Exact sums\<close>

fun exact_sums :: "byte list \<Rightarrow> nat \<Rightarrow> nat \<Rightarrow> nat \<times> nat" where
  "exact_sums [] a b = (a, b)"
| "exact_sums (c # p) a b = exact_sums p (a + unat c) (b + a + unat c)"

lemma exact_sums_append:
  "exact_sums (p @ q) a b = (case exact_sums p a b of (a', b') \<Rightarrow> exact_sums q a' b')"
  by (induction p arbitrary: a b) simp_all

lemma adler_sums_exact:
  "exact_sums p a b = (a', b') \<Longrightarrow>
    adler_sums p (a mod 65521, b mod 65521) = (a' mod 65521, b' mod 65521)"
proof (induction p arbitrary: a b)
  case (Cons c p)
  have "(b mod 65521 + a mod 65521 + unat c) mod 65521 = (b + a + unat c) mod 65521"
    by (metis mod_add_eq mod_add_left_eq)
  with Cons.IH [of "a + unat c" "b + a + unat c"] Cons.prems show ?case
    by (simp add: adler_sums_def mod_add_left_eq)
qed (simp add: adler_sums_def)

lemma adler_sums_append: "adler_sums (p @ q) s = adler_sums q (adler_sums p s)"
  by (simp add: adler_sums_def)

lemma adler_sums_less:
  "a < 65521 \<Longrightarrow> b < 65521 \<Longrightarrow> adler_sums p (a, b) = (a', b') \<Longrightarrow> a' < 65521 \<and> b' < 65521"
proof (induction p arbitrary: a b)
  case (Cons c p)
  have "adler_sums p ((a + unat c) mod 65521, (b + a + unat c) mod 65521) = (a', b')"
    using Cons.prems(3) by (simp add: adler_sums_def)
  then show ?case by (rule Cons.IH [rotated 2]) simp_all
qed (simp add: adler_sums_def)

text \<open>Closed forms: a byte at place \<open>i\<close> of \<open>n\<close> enters the second sum \<open>n - i\<close> times.\<close>

lemma exact_sums_closed:
  "exact_sums p a b = (a', b') \<Longrightarrow>
    a' = a + (\<Sum>i < length p. unat (p ! i)) \<and>
    b' + (\<Sum>i < length p. i * unat (p ! i)) = b + length p * a + length p * (\<Sum>i < length p. unat (p ! i))"
proof (induction p arbitrary: a' b' rule: rev_induct)
  case (snoc c p)
  obtain a1 b1 where 1: "exact_sums p a b = (a1, b1)" by fastforce
  from snoc.IH [OF this] snoc.prems 1 show ?case
    by (simp add: exact_sums_append nth_append algebra_simps)
qed simp

lemma exact_sums_bound:
  assumes "exact_sums p a b = (a', b')"
  shows "a' \<le> a + 255 * length p" "2 * b' \<le> 2 * b + 2 * (length p * a) + 255 * (length p * (length p + 1))"
proof -
  have "a' \<le> a + 255 * length p \<and> 2 * b' \<le> 2 * b + 2 * (length p * a) + 255 * (length p * (length p + 1))"
    using assms
  proof (induction p arbitrary: a' b' rule: rev_induct)
    case (snoc c p)
    obtain a1 b1 where 1: "exact_sums p a b = (a1, b1)" by fastforce
    have "unat c \<le> 255" using unat_byte_less [of c] by simp
    with snoc.IH [OF 1] snoc.prems 1 show ?case
      by (simp add: exact_sums_append algebra_simps)
  qed simp
  then show "a' \<le> a + 255 * length p" "2 * b' \<le> 2 * b + 2 * (length p * a) + 255 * (length p * (length p + 1))"
    by blast+
qed

lemma exact_sums_small:
  assumes "exact_sums p a b = (a', b')" and "length p \<le> 5552" and "a < 65536" and "b < 65536"
  shows "a' < 2 ^ 32" "b' < 2 ^ 32"
proof -
  have "length p * a \<le> 5552 * 65535" "length p * (length p + 1) \<le> 5552 * 5553"
    using assms(2-4) by (intro mult_le_mono; simp)+
  then show "a' < 2 ^ 32" "b' < 2 ^ 32" using exact_sums_bound [OF assms(1)] assms(2-4) by simp_all
qed

section \<open>Words\<close>

lemma fold_adler_byte:
  "exact_sums p a b = (a', b') \<Longrightarrow> fold adler_byte p (u32 a, u32 b) = (u32 a', u32 b')"
proof (induction p arbitrary: a b)
  case (Cons c p)
  have "ucast c = u32 (unat c)" by (simp add: unsigned_ucast_eq)
  then have "adler_byte c (u32 a, u32 b) = (u32 (a + unat c), u32 (b + a + unat c))"
    by (simp add: adler_byte_def)
  with Cons.IH [of "a + unat c" "b + a + unat c"] Cons.prems show ?case by simp
qed simp

lemma u32_mod: "n < 2 ^ 32 \<Longrightarrow> u32 n mod 65521 = u32 (n mod 65521)"
  by (simp add: word_arith_nat_mod u32_unat)

lemma adler_block_fold: "adler_block p s = fold adler_byte p s"
proof (induction p s rule: adler_block.induct)
  case (1 p s)
  have "fold adler_byte (drop 8 p) (fold adler_byte (take 8 p) s) = fold adler_byte (take 8 p @ drop 8 p) s"
    by (simp only: fold_append o_apply)
  then show ?case using 1 by (simp add: adler_block.simps [of p])
qed

section \<open>The scalar loop\<close>

lemma adler_loop_sums:
  assumes "n \<le> 5552" and "a < 65536" and "b < 65536" and "p = [] \<Longrightarrow> a < 65521 \<and> b < 65521"
    and "adler_sums p (a mod 65521, b mod 65521) = (a', b')"
  shows "adler_loop n p (u32 a, u32 b) = (u32 a', u32 b')"
  using assms
proof (induction n p "(u32 a, u32 b)" arbitrary: a b rule: adler_loop.induct)
  case (1 n p a b)
  show ?case
  proof (cases "p = []")
    case True
    then show ?thesis using "1.prems" by (simp add: adler_loop.simps adler_sums_def)
  next
    case False
    obtain a1 b1 where e: "exact_sums (take n p) a b = (a1, b1)" by fastforce
    have small: "a1 < 2 ^ 32" "b1 < 2 ^ 32" using exact_sums_small [OF e] "1.prems"(1-3) by simp_all
    have block: "adler_block (take n p) (u32 a, u32 b) = (u32 a1, u32 b1)"
      by (simp only: adler_block_fold fold_adler_byte [OF e])
    have "adler_sums (drop n p) (a1 mod 65521 mod 65521, b1 mod 65521 mod 65521) = (a', b')"
      using "1.prems"(5) adler_sums_exact [OF e] adler_sums_append [of "take n p" "drop n p"] by simp
    moreover have "a1 mod 65521 < 65521" "b1 mod 65521 < 65521" by simp_all
    ultimately have "adler_loop 5552 (drop n p) (u32 (a1 mod 65521), u32 (b1 mod 65521)) = (u32 a', u32 b')"
      using "1.hyps" [OF False block [symmetric], of "a1 mod 65521" "b1 mod 65521"]
      by (simp add: block u32_mod [OF small(1)] u32_mod [OF small(2)])
    then show ?thesis using False block
      by (simp add: adler_loop.simps [of n p] u32_mod [OF small(1)] u32_mod [OF small(2)])
  qed
qed

text \<open>The two halves of a checksum.\<close>

lemma halves_less: "unat (adler AND 0xffff :: u32) < 65536" "unat (drop_bit 16 adler :: u32) < 65536"
proof -
  have "unat (adler AND 0xffff) = unat adler mod 65536"
  proof -
    have "adler AND 0xffff = take_bit 16 adler" by (simp add: take_bit_eq_mask mask_eq_exp_minus_1)
    then show ?thesis by (simp only: unsigned_take_bit_eq) (simp add: take_bit_eq_mod)
  qed
  then show "unat (adler AND 0xffff) < 65536" by simp
  have "unat (drop_bit 16 adler) = unat adler div 65536"
    by (simp only: unat_drop_bit_eq) (simp add: drop_bit_eq_div)
  then show "unat (drop_bit 16 adler) < 65536" using unat_u32_less [of adler] by (simp add: less_mult_imp_div_less)
qed

lemma join_halves: "push_bit 16 (u32 b) + u32 a = u32 (a + 65536 * b)"
  by (simp add: push_bit_eq_mult)

lemma join_halves_or:
  assumes "a < 65536"
  shows "u32 a OR push_bit 16 (u32 b) = u32 (a + 65536 * b)"
proof -
  have "\<not> bit a n" if "16 \<le> n" for n
  proof -
    have "a < 2 ^ n" using assms power_increasing [of 16 n "2 :: nat"] that by simp
    then show ?thesis by (simp add: bit_iff_odd)
  qed
  then have "u32 a AND push_bit 16 (u32 b) = 0"
    by (intro bit_word_eqI) (auto simp: bit_simps)
  then have "u32 a OR push_bit 16 (u32 b) = u32 a + push_bit 16 (u32 b)"
    by (rule disjunctive_add_eq_or [symmetric])
  then show ?thesis using join_halves [of b a] by (simp add: add.commute)
qed

lemma scalar_correct:
  assumes "unat (adler AND 0xffff) < 65521" and "unat (drop_bit 16 adler) < 65521"
  shows "fpng_adler32_scalar (Some p) adler = adler32 p adler"
proof -
  let ?a = "unat (adler AND 0xffff)" and ?b = "unat (drop_bit 16 adler)"
  obtain a' b' where s: "adler_sums p (?a, ?b) = (a', b')" by fastforce
  have "adler_loop (length p mod 5552) p (u32 ?a, u32 ?b) = (u32 a', u32 b')"
    using assms s mod_less_divisor [of 5552 "length p"] by (intro adler_loop_sums) simp_all
  then show ?thesis
    by (simp add: fpng_adler32_scalar_def adler32_def s join_halves)
qed

section \<open>The SSE loop\<close>

text \<open>The lanes after some rows: column sums \<open>A\<close> and sums of column sums \<open>B\<close>.\<close>

definition lanes_of :: "(nat \<Rightarrow> nat) \<Rightarrow> (nat \<Rightarrow> nat) \<Rightarrow> lanes" where
  "lanes_of A B =
    \<lparr>va = map (\<lambda>i. u32 (A i)) [0, 1, 2, 3], vb = map (\<lambda>i. u32 (B i)) [0, 1, 2, 3],
     vc = map (\<lambda>i. u32 (A i)) [4, 5, 6, 7], vd = map (\<lambda>i. u32 (B i)) [4, 5, 6, 7],
     ve = map (\<lambda>i. u32 (A i)) [8, 9, 10, 11], vf = map (\<lambda>i. u32 (B i)) [8, 9, 10, 11],
     vg = map (\<lambda>i. u32 (A i)) [12, 13, 14, 15], vh = map (\<lambda>i. u32 (B i)) [12, 13, 14, 15]\<rparr>"

lemma upt_16: "[0 ..< 16] = [0, 1, 2, 3, 4, 5, 6, 7, 8, 9, 10, 11, 12, 13, 14, 15 :: nat]"
  by (simp add: upt_rec)

lemma sse_init_lanes: "sse_init (u32 a) = lanes_of (\<lambda>i. if i = 0 then a else 0) (\<lambda>i. 0)"
  by (simp add: sse_init_def lanes_of_def)

lemma lanes_columns:
  "sse_sa (lanes_of A B) = map (\<lambda>i. u32 (A i)) [0 ..< 16]" "sse_sb (lanes_of A B) = map (\<lambda>i. u32 (B i)) [0 ..< 16]"
  by (simp_all add: sse_sa_def sse_sb_def lanes_of_def upt_16)

lemma cvtepu8_nth:
  assumes "length v = 16" and "k < 4"
  shows "cvtepu8_epi32 k v = map (\<lambda>i. u32 (unat (v ! (4 * k + i)))) [0 ..< 4]"
  using assms by (intro nth_equalityI) (simp_all add: cvtepu8_epi32_def nth_slice unsigned_ucast_eq)

lemma sse_row_lanes:
  assumes "length v = 16"
  shows "sse_row v (lanes_of A B) = lanes_of (\<lambda>i. A i + unat (v ! i)) (\<lambda>i. B i + (A i + unat (v ! i)))"
proof -
  have upt: "[0 ..< 4] = [0, 1, 2, 3 :: nat]" by (simp add: upt_rec)
  have "cvtepu8_epi32 0 v = map (\<lambda>i. u32 (unat (v ! i))) [0, 1, 2, 3]"
    "cvtepu8_epi32 1 v = map (\<lambda>i. u32 (unat (v ! i))) [4, 5, 6, 7]"
    "cvtepu8_epi32 2 v = map (\<lambda>i. u32 (unat (v ! i))) [8, 9, 10, 11]"
    "cvtepu8_epi32 3 v = map (\<lambda>i. u32 (unat (v ! i))) [12, 13, 14, 15]"
    using cvtepu8_nth [OF assms, of 0] cvtepu8_nth [OF assms, of 1] cvtepu8_nth [OF assms, of 2]
      cvtepu8_nth [OF assms, of 3] by (simp_all add: upt)
  then show ?thesis by (simp add: sse_row_def Let_def lanes_of_def add_epi32_def)
qed

text \<open>What \<open>n\<close> rows do, with the bounds of a lane.\<close>

lemma sse_rows:
  assumes "16 * n \<le> length p"
  shows "\<exists>A B. fold (\<lambda>i. sse_row (slice (i * 16) 16 p)) [0 ..< n] (sse_init (u32 a)) = lanes_of A B \<and>
    (\<forall>i. A i \<le> a + 255 * n \<and> 2 * B i \<le> 2 * (n * a) + 255 * (n * (n + 1))) \<and>
    (\<exists>a' b'. exact_sums (take (16 * n) p) a b = (a', b') \<and> a' = (\<Sum>i < 16. A i) \<and>
      b' + (\<Sum>i < 16. i * A i) = b + 16 * (\<Sum>i < 16. B i))"
  using assms
proof (induction n)
  case 0
  show ?case
  proof (intro exI conjI allI)
    show "fold (\<lambda>i. sse_row (slice (i * 16) 16 p)) [0 ..< 0] (sse_init (u32 a)) =
        lanes_of (\<lambda>i. if i = 0 then a else 0) (\<lambda>i. 0)" by (simp add: sse_init_lanes)
  qed (simp_all add: lessThan_nat_numeral)
next
  case (Suc n)
  then obtain A B a' b' where
    rows: "fold (\<lambda>i. sse_row (slice (i * 16) 16 p)) [0 ..< n] (sse_init (u32 a)) = lanes_of A B"
    and bound: "\<And>i. A i \<le> a + 255 * n" "\<And>i. 2 * B i \<le> 2 * (n * a) + 255 * (n * (n + 1))"
    and sums: "exact_sums (take (16 * n) p) a b = (a', b')" "a' = (\<Sum>i < 16. A i)"
      "b' + (\<Sum>i < 16. i * A i) = b + 16 * (\<Sum>i < 16. B i)" by auto
  define v where "v = slice (n * 16) 16 p"
  have len: "length v = 16" using Suc.prems by (simp add: v_def)
  have v_le: "unat (v ! i) \<le> 255" for i using unat_byte_less [of "v ! i"] by simp
  let ?A = "\<lambda>i. A i + unat (v ! i)" and ?B = "\<lambda>i. B i + (A i + unat (v ! i))"
  have "fold (\<lambda>i. sse_row (slice (i * 16) 16 p)) [0 ..< Suc n] (sse_init (u32 a)) = lanes_of ?A ?B"
    using rows sse_row_lanes [OF len, of A B] by (simp add: v_def)
  moreover have "?A i \<le> a + 255 * Suc n" for i using bound(1) [of i] v_le [of i] by simp
  moreover have "2 * ?B i \<le> 2 * (Suc n * a) + 255 * (Suc n * (Suc n + 1))" for i
    using bound [of i] v_le [of i] by (simp add: algebra_simps)
  moreover have "take (16 * Suc n) p = take (16 * n) p @ v"
    using take_add [of "16 * n" 16 p] by (simp add: v_def slice_def mult.commute [of n] add.commute)
  moreover obtain a2 b2 where last: "exact_sums v a' b' = (a2, b2)" by fastforce
  ultimately show ?case
    using exact_sums_closed [OF last] sums len
    by (intro exI [of _ ?A] exI [of _ ?B] conjI allI exI [of _ a2] exI [of _ b2])
      (simp_all add: exact_sums_append sum.distrib distrib_left)
qed

lemma fold_u64_sum: "fold (\<lambda>i v. v + u64 (f i)) [0 ..< n] 0 = u64 (\<Sum>i < n. f i)"
  by (induction n) simp_all

lemma ucast_u64_mod: "n < 2 ^ 64 \<Longrightarrow> ucast (u64 n mod 65521 :: u64) = u32 (n mod 65521)"
proof -
  assume n: "n < 2 ^ 64"
  have "u64 n mod 65521 = u64 (n mod 65521)" by (simp add: word_arith_nat_mod u64_unat [OF n])
  moreover have "n mod 65521 < 2 ^ 64" using mod_less_divisor [of 65521 n] by simp
  ultimately show ?thesis by (simp only: ucast_unat u64_unat)
qed

lemma sse_reduce_sums:
  assumes A: "\<And>i. A i < 2 ^ 32" and B: "\<And>i. B i < 2 ^ 32" and b: "b < 2 ^ 32"
    and a': "a' = (\<Sum>i < 16. A i)" "a' < 2 ^ 64" and b': "b' + (\<Sum>i < 16. i * A i) = b + 16 * (\<Sum>i < 16. B i)" "b' < 2 ^ 64"
  shows "sse_reduce (map (\<lambda>i. u32 (A i)) [0 ..< 16]) (map (\<lambda>i. u32 (B i)) [0 ..< 16]) (u32 b) =
    (u32 (a' mod 65521), u32 (b' mod 65521))"
proof -
  have cast: "ucast (u32 k) = u64 k" if "k < 2 ^ 32" for k
    by (simp only: ucast_unat u32_unat [OF that])
  have fa: "fold (\<lambda>i v. v + ucast (map (\<lambda>i. u32 (A i)) [0 ..< 16] ! i)) [0 ..< 16] (0 :: u64) =
      fold (\<lambda>i v. v + u64 (A i)) [0 ..< 16] 0"
    using cast A by (intro fold_cong) simp_all
  have fb: "fold (\<lambda>i v. v + ucast (map (\<lambda>i. u32 (B i)) [0 ..< 16] ! i)) [0 ..< 16] (0 :: u64) =
      fold (\<lambda>i v. v + u64 (B i)) [0 ..< 16] 0"
    using cast B by (intro fold_cong) simp_all
  have fi: "fold (\<lambda>i v. v + ucast (map (\<lambda>i. u32 (A i)) [0 ..< 16] ! i) * word_of_nat i) [0 ..< 16] (0 :: u64) =
      fold (\<lambda>i v. v + u64 (i * A i)) [0 ..< 16] 0"
    using cast A by (intro fold_cong) (simp_all add: mult.commute)
  have "u64 b' + u64 (\<Sum>i < 16. i * A i) = u64 b + 16 * u64 (\<Sum>i < 16. B i)"
    using arg_cong [OF b'(1), of u64] by (simp only: of_nat_add of_nat_mult of_nat_numeral)
  then have "u64 (\<Sum>i < 16. B i) * 16 - u64 (\<Sum>i < 16. i * A i) + ucast (u32 b) = u64 b'"
    using cast [OF b] by (simp add: algebra_simps)
  then show ?thesis
    using ucast_u64_mod [OF a'(2)] ucast_u64_mod [OF b'(2)]
    by (simp only: sse_reduce_def Let_def fa fb fi fold_u64_sum a'(1) [symmetric])
qed

lemma sse_round:
  assumes "n \<le> 5552" and "16 * n \<le> length p" and "a < 65536" and "b < 65536"
    and "l = fold (\<lambda>i. sse_row (slice (i * 16) 16 p)) [0 ..< n] (sse_init (u32 a))"
    and "exact_sums (take (16 * n) p) a b = (a', b')"
  shows "sse_reduce (sse_sa l) (sse_sb l) (u32 b) = (u32 (a' mod 65521), u32 (b' mod 65521))"
proof -
  obtain A B where l: "l = lanes_of A B"
    and bound: "\<And>i. A i \<le> a + 255 * n" "\<And>i. 2 * B i \<le> 2 * (n * a) + 255 * (n * (n + 1))"
    and sums: "a' = (\<Sum>i < 16. A i)" "b' + (\<Sum>i < 16. i * A i) = b + 16 * (\<Sum>i < 16. B i)"
    using sse_rows [OF assms(2), of a b] assms(5,6) by auto
  have "n * a \<le> 5552 * 65535" "n * (n + 1) \<le> 5552 * 5553"
    using assms(1,3) by (intro mult_le_mono; simp)+
  then have A: "A i < 2 ^ 32" and B: "B i < 2 ^ 32" for i
    using bound [of i] assms(1,3) by simp_all
  have "(\<Sum>i < 16. A i) \<le> (\<Sum>i < 16 :: nat. 2 ^ 32)" "(\<Sum>i < 16. B i) \<le> (\<Sum>i < 16 :: nat. 2 ^ 32)"
    using A B by (intro sum_mono; simp add: less_imp_le)+
  then have "a' < 2 ^ 64" "b' < 2 ^ 64" using sums assms(4) by simp_all
  then show ?thesis
    using sse_reduce_sums [of A B b a' b'] A B assms(4) sums l by (simp add: lanes_columns)
qed

lemma adler_sse_loop_sums:
  assumes "a < 65536" and "b < 65536" and "adler_sums p (a mod 65521, b mod 65521) = (a', b')"
  shows "adler_sse_loop p (u32 a, u32 b) = (u32 a', u32 b')"
  using assms
proof (induction "length p" arbitrary: p a b rule: less_induct)
  case less
  show ?case
  proof (cases "length p < 16")
    case True
    obtain a1 b1 where e: "exact_sums p a b = (a1, b1)" by fastforce
    have "a1 < 2 ^ 32" "b1 < 2 ^ 32" using exact_sums_small [OF e] True less.prems(1,2) by simp_all
    from u32_mod [OF this(1)] u32_mod [OF this(2)] show ?thesis
      using True adler_sums_exact [OF e] less.prems(3) fold_adler_byte [OF e]
      by (simp add: adler_sse_loop.simps [of p])
  next
    case False
    define n where "n = minimum (length p div 16) 5552"
    define l where "l = fold (\<lambda>i. sse_row (slice (i * 16) 16 p)) [0 ..< n] (sse_init (u32 a))"
    have n: "n \<le> 5552" "16 * n \<le> length p" "0 < n" using False by (auto simp: n_def minimum_def)
    obtain a1 b1 where e: "exact_sums (take (16 * n) p) a b = (a1, b1)" by fastforce
    note round = sse_round [OF n(1,2) less.prems(1,2) l_def e]
    have "adler_sums (drop (16 * n) p) (a1 mod 65521 mod 65521, b1 mod 65521 mod 65521) = (a', b')"
      using less.prems(3) adler_sums_exact [OF e] adler_sums_append [of "take (16 * n) p" "drop (16 * n) p"]
      by simp
    moreover have "a1 mod 65521 < 65536" "b1 mod 65521 < 65536"
      using mod_less_divisor [of 65521 a1] mod_less_divisor [of 65521 b1] by simp_all
    ultimately have "adler_sse_loop (drop (16 * n) p) (u32 (a1 mod 65521), u32 (b1 mod 65521)) = (u32 a', u32 b')"
      using n False by (intro less.hyps) simp_all
    moreover have "adler_sse_loop p (u32 a, u32 b) =
        adler_sse_loop (drop (16 * n) p) (sse_reduce (sse_sa l) (sse_sb l) (u32 b))"
      using False by (subst adler_sse_loop.simps) (simp add: Let_def n_def [symmetric] l_def [symmetric] mult.commute)
    ultimately show ?thesis using round by simp
  qed
qed

lemma sse_correct:
  assumes "unat (adler AND 0xffff) < 65521" and "unat (drop_bit 16 adler) < 65521"
  shows "adler32_sse_16 p adler = adler32 p adler"
proof -
  let ?a = "unat (adler AND 0xffff)" and ?b = "unat (drop_bit 16 adler)"
  obtain a' b' where s: "adler_sums p (?a, ?b) = (a', b')" by fastforce
  have "adler_sse_loop p (u32 ?a, u32 ?b) = (u32 a', u32 b')"
    using s assms halves_less [of adler] by (intro adler_sse_loop_sums) simp_all
  moreover have "a' < 65536" using adler_sums_less [OF assms s] by simp
  ultimately show ?thesis
    using join_halves_or [of a' b'] by (simp add: adler32_sse_16_def adler32_def s)
qed

end
