(* ===== verification/Fpng_Crc.thy ===== *)
theory Fpng_Crc
  imports Fpng_Crc_Tables Fpng_Adler
begin

text \<open>
  CRC-32 in \<open>fpng.cpp\<close>: the table-driven loop over four bytes at a time, the SSE loop that folds
  sixteen bytes at a time with carry-less multiplications, and the dispatch on the features of the
  CPU, which \<open>fpng_init\<close> reads into \<open>g_cpu_info\<close>. A pointer with a length is the list of the bytes.
\<close>

definition FPNG_CRC32_INIT :: u32 where "FPNG_CRC32_INIT = 0"

section \<open>Slicing by four\<close>

function crc32_loop :: "byte list \<Rightarrow> u32 \<Rightarrow> u32" where
  "crc32_loop p crc =
    (if 4 \<le> length p then
       (let v = READ_LE32 p XOR crc in
        crc32_loop (drop 4 p)
          (g_crc32_4 ! 0 ! unat (drop_bit 24 v) XOR g_crc32_4 ! 1 ! unat (drop_bit 16 v AND 0xFF) XOR
           g_crc32_4 ! 2 ! unat (drop_bit 8 v AND 0xFF) XOR g_crc32_4 ! 3 ! unat (v AND 0xFF)))
     else
       fold (\<lambda>c crc. drop_bit 8 crc XOR g_crc32_4 ! 0 ! unat ((crc AND 0xFF) XOR ucast c)) p crc)"
  by auto
termination by (relation "measure (\<lambda>(p, crc). length p)") auto

declare crc32_loop.simps [simp del]

definition crc32_slice_by_4 :: "byte list \<Rightarrow> u32 \<Rightarrow> u32" where
  "crc32_slice_by_4 p cur_crc32 = NOT (crc32_loop p (NOT cur_crc32))"

section \<open>Folding with carry-less multiplication\<close>

type_synonym m128 = "128 word"

text \<open>Carry-less product, and the intrinsics: the immediate of \<open>_mm_clmulepi64_si128\<close> selects the halves.\<close>

definition clmul :: "u64 \<Rightarrow> u64 \<Rightarrow> m128" where
  "clmul x y = fold (\<lambda>i acc. if bit x i then acc XOR push_bit i (ucast y) else acc) [0 ..< 64] 0"

definition low64 :: "m128 \<Rightarrow> u64" where "low64 x = ucast x"

definition high64 :: "m128 \<Rightarrow> u64" where "high64 x = ucast (drop_bit 64 x)"

definition mm_clmulepi64_si128 :: "m128 \<Rightarrow> m128 \<Rightarrow> nat \<Rightarrow> m128" where
  "mm_clmulepi64_si128 a b imm =
    clmul (if odd imm then high64 a else low64 a) (if odd (imm div 16) then high64 b else low64 b)"

definition mm_set_epi64 :: "u64 \<Rightarrow> u64 \<Rightarrow> m128" where
  "mm_set_epi64 hi lo = push_bit 64 (ucast hi) OR ucast lo"

text \<open>An unaligned load of sixteen bytes.\<close>

definition mm_loadu_si128 :: "byte list \<Rightarrow> m128" where
  "mm_loadu_si128 p = word_of_nat (le_val (take 16 p))"

definition s_u :: m128 where "s_u = mm_set_epi64 0x1F7011641 0x1DB710641"

definition s_k5k0 :: m128 where "s_k5k0 = mm_set_epi64 0 0x163CD6124"

definition s_k3k4 :: m128 where "s_k3k4 = mm_set_epi64 0xCCAA009E 0x1751997D0"

definition pclmul_fold :: "m128 \<Rightarrow> byte list \<Rightarrow> m128" where
  "pclmul_fold b p =
    mm_clmulepi64_si128 b s_k3k4 17 XOR mm_loadu_si128 p XOR mm_clmulepi64_si128 b s_k3k4 0"

text \<open>The loop \<open>for (size -= 16, p += 16; size >= 16; size -= 16, p += 16)\<close>.\<close>

function pclmul_loop :: "m128 \<Rightarrow> byte list \<Rightarrow> m128" where
  "pclmul_loop b p = (if 16 \<le> length p then pclmul_loop (pclmul_fold b p) (drop 16 p) else b)"
  by auto
termination by (relation "measure (\<lambda>(b, p). length p)") auto

declare pclmul_loop.simps [simp del]

definition pclmul_final :: "m128 \<Rightarrow> u32" where
  "pclmul_final b =
    (let z = mm_set_epi64 0xFFFFFFFF 0xFFFFFFFF; u = s_u;
         b = drop_bit 64 b XOR mm_clmulepi64_si128 b s_k3k4 16;
         b = mm_clmulepi64_si128 (b AND z) s_k5k0 0 XOR drop_bit 32 b in
     ucast (drop_bit 32
       (b XOR mm_clmulepi64_si128 (mm_clmulepi64_si128 (b AND z) u 16 AND z) u 0)))"

definition crc32_pclmul :: "byte list \<Rightarrow> u32 \<Rightarrow> u32 res" where
  "crc32_pclmul p crc =
    and_then (assert_that (16 \<le> length p)) (\<lambda>_.
    Inr (NOT (pclmul_final (pclmul_loop (ucast (NOT crc) XOR mm_loadu_si128 p) (drop 16 p)))))"

text \<open>\<open>simd_len\<close> is the length rounded down to a multiple of 16, cut to 32 bits.\<close>

definition crc32_sse41_simd :: "byte list \<Rightarrow> u32 \<Rightarrow> u32 res" where
  "crc32_sse41_simd buf prev_crc32 =
    (if length buf < 16 then Inr (crc32_slice_by_4 buf prev_crc32)
     else
       (let simd_len = u32 (length buf) AND NOT 15 in
        and_then (crc32_pclmul (take (unat simd_len) buf) prev_crc32) (\<lambda>c.
        Inr (crc32_slice_by_4 (drop (unat simd_len) buf) c))))"

section \<open>CPU features\<close>

record cpu_info =
  m_initialized :: bool
  m_has_fpu :: bool
  m_has_mmx :: bool
  m_has_sse :: bool
  m_has_sse2 :: bool
  m_has_sse3 :: bool
  m_has_ssse3 :: bool
  m_has_sse41 :: bool
  m_has_sse42 :: bool
  m_has_avx :: bool
  m_has_avx2 :: bool
  m_has_pclmulqdq :: bool

definition new_cpu_info :: cpu_info where
  "new_cpu_info =
    \<lparr>m_initialized = False, m_has_fpu = False, m_has_mmx = False, m_has_sse = False, m_has_sse2 = False,
     m_has_sse3 = False, m_has_ssse3 = False, m_has_sse41 = False, m_has_sse42 = False, m_has_avx = False,
     m_has_avx2 = False, m_has_pclmulqdq = False\<rparr>"

definition extract_x86_flags :: "u32 \<Rightarrow> u32 \<Rightarrow> cpu_info \<Rightarrow> cpu_info" where
  "extract_x86_flags ecx edx cpu =
    cpu\<lparr>m_has_fpu := bit edx 0, m_has_mmx := bit edx 23, m_has_sse := bit edx 25, m_has_sse2 := bit edx 26,
     m_has_sse3 := bit ecx 0, m_has_ssse3 := bit ecx 9, m_has_sse41 := bit ecx 19, m_has_sse42 := bit ecx 20,
     m_has_pclmulqdq := bit ecx 1, m_has_avx := bit ecx 28\<rparr>"

definition extract_x86_extended_flags :: "u32 \<Rightarrow> cpu_info \<Rightarrow> cpu_info" where
  "extract_x86_extended_flags ebx cpu = cpu\<lparr>m_has_avx2 := bit ebx 5\<rparr>"

text \<open>The instruction \<open>CPUID\<close> is the argument \<open>cpuid\<close>: it gives \<open>eax\<close>, \<open>ebx\<close>, \<open>ecx\<close> and \<open>edx\<close> of a leaf.\<close>

definition cpu_info_init :: "(u32 \<Rightarrow> u32 \<times> u32 \<times> u32 \<times> u32) \<Rightarrow> cpu_info \<Rightarrow> cpu_info" where
  "cpu_info_init cpuid cpu =
    (if m_initialized cpu then cpu
     else
       (let max_eax = fst (cpuid 0);
            cpu = (if 1 \<le> max_eax then (case cpuid 1 of (_, _, ecx, edx) \<Rightarrow> extract_x86_flags ecx edx cpu) else cpu);
            cpu = (if 7 \<le> max_eax then (case cpuid 7 of (_, ebx, _, _) \<Rightarrow> extract_x86_extended_flags ebx cpu) else cpu) in
        cpu\<lparr>m_initialized := True\<rparr>))"

definition can_use_sse41 :: "cpu_info \<Rightarrow> bool" where
  "can_use_sse41 cpu \<longleftrightarrow>
    m_has_sse cpu \<and> m_has_sse2 cpu \<and> m_has_sse3 cpu \<and> m_has_ssse3 cpu \<and> m_has_sse41 cpu"

definition can_use_pclmul :: "cpu_info \<Rightarrow> bool" where
  "can_use_pclmul cpu \<longleftrightarrow> m_has_pclmulqdq cpu \<and> can_use_sse41 cpu"

definition fpng_cpu_supports_sse41 :: "cpu_info \<Rightarrow> bool res" where
  "fpng_cpu_supports_sse41 cpu =
    and_then (assert_that (m_initialized cpu)) (\<lambda>_. Inr (can_use_sse41 cpu))"

section \<open>Dispatch\<close>

definition fpng_crc32 :: "cpu_info \<Rightarrow> byte list \<Rightarrow> u32 \<Rightarrow> u32 res" where
  "fpng_crc32 cpu p prev_crc32 =
    (if can_use_pclmul cpu then crc32_sse41_simd p prev_crc32 else Inr (crc32_slice_by_4 p prev_crc32))"

definition fpng_adler32 :: "cpu_info \<Rightarrow> byte list \<Rightarrow> u32 \<Rightarrow> u32" where
  "fpng_adler32 cpu p adler =
    (if can_use_sse41 cpu then adler32_sse_16 p adler else fpng_adler32_scalar (Some p) adler)"

section \<open>The checksum\<close>

text \<open>CRC-32 bit by bit: the reflected polynomial, register and result inverted.\<close>

definition crc_bit :: "u32 \<Rightarrow> u32" where
  "crc_bit c = (if bit c 0 then drop_bit 1 c XOR 0xEDB88320 else drop_bit 1 c)"

definition crc_byte :: "byte \<Rightarrow> u32 \<Rightarrow> u32" where
  "crc_byte b c = (crc_bit ^^ 8) (c XOR ucast b)"

definition crc32 :: "byte list \<Rightarrow> u32 \<Rightarrow> u32" where
  "crc32 p prev = NOT (fold crc_byte p (NOT prev))"

end
