(* ===== verification/Fpng_Raw.thy ===== *)
theory Fpng_Raw
  imports Fpng_Crc
begin

text \<open>
  Uncompressed Deflate blocks in \<open>fpng.cpp\<close>: \<open>write_raw_block\<close> and \<open>fpng_pixel_zlib_raw_decompress\<close>.
  A destination pointer is the list of the bytes behind it; \<open>peek\<close> and \<open>poke\<close> are the reads and writes,
  \<open>OutOfBounds\<close> behind the end. Offsets and sizes are 32-bit words, as in the code.
\<close>

section \<open>Buffers\<close>

definition peek :: "nat \<Rightarrow> nat \<Rightarrow> byte list \<Rightarrow> byte list res" where
  "peek a n p = (if a + n \<le> length p then Inr (slice a n p) else Inl OutOfBounds)"

definition poke :: "nat \<Rightarrow> byte list \<Rightarrow> byte list \<Rightarrow> byte list res" where
  "poke a bs p = (if a + length bs \<le> length p then Inr (splice_at a bs p) else Inl OutOfBounds)"

definition read_byte :: "byte list \<Rightarrow> nat \<Rightarrow> byte res" where
  "read_byte p i = (if i < length p then Inr (p ! i) else Inl OutOfBounds)"

section \<open>Writing\<close>

text \<open>A loop that writes bytes one by one and gives up (\<open>None\<close>) when the buffer is full.\<close>

fun put_bytes :: "byte list \<Rightarrow> u32 \<Rightarrow> u32 \<Rightarrow> byte list \<Rightarrow> (byte list \<times> u32 option) res" where
  "put_bytes [] dst_ofs dst_buf_size pDst = Inr (pDst, Some dst_ofs)"
| "put_bytes (b # bs) dst_ofs dst_buf_size pDst =
    (if dst_ofs + 1 > dst_buf_size then Inr (pDst, None)
     else and_then (poke (unat dst_ofs) [b] pDst) (\<lambda>pDst. put_bytes bs (dst_ofs + 1) dst_buf_size pDst))"

definition raw_block_header :: "bool \<Rightarrow> u32 \<Rightarrow> byte list" where
  "raw_block_header final_block block_size =
    [if final_block then 1 else 0,
     ucast (block_size AND 0xFF), ucast (drop_bit 8 block_size AND 0xFF),
     ucast (NOT block_size AND 0xFF), ucast (drop_bit 8 (NOT block_size) AND 0xFF)]"

function write_raw_loop ::
  "byte list \<Rightarrow> u32 \<Rightarrow> u32 \<Rightarrow> u32 \<Rightarrow> u32 \<Rightarrow> byte list \<Rightarrow> (byte list \<times> u32 option) res" where
  "write_raw_loop pSrc src_len src_ofs dst_ofs dst_buf_size pDst =
    (if src_ofs < src_len then
       (let src_remaining = src_len - src_ofs;
            block_size = minimum 0xFFFF src_remaining;
            final_block = (block_size = src_remaining) in
        if dst_ofs + 5 + block_size > dst_buf_size then Inr (pDst, None)
        else
          and_then (poke (unat dst_ofs) (raw_block_header final_block block_size) pDst) (\<lambda>pDst.
          and_then (peek (unat src_ofs) (unat block_size) pSrc) (\<lambda>bytes.
          and_then (poke (unat (dst_ofs + 5)) bytes pDst) (\<lambda>pDst.
          write_raw_loop pSrc src_len (src_ofs + block_size) (dst_ofs + (5 + block_size)) dst_buf_size pDst))))
     else Inr (pDst, Some dst_ofs))"
  by auto
termination
proof (relation "measure (\<lambda>(p, src_len, src_ofs, r). unat (src_len - src_ofs))", goal_cases)
  case (2 pSrc src_len src_ofs dst_ofs dst_buf_size pDst src_remaining block_size)
  let ?n = "minimum 0xFFFF (src_len - src_ofs)"
  have "0 < src_len - src_ofs" using 2(1) by (simp add: word_greater_zero_iff)
  then have "0 < ?n" "?n \<le> src_len - src_ofs" by (auto simp: minimum_def not_less)
  then have "src_len - (src_ofs + ?n) < src_len - src_ofs"
    by (simp add: word_less_nat_alt word_le_nat_alt unat_sub flip: diff_diff_eq)
  moreover have "block_size = ?n" using 2(2,3) by (simp only:)
  ultimately show ?case by (simp only: word_less_nat_alt in_measure case_prod_conv)
qed simp

declare write_raw_loop.simps [simp del]

text \<open>The number of bytes written, 0 on failure.\<close>

definition write_raw_block ::
  "cpu_info \<Rightarrow> byte list \<Rightarrow> u32 \<Rightarrow> byte list \<Rightarrow> u32 \<Rightarrow> (byte list \<times> u32) res" where
  "write_raw_block cpu pSrc src_len pDst dst_buf_size =
    (if dst_buf_size < 2 then Inr (pDst, 0)
     else
       and_then (poke 0 [0x78, 0x01] pDst) (\<lambda>pDst.
       and_then (write_raw_loop pSrc src_len 0 2 dst_buf_size pDst) (\<lambda>(pDst, ofs).
       case ofs of
         None \<Rightarrow> Inr (pDst, 0)
       | Some dst_ofs \<Rightarrow>
           and_then (peek 0 (unat src_len) pSrc) (\<lambda>src.
           and_then (put_bytes (be32 (fpng_adler32 cpu src FPNG_ADLER32_INIT)) dst_ofs dst_buf_size pDst)
             (\<lambda>(pDst, ofs). Inr (pDst, case ofs of None \<Rightarrow> 0 | Some dst_ofs \<Rightarrow> dst_ofs))))))"

section \<open>Reading\<close>

record raw_state =
  raster_ofs :: u32
  comp_ofs :: u32
  dst_ofs :: u32
  pDst :: "byte list"

text \<open>\<open>pDst[dst_ofs++] = c\<close>, or \<open>None\<close> when the image is complete.\<close>

definition put_component :: "u32 \<Rightarrow> byte \<Rightarrow> raw_state \<Rightarrow> raw_state option res" where
  "put_component dst_len c s =
    (if dst_ofs s = dst_len then Inr None
     else and_then (poke (unat (dst_ofs s)) [c] (pDst s)) (\<lambda>p.
       Inr (Some (s\<lparr>dst_ofs := dst_ofs s + 1, pDst := p\<rparr>))))"

text \<open>Sequencing of steps that can return false.\<close>

definition or_false :: "'a option res \<Rightarrow> ('a \<Rightarrow> 'b option res) \<Rightarrow> 'b option res" where
  "or_false r f = and_then r (\<lambda>x. case x of None \<Rightarrow> Inr None | Some s \<Rightarrow> f s)"

definition raw_component :: "u32 \<Rightarrow> u32 \<Rightarrow> u32 \<Rightarrow> byte \<Rightarrow> raw_state \<Rightarrow> raw_state option res" where
  "raw_component src_chans dst_chans dst_len c s =
    or_false (if comp_ofs s < dst_chans then put_component dst_len c s else Inr (Some s)) (\<lambda>s.
    let s = s\<lparr>comp_ofs := comp_ofs s + 1\<rparr> in
    if comp_ofs s = src_chans then
      or_false (if dst_chans > src_chans then put_component dst_len 0xFF s else Inr (Some s)) (\<lambda>s.
      Inr (Some (s\<lparr>comp_ofs := 0\<rparr>)))
    else Inr (Some s))"

definition raw_byte :: "u32 \<Rightarrow> u32 \<Rightarrow> u32 \<Rightarrow> u32 \<Rightarrow> byte \<Rightarrow> raw_state \<Rightarrow> raw_state option res" where
  "raw_byte src_chans dst_chans src_bpl dst_len c s =
    or_false
      (if raster_ofs s = 0 then
         if c \<noteq> 0 then Inr None
         else and_then (assert_that (comp_ofs s = 0)) (\<lambda>_. Inr (Some s))
       else raw_component src_chans dst_chans dst_len c s) (\<lambda>s.
    let s = s\<lparr>raster_ofs := raster_ofs s + 1\<rparr> in
    if raster_ofs s = src_bpl + 1 then
      and_then (assert_that (comp_ofs s = 0)) (\<lambda>_. Inr (Some (s\<lparr>raster_ofs := 0\<rparr>)))
    else Inr (Some s))"

fun raw_bytes :: "u32 \<Rightarrow> u32 \<Rightarrow> u32 \<Rightarrow> u32 \<Rightarrow> byte list \<Rightarrow> raw_state \<Rightarrow> raw_state option res" where
  "raw_bytes sc dc bpl len [] s = Inr (Some s)"
| "raw_bytes sc dc bpl len (c # cs) s = or_false (raw_byte sc dc bpl len c s) (raw_bytes sc dc bpl len cs)"

text \<open>The loop over the blocks; \<open>Some (src_ofs, s)\<close> after the final block.\<close>

fun raw_blocks_loop ::
  "nat \<Rightarrow> u32 \<Rightarrow> u32 \<Rightarrow> u32 \<Rightarrow> u32 \<Rightarrow> byte list \<Rightarrow> u32 \<Rightarrow> u32 \<Rightarrow> raw_state \<Rightarrow> (u32 \<times> raw_state) option res" where
  "raw_blocks_loop 0 sc dc bpl dst_len pSrc src_len src_ofs s = Inl Diverges"
| "raw_blocks_loop (Suc fuel) sc dc bpl dst_len pSrc src_len src_ofs s =
    (if src_ofs + 1 > src_len then Inr None
     else
       and_then (read_byte pSrc (unat src_ofs)) (\<lambda>b0.
       let bfinal = (b0 AND 1 \<noteq> 0); btype = drop_bit 1 b0 AND 3 in
       if btype \<noteq> 0 then Inr None
       else
         (let src_ofs = src_ofs + 1 in
          if src_ofs + 4 > src_len then Inr None
          else
            and_then (peek (unat src_ofs) 4 pSrc) (\<lambda>l.
            let len = ucast (l ! 0) OR push_bit 8 (ucast (l ! 1)) :: u32;
                nlen = ucast (l ! 2) OR push_bit 8 (ucast (l ! 3)) :: u32;
                src_ofs = src_ofs + 4 in
            if len \<noteq> NOT nlen AND 0xFFFF then Inr None
            else if src_ofs + len > src_len then Inr None
            else
              and_then (peek (unat src_ofs) (unat len) pSrc) (\<lambda>bytes.
              or_false (raw_bytes sc dc bpl dst_len bytes s) (\<lambda>s.
              if bfinal then Inr (Some (src_ofs + len, s))
              else raw_blocks_loop fuel sc dc bpl dst_len pSrc src_len (src_ofs + len) s))))))"

declare raw_blocks_loop.simps [simp del]

text \<open>
  \<open>None\<close> is the result false; otherwise the filled destination. The loop has fuel for one block per
  byte of the source.
\<close>

definition fpng_pixel_zlib_raw_decompress ::
  "byte list \<Rightarrow> u32 \<Rightarrow> u32 \<Rightarrow> byte list \<Rightarrow> u32 \<Rightarrow> u32 \<Rightarrow> u32 \<Rightarrow> u32 \<Rightarrow> byte list option res" where
  "fpng_pixel_zlib_raw_decompress pSrc src_len zlib_len pDst0 w h src_chans dst_chans =
    and_then (assert_that (src_chans = 3 \<or> src_chans = 4)) (\<lambda>_.
    and_then (assert_that (dst_chans = 3 \<or> dst_chans = 4)) (\<lambda>_.
    let src_bpl = w * src_chans; dst_bpl = w * dst_chans; dst_len = dst_bpl * h in
    or_false (raw_blocks_loop (Suc (length pSrc)) src_chans dst_chans src_bpl dst_len pSrc src_len 2
      \<lparr>raster_ofs = 0, comp_ofs = 0, dst_ofs = 0, pDst = pDst0\<rparr>) (\<lambda>(src_ofs, s).
    if comp_ofs s \<noteq> 0 then Inr None
    else if src_ofs + 4 \<noteq> zlib_len then Inr None
    else if dst_ofs s = dst_len then Inr (Some (pDst s))
    else Inr None)))"

end
