(* ===== verification/Fpng_Huffman_Tables.thy ===== *)
theory Fpng_Huffman_Tables
  imports Fpng_Crc
begin

text \<open>
  The constant tables of the dynamic Huffman blocks of \<open>fpng.cpp\<close>: the symbols and extra bits of match
  lengths, the bit masks, the canned block headers and codes of the one-pass encoders, and the tables of
  the decoder. Their entries are non-negative and small, and are kept as natural numbers where the code
  uses them as indices and counts.
\<close>

section \<open>Encoder\<close>

definition DEFL_MAX_HUFF_TABLES :: nat where "DEFL_MAX_HUFF_TABLES = 3"
definition DEFL_MAX_HUFF_SYMBOLS :: nat where "DEFL_MAX_HUFF_SYMBOLS = 288"
definition DEFL_MAX_HUFF_SYMBOLS_0 :: nat where "DEFL_MAX_HUFF_SYMBOLS_0 = 288"
definition DEFL_MAX_HUFF_SYMBOLS_1 :: nat where "DEFL_MAX_HUFF_SYMBOLS_1 = 32"
definition DEFL_MAX_HUFF_SYMBOLS_2 :: nat where "DEFL_MAX_HUFF_SYMBOLS_2 = 19"

definition g_defl_len_sym :: "nat list" where
  "g_defl_len_sym = [
    257, 258, 259, 260, 261, 262, 263, 264, 265, 265, 266, 266, 267, 267, 268, 268, 269, 269, 269, 269, 270, 270, 270, 270, 271, 271, 271, 271, 272,
    272, 272, 272, 273, 273, 273, 273, 273, 273, 273, 273, 274, 274, 274, 274, 274, 274, 274, 274, 275, 275, 275, 275, 275, 275, 275, 275, 276, 276,
    276, 276, 276, 276, 276, 276, 277, 277, 277, 277, 277, 277, 277, 277, 277, 277, 277, 277, 277, 277, 277, 277, 278, 278, 278, 278, 278, 278, 278,
    278, 278, 278, 278, 278, 278, 278, 278, 278, 279, 279, 279, 279, 279, 279, 279, 279, 279, 279, 279, 279, 279, 279, 279, 279, 280, 280, 280, 280,
    280, 280, 280, 280, 280, 280, 280, 280, 280, 280, 280, 280, 281, 281, 281, 281, 281, 281, 281, 281, 281, 281, 281, 281, 281, 281, 281, 281, 281,
    281, 281, 281, 281, 281, 281, 281, 281, 281, 281, 281, 281, 281, 281, 281, 282, 282, 282, 282, 282, 282, 282, 282, 282, 282, 282, 282, 282, 282,
    282, 282, 282, 282, 282, 282, 282, 282, 282, 282, 282, 282, 282, 282, 282, 282, 282, 282, 283, 283, 283, 283, 283, 283, 283, 283, 283, 283, 283,
    283, 283, 283, 283, 283, 283, 283, 283, 283, 283, 283, 283, 283, 283, 283, 283, 283, 283, 283, 283, 283, 284, 284, 284, 284, 284, 284, 284, 284,
    284, 284, 284, 284, 284, 284, 284, 284, 284, 284, 284, 284, 284, 284, 284, 284, 284, 284, 284, 284, 284, 284, 284, 285]"

definition g_defl_len_extra :: "nat list" where
  "g_defl_len_extra = [
    0, 0, 0, 0, 0, 0, 0, 0, 1, 1, 1, 1, 1, 1, 1, 1, 2, 2, 2, 2, 2, 2, 2, 2, 2, 2, 2, 2, 2, 2, 2, 2, 3, 3, 3, 3, 3, 3, 3, 3, 3, 3, 3, 3, 3, 3, 3, 3, 3,
    3, 3, 3, 3, 3, 3, 3, 3, 3, 3, 3, 3, 3, 3, 3, 4, 4, 4, 4, 4, 4, 4, 4, 4, 4, 4, 4, 4, 4, 4, 4, 4, 4, 4, 4, 4, 4, 4, 4, 4, 4, 4, 4, 4, 4, 4, 4, 4, 4,
    4, 4, 4, 4, 4, 4, 4, 4, 4, 4, 4, 4, 4, 4, 4, 4, 4, 4, 4, 4, 4, 4, 4, 4, 4, 4, 4, 4, 4, 4, 5, 5, 5, 5, 5, 5, 5, 5, 5, 5, 5, 5, 5, 5, 5, 5, 5, 5, 5,
    5, 5, 5, 5, 5, 5, 5, 5, 5, 5, 5, 5, 5, 5, 5, 5, 5, 5, 5, 5, 5, 5, 5, 5, 5, 5, 5, 5, 5, 5, 5, 5, 5, 5, 5, 5, 5, 5, 5, 5, 5, 5, 5, 5, 5, 5, 5, 5, 5,
    5, 5, 5, 5, 5, 5, 5, 5, 5, 5, 5, 5, 5, 5, 5, 5, 5, 5, 5, 5, 5, 5, 5, 5, 5, 5, 5, 5, 5, 5, 5, 5, 5, 5, 5, 5, 5, 5, 5, 5, 5, 5, 5, 5, 5, 5, 5, 5, 5,
    5, 5, 5, 5, 5, 5, 5, 5, 5, 5, 0]"

definition g_defl_small_dist_sym :: "nat list" where
  "g_defl_small_dist_sym = [
    0, 1, 2, 3, 4, 4, 5, 5, 6, 6, 6, 6, 7, 7, 7, 7, 8, 8, 8, 8, 8, 8, 8, 8, 9, 9, 9, 9, 9, 9, 9, 9, 10, 10, 10, 10, 10, 10, 10, 10, 10, 10, 10, 10,
    10, 10, 10, 10, 11, 11, 11, 11, 11, 11, 11, 11, 11, 11, 11, 11, 11, 11, 11, 11, 12, 12, 12, 12, 12, 12, 12, 12, 12, 12, 12, 12, 12, 12, 12, 12,
    12, 12, 12, 12, 12, 12, 12, 12, 12, 12, 12, 12, 12, 12, 12, 12, 13, 13, 13, 13, 13, 13, 13, 13, 13, 13, 13, 13, 13, 13, 13, 13, 13, 13, 13, 13,
    13, 13, 13, 13, 13, 13, 13, 13, 13, 13, 13, 13, 14, 14, 14, 14, 14, 14, 14, 14, 14, 14, 14, 14, 14, 14, 14, 14, 14, 14, 14, 14, 14, 14, 14, 14,
    14, 14, 14, 14, 14, 14, 14, 14, 14, 14, 14, 14, 14, 14, 14, 14, 14, 14, 14, 14, 14, 14, 14, 14, 14, 14, 14, 14, 14, 14, 14, 14, 14, 14, 14, 14,
    14, 14, 14, 14, 15, 15, 15, 15, 15, 15, 15, 15, 15, 15, 15, 15, 15, 15, 15, 15, 15, 15, 15, 15, 15, 15, 15, 15, 15, 15, 15, 15, 15, 15, 15, 15,
    15, 15, 15, 15, 15, 15, 15, 15, 15, 15, 15, 15, 15, 15, 15, 15, 15, 15, 15, 15, 15, 15, 15, 15, 15, 15, 15, 15, 15, 15, 15, 15, 16, 16, 16, 16,
    16, 16, 16, 16, 16, 16, 16, 16, 16, 16, 16, 16, 16, 16, 16, 16, 16, 16, 16, 16, 16, 16, 16, 16, 16, 16, 16, 16, 16, 16, 16, 16, 16, 16, 16, 16,
    16, 16, 16, 16, 16, 16, 16, 16, 16, 16, 16, 16, 16, 16, 16, 16, 16, 16, 16, 16, 16, 16, 16, 16, 16, 16, 16, 16, 16, 16, 16, 16, 16, 16, 16, 16,
    16, 16, 16, 16, 16, 16, 16, 16, 16, 16, 16, 16, 16, 16, 16, 16, 16, 16, 16, 16, 16, 16, 16, 16, 16, 16, 16, 16, 16, 16, 16, 16, 16, 16, 16, 16,
    16, 16, 16, 16, 16, 16, 16, 16, 16, 16, 16, 16, 16, 16, 16, 16, 17, 17, 17, 17, 17, 17, 17, 17, 17, 17, 17, 17, 17, 17, 17, 17, 17, 17, 17, 17,
    17, 17, 17, 17, 17, 17, 17, 17, 17, 17, 17, 17, 17, 17, 17, 17, 17, 17, 17, 17, 17, 17, 17, 17, 17, 17, 17, 17, 17, 17, 17, 17, 17, 17, 17, 17,
    17, 17, 17, 17, 17, 17, 17, 17, 17, 17, 17, 17, 17, 17, 17, 17, 17, 17, 17, 17, 17, 17, 17, 17, 17, 17, 17, 17, 17, 17, 17, 17, 17, 17, 17, 17,
    17, 17, 17, 17, 17, 17, 17, 17, 17, 17, 17, 17, 17, 17, 17, 17, 17, 17, 17, 17, 17, 17, 17, 17, 17, 17, 17, 17, 17, 17, 17, 17, 17, 17, 17, 17]"

definition g_bitmasks :: "u32 list" where
  "g_bitmasks = [
    0x0000, 0x0001, 0x0003, 0x0007, 0x000F, 0x001F, 0x003F, 0x007F, 0x00FF, 0x01FF, 0x03FF, 0x07FF, 0x0FFF, 0x1FFF, 0x3FFF, 0x7FFF, 0xFFFF]"

text \<open>The zlib header and the start of the block, whole bytes and then the last bits.\<close>

definition g_dyn_huff_3 :: "byte list" where
  "g_dyn_huff_3 = [
    120, 1, 237, 195, 3, 176, 110, 89, 122, 128, 225, 247, 251, 214, 218, 248, 113, 124, 173, 190, 109, 12, 50, 201, 196, 182, 109, 219, 182, 109,
    219, 182, 109, 219, 201, 36, 147, 153, 105, 235, 246, 53, 142, 207, 143, 141, 181, 214, 151, 93, 117, 170, 78, 117, 117, 58, 206, 77, 210, 217,
    169, 122]"

definition DYN_HUFF_3_BITBUF :: u64 where "DYN_HUFF_3_BITBUF = 30"

definition DYN_HUFF_3_BITBUF_SIZE :: u32 where "DYN_HUFF_3_BITBUF_SIZE = 7"

text \<open>Sizes and codes.\<close>

definition g_dyn_huff_3_codes :: "(nat \<times> nat) list" where
  "g_dyn_huff_3_codes = [
    (2, 0), (4, 2), (4, 10), (5, 14), (5, 30), (6, 25), (6, 57), (6, 5), (6, 37), (7, 3), (7, 67), (7, 35), (7, 99), (8, 11), (8, 139), (8, 75),
    (8, 203), (8, 43), (8, 171), (8, 107), (9, 135), (9, 391), (9, 71), (9, 327), (9, 199), (9, 455), (9, 39), (9, 295), (9, 167), (9, 423), (9, 103),
    (10, 183), (9, 359), (10, 695), (10, 439), (10, 951), (10, 119), (10, 631), (10, 375), (10, 887), (10, 247), (10, 759), (10, 503), (11, 975),
    (11, 1999), (11, 47), (11, 1071), (12, 1199), (11, 559), (12, 3247), (12, 687), (11, 1583), (12, 2735), (12, 1711), (12, 3759), (12, 431),
    (12, 2479), (12, 1455), (12, 3503), (12, 943), (12, 2991), (12, 1967), (12, 4015), (12, 111), (12, 2159), (12, 1135), (12, 3183), (12, 623),
    (12, 2671), (12, 1647), (12, 3695), (12, 367), (12, 2415), (12, 1391), (12, 3439), (12, 879), (12, 2927), (12, 1903), (12, 3951), (12, 239),
    (12, 2287), (12, 1263), (12, 3311), (12, 751), (12, 2799), (12, 1775), (12, 3823), (12, 495), (12, 2543), (12, 1519), (12, 3567), (12, 1007),
    (12, 3055), (12, 2031), (12, 4079), (12, 31), (12, 2079), (12, 1055), (12, 3103), (12, 543), (12, 2591), (12, 1567), (12, 3615), (12, 287),
    (12, 2335), (12, 1311), (12, 3359), (12, 799), (12, 2847), (12, 1823), (12, 3871), (12, 159), (12, 2207), (12, 1183), (12, 3231), (12, 671),
    (12, 2719), (12, 1695), (12, 3743), (12, 415), (12, 2463), (12, 1439), (12, 3487), (12, 927), (12, 2975), (12, 1951), (12, 3999), (12, 95),
    (12, 2143), (12, 1119), (12, 3167), (12, 607), (12, 2655), (12, 1631), (12, 3679), (12, 351), (12, 2399), (12, 1375), (12, 3423), (12, 863),
    (12, 2911), (12, 1887), (12, 3935), (12, 223), (12, 2271), (12, 1247), (12, 3295), (12, 735), (12, 2783), (12, 1759), (12, 3807), (12, 479),
    (12, 2527), (12, 1503), (12, 3551), (12, 991), (12, 3039), (12, 2015), (12, 4063), (12, 63), (12, 2111), (12, 1087), (12, 3135), (12, 575),
    (12, 2623), (12, 1599), (12, 3647), (12, 319), (12, 2367), (12, 1343), (12, 3391), (12, 831), (12, 2879), (12, 1855), (12, 3903), (12, 191),
    (12, 2239), (12, 1215), (12, 3263), (12, 703), (12, 2751), (12, 1727), (12, 3775), (12, 447), (12, 2495), (12, 1471), (12, 3519), (12, 959),
    (12, 3007), (12, 1983), (12, 4031), (12, 127), (12, 2175), (12, 1151), (12, 3199), (12, 639), (12, 2687), (12, 1663), (12, 3711), (12, 383),
    (12, 2431), (12, 1407), (12, 3455), (12, 895), (12, 2943), (11, 303), (12, 1919), (12, 3967), (11, 1327), (12, 255), (11, 815), (11, 1839),
    (11, 175), (10, 1015), (10, 15), (10, 527), (10, 271), (10, 783), (10, 143), (10, 655), (10, 399), (10, 911), (10, 79), (10, 591), (9, 231),
    (10, 335), (9, 487), (9, 23), (9, 279), (9, 151), (9, 407), (9, 87), (9, 343), (9, 215), (9, 471), (9, 55), (8, 235), (8, 27), (8, 155), (8, 91),
    (8, 219), (8, 59), (8, 187), (8, 123), (7, 19), (7, 83), (7, 51), (7, 115), (6, 21), (6, 53), (6, 13), (6, 45), (5, 1), (5, 17), (5, 9), (4, 6),
    (12, 2303), (6, 29), (0, 0), (0, 0), (8, 251), (0, 0), (0, 0), (8, 7), (0, 0), (10, 847), (0, 0), (10, 207), (12, 1279), (10, 719), (12, 3327),
    (12, 767), (12, 2815), (12, 1791), (12, 3839), (12, 511), (12, 2559), (12, 1535), (9, 311), (12, 3583), (12, 1023), (12, 3071), (10, 463),
    (12, 2047), (6, 61), (12, 4095), (0, 0), (0, 0)]"

definition g_dyn_huff_4 :: "byte list" where
  "g_dyn_huff_4 = [
    120, 1, 229, 196, 99, 180, 37, 103, 218, 128, 225, 251, 121, 171, 106, 243, 216, 231, 180, 109, 196, 182, 51, 51, 73, 6, 201, 216, 182, 109, 219,
    182, 17, 140, 98, 219, 102, 219, 60, 125, 172, 205, 170, 122, 159, 111, 213, 143, 179, 214, 94, 189, 58, 153, 104, 166, 103, 190, 247, 199, 117]"

definition DYN_HUFF_4_BITBUF :: u64 where "DYN_HUFF_4_BITBUF = 1"

definition DYN_HUFF_4_BITBUF_SIZE :: u32 where "DYN_HUFF_4_BITBUF_SIZE = 2"

definition g_dyn_huff_4_codes :: "(nat \<times> nat) list" where
  "g_dyn_huff_4_codes = [
    (2, 0), (4, 2), (5, 6), (6, 30), (6, 62), (6, 1), (7, 41), (7, 105), (7, 25), (7, 89), (7, 57), (7, 121), (8, 117), (8, 245), (8, 13), (8, 141),
    (8, 77), (8, 205), (8, 45), (8, 173), (8, 109), (8, 237), (8, 29), (8, 157), (8, 93), (8, 221), (8, 61), (9, 83), (9, 339), (9, 211), (9, 467),
    (9, 51), (9, 307), (9, 179), (9, 435), (9, 115), (9, 371), (9, 243), (9, 499), (9, 11), (9, 267), (9, 139), (9, 395), (9, 75), (9, 331), (9, 203),
    (9, 459), (9, 43), (9, 299), (10, 7), (10, 519), (10, 263), (10, 775), (10, 135), (10, 647), (10, 391), (10, 903), (10, 71), (10, 583), (10, 327),
    (10, 839), (10, 199), (10, 711), (10, 455), (10, 967), (10, 39), (10, 551), (10, 295), (10, 807), (10, 167), (10, 679), (10, 423), (10, 935),
    (10, 103), (10, 615), (11, 463), (11, 1487), (11, 975), (10, 359), (10, 871), (10, 231), (11, 1999), (11, 47), (11, 1071), (11, 559), (10, 743),
    (10, 487), (11, 1583), (11, 303), (11, 1327), (11, 815), (11, 1839), (11, 175), (11, 1199), (11, 687), (11, 1711), (11, 431), (11, 1455),
    (11, 943), (11, 1967), (11, 111), (11, 1135), (11, 623), (11, 1647), (11, 367), (11, 1391), (11, 879), (11, 1903), (11, 239), (11, 1263),
    (11, 751), (11, 1775), (11, 495), (11, 1519), (11, 1007), (11, 2031), (11, 31), (11, 1055), (11, 543), (11, 1567), (11, 287), (11, 1311),
    (11, 799), (11, 1823), (11, 159), (11, 1183), (11, 671), (11, 1695), (11, 415), (11, 1439), (11, 927), (11, 1951), (11, 95), (11, 1119),
    (11, 607), (11, 1631), (11, 351), (11, 1375), (11, 863), (11, 1887), (11, 223), (11, 1247), (11, 735), (11, 1759), (11, 479), (11, 1503),
    (11, 991), (11, 2015), (11, 63), (11, 1087), (11, 575), (11, 1599), (11, 319), (11, 1343), (11, 831), (11, 1855), (11, 191), (11, 1215),
    (11, 703), (11, 1727), (11, 447), (11, 1471), (11, 959), (11, 1983), (11, 127), (11, 1151), (11, 639), (11, 1663), (11, 383), (10, 999), (10, 23),
    (10, 535), (10, 279), (11, 1407), (11, 895), (11, 1919), (11, 255), (11, 1279), (10, 791), (10, 151), (10, 663), (10, 407), (10, 919), (10, 87),
    (10, 599), (10, 343), (10, 855), (10, 215), (10, 727), (10, 471), (10, 983), (10, 55), (10, 567), (10, 311), (10, 823), (10, 183), (10, 695),
    (10, 439), (10, 951), (10, 119), (10, 631), (10, 375), (10, 887), (10, 247), (10, 759), (10, 503), (10, 1015), (10, 15), (10, 527), (10, 271),
    (10, 783), (10, 143), (10, 655), (10, 399), (9, 171), (9, 427), (9, 107), (9, 363), (9, 235), (9, 491), (9, 27), (9, 283), (9, 155), (9, 411),
    (9, 91), (9, 347), (9, 219), (9, 475), (9, 59), (9, 315), (9, 187), (9, 443), (8, 189), (9, 123), (8, 125), (8, 253), (8, 3), (8, 131), (8, 67),
    (8, 195), (8, 35), (8, 163), (8, 99), (8, 227), (8, 19), (7, 5), (7, 69), (7, 37), (7, 101), (7, 21), (7, 85), (6, 33), (6, 17), (6, 49), (5, 22),
    (4, 10), (12, 2047), (0, 0), (6, 9), (0, 0), (0, 0), (0, 0), (8, 147), (0, 0), (0, 0), (7, 53), (0, 0), (9, 379), (0, 0), (9, 251), (10, 911),
    (10, 79), (11, 767), (10, 591), (10, 335), (10, 847), (10, 207), (10, 719), (11, 1791), (11, 511), (9, 507), (11, 1535), (11, 1023), (12, 4095),
    (5, 14), (0, 0), (0, 0), (0, 0)]"

definition g_defl_packed_code_size_syms_swizzle :: "nat list" where
  "g_defl_packed_code_size_syms_swizzle = [
    16, 17, 18, 0, 8, 7, 9, 6, 10, 5, 11, 4, 12, 3, 13, 2, 14, 1, 15]"

section \<open>Decoder\<close>

definition FPNG_DECODER_TABLE_BITS :: u32 where "FPNG_DECODER_TABLE_BITS = 12"

definition FPNG_DECODER_TABLE_SIZE :: nat where "FPNG_DECODER_TABLE_SIZE = 4096"

definition g_run_len3_to_4 :: "nat list" where
  "g_run_len3_to_4 = [
    0, 0, 0, 4, 0, 0, 8, 0, 0, 12, 0, 0, 16, 0, 0, 20, 0, 0, 24, 0, 0, 28, 0, 0, 32, 0, 0, 36, 0, 0, 40, 0, 0, 44, 0, 0, 48, 0, 0, 52, 0, 0, 56, 0, 0,
    60, 0, 0, 64, 0, 0, 68, 0, 0, 72, 0, 0, 76, 0, 0, 80, 0, 0, 84, 0, 0, 88, 0, 0, 92, 0, 0, 96, 0, 0, 100, 0, 0, 104, 0, 0, 108, 0, 0, 112, 0, 0,
    116, 0, 0, 120, 0, 0, 124, 0, 0, 128, 0, 0, 132, 0, 0, 136, 0, 0, 140, 0, 0, 144, 0, 0, 148, 0, 0, 152, 0, 0, 156, 0, 0, 160, 0, 0, 164, 0, 0,
    168, 0, 0, 172, 0, 0, 176, 0, 0, 180, 0, 0, 184, 0, 0, 188, 0, 0, 192, 0, 0, 196, 0, 0, 200, 0, 0, 204, 0, 0, 208, 0, 0, 212, 0, 0, 216, 0, 0,
    220, 0, 0, 224, 0, 0, 228, 0, 0, 232, 0, 0, 236, 0, 0, 240, 0, 0, 244, 0, 0, 248, 0, 0, 252, 0, 0, 256, 0, 0, 260, 0, 0, 264, 0, 0, 268, 0, 0,
    272, 0, 0, 276, 0, 0, 280, 0, 0, 284, 0, 0, 288, 0, 0, 292, 0, 0, 296, 0, 0, 300, 0, 0, 304, 0, 0, 308, 0, 0, 312, 0, 0, 316, 0, 0, 320, 0, 0,
    324, 0, 0, 328, 0, 0, 332, 0, 0, 336, 0, 0, 340, 0, 0, 344]"

definition s_length_extra :: "nat list" where
  "s_length_extra = [
    0, 0, 0, 0, 0, 0, 0, 0, 1, 1, 1, 1, 2, 2, 2, 2, 3, 3, 3, 3, 4, 4, 4, 4, 5, 5, 5, 5, 0, 0, 0]"

definition s_length_range :: "nat list" where
  "s_length_range = [
    3, 4, 5, 6, 7, 8, 9, 10, 11, 13, 15, 17, 19, 23, 27, 31, 35, 43, 51, 59, 67, 83, 99, 115, 131, 163, 195, 227, 258, 0, 0]"

definition s_bit_length_order :: "nat list" where
  "s_bit_length_order = [
    16, 17, 18, 0, 8, 7, 9, 6, 10, 5, 11, 4, 12, 3, 13, 2, 14, 1, 15]"

section \<open>Facts\<close>

lemma length_tables [simp]:
  "length g_defl_len_sym = 256" "length g_defl_len_extra = 256" "length g_bitmasks = 17"
  "length g_dyn_huff_3_codes = 288" "length g_dyn_huff_4_codes = 288" "length g_run_len3_to_4 = 259"
  "length s_length_extra = 31" "length s_length_range = 31" "length s_bit_length_order = 19"
  "length g_defl_packed_code_size_syms_swizzle = 19"
  by (simp_all add: g_defl_len_sym_def g_defl_len_extra_def g_bitmasks_def g_dyn_huff_3_codes_def
    g_dyn_huff_4_codes_def g_run_len3_to_4_def s_length_extra_def s_length_range_def s_bit_length_order_def
    g_defl_packed_code_size_syms_swizzle_def)

end
