(* ===== verification/Fpng_Deflate.thy ===== *)
theory Fpng_Deflate
  imports Fpng_Raw Fpng_Huffman_Tables
begin

text \<open>
  The bit writer of \<open>fpng.cpp\<close> (the macros \<open>PUT_BITS\<close> and its relatives) and the one-pass encoders
  \<open>pixel_deflate_dyn_3_rle_one_pass\<close> and \<open>pixel_deflate_dyn_4_rle_one_pass\<close>, which use the canned
  Huffman codes. Offsets into the source are natural numbers: they stay below the length of the filtered
  image, which is less than 4 GiB. Offsets into the destination are 32-bit words.
\<close>

section \<open>Arrays\<close>

text \<open>Reads and writes with an index that depends on data.\<close>

definition aref :: "'a list \<Rightarrow> nat \<Rightarrow> 'a res" where
  "aref xs i = (if i < length xs then Inr (xs ! i) else Inl OutOfBounds)"

definition aset :: "'a list \<Rightarrow> nat \<Rightarrow> 'a \<Rightarrow> 'a list res" where
  "aset xs i x = (if i < length xs then Inr (xs[i := x]) else Inl OutOfBounds)"

lemma and_then_cong [fundef_cong]:
  "r = r' \<Longrightarrow> (\<And>x. r' = Inr x \<Longrightarrow> f x = g x) \<Longrightarrow> and_then r f = and_then r' g"
  by (cases r') simp_all

section \<open>The bit writer\<close>

text \<open>
  The local variables \<open>bit_buf\<close>, \<open>bit_buf_size\<close> (an \<open>int\<close>) and \<open>dst_ofs\<close>, the destination, and \<open>src_ofs\<close>
  between two rows. A macro that executes \<open>return 0\<close> gives False with the state it leaves.
\<close>

record bit_writer =
  out_buf :: u64
  out_size :: int
  out_ofs :: u32
  out_dst :: "byte list"
  in_ofs :: nat

type_synonym put_result = "(bit_writer \<times> bool) res"

definition or_return :: "('s \<times> bool) res \<Rightarrow> ('s \<Rightarrow> ('s \<times> bool) res) \<Rightarrow> ('s \<times> bool) res" where
  "or_return r f = and_then r (\<lambda>(s, ok). if ok then f s else Inr (s, False))"

lemma or_return_cong [fundef_cong]:
  "r = r' \<Longrightarrow> (\<And>s. r' = Inr (s, True) \<Longrightarrow> f s = g s) \<Longrightarrow> or_return r f = or_return r' g"
  by (cases r') (auto simp: or_return_def)

text \<open>\<open>bit_buf |= b << bit_buf_size; bit_buf_size += l\<close>, with the assertions of the two macros.\<close>

definition add_bits :: "u32 \<Rightarrow> nat \<Rightarrow> bit_writer \<Rightarrow> put_result" where
  "add_bits b l s =
    and_then (assert_that (ucast b < (push_bit l 1 :: u64))) (\<lambda>_.
    let s = s\<lparr>out_buf := out_buf s OR push_bit (nat (out_size s)) (ucast b), out_size := out_size s + int l\<rparr> in
    and_then (assert_that (out_size s \<le> 64)) (\<lambda>_. Inr (s, True)))"

definition PUT_BITS :: "u32 \<Rightarrow> nat \<Rightarrow> bit_writer \<Rightarrow> put_result" where
  "PUT_BITS b l s = and_then (assert_that (l \<le> 16)) (\<lambda>_. add_bits b l s)"

definition PUT_BITS_CZ :: "u32 \<Rightarrow> nat \<Rightarrow> bit_writer \<Rightarrow> put_result" where
  "PUT_BITS_CZ b l s = and_then (assert_that (1 \<le> l \<and> l \<le> 16)) (\<lambda>_. add_bits b l s)"

text \<open>Eight bytes are written, but only the whole ones among the buffered bits count.\<close>

definition PUT_BITS_FLUSH :: "u32 \<Rightarrow> bit_writer \<Rightarrow> put_result" where
  "PUT_BITS_FLUSH dst_buf_size s =
    (if out_ofs s + 8 > dst_buf_size then Inr (s, False)
     else
       and_then (poke (unat (out_ofs s)) (WRITE_LE64 (out_buf s)) (out_dst s)) (\<lambda>dst.
       let bits_to_shift = nat (out_size s AND NOT 7) in
       and_then (assert_that (bits_to_shift < 64)) (\<lambda>_.
       Inr (s\<lparr>out_ofs := out_ofs s + u32 (drop_bit 3 bits_to_shift), out_buf := drop_bit bits_to_shift (out_buf s),
              out_size := out_size s - int bits_to_shift, out_dst := dst\<rparr>, True))))"

text \<open>One byte leaves the buffer.\<close>

definition put_low_byte :: "u32 \<Rightarrow> bit_writer \<Rightarrow> put_result" where
  "put_low_byte dst_buf_size s =
    (if out_ofs s + 1 > dst_buf_size then Inr (s, False)
     else
       and_then (poke (unat (out_ofs s)) [ucast (out_buf s)] (out_dst s)) (\<lambda>dst.
       Inr (s\<lparr>out_ofs := out_ofs s + 1, out_buf := drop_bit 8 (out_buf s), out_size := out_size s - 8,
              out_dst := dst\<rparr>, True)))"

lemma put_low_byte_size: "put_low_byte n s = Inr (s', True) \<Longrightarrow> out_size s' = out_size s - 8"
  by (auto simp: put_low_byte_def and_then_Inr_iff split: if_splits)

function PUT_BITS_FORCE_FLUSH :: "u32 \<Rightarrow> bit_writer \<Rightarrow> put_result" where
  "PUT_BITS_FORCE_FLUSH dst_buf_size s =
    (if out_size s > 0 then or_return (put_low_byte dst_buf_size s) (PUT_BITS_FORCE_FLUSH dst_buf_size)
     else Inr (s, True))"
  by auto
termination by (relation "measure (\<lambda>(n, s). nat (out_size s))") (auto dest: put_low_byte_size)

declare PUT_BITS_FORCE_FLUSH.simps [simp del]

text \<open>
  The four bytes of the checksum, \<open>put_bytes\<close> of the uncompressed blocks, and the result: the destination
  and the number of bytes in it, 0 if it is too small.
\<close>

definition put_adler :: "u32 \<Rightarrow> u32 \<Rightarrow> bit_writer \<times> bool \<Rightarrow> (byte list \<times> u32) res" where
  "put_adler src_adler32 dst_buf_size w =
    (let (s, ok) = w in
     if ok then
       and_then (put_bytes (be32 src_adler32) (out_ofs s) dst_buf_size (out_dst s)) (\<lambda>(dst, ofs).
       Inr (dst, case ofs of None \<Rightarrow> 0 | Some n \<Rightarrow> n))
     else Inr (out_dst s, 0))"

section \<open>Symbols\<close>

text \<open>A table of codes is a list of sizes and codes.\<close>

type_synonym code_table = "(nat \<times> nat) list"

definition put_code :: "code_table \<Rightarrow> nat \<Rightarrow> bit_writer \<Rightarrow> put_result" where
  "put_code codes symbol s = and_then (aref codes symbol) (\<lambda>(size, code). PUT_BITS_CZ (u32 code) size s)"

text \<open>The literals of a pixel. With four of them the buffer may have to be flushed before the last.\<close>

definition lit :: "nat \<Rightarrow> u32 \<Rightarrow> nat" where
  "lit i lits = unat (drop_bit (8 * i) lits AND 0xFF)"

definition put_lits_3 :: "code_table \<Rightarrow> u32 \<Rightarrow> bit_writer \<Rightarrow> put_result" where
  "put_lits_3 codes lits s =
    or_return (put_code codes (lit 0 lits) s) (\<lambda>s.
    or_return (put_code codes (lit 1 lits) s) (\<lambda>s.
    put_code codes (unat (drop_bit 16 lits)) s))"

definition put_lits_4 :: "code_table \<Rightarrow> u32 \<Rightarrow> u32 \<Rightarrow> bit_writer \<Rightarrow> put_result" where
  "put_lits_4 codes dst_buf_size lits s =
    or_return (put_code codes (lit 0 lits) s) (\<lambda>s.
    or_return (put_code codes (lit 1 lits) s) (\<lambda>s.
    or_return (put_code codes (lit 2 lits) s) (\<lambda>s.
    or_return (if out_size s \<ge> 49 then PUT_BITS_FLUSH dst_buf_size s else Inr (s, True)) (\<lambda>s.
    put_code codes (unat (drop_bit 24 lits)) s))))"

text \<open>A match: the code of its length, the extra bits, and a 0 for the distance.\<close>

definition put_match :: "code_table \<Rightarrow> nat \<Rightarrow> bit_writer \<Rightarrow> put_result" where
  "put_match codes adj_match_len s =
    and_then (aref g_defl_len_sym adj_match_len) (\<lambda>sym.
    and_then (aref g_defl_len_extra adj_match_len) (\<lambda>extra.
    or_return (put_code codes sym s) (\<lambda>s.
    PUT_BITS (u32 adj_match_len AND g_bitmasks ! extra) (extra + 1) s)))"

section \<open>Pixels\<close>

text \<open>The reads of a pixel; with unaligned loads \<open>READ_RGB_PIXEL\<close> reads four bytes, too.\<close>

definition read_pixel_3 :: "byte list \<Rightarrow> nat \<Rightarrow> u32 res" where
  "read_pixel_3 pSrc src_ofs = and_then (peek src_ofs 4 pSrc) (\<lambda>p. Inr (READ_RGB_PIXEL p))"

definition read_pixel_4 :: "byte list \<Rightarrow> nat \<Rightarrow> u32 res" where
  "read_pixel_4 pSrc src_ofs = and_then (peek src_ofs 4 pSrc) (\<lambda>p. Inr (READ_LE32 p))"

text \<open>The length of a match: pixels are added while they equal \<open>lits\<close>.\<close>

function match_loop_3 :: "byte list \<Rightarrow> nat \<Rightarrow> u32 \<Rightarrow> nat \<Rightarrow> nat \<Rightarrow> nat res" where
  "match_loop_3 pSrc src_ofs lits max_match_len match_len =
    (if match_len < max_match_len then
       and_then (read_pixel_3 pSrc (src_ofs + match_len)) (\<lambda>p.
       if p \<noteq> lits then Inr match_len
       else match_loop_3 pSrc src_ofs lits max_match_len (match_len + 3))
     else Inr match_len)"
  by auto
termination by (relation "measure (\<lambda>(p, ofs, lits, m, n). m - n)") auto

function match_loop_4 :: "byte list \<Rightarrow> nat \<Rightarrow> u32 \<Rightarrow> nat \<Rightarrow> nat \<Rightarrow> nat res" where
  "match_loop_4 pSrc src_ofs lits max_match_len match_len =
    (if match_len < max_match_len then
       and_then (read_pixel_4 pSrc (src_ofs + match_len)) (\<lambda>p.
       if p \<noteq> lits then Inr match_len
       else match_loop_4 pSrc src_ofs lits max_match_len (match_len + 4))
     else Inr match_len)"
  by auto
termination by (relation "measure (\<lambda>(p, ofs, lits, m, n). m - n)") auto

declare match_loop_3.simps [simp del] match_loop_4.simps [simp del]

definition find_match_3 :: "byte list \<Rightarrow> nat \<Rightarrow> nat \<Rightarrow> u32 \<Rightarrow> nat res" where
  "find_match_3 pSrc src_ofs end_src_ofs lits = match_loop_3 pSrc src_ofs lits (minimum 255 (end_src_ofs - src_ofs)) 3"

definition find_match_4 :: "byte list \<Rightarrow> nat \<Rightarrow> nat \<Rightarrow> u32 \<Rightarrow> nat res" where
  "find_match_4 pSrc src_ofs end_src_ofs lits = match_loop_4 pSrc src_ofs lits (minimum 252 (end_src_ofs - src_ofs)) 4"

lemma match_loop_3_ge: "match_loop_3 p ofs lits m n = Inr k \<Longrightarrow> n \<le> k"
proof (induction p ofs lits m n rule: match_loop_3.induct)
  case (1 p ofs lits m n)
  from 1(2) show ?case
    by (subst (asm) match_loop_3.simps) (auto simp: and_then_Inr_iff split: if_splits dest: 1(1))
qed

lemma match_loop_4_ge: "match_loop_4 p ofs lits m n = Inr k \<Longrightarrow> n \<le> k"
proof (induction p ofs lits m n rule: match_loop_4.induct)
  case (1 p ofs lits m n)
  from 1(2) show ?case
    by (subst (asm) match_loop_4.simps) (auto simp: and_then_Inr_iff split: if_splits dest: 1(1))
qed

lemma find_match_ge:
  "find_match_3 p ofs e lits = Inr k \<Longrightarrow> 3 \<le> k" "find_match_4 p ofs e lits = Inr k \<Longrightarrow> 4 \<le> k"
  by (auto simp: find_match_3_def find_match_4_def dest: match_loop_3_ge match_loop_4_ge)

section \<open>One pass, three channels\<close>

text \<open>The pixels of a row behind the first.\<close>

function one_pass_pixels_3 :: "code_table \<Rightarrow> byte list \<Rightarrow> u32 \<Rightarrow> nat \<Rightarrow> nat \<Rightarrow> u32 \<Rightarrow> bit_writer \<Rightarrow> put_result" where
  "one_pass_pixels_3 codes pSrc dst_buf_size end_src_ofs src_ofs prev_lits s =
    (if src_ofs < end_src_ofs then
       and_then (read_pixel_3 pSrc src_ofs) (\<lambda>lits.
       if lits = prev_lits then
         and_then (find_match_3 pSrc src_ofs end_src_ofs lits) (\<lambda>match_len.
         or_return (put_match codes (match_len - 3) s) (\<lambda>s.
         or_return (PUT_BITS_FLUSH dst_buf_size s) (\<lambda>s.
         one_pass_pixels_3 codes pSrc dst_buf_size end_src_ofs (src_ofs + match_len) prev_lits s)))
       else
         or_return (put_lits_3 codes lits s) (\<lambda>s.
         or_return (PUT_BITS_FLUSH dst_buf_size s) (\<lambda>s.
         one_pass_pixels_3 codes pSrc dst_buf_size end_src_ofs (src_ofs + 3) lits s)))
     else Inr (s\<lparr>in_ofs := src_ofs\<rparr>, True))"
  by auto
termination
  by (relation "measure (\<lambda>(c, p, n, e, ofs, prev, s). e - ofs)") (auto dest!: find_match_ge)

declare one_pass_pixels_3.simps [simp del]

definition one_pass_row_3 :: "code_table \<Rightarrow> byte list \<Rightarrow> u32 \<Rightarrow> nat \<Rightarrow> nat \<Rightarrow> bit_writer \<Rightarrow> put_result" where
  "one_pass_row_3 codes pSrc dst_buf_size bpl y s =
    (let src_ofs = in_ofs s in
     and_then (read_byte pSrc src_ofs) (\<lambda>filter_lit.
    or_return (put_code codes (unat filter_lit) s) (\<lambda>s.
    and_then (read_pixel_3 pSrc (src_ofs + 1)) (\<lambda>lits.
    or_return (put_lits_3 codes lits s) (\<lambda>s.
    or_return (PUT_BITS_FLUSH dst_buf_size s) (\<lambda>s.
    one_pass_pixels_3 codes pSrc dst_buf_size (src_ofs + bpl) (src_ofs + 1 + 3) lits s))))))"

text \<open>A loop over the rows, or over codes.\<close>

fun put_each :: "('c \<Rightarrow> bit_writer \<Rightarrow> put_result) \<Rightarrow> 'c list \<Rightarrow> bit_writer \<Rightarrow> put_result" where
  "put_each f [] s = Inr (s, True)"
| "put_each f (c # cs) s = or_return (f c s) (put_each f cs)"

text \<open>The end of the block, after all rows.\<close>

definition put_end :: "code_table \<Rightarrow> u32 \<Rightarrow> bit_writer \<Rightarrow> put_result" where
  "put_end codes dst_buf_size s =
    or_return (put_code codes 256 s) (PUT_BITS_FORCE_FLUSH dst_buf_size)"

definition pixel_deflate_dyn_3_rle_one_pass ::
  "cpu_info \<Rightarrow> byte list \<Rightarrow> u32 \<Rightarrow> u32 \<Rightarrow> byte list \<Rightarrow> u32 \<Rightarrow> (byte list \<times> u32) res" where
  "pixel_deflate_dyn_3_rle_one_pass cpu pImg w h dst dst_buf_size =
    (let bpl = 1 + w * 3 in
     if dst_buf_size < u32 (length g_dyn_huff_3) then Inr (dst, 0)
     else
       and_then (poke 0 g_dyn_huff_3 dst) (\<lambda>dst.
       let s = \<lparr>out_buf = DYN_HUFF_3_BITBUF, out_size = uint DYN_HUFF_3_BITBUF_SIZE, out_ofs = u32 (length g_dyn_huff_3),
                out_dst = dst, in_ofs = 0\<rparr> in
       and_then (peek 0 (unat (bpl * h)) pImg) (\<lambda>src.
       and_then
         (or_return (put_each (one_pass_row_3 g_dyn_huff_3_codes pImg dst_buf_size (unat bpl)) [0 ..< unat h] s) (\<lambda>s.
          and_then (assert_that (in_ofs s = unat (h * bpl))) (\<lambda>_.
          and_then (assert_that (out_size s \<le> 7)) (\<lambda>_. put_end g_dyn_huff_3_codes dst_buf_size s))))
         (put_adler (fpng_adler32 cpu src FPNG_ADLER32_INIT) dst_buf_size))))"

section \<open>One pass, four channels\<close>

text \<open>For a match of one pixel, four literals can be shorter.\<close>

definition literals_shorter :: "code_table \<Rightarrow> u32 \<Rightarrow> nat \<Rightarrow> bool res" where
  "literals_shorter codes lits match_len =
    and_then (aref g_defl_len_sym (match_len - 3)) (\<lambda>sym.
    and_then (aref codes sym) (\<lambda>(match_code_bits, _).
    and_then (aref g_defl_len_extra (match_len - 3)) (\<lambda>len_extra_bits.
    Inr (match_len = 4 \<and>
      match_code_bits + len_extra_bits + 1 >
        fst (codes ! lit 0 lits) + fst (codes ! lit 1 lits) + fst (codes ! lit 2 lits) + fst (codes ! unat (drop_bit 24 lits))))))"

function one_pass_pixels_4 :: "code_table \<Rightarrow> byte list \<Rightarrow> u32 \<Rightarrow> nat \<Rightarrow> nat \<Rightarrow> u32 \<Rightarrow> bit_writer \<Rightarrow> put_result" where
  "one_pass_pixels_4 codes pSrc dst_buf_size end_src_ofs src_ofs prev_lits s =
    (if src_ofs < end_src_ofs then
       and_then (read_pixel_4 pSrc src_ofs) (\<lambda>lits.
       let do_literals =
         or_return (put_lits_4 codes dst_buf_size lits s) (\<lambda>s.
         or_return (PUT_BITS_FLUSH dst_buf_size s) (\<lambda>s.
         one_pass_pixels_4 codes pSrc dst_buf_size end_src_ofs (src_ofs + 4) lits s)) in
       if lits = prev_lits then
         and_then (find_match_4 pSrc src_ofs end_src_ofs lits) (\<lambda>match_len.
         and_then (literals_shorter codes lits match_len) (\<lambda>shorter.
         if shorter then do_literals
         else
           or_return (put_match codes (match_len - 3) s) (\<lambda>s.
           or_return (PUT_BITS_FLUSH dst_buf_size s) (\<lambda>s.
           one_pass_pixels_4 codes pSrc dst_buf_size end_src_ofs (src_ofs + match_len) prev_lits s))))
       else do_literals)
     else Inr (s\<lparr>in_ofs := src_ofs\<rparr>, True))"
  by auto
termination
  by (relation "measure (\<lambda>(c, p, n, e, ofs, prev, s). e - ofs)") (auto dest!: find_match_ge)

declare one_pass_pixels_4.simps [simp del]

definition one_pass_row_4 :: "code_table \<Rightarrow> byte list \<Rightarrow> u32 \<Rightarrow> nat \<Rightarrow> nat \<Rightarrow> bit_writer \<Rightarrow> put_result" where
  "one_pass_row_4 codes pSrc dst_buf_size bpl y s =
    (let src_ofs = in_ofs s in
     and_then (read_byte pSrc src_ofs) (\<lambda>filter_lit.
    or_return (put_code codes (unat filter_lit) s) (\<lambda>s.
    or_return (PUT_BITS_FLUSH dst_buf_size s) (\<lambda>s.
    and_then (read_pixel_4 pSrc (src_ofs + 1)) (\<lambda>lits.
    or_return (put_lits_4 codes dst_buf_size lits s) (\<lambda>s.
    or_return (PUT_BITS_FLUSH dst_buf_size s) (\<lambda>s.
    one_pass_pixels_4 codes pSrc dst_buf_size (src_ofs + bpl) (src_ofs + 1 + 4) lits s)))))))"

definition pixel_deflate_dyn_4_rle_one_pass ::
  "cpu_info \<Rightarrow> byte list \<Rightarrow> u32 \<Rightarrow> u32 \<Rightarrow> byte list \<Rightarrow> u32 \<Rightarrow> (byte list \<times> u32) res" where
  "pixel_deflate_dyn_4_rle_one_pass cpu pImg w h dst dst_buf_size =
    (let bpl = 1 + w * 4 in
     if dst_buf_size < u32 (length g_dyn_huff_4) then Inr (dst, 0)
     else
       and_then (poke 0 g_dyn_huff_4 dst) (\<lambda>dst.
       let s = \<lparr>out_buf = DYN_HUFF_4_BITBUF, out_size = uint DYN_HUFF_4_BITBUF_SIZE, out_ofs = u32 (length g_dyn_huff_4),
                out_dst = dst, in_ofs = 0\<rparr> in
       and_then (peek 0 (unat (bpl * h)) pImg) (\<lambda>src.
       and_then
         (or_return (put_each (one_pass_row_4 g_dyn_huff_4_codes pImg dst_buf_size (unat bpl)) [0 ..< unat h] s) (\<lambda>s.
          and_then (assert_that (in_ofs s = unat (h * bpl))) (\<lambda>_.
          and_then (assert_that (out_size s \<le> 7)) (\<lambda>_. put_end g_dyn_huff_4_codes dst_buf_size s))))
         (put_adler (fpng_adler32 cpu src FPNG_ADLER32_INIT) dst_buf_size))))"

end
