(* ===== verification/Fpng_Huffman.thy ===== *)
theory Fpng_Huffman
  imports Fpng_Deflate
begin

text \<open>
  The construction of Huffman codes in \<open>fpng.cpp\<close>: \<open>adjust_freq32\<close>, the radix sort of the symbols, the
  in-place computation of the code lengths, their limitation, and \<open>defl_optimize_huffman_table\<close>. Local
  arrays that the code leaves uninitialised start with zeros; every entry is written before it is read.
\<close>

section \<open>Frequencies\<close>

definition UINT16_MAX :: nat where "UINT16_MAX = 65535"

text \<open>The frequencies scaled to 16 bits, and their sum in 32 bits.\<close>

definition scale_freq :: "u32 \<Rightarrow> u32 \<Rightarrow> 16 word" where
  "scale_freq total_freq f =
    (if f = 0 then 0
     else ucast (maximum 1 (ucast (ucast f * u64 UINT16_MAX div ucast total_freq :: u64) :: u32)))"

definition halve_freq :: "u32 \<Rightarrow> u32" where
  "halve_freq f = (if f \<noteq> 0 then maximum 1 (drop_bit 1 f) else f)"

text \<open>
  The loop at the end halves the original frequencies, not the scaled ones, until their sum fits into 16
  bits. After 32 rounds every frequency is at most one.
\<close>

fun halve_loop :: "nat \<Rightarrow> u32 \<Rightarrow> u32 list \<Rightarrow> u32 list res" where
  "halve_loop 0 total_freq16 pFreq = Inl Diverges"
| "halve_loop (Suc fuel) total_freq16 pFreq =
    (if total_freq16 > u32 UINT16_MAX then
       (let pFreq = map halve_freq pFreq in halve_loop fuel (sum_list pFreq) pFreq)
     else Inr pFreq)"

definition adjust_freq32 :: "u32 list \<Rightarrow> (u32 list \<times> 16 word list) res" where
  "adjust_freq32 pFreq =
    (let total_freq = sum_list pFreq in
     if total_freq = 0 then Inr (pFreq, map (\<lambda>_. 0) pFreq)
     else
       (let pFreq16 = map (scale_freq total_freq) pFreq in
        and_then (halve_loop 34 (sum_list (map ucast pFreq16)) pFreq) (\<lambda>pFreq. Inr (pFreq, pFreq16))))"

section \<open>Sorting\<close>

record defl_sym_freq =
  m_key :: "16 word"
  m_sym_index :: "16 word"

definition no_sym_freq :: defl_sym_freq where "no_sym_freq = \<lparr>m_key = 0, m_sym_index = 0\<rparr>"

text \<open>The digit of a key in a pass, and the histograms of both digits in one array.\<close>

definition radix_digit :: "nat \<Rightarrow> defl_sym_freq \<Rightarrow> nat" where
  "radix_digit pass s = unat (drop_bit (8 * pass) (m_key s) AND 0xFF)"

definition count_at :: "nat \<Rightarrow> nat list \<Rightarrow> nat list" where
  "count_at i hist = hist[i := hist ! i + 1]"

definition radix_hist :: "defl_sym_freq list \<Rightarrow> nat list" where
  "radix_hist syms = fold (\<lambda>s. count_at (256 + radix_digit 1 s) \<circ> count_at (radix_digit 0 s)) syms (replicate (256 * 2) 0)"

definition radix_offsets :: "nat list \<Rightarrow> nat list" where
  "radix_offsets pHist =
    fst (fold (\<lambda>i (offsets, cur_ofs). (offsets[i := cur_ofs], cur_ofs + pHist ! i)) [0 ..< 256] (replicate 256 0, 0))"

definition radix_put ::
  "nat \<Rightarrow> defl_sym_freq \<Rightarrow> defl_sym_freq list \<times> nat list \<Rightarrow> (defl_sym_freq list \<times> nat list) res" where
  "radix_put pass s st =
    (let (pNew_syms, offsets) = st; b = radix_digit pass s in
     and_then (aset pNew_syms (offsets ! b) s) (\<lambda>pNew_syms. Inr (pNew_syms, count_at b offsets)))"

text \<open>One pass; the two arrays are swapped afterwards.\<close>

definition radix_pass ::
  "nat \<Rightarrow> nat list \<Rightarrow> nat \<Rightarrow> defl_sym_freq list \<times> defl_sym_freq list \<Rightarrow> (defl_sym_freq list \<times> defl_sym_freq list) res" where
  "radix_pass num_syms hist pass st =
    (let (pCur_syms, pNew_syms) = st in
     and_then (fold_res (radix_put pass) (take num_syms pCur_syms) (pNew_syms, radix_offsets (drop (256 * pass) hist)))
       (\<lambda>(pNew_syms, _). Inr (pNew_syms, pCur_syms)))"

definition defl_radix_sort_syms ::
  "nat \<Rightarrow> defl_sym_freq list \<Rightarrow> defl_sym_freq list \<Rightarrow> defl_sym_freq list res" where
  "defl_radix_sort_syms num_syms pSyms0 pSyms1 =
    (let hist = radix_hist (take num_syms pSyms0);
         total_passes = (if num_syms = hist ! 256 then 1 else 2) in
     and_then (fold_res (radix_pass num_syms hist) [0 ..< total_passes] (pSyms0, pSyms1)) (\<lambda>(pCur_syms, _).
     Inr pCur_syms))"

section \<open>Code lengths\<close>

text \<open>Reading and writing a key; the indices are of type \<open>int\<close>.\<close>

definition get_key :: "defl_sym_freq list \<Rightarrow> int \<Rightarrow> (16 word) res" where
  "get_key A i = (if 0 \<le> i then and_then (aref A (nat i)) (\<lambda>s. Inr (m_key s)) else Inl OutOfBounds)"

definition set_key :: "defl_sym_freq list \<Rightarrow> int \<Rightarrow> 16 word \<Rightarrow> defl_sym_freq list res" where
  "set_key A i k = (if 0 \<le> i then aset A (nat i) ((A ! nat i)\<lparr>m_key := k\<rparr>) else Inl OutOfBounds)"

definition less_key :: "defl_sym_freq list \<Rightarrow> int \<Rightarrow> int \<Rightarrow> bool res" where
  "less_key A i j = and_then (get_key A i) (\<lambda>a. and_then (get_key A j) (\<lambda>b. Inr (a < b)))"

text \<open>First phase: \<open>next\<close> becomes the parent of the two smallest of the remaining leaves and roots.\<close>

type_synonym merge_state = "defl_sym_freq list \<times> int \<times> int"

definition first_child :: "int \<Rightarrow> int \<Rightarrow> merge_state \<Rightarrow> merge_state res" where
  "first_child n nxt st =
    (let (A, root, leaf) = st in
     and_then (if leaf \<ge> n then Inr True else less_key A root leaf) (\<lambda>take_root.
     if take_root then
       and_then (get_key A root) (\<lambda>k.
       and_then (set_key A nxt k) (\<lambda>A.
       and_then (set_key A root (word_of_int nxt)) (\<lambda>A. Inr (A, root + 1, leaf))))
     else
       and_then (get_key A leaf) (\<lambda>k.
       and_then (set_key A nxt k) (\<lambda>A. Inr (A, root, leaf + 1)))))"

definition second_child :: "int \<Rightarrow> int \<Rightarrow> merge_state \<Rightarrow> merge_state res" where
  "second_child n nxt st =
    (let (A, root, leaf) = st in
     and_then (if leaf \<ge> n then Inr True else if root < nxt then less_key A root leaf else Inr False) (\<lambda>take_root.
     and_then (get_key A nxt) (\<lambda>k.
     if take_root then
       and_then (get_key A root) (\<lambda>r.
       and_then (set_key A nxt (k + r)) (\<lambda>A.
       and_then (set_key A root (word_of_int nxt)) (\<lambda>A. Inr (A, root + 1, leaf))))
     else
       and_then (get_key A leaf) (\<lambda>r.
       and_then (set_key A nxt (k + r)) (\<lambda>A. Inr (A, root, leaf + 1))))))"

definition merge_nodes :: "int \<Rightarrow> int \<Rightarrow> merge_state \<Rightarrow> merge_state res" where
  "merge_nodes n nxt st = and_then (first_child n nxt st) (second_child n nxt)"

text \<open>Second phase: the depth of an inner node is one more than that of its parent.\<close>

definition parent_depth :: "int \<Rightarrow> defl_sym_freq list \<Rightarrow> defl_sym_freq list res" where
  "parent_depth nxt A =
    and_then (get_key A nxt) (\<lambda>parent.
    and_then (get_key A (uint parent)) (\<lambda>d. set_key A nxt (d + 1)))"

text \<open>
  Third phase: on each level the inner nodes are counted, and the other nodes are leaves. A tree of \<open>n\<close>
  leaves has less than \<open>n + 1\<close> levels.
\<close>

function count_used :: "defl_sym_freq list \<Rightarrow> int \<Rightarrow> int \<Rightarrow> int \<Rightarrow> (int \<times> int) res" where
  "count_used A dpth root used =
    (if root \<ge> 0 then
       and_then (get_key A root) (\<lambda>k.
       if uint k = dpth then count_used A dpth (root - 1) (used + 1) else Inr (root, used))
     else Inr (root, used))"
  by auto
termination by (relation "measure (\<lambda>(A, d, root, u). nat (root + 1))") auto

function put_leaves :: "int \<Rightarrow> int \<Rightarrow> defl_sym_freq list \<Rightarrow> int \<Rightarrow> int \<Rightarrow> (defl_sym_freq list \<times> int \<times> int) res" where
  "put_leaves dpth used A nxt avbl =
    (if avbl > used then
       and_then (set_key A nxt (word_of_int dpth)) (\<lambda>A. put_leaves dpth used A (nxt - 1) (avbl - 1))
     else Inr (A, nxt, avbl))"
  by auto
termination by (relation "measure (\<lambda>(d, used, A, n, avbl). nat (avbl - used))") auto

declare count_used.simps [simp del] put_leaves.simps [simp del]

fun assign_depths :: "nat \<Rightarrow> defl_sym_freq list \<Rightarrow> int \<Rightarrow> int \<Rightarrow> int \<Rightarrow> int \<Rightarrow> defl_sym_freq list res" where
  "assign_depths 0 A avbl dpth root nxt = Inl Diverges"
| "assign_depths (Suc fuel) A avbl dpth root nxt =
    (if avbl > 0 then
       and_then (count_used A dpth root 0) (\<lambda>(root, used).
       and_then (put_leaves dpth used A nxt avbl) (\<lambda>(A, nxt, avbl).
       assign_depths fuel A (2 * used) (dpth + 1) root nxt))
     else Inr A)"

definition defl_calculate_minimum_redundancy :: "defl_sym_freq list \<Rightarrow> int \<Rightarrow> defl_sym_freq list res" where
  "defl_calculate_minimum_redundancy A n =
    (if n = 0 then Inr A
     else if n = 1 then set_key A 0 1
     else
       and_then (get_key A 0) (\<lambda>a.
       and_then (get_key A 1) (\<lambda>b.
       and_then (set_key A 0 (a + b)) (\<lambda>A.
       and_then (fold_res (merge_nodes n) [1 .. n - 2] (A, 0, 2)) (\<lambda>(A, _, _).
       and_then (set_key A (n - 2) 0) (\<lambda>A.
       and_then (fold_res parent_depth (rev [0 .. n - 3]) A) (\<lambda>A.
       assign_depths (nat n + 1) A 1 0 (n - 2) (n - 1))))))))"

section \<open>Limited code lengths\<close>

definition DEFL_MAX_SUPPORTED_HUFF_CODESIZE :: nat where "DEFL_MAX_SUPPORTED_HUFF_CODESIZE = 32"

text \<open>The loop moves one code from the last level below \<open>max_code_size\<close> that has any.\<close>

fun split_shorter_code :: "nat \<Rightarrow> int list \<Rightarrow> int list" where
  "split_shorter_code 0 num_codes = num_codes"
| "split_shorter_code (Suc i) num_codes =
    (if num_codes ! Suc i \<noteq> 0
     then num_codes[Suc i := num_codes ! Suc i - 1, Suc (Suc i) := num_codes ! Suc (Suc i) + 2]
     else split_shorter_code i num_codes)"

function enforce_loop :: "nat \<Rightarrow> u32 \<Rightarrow> int list \<Rightarrow> int list" where
  "enforce_loop max_code_size tot pNum_codes =
    (if tot \<noteq> push_bit max_code_size 1 then
       enforce_loop max_code_size (tot - 1)
         (split_shorter_code (max_code_size - 1) (pNum_codes[max_code_size := pNum_codes ! max_code_size - 1]))
     else pNum_codes)"
  by auto
termination
proof (relation "measure (\<lambda>(m, tot, xs). unat (tot - push_bit m 1))", goal_cases)
  case (2 m tot xs)
  then have "tot - push_bit m 1 \<noteq> 0" by simp
  then have "unat (tot - push_bit m 1 - 1) < unat (tot - push_bit m 1)"
    by (metis unat_1 unat_gt_0 unat_minus_one zero_less_one diff_less)
  moreover have "tot - push_bit m 1 - 1 = tot - 1 - push_bit m 1" by (rule diff_right_commute)
  ultimately show ?case by (simp only: in_measure case_prod_conv)
qed simp

declare enforce_loop.simps [simp del]

definition defl_huffman_enforce_max_code_size :: "int list \<Rightarrow> nat \<Rightarrow> nat \<Rightarrow> int list" where
  "defl_huffman_enforce_max_code_size pNum_codes code_list_len max_code_size =
    (if code_list_len \<le> 1 then pNum_codes
     else
       (let pNum_codes = fold (\<lambda>i xs. xs[max_code_size := xs ! max_code_size + xs ! i])
              [max_code_size + 1 ..< DEFL_MAX_SUPPORTED_HUFF_CODESIZE + 1] pNum_codes;
            total = fold (\<lambda>i total. total + push_bit (max_code_size - i) (word_of_int (pNum_codes ! i)))
              (rev [1 ..< max_code_size + 1]) 0 in
        enforce_loop max_code_size total pNum_codes))"

section \<open>Codes\<close>

record defl_huff =
  m_huff_count :: "16 word list list"
  m_huff_codes :: "16 word list list"
  m_huff_code_sizes :: "byte list list"

definition new_defl_huff :: defl_huff where
  "new_defl_huff =
    \<lparr>m_huff_count = replicate DEFL_MAX_HUFF_TABLES (replicate DEFL_MAX_HUFF_SYMBOLS 0),
     m_huff_codes = replicate DEFL_MAX_HUFF_TABLES (replicate DEFL_MAX_HUFF_SYMBOLS 0),
     m_huff_code_sizes = replicate DEFL_MAX_HUFF_TABLES (replicate DEFL_MAX_HUFF_SYMBOLS 0)\<rparr>"

definition set_table :: "nat \<Rightarrow> 'a list \<Rightarrow> 'a list list \<Rightarrow> 'a list list" where
  "set_table table_num xs tables = tables[table_num := xs]"

text \<open>The symbols that occur, with their counts, in the array \<open>syms0\<close>.\<close>

definition used_syms :: "16 word list \<Rightarrow> nat \<Rightarrow> defl_sym_freq list" where
  "used_syms pSym_count table_len =
    map (\<lambda>i. \<lparr>m_key = pSym_count ! i, m_sym_index = word_of_nat i\<rparr>) (filter (\<lambda>i. pSym_count ! i \<noteq> 0) [0 ..< table_len])"

definition pad_syms :: "defl_sym_freq list \<Rightarrow> defl_sym_freq list" where
  "pad_syms syms = syms @ replicate (DEFL_MAX_HUFF_SYMBOLS - length syms) no_sym_freq"

definition count_length :: "nat \<Rightarrow> int list \<Rightarrow> int list res" where
  "count_length l num_codes = and_then (aref num_codes l) (\<lambda>c. aset num_codes l (c + 1))"

text \<open>The sizes go to the symbols from the last, the most frequent, to the first.\<close>

definition assign_size ::
  "defl_sym_freq list \<Rightarrow> nat \<Rightarrow> byte list \<times> nat \<Rightarrow> (byte list \<times> nat) res" where
  "assign_size pSyms i st =
    (let (sizes, j) = st in
     if j = 0 then Inl OutOfBounds
     else
       and_then (aref pSyms (j - 1)) (\<lambda>s.
       and_then (aset sizes (unat (m_sym_index s)) (word_of_nat i)) (\<lambda>sizes. Inr (sizes, j - 1))))"

definition assign_sizes ::
  "defl_sym_freq list \<Rightarrow> int list \<Rightarrow> nat \<Rightarrow> nat \<Rightarrow> byte list res" where
  "assign_sizes pSyms num_codes num_used_syms code_size_limit =
    and_then
      (fold_res (assign_size pSyms)
        (concat (map (\<lambda>i. replicate (nat (num_codes ! i)) i) [1 ..< code_size_limit + 1]))
        (replicate DEFL_MAX_HUFF_SYMBOLS 0, num_used_syms))
      (\<lambda>(sizes, _). Inr sizes)"

definition first_codes :: "int list \<Rightarrow> nat \<Rightarrow> u32 list" where
  "first_codes num_codes code_size_limit =
    fst (fold (\<lambda>i (next_code, j). let j = push_bit 1 (j + word_of_int (num_codes ! (i - 1))) in (next_code[i := j], j))
      [2 ..< code_size_limit + 1] (replicate (DEFL_MAX_SUPPORTED_HUFF_CODESIZE + 1) 0, 0))"

text \<open>The low \<open>l\<close> bits of a code in reverse; the decoder has the same loop.\<close>

fun reverse_code :: "nat \<Rightarrow> u32 \<Rightarrow> u32 \<Rightarrow> u32" where
  "reverse_code 0 code rev_code = rev_code"
| "reverse_code (Suc l) code rev_code = reverse_code l (drop_bit 1 code) (push_bit 1 rev_code OR (code AND 1))"

definition assign_code ::
  "byte list \<Rightarrow> nat \<Rightarrow> u32 list \<times> 16 word list \<Rightarrow> (u32 list \<times> 16 word list) res" where
  "assign_code sizes i st =
    (let (next_code, codes) = st; code_size = unat (sizes ! i) in
     if code_size = 0 then Inr (next_code, codes)
     else
       and_then (aref next_code code_size) (\<lambda>code.
       Inr (next_code[code_size := code + 1], codes[i := ucast (reverse_code code_size code 0)])))"

text \<open>The lengths of the codes, unless they are given already (\<open>static_table\<close>), then the codes.\<close>

definition defl_optimize_huffman_table ::
  "defl_huff \<Rightarrow> nat \<Rightarrow> nat \<Rightarrow> nat \<Rightarrow> bool \<Rightarrow> defl_huff res" where
  "defl_optimize_huffman_table d table_num table_len code_size_limit static_table =
    (let no_codes = replicate (1 + DEFL_MAX_SUPPORTED_HUFF_CODESIZE) 0 in
     and_then
       (if static_table then
          and_then (fold_res count_length (map unat (take table_len (m_huff_code_sizes d ! table_num))) no_codes) (\<lambda>num_codes.
          Inr (d, num_codes))
        else
          (let syms = used_syms (m_huff_count d ! table_num) table_len; num_used_syms = length syms in
           and_then (defl_radix_sort_syms num_used_syms (pad_syms syms) (pad_syms [])) (\<lambda>pSyms.
           and_then (defl_calculate_minimum_redundancy pSyms (int num_used_syms)) (\<lambda>pSyms.
           and_then (fold_res count_length (map (\<lambda>s. unat (m_key s)) (take num_used_syms pSyms)) no_codes) (\<lambda>num_codes.
           let num_codes = defl_huffman_enforce_max_code_size num_codes num_used_syms code_size_limit in
           and_then (assign_sizes pSyms num_codes num_used_syms code_size_limit) (\<lambda>sizes.
           Inr (d\<lparr>m_huff_code_sizes := set_table table_num sizes (m_huff_code_sizes d),
                  m_huff_codes := set_table table_num (replicate DEFL_MAX_HUFF_SYMBOLS 0) (m_huff_codes d)\<rparr>, num_codes)))))))
       (\<lambda>(d, num_codes).
        and_then
          (fold_res (assign_code (m_huff_code_sizes d ! table_num)) [0 ..< table_len]
            (first_codes num_codes code_size_limit, m_huff_codes d ! table_num))
          (\<lambda>(_, codes). Inr (d\<lparr>m_huff_codes := set_table table_num codes (m_huff_codes d)\<rparr>))))"

end
