(* ===== verification/Fpng_Two_Pass.thy ===== *)
theory Fpng_Two_Pass
  imports Fpng_Huffman
begin

text \<open>
  The two-pass encoders of \<open>fpng.cpp\<close>: \<open>defl_start_dynamic_block\<close> with its run-length coding of the code
  sizes, and \<open>pixel_deflate_dyn_3_rle\<close> and \<open>pixel_deflate_dyn_4_rle\<close>, which first turn the image into a
  vector of codes with their frequencies.
\<close>

section \<open>Runs of code sizes\<close>

record rle_state =
  sym_counts :: "16 word list"
  packed_code_sizes :: "byte list"
  rle_z_count :: nat
  rle_repeat_count :: nat
  prev_code_size :: byte

definition count_sym :: "nat \<Rightarrow> nat \<Rightarrow> rle_state \<Rightarrow> rle_state res" where
  "count_sym symbol n s =
    and_then (aref (sym_counts s) symbol) (\<lambda>c.
    and_then (aset (sym_counts s) symbol (c + word_of_nat n)) (\<lambda>cs. Inr (s\<lparr>sym_counts := cs\<rparr>)))"

text \<open>\<open>packed_code_sizes[num_packed_code_sizes++] = b\<close> for each of the bytes.\<close>

definition pack :: "byte list \<Rightarrow> rle_state \<Rightarrow> rle_state res" where
  "pack bs s =
    (if length (packed_code_sizes s) + length bs \<le> DEFL_MAX_HUFF_SYMBOLS_0 + DEFL_MAX_HUFF_SYMBOLS_1
     then Inr (s\<lparr>packed_code_sizes := packed_code_sizes s @ bs\<rparr>) else Inl OutOfBounds)"

definition DEFL_RLE_PREV_CODE_SIZE :: "rle_state \<Rightarrow> rle_state res" where
  "DEFL_RLE_PREV_CODE_SIZE s =
    (let n = rle_repeat_count s in
     if n = 0 then Inr s
     else
       and_then
         (if n < 3 then
            and_then (count_sym (unat (prev_code_size s)) n s) (pack (replicate n (prev_code_size s)))
          else
            and_then (count_sym 16 1 s) (pack [16, word_of_nat (n - 3)]))
         (\<lambda>s. Inr (s\<lparr>rle_repeat_count := 0\<rparr>)))"

definition DEFL_RLE_ZERO_CODE_SIZE :: "rle_state \<Rightarrow> rle_state res" where
  "DEFL_RLE_ZERO_CODE_SIZE s =
    (let n = rle_z_count s in
     if n = 0 then Inr s
     else
       and_then
         (if n < 3 then and_then (count_sym 0 n s) (pack (replicate n 0))
          else if n \<le> 10 then and_then (count_sym 17 1 s) (pack [17, word_of_nat (n - 3)])
          else and_then (count_sym 18 1 s) (pack [18, word_of_nat (n - 11)]))
         (\<lambda>s. Inr (s\<lparr>rle_z_count := 0\<rparr>)))"

definition rle_step :: "byte \<Rightarrow> rle_state \<Rightarrow> rle_state res" where
  "rle_step code_size s =
    and_then
      (if code_size = 0 then
         and_then (DEFL_RLE_PREV_CODE_SIZE s) (\<lambda>s.
         let s = s\<lparr>rle_z_count := rle_z_count s + 1\<rparr> in
         if rle_z_count s = 138 then DEFL_RLE_ZERO_CODE_SIZE s else Inr s)
       else
         and_then (DEFL_RLE_ZERO_CODE_SIZE s) (\<lambda>s.
         if code_size \<noteq> prev_code_size s then
           and_then (DEFL_RLE_PREV_CODE_SIZE s) (\<lambda>s.
           and_then (count_sym (unat code_size) 1 s) (pack [code_size]))
         else
           (let s = s\<lparr>rle_repeat_count := rle_repeat_count s + 1\<rparr> in
            if rle_repeat_count s = 6 then DEFL_RLE_PREV_CODE_SIZE s else Inr s)))
      (\<lambda>s. Inr (s\<lparr>prev_code_size := code_size\<rparr>))"

definition rle_code_sizes :: "byte list \<Rightarrow> 16 word list \<Rightarrow> rle_state res" where
  "rle_code_sizes code_sizes_to_pack counts =
    and_then
      (fold_res rle_step code_sizes_to_pack
        \<lparr>sym_counts = counts, packed_code_sizes = [], rle_z_count = 0, rle_repeat_count = 0, prev_code_size = 0xFF\<rparr>)
      (\<lambda>s. if rle_repeat_count s \<noteq> 0 then DEFL_RLE_PREV_CODE_SIZE s else DEFL_RLE_ZERO_CODE_SIZE s)"

section \<open>The header of a block\<close>

text \<open>The loops that drop unused codes at the end: the number of codes left, at least \<open>least\<close>.\<close>

fun last_used :: "nat \<Rightarrow> byte list \<Rightarrow> nat \<Rightarrow> nat" where
  "last_used least sizes 0 = 0"
| "last_used least sizes (Suc n) =
    (if least \<le> n \<and> sizes ! n = 0 then last_used least sizes n else Suc n)"

text \<open>The codes of the literals, of the distances and of the packed code sizes.\<close>

definition prepare_codes :: "defl_huff \<Rightarrow> (defl_huff \<times> nat \<times> nat \<times> byte list) res" where
  "prepare_codes d =
    (let d = d\<lparr>m_huff_count := set_table 0 ((m_huff_count d ! 0)[256 := 1]) (m_huff_count d)\<rparr> in
     and_then (defl_optimize_huffman_table d 0 DEFL_MAX_HUFF_SYMBOLS_0 12 False) (\<lambda>d.
     and_then (defl_optimize_huffman_table d 1 DEFL_MAX_HUFF_SYMBOLS_1 12 False) (\<lambda>d.
     let num_lit_codes = last_used 257 (m_huff_code_sizes d ! 0) 286;
         num_dist_codes = last_used 1 (m_huff_code_sizes d ! 1) 30;
         code_sizes_to_pack = take num_lit_codes (m_huff_code_sizes d ! 0) @ take num_dist_codes (m_huff_code_sizes d ! 1);
         no_counts = replicate DEFL_MAX_HUFF_SYMBOLS_2 0 @ drop DEFL_MAX_HUFF_SYMBOLS_2 (m_huff_count d ! 2) in
     and_then (rle_code_sizes code_sizes_to_pack no_counts) (\<lambda>s.
     let d = d\<lparr>m_huff_count := set_table 2 (sym_counts s) (m_huff_count d)\<rparr> in
     and_then (defl_optimize_huffman_table d 2 DEFL_MAX_HUFF_SYMBOLS_2 7 False) (\<lambda>d.
     Inr (d, num_lit_codes, num_dist_codes, packed_code_sizes s))))))"

text \<open>The bits are written byte by byte.\<close>

function dyn_flush :: "u32 \<Rightarrow> bit_writer \<Rightarrow> put_result" where
  "dyn_flush dst_buf_size s =
    (if out_size s \<ge> 8 then or_return (put_low_byte dst_buf_size s) (dyn_flush dst_buf_size)
     else Inr (s, True))"
  by auto
termination by (relation "measure (\<lambda>(n, s). nat (out_size s))") (auto dest: put_low_byte_size)

declare dyn_flush.simps [simp del]

definition DEFL_DYN_PUT_BITS :: "u32 \<Rightarrow> u32 \<Rightarrow> nat \<Rightarrow> bit_writer \<Rightarrow> put_result" where
  "DEFL_DYN_PUT_BITS dst_buf_size b l s = or_return (PUT_BITS_CZ b l s) (dyn_flush dst_buf_size)"

fun dyn_put_list :: "u32 \<Rightarrow> (nat \<times> nat) list \<Rightarrow> bit_writer \<Rightarrow> put_result" where
  "dyn_put_list dst_buf_size [] s = Inr (s, True)"
| "dyn_put_list dst_buf_size ((b, l) # xs) s =
    or_return (DEFL_DYN_PUT_BITS dst_buf_size (u32 b) l s) (dyn_put_list dst_buf_size xs)"

definition extra_bits :: "nat list" where "extra_bits = [2, 3, 7]"

fun put_packed :: "u32 \<Rightarrow> code_table \<Rightarrow> byte list \<Rightarrow> bit_writer \<Rightarrow> put_result" where
  "put_packed dst_buf_size codes [] s = Inr (s, True)"
| "put_packed dst_buf_size codes (c # cs) s =
    and_then (assert_that (unat c < DEFL_MAX_HUFF_SYMBOLS_2)) (\<lambda>_.
    or_return (DEFL_DYN_PUT_BITS dst_buf_size (u32 (snd (codes ! unat c))) (fst (codes ! unat c)) s) (\<lambda>s.
    if unat c \<ge> 16 then
      (case cs of
         [] \<Rightarrow> Inl OutOfBounds
       | x # cs \<Rightarrow>
           or_return (DEFL_DYN_PUT_BITS dst_buf_size (ucast x) (extra_bits ! (unat c - 16)) s) (put_packed dst_buf_size codes cs))
    else put_packed dst_buf_size codes cs s))"

text \<open>The codes of a table as sizes and codes.\<close>

definition huff_codes :: "defl_huff \<Rightarrow> nat \<Rightarrow> code_table" where
  "huff_codes d table_num = zip (map unat (m_huff_code_sizes d ! table_num)) (map unat (m_huff_codes d ! table_num))"

definition put_block_header ::
  "u32 \<Rightarrow> code_table \<Rightarrow> nat \<Rightarrow> nat \<Rightarrow> byte list \<Rightarrow> bit_writer \<Rightarrow> put_result" where
  "put_block_header dst_buf_size codes num_lit_codes num_dist_codes packed s =
    (let sizes = map (\<lambda>i. fst (codes ! i)) g_defl_packed_code_size_syms_swizzle;
         num_bit_lengths = maximum 4 (last_used 0 (map word_of_nat sizes) 19) in
     or_return
       (dyn_put_list dst_buf_size
         ((2, 2) # (num_lit_codes - 257, 5) # (num_dist_codes - 1, 5) # (num_bit_lengths - 4, 4) #
          map (\<lambda>n. (n, 3)) (take num_bit_lengths sizes)) s)
       (put_packed dst_buf_size codes packed))"

text \<open>The tables with the codes come back together with the writer.\<close>

definition defl_start_dynamic_block ::
  "defl_huff \<Rightarrow> u32 \<Rightarrow> bit_writer \<Rightarrow> (defl_huff \<times> bit_writer \<times> bool) res" where
  "defl_start_dynamic_block d dst_buf_size s =
    and_then (prepare_codes d) (\<lambda>(d, num_lit_codes, num_dist_codes, packed).
    and_then (put_block_header dst_buf_size (huff_codes d 2) num_lit_codes num_dist_codes packed s) (\<lambda>(s, ok).
    Inr (d, s, ok)))"

section \<open>First pass\<close>

text \<open>
  The vector of codes and the frequencies. A code has its type in the low byte: 0 for the literals of a
  pixel, 1 for a filter, otherwise the length of a match less one. With three channels a code has 32
  bits, with four it has 64.
\<close>

record 'c scan_state =
  scan_ofs :: nat
  codes_out :: "'c list"
  lit_freq :: "u32 list"

definition count_freq :: "nat \<Rightarrow> u32 list \<Rightarrow> u32 list res" where
  "count_freq symbol freq = and_then (aref freq symbol) (\<lambda>f. aset freq symbol (f + 1))"

text \<open>\<open>*pDst_codes++ = c\<close>, in a vector of \<open>n\<close> elements.\<close>

definition push_code :: "nat \<Rightarrow> 'c \<Rightarrow> 'c scan_state \<Rightarrow> 'c scan_state res" where
  "push_code n c s = (if length (codes_out s) < n then Inr (s\<lparr>codes_out := codes_out s @ [c]\<rparr>) else Inl OutOfBounds)"

definition count_all :: "nat list \<Rightarrow> 'c scan_state \<Rightarrow> 'c scan_state res" where
  "count_all syms s = and_then (fold_res count_freq syms (lit_freq s)) (\<lambda>f. Inr (s\<lparr>lit_freq := f\<rparr>))"

text \<open>What a pixel, a match of \<open>len\<close> bytes and a filter add to the vector and the frequencies.\<close>

definition scan_pixel_3 :: "nat \<Rightarrow> u32 \<Rightarrow> u32 scan_state \<Rightarrow> u32 scan_state res" where
  "scan_pixel_3 n lits s =
    and_then (push_code n (push_bit 8 lits) s) (\<lambda>s.
    and_then (count_all [lit 0 lits, lit 1 lits, unat (drop_bit 16 lits)] s) (\<lambda>s.
    Inr (s\<lparr>scan_ofs := scan_ofs s + 3\<rparr>)))"

definition scan_pixel_4 :: "nat \<Rightarrow> u32 \<Rightarrow> u64 scan_state \<Rightarrow> u64 scan_state res" where
  "scan_pixel_4 n lits s =
    and_then (push_code n (push_bit 8 (ucast lits)) s) (\<lambda>s.
    and_then (count_all [lit 0 lits, lit 1 lits, lit 2 lits, unat (drop_bit 24 lits)] s) (\<lambda>s.
    Inr (s\<lparr>scan_ofs := scan_ofs s + 4\<rparr>)))"

definition scan_match :: "nat \<Rightarrow> nat \<Rightarrow> ('w :: len word) scan_state \<Rightarrow> 'w word scan_state res" where
  "scan_match n match_len s =
    and_then (push_code n (word_of_nat (match_len - 1)) s) (\<lambda>s.
    and_then (aref g_defl_len_sym (match_len - 3)) (\<lambda>symbol.
    and_then (count_all [symbol] s) (\<lambda>s.
    Inr (s\<lparr>scan_ofs := scan_ofs s + match_len\<rparr>))))"

definition scan_filter :: "byte list \<Rightarrow> nat \<Rightarrow> ('w :: len word) scan_state \<Rightarrow> 'w word scan_state res" where
  "scan_filter pSrc n s =
    and_then (read_byte pSrc (scan_ofs s)) (\<lambda>filter_lit.
    and_then (push_code n (1 OR push_bit 8 (ucast filter_lit)) s) (\<lambda>s.
    and_then (count_all [unat filter_lit] s) (\<lambda>s.
    Inr (s\<lparr>scan_ofs := scan_ofs s + 1\<rparr>))))"

text \<open>The pixels of a row behind the first. A round moves on by at least a pixel.\<close>

fun scan_pixels_3 :: "nat \<Rightarrow> byte list \<Rightarrow> nat \<Rightarrow> nat \<Rightarrow> u32 \<Rightarrow> u32 scan_state \<Rightarrow> u32 scan_state res" where
  "scan_pixels_3 0 pSrc n end_src_ofs prev_lits s = Inl Diverges"
| "scan_pixels_3 (Suc fuel) pSrc n end_src_ofs prev_lits s =
    (if scan_ofs s < end_src_ofs then
       and_then (read_pixel_3 pSrc (scan_ofs s)) (\<lambda>lits.
       if lits = prev_lits then
         and_then (find_match_3 pSrc (scan_ofs s) end_src_ofs lits) (\<lambda>match_len.
         and_then (scan_match n match_len s) (scan_pixels_3 fuel pSrc n end_src_ofs prev_lits))
       else and_then (scan_pixel_3 n lits s) (scan_pixels_3 fuel pSrc n end_src_ofs lits))
     else Inr s)"

fun scan_pixels_4 :: "nat \<Rightarrow> byte list \<Rightarrow> nat \<Rightarrow> nat \<Rightarrow> u32 \<Rightarrow> u64 scan_state \<Rightarrow> u64 scan_state res" where
  "scan_pixels_4 0 pSrc n end_src_ofs prev_lits s = Inl Diverges"
| "scan_pixels_4 (Suc fuel) pSrc n end_src_ofs prev_lits s =
    (if scan_ofs s < end_src_ofs then
       and_then (read_pixel_4 pSrc (scan_ofs s)) (\<lambda>lits.
       if lits = prev_lits then
         and_then (find_match_4 pSrc (scan_ofs s) end_src_ofs lits) (\<lambda>match_len.
         and_then (scan_match n match_len s) (scan_pixels_4 fuel pSrc n end_src_ofs prev_lits))
       else and_then (scan_pixel_4 n lits s) (scan_pixels_4 fuel pSrc n end_src_ofs lits))
     else Inr s)"

definition scan_row_3 :: "byte list \<Rightarrow> nat \<Rightarrow> nat \<Rightarrow> nat \<Rightarrow> u32 scan_state \<Rightarrow> u32 scan_state res" where
  "scan_row_3 pSrc n bpl y s =
    (let end_src_ofs = scan_ofs s + bpl in
     and_then (scan_filter pSrc n s) (\<lambda>s.
     and_then (read_pixel_3 pSrc (scan_ofs s)) (\<lambda>lits.
     and_then (scan_pixel_3 n lits s) (scan_pixels_3 (Suc bpl) pSrc n end_src_ofs lits))))"

definition scan_row_4 :: "byte list \<Rightarrow> nat \<Rightarrow> nat \<Rightarrow> nat \<Rightarrow> u64 scan_state \<Rightarrow> u64 scan_state res" where
  "scan_row_4 pSrc n bpl y s =
    (let end_src_ofs = scan_ofs s + bpl in
     and_then (scan_filter pSrc n s) (\<lambda>s.
     and_then (read_pixel_4 pSrc (scan_ofs s)) (\<lambda>lits.
     and_then (scan_pixel_4 n lits s) (scan_pixels_4 (Suc bpl) pSrc n end_src_ofs lits))))"

text \<open>
  The scaled frequencies of the literals, and two distance codes: the one that is used and another, which
  some decoders want.
\<close>

definition block_counts :: "nat \<Rightarrow> u32 list \<Rightarrow> defl_huff res" where
  "block_counts dist_sym freq =
    and_then (adjust_freq32 (freq[256 := 1])) (\<lambda>(_, counts).
    Inr (new_defl_huff\<lparr>m_huff_count :=
      [counts, (replicate DEFL_MAX_HUFF_SYMBOLS 0)[dist_sym := 1, dist_sym + 1 := 1], replicate DEFL_MAX_HUFF_SYMBOLS 0]\<rparr>))"

section \<open>Second pass\<close>

definition put_scanned_3 :: "code_table \<Rightarrow> u32 \<Rightarrow> u32 \<Rightarrow> bit_writer \<Rightarrow> put_result" where
  "put_scanned_3 codes dst_buf_size c s =
    (let c_type = c AND 0xFF in
     or_return
       (if c_type = 0 then put_lits_3 codes (drop_bit 8 c) s
        else if c_type = 1 then put_code codes (unat (drop_bit 8 c)) s
        else put_match codes (unat (c_type + 1 - 3)) s)
       (PUT_BITS_FLUSH dst_buf_size))"

definition put_scanned_4 :: "code_table \<Rightarrow> u32 \<Rightarrow> u64 \<Rightarrow> bit_writer \<Rightarrow> put_result" where
  "put_scanned_4 codes dst_buf_size c s =
    (let c_type = c AND 0xFF in
     or_return
       (if c_type = 0 then put_lits_4 codes dst_buf_size (ucast (drop_bit 8 c)) s
        else if c_type = 1 then put_code codes (unat (ucast (drop_bit 8 c) :: u32)) s
        else put_match codes (unat (c_type + 1 - 3)) s)
       (PUT_BITS_FLUSH dst_buf_size))"

text \<open>The zlib header and the bit for the final block.\<close>

definition put_zlib_header :: "bit_writer \<Rightarrow> put_result" where
  "put_zlib_header s =
    or_return (PUT_BITS 0x78 8 s) (\<lambda>s. or_return (PUT_BITS 0x01 8 s) (PUT_BITS 1 1))"

text \<open>The part behind the first pass is the same for both numbers of channels, but for \<open>put_scanned\<close>.\<close>

definition put_block ::
  "(code_table \<Rightarrow> u32 \<Rightarrow> 'c \<Rightarrow> bit_writer \<Rightarrow> put_result) \<Rightarrow> nat \<Rightarrow> 'c scan_state \<Rightarrow> u32 \<Rightarrow> bit_writer \<Rightarrow> put_result" where
  "put_block put_scanned dist_sym scan dst_buf_size s =
    and_then (block_counts dist_sym (lit_freq scan)) (\<lambda>dh.
    and_then (defl_start_dynamic_block dh dst_buf_size s) (\<lambda>(dh, s, ok).
    if \<not> ok then Inr (s, False)
    else
      and_then (assert_that (out_size s \<le> 7)) (\<lambda>_.
      and_then (assert_that (m_huff_codes dh ! 1 ! dist_sym = 0 \<and> m_huff_code_sizes dh ! 1 ! dist_sym = 1)) (\<lambda>_.
      or_return (put_each (put_scanned (huff_codes dh 0) dst_buf_size) (codes_out scan) s)
        (put_end (huff_codes dh 0) dst_buf_size)))))"

definition pixel_deflate_dyn_3_rle ::
  "cpu_info \<Rightarrow> byte list \<Rightarrow> u32 \<Rightarrow> u32 \<Rightarrow> byte list \<Rightarrow> u32 \<Rightarrow> (byte list \<times> u32) res" where
  "pixel_deflate_dyn_3_rle cpu pImg w h dst dst_buf_size =
    (let bpl = 1 + w * 3; n = unat ((w + 1) * h) in
     and_then (put_zlib_header \<lparr>out_buf = 0, out_size = 0, out_ofs = 0, out_dst = dst, in_ofs = 0\<rparr>) (\<lambda>(s, _).
     and_then (peek 0 (unat (bpl * h)) pImg) (\<lambda>src.
     and_then (fold_res (scan_row_3 pImg n (unat bpl)) [0 ..< unat h]
         \<lparr>scan_ofs = 0, codes_out = [], lit_freq = replicate DEFL_MAX_HUFF_SYMBOLS_0 0\<rparr>) (\<lambda>scan.
     and_then (assert_that (scan_ofs scan = unat (h * bpl) \<and> length (codes_out scan) \<le> n)) (\<lambda>_.
     and_then (put_block put_scanned_3 (g_defl_small_dist_sym ! (3 - 1)) scan dst_buf_size s)
       (put_adler (fpng_adler32 cpu src FPNG_ADLER32_INIT) dst_buf_size))))))"

definition pixel_deflate_dyn_4_rle ::
  "cpu_info \<Rightarrow> byte list \<Rightarrow> u32 \<Rightarrow> u32 \<Rightarrow> byte list \<Rightarrow> u32 \<Rightarrow> (byte list \<times> u32) res" where
  "pixel_deflate_dyn_4_rle cpu pImg w h dst dst_buf_size =
    (let bpl = 1 + w * 4; n = unat ((w + 1) * h) in
     and_then (put_zlib_header \<lparr>out_buf = 0, out_size = 0, out_ofs = 0, out_dst = dst, in_ofs = 0\<rparr>) (\<lambda>(s, _).
     and_then (peek 0 (unat (bpl * h)) pImg) (\<lambda>src.
     and_then (fold_res (scan_row_4 pImg n (unat bpl)) [0 ..< unat h]
         \<lparr>scan_ofs = 0, codes_out = [], lit_freq = replicate DEFL_MAX_HUFF_SYMBOLS_0 0\<rparr>) (\<lambda>scan.
     and_then (assert_that (scan_ofs scan = unat (h * bpl) \<and> length (codes_out scan) \<le> n)) (\<lambda>_.
     and_then (put_block put_scanned_4 (g_defl_small_dist_sym ! (4 - 1)) scan dst_buf_size s)
       (put_adler (fpng_adler32 cpu src FPNG_ADLER32_INIT) dst_buf_size))))))"

end
