(* ===== verification/Fpng_Encoder.thy ===== *)
theory Fpng_Encoder
  imports Fpng_Two_Pass
begin

text \<open>
  The PNG encoder of \<open>fpng.cpp\<close>: row filters, \<open>fpng_encode_image_to_memory\<close> and
  \<open>fpng_encode_image_to_file\<close>.
\<close>

definition FPNG_ENCODE_SLOWER :: u32 where "FPNG_ENCODE_SLOWER = 1"

definition FPNG_FORCE_UNCOMPRESSED :: u32 where "FPNG_FORCE_UNCOMPRESSED = 2"

text \<open>\<open>std::vector::resize\<close>.\<close>

definition resize :: "nat \<Rightarrow> byte list \<Rightarrow> byte list" where
  "resize n buf = take n buf @ replicate (n - length buf) 0"

definition vector_append :: "byte list \<Rightarrow> byte list \<Rightarrow> byte list" where
  "vector_append buf pData =
    (if length pData \<noteq> 0 then splice_at (length buf) pData (resize (length buf + length pData) buf) else buf)"

section \<open>Filters\<close>

text \<open>Differences of two rows: sixteen bytes at a time, then single bytes; or pixel by pixel.\<close>

definition mm_sub_epi8 :: "byte list \<Rightarrow> byte list \<Rightarrow> byte list" where
  "mm_sub_epi8 = map2 (-)"

function sub_rows_sse :: "byte list \<Rightarrow> byte list \<Rightarrow> byte list" where
  "sub_rows_sse p q =
    (if 16 \<le> length p then mm_sub_epi8 (take 16 p) (take 16 q) @ sub_rows_sse (drop 16 p) (drop 16 q)
     else map (\<lambda>i. p ! i - q ! i) [0 ..< length p])"
  by auto
termination by (relation "measure (\<lambda>(p, q). length p)") auto

declare sub_rows_sse.simps [simp del]

fun sub_rows_3 :: "byte list \<Rightarrow> byte list \<Rightarrow> byte list" where
  "sub_rows_3 (a # b # c # p) (a' # b' # c' # q) = (a - a') # (b - b') # (c - c') # sub_rows_3 p q"
| "sub_rows_3 p q = []"

fun sub_rows_4 :: "byte list \<Rightarrow> byte list \<Rightarrow> byte list" where
  "sub_rows_4 (a # b # c # d # p) (a' # b' # c' # d' # q) =
    (a - a') # (b - b') # (c - c') # (d - d') # sub_rows_4 p q"
| "sub_rows_4 p q = []"

text \<open>The bytes that \<open>apply_filter\<close> writes to \<open>pDst\<close>.\<close>

definition apply_filter ::
  "cpu_info \<Rightarrow> u32 \<Rightarrow> u32 \<Rightarrow> u32 \<Rightarrow> u32 \<Rightarrow> byte list \<Rightarrow> byte list option \<Rightarrow> byte list res" where
  "apply_filter cpu filter_type w num_chans bpl pSrc pPrev_src =
    (if filter_type = 0 then and_then (peek 0 (unat bpl) pSrc) (\<lambda>row. Inr (0 # row))
     else if filter_type = 2 then
       (case pPrev_src of
          None \<Rightarrow> Inl AssertionFailed
        | Some pPrev \<Rightarrow>
            and_then (peek 0 (unat (w * num_chans)) pSrc) (\<lambda>row.
            and_then (peek 0 (unat (w * num_chans)) pPrev) (\<lambda>prev.
            Inr (2 # (if can_use_sse41 cpu then sub_rows_sse row prev
                      else if num_chans = 3 then sub_rows_3 row prev
                      else sub_rows_4 row prev)))))
     else Inl AssertionFailed)"

text \<open>A loop over the rows: row \<open>y\<close> is filtered into \<open>temp_buf\<close> behind the rows before it.\<close>

definition filter_row ::
  "cpu_info \<Rightarrow> u32 \<Rightarrow> u32 \<Rightarrow> u32 \<Rightarrow> byte list \<Rightarrow> bool \<Rightarrow> nat \<Rightarrow> byte list \<times> u32 \<Rightarrow> (byte list \<times> u32) res" where
  "filter_row cpu w num_chans bpl pImage up y tmp =
    (let pSrc = drop (unat (u32 y * bpl)) pImage;
         filter_type = (if up \<and> y \<noteq> 0 then 2 else 0);
         pPrev_src = (if up \<and> y \<noteq> 0 then Some (drop (unat ((u32 y - 1) * bpl)) pImage) else None) in
     and_then (apply_filter cpu filter_type w num_chans bpl pSrc pPrev_src) (\<lambda>bytes.
     and_then (poke (unat (snd tmp)) bytes (fst tmp)) (\<lambda>temp_buf.
     Inr (temp_buf, snd tmp + (1 + bpl)))))"

definition filter_rows ::
  "cpu_info \<Rightarrow> u32 \<Rightarrow> u32 \<Rightarrow> u32 \<Rightarrow> u32 \<Rightarrow> byte list \<Rightarrow> bool \<Rightarrow> byte list \<Rightarrow> (byte list \<times> u32) res" where
  "filter_rows cpu w h num_chans bpl pImage up temp_buf =
    fold_res (filter_row cpu w num_chans bpl pImage up) [0 ..< unat h] (temp_buf, 0)"

section \<open>The file\<close>

definition s_color_type :: "byte list" where "s_color_type = [0x00, 0x00, 0x04, 0x02, 0x06]"

text \<open>The first 58 bytes; bytes 29 to 32 are the CRC of the 17 bytes before them.\<close>

definition pnghdr :: "u32 \<Rightarrow> u32 \<Rightarrow> u32 \<Rightarrow> u32 \<Rightarrow> byte list \<Rightarrow> byte list" where
  "pnghdr w h num_chans idat_len ihdr_crc =
    [0x89, 0x50, 0x4e, 0x47, 0x0d, 0x0a, 0x1a, 0x0a,
     0x00, 0x00, 0x00, 0x0d, 0x49, 0x48, 0x44, 0x52,
     0, 0, ucast (drop_bit 8 w), ucast w,
     0, 0, ucast (drop_bit 8 h), ucast h,
     8, s_color_type ! unat num_chans, 0, 0, 0] @ ihdr_crc @
    [0, 0, 0, 5, 0x66, 0x64, 0x45, 0x43, 82, 36, 147, 227, FPNG_FDEC_VERSION, 0xE5, 0xAB, 0x62, 0x99] @
    be32 idat_len @ [0x49, 0x44, 0x41, 0x54]"

definition iend_bytes :: "byte list" where
  "iend_bytes = [0, 0, 0, 0, 0, 0, 0, 0, 0x49, 0x45, 0x4e, 0x44, 0xae, 0x42, 0x60, 0x82]"

text \<open>The header and the trailer, around the compressed data that is already in place.\<close>

definition write_png_chunks :: "cpu_info \<Rightarrow> u32 \<Rightarrow> u32 \<Rightarrow> u32 \<Rightarrow> byte list \<Rightarrow> byte list res" where
  "write_png_chunks cpu w h num_chans out =
    (let idat_len = u32 (length out) - 58 in
     and_then (fpng_crc32 cpu (slice 12 17 (pnghdr w h num_chans idat_len [0, 0, 0, 0])) FPNG_CRC32_INIT) (\<lambda>c.
     and_then (poke 0 (pnghdr w h num_chans idat_len (be32 c)) out) (\<lambda>out.
     let out = vector_append out iend_bytes in
     and_then (peek 54 (unat (idat_len + 4)) out) (\<lambda>idat.
     and_then (fpng_crc32 cpu idat FPNG_CRC32_INIT) (\<lambda>c.
     poke (length out - 16) (be32 c) out)))))"

text \<open>The choice of a compressor: the destination and the number of bytes in it, 0 if it is too small.\<close>

definition deflate_image ::
  "cpu_info \<Rightarrow> u32 \<Rightarrow> u32 \<Rightarrow> byte list \<Rightarrow> u32 \<Rightarrow> u32 \<Rightarrow> byte list \<Rightarrow> u32 \<Rightarrow> (byte list \<times> u32) res" where
  "deflate_image cpu num_chans flags temp_buf w h dst n =
    (if num_chans = 3 then
       if flags AND FPNG_ENCODE_SLOWER \<noteq> 0 then pixel_deflate_dyn_3_rle cpu temp_buf w h dst n
       else pixel_deflate_dyn_3_rle_one_pass cpu temp_buf w h dst n
     else
       if flags AND FPNG_ENCODE_SLOWER \<noteq> 0 then pixel_deflate_dyn_4_rle cpu temp_buf w h dst n
       else pixel_deflate_dyn_4_rle_one_pass cpu temp_buf w h dst n)"

text \<open>The first attempt, with filters and compression: the temporary and the output buffer, and the size.\<close>

definition encode_deflated ::
  "cpu_info \<Rightarrow> byte list \<Rightarrow> u32 \<Rightarrow> u32 \<Rightarrow> u32 \<Rightarrow> u32 \<Rightarrow> byte list \<Rightarrow> u32 \<Rightarrow>
    (byte list \<times> byte list \<times> u32) res" where
  "encode_deflated cpu pImage w h num_chans bpl out flags =
    (let temp_buf = resize (unat ((bpl + 1) * h + 7)) [] in
     and_then (filter_rows cpu w h num_chans bpl pImage True temp_buf) (\<lambda>(temp_buf, _).
     let out = resize (unat ((58 + (bpl + 1) * h + 7) AND NOT 7)) out in
     if flags AND FPNG_FORCE_UNCOMPRESSED = 0 then
       (if 58 \<le> length out then
          and_then (deflate_image cpu num_chans flags temp_buf w h (drop 58 out) (u32 (length out) - 58)) (\<lambda>(dst, defl_size).
          Inr (temp_buf, take 58 out @ dst, defl_size))
        else Inl OutOfBounds)
     else Inr (temp_buf, out, 0)))"

text \<open>The second attempt: rows without a filter in uncompressed blocks; \<open>None\<close> if they do not fit.\<close>

definition encode_raw ::
  "cpu_info \<Rightarrow> byte list \<Rightarrow> u32 \<Rightarrow> u32 \<Rightarrow> u32 \<Rightarrow> u32 \<Rightarrow> byte list \<Rightarrow> byte list \<Rightarrow> (byte list \<times> u32) res" where
  "encode_raw cpu pImage w h num_chans bpl temp_buf out =
    and_then (filter_rows cpu w h num_chans bpl pImage False temp_buf) (\<lambda>(temp_buf, temp_buf_ofs).
    and_then (assert_that (unat temp_buf_ofs \<le> length temp_buf)) (\<lambda>_.
    let out = resize (unat (58 + 6 + temp_buf_ofs + ((temp_buf_ofs + 65534) div 65535) * 5)) out in
    if 58 \<le> length out then
      and_then (write_raw_block cpu temp_buf temp_buf_ofs (drop 58 out) (u32 (length out) - 58)) (\<lambda>(dst, raw_size).
      and_then (assert_that (raw_size \<noteq> 0)) (\<lambda>_.
      Inr (take 58 out @ dst, raw_size)))
    else Inl OutOfBounds))"

text \<open>The contents of \<open>out_buf\<close>; a rejected argument fails an assertion.\<close>

definition fpng_encode_image_to_memory ::
  "cpu_info \<Rightarrow> byte list \<Rightarrow> u32 \<Rightarrow> u32 \<Rightarrow> u32 \<Rightarrow> byte list \<Rightarrow> u32 \<Rightarrow> byte list res" where
  "fpng_encode_image_to_memory cpu pImage w h num_chans out flags =
    and_then (assert_that endian_check) (\<lambda>_.
    and_then (assert_that (\<not> (w < 1 \<or> h < 1 \<or> ucast w * ucast h > (0xFFFFFFFF :: u64) \<or>
      w > FPNG_MAX_SUPPORTED_DIM \<or> h > FPNG_MAX_SUPPORTED_DIM))) (\<lambda>_.
    and_then (assert_that (num_chans = 3 \<or> num_chans = 4)) (\<lambda>_.
    let bpl = w * num_chans in
    and_then (encode_deflated cpu pImage w h num_chans bpl out flags) (\<lambda>(temp_buf, out, defl_size).
    and_then (if defl_size = 0 then encode_raw cpu pImage w h num_chans bpl temp_buf out
              else Inr (out, defl_size)) (\<lambda>(out, zlib_size).
    and_then (assert_that (unat (58 + zlib_size) \<le> length out)) (\<lambda>_.
    write_png_chunks cpu w h num_chans (resize (unat (58 + zlib_size)) out)))))))"

text \<open>
  What the operating system lets \<open>fpng_encode_image_to_file\<close> do, and the result: whether it reports
  success, and the contents of the file it leaves, if it opens one.
\<close>

record file_ops =
  can_open :: bool
  bytes_written :: "byte list \<Rightarrow> nat"
  can_close :: bool

definition fpng_encode_image_to_file ::
  "cpu_info \<Rightarrow> file_ops \<Rightarrow> byte list \<Rightarrow> u32 \<Rightarrow> u32 \<Rightarrow> u32 \<Rightarrow> u32 \<Rightarrow> (bool \<times> byte list option) res" where
  "fpng_encode_image_to_file cpu os pImage w h num_chans flags =
    and_then (fpng_encode_image_to_memory cpu pImage w h num_chans [] flags) (\<lambda>out.
    Inr
      (if \<not> can_open os then (False, None)
       else if bytes_written os out \<noteq> length out then (False, Some (take (bytes_written os out) out))
       else (can_close os, Some out)))"

end
