(* ===== verification/Fpng_Inflate.thy ===== *)
theory Fpng_Inflate
  imports Fpng_Huffman
begin

text \<open>
  The decompressor of \<open>fpng.cpp\<close>: the macros of the bit reader, \<open>build_decoder_table\<close>,
  \<open>prepare_dynamic_block\<close> and \<open>fpng_pixel_zlib_decompress_3\<close> and \<open>_4\<close>. Their assertions can fail on
  crafted files, so the model takes whether the build has assertions as the argument \<open>dbg\<close>. Offsets in
  the image and in a scanline are natural numbers; the header checks keep them below 2 ^ 32.
\<close>

section \<open>The bit reader\<close>

text \<open>What does not change: the build, the bytes of the source and \<open>src_len\<close>.\<close>

record bit_source =
  zsrc_debug :: bool
  zsrc_bytes :: "byte list"
  zsrc_len :: u32

record bit_reader =
  rd_buf :: u64
  rd_size :: u32
  rd_ofs :: u32

definition check :: "bool \<Rightarrow> bool \<Rightarrow> unit res" where
  "check dbg b = (if dbg then assert_that b else Inr ())"

lemma check_simps [simp]: "check False b = Inr ()" "check dbg True = Inr ()" "check True b = assert_that b"
  by (simp_all add: check_def)

text \<open>As before, \<open>None\<close> is the result false.\<close>

definition ENSURE_32BITS :: "bit_source \<Rightarrow> bit_reader \<Rightarrow> bit_reader option res" where
  "ENSURE_32BITS S r =
    (if rd_size r < 32 then
       if rd_ofs r + 4 > zsrc_len S then Inr None
       else
         and_then (peek (unat (rd_ofs r)) 4 (zsrc_bytes S)) (\<lambda>p.
         Inr (Some (r\<lparr>rd_buf := rd_buf r OR push_bit (unat (rd_size r)) (ucast (READ_LE32 p)),
                      rd_size := rd_size r + 32, rd_ofs := rd_ofs r + 4\<rparr>)))
     else Inr (Some r))"

definition drop_bits :: "u32 \<Rightarrow> bit_reader \<Rightarrow> bit_reader" where
  "drop_bits l r = r\<lparr>rd_buf := drop_bit (unat l) (rd_buf r), rd_size := rd_size r - l\<rparr>"

definition SKIP_BITS :: "bit_source \<Rightarrow> u32 \<Rightarrow> bit_reader \<Rightarrow> bit_reader option res" where
  "SKIP_BITS S l r = and_then (check (zsrc_debug S) (l \<le> 32)) (\<lambda>_. ENSURE_32BITS S (drop_bits l r))"

definition SKIP_BITS_NE :: "bit_source \<Rightarrow> u32 \<Rightarrow> bit_reader \<Rightarrow> bit_reader option res" where
  "SKIP_BITS_NE S l r =
    and_then (check (zsrc_debug S) (l \<le> 32 \<and> rd_size r \<ge> l)) (\<lambda>_. Inr (Some (drop_bits l r)))"

definition GET_BITS :: "bit_source \<Rightarrow> u32 \<Rightarrow> bit_reader \<Rightarrow> (u32 \<times> bit_reader) option res" where
  "GET_BITS S l r =
    and_then (check (zsrc_debug S) (l \<noteq> 0 \<and> l \<le> 32)) (\<lambda>_.
    and_then (aref g_bitmasks (unat l)) (\<lambda>m.
    or_false (ENSURE_32BITS S (drop_bits l r)) (\<lambda>r'.
    Inr (Some (ucast (rd_buf r AND ucast m), r')))))"

definition GET_BITS_NE :: "bit_source \<Rightarrow> u32 \<Rightarrow> bit_reader \<Rightarrow> (u32 \<times> bit_reader) option res" where
  "GET_BITS_NE S l r =
    and_then (check (zsrc_debug S) (l \<noteq> 0 \<and> l \<le> 32 \<and> rd_size r \<ge> l)) (\<lambda>_.
    and_then (aref g_bitmasks (unat l)) (\<lambda>m.
    Inr (Some (ucast (rd_buf r AND ucast m), drop_bits l r))))"

lemma or_false_cong [fundef_cong]:
  "r = r' \<Longrightarrow> (\<And>s. r' = Inr (Some s) \<Longrightarrow> f s = g s) \<Longrightarrow> or_false r f = or_false r' g"
  by (cases r') (auto simp: or_false_def split: option.splits)

section \<open>Decoder tables\<close>

text \<open>
  A table has an entry for every sequence of 12 bits. An entry holds the symbol these bits start with
  (9 bits) and the length of its code (4 bits), and possibly the same for the symbol behind it.
\<close>

definition entry_sym :: "u32 \<Rightarrow> u32" where "entry_sym e = e AND 511"
definition entry_len :: "u32 \<Rightarrow> u32" where "entry_len e = drop_bit 9 e AND 15"
definition next_sym :: "u32 \<Rightarrow> u32" where "next_sym e = drop_bit 16 e AND 511"
definition next_len :: "u32 \<Rightarrow> u32" where "next_len e = drop_bit (16 + 9) e"

definition table_entry :: "u32 list \<Rightarrow> bit_reader \<Rightarrow> u32 res" where
  "table_entry table r = aref table (unat (rd_buf r AND u64 (FPNG_DECODER_TABLE_SIZE - 1)))"

definition count_code :: "bool \<Rightarrow> byte \<Rightarrow> nat list \<Rightarrow> nat list res" where
  "count_code dbg sz num_codes =
    and_then (check dbg (unat sz \<le> FPNG_DECODER_TABLE_SIZE)) (\<lambda>_.
    and_then (aref num_codes (unat sz)) (\<lambda>n. aset num_codes (unat sz) (n + 1)))"

definition next_codes :: "nat list \<Rightarrow> u32 list \<times> u32" where
  "next_codes num_codes =
    fold (\<lambda>i (next_code, tot). let tot = push_bit 1 (tot + u32 (num_codes ! i)) in (next_code[i + 1 := tot], tot))
      [1 ..< 16] (replicate 17 0, 0)"

text \<open>An incomplete code is accepted if it has one symbol only.\<close>

fun sum_codes :: "nat \<Rightarrow> nat \<Rightarrow> nat list \<Rightarrow> nat option" where
  "sum_codes 0 j num_codes = Some j"
| "sum_codes (Suc i) j num_codes =
    (let j = j + num_codes ! Suc i in if j > 1 then None else sum_codes i j num_codes)"

definition number_code :: "byte \<Rightarrow> u32 list \<times> u32 list \<Rightarrow> (u32 list \<times> u32 list) res" where
  "number_code sz st =
    (let (next_code, rev_codes) = st in
     and_then (aref next_code (unat sz)) (\<lambda>code.
     Inr (next_code[unat sz := code + 1], rev_codes @ [code])))"

function fill_table :: "u32 \<Rightarrow> nat \<Rightarrow> nat \<Rightarrow> u32 list \<Rightarrow> u32 list" where
  "fill_table e code_size new_code pTable =
    (if new_code < FPNG_DECODER_TABLE_SIZE
     then fill_table e code_size (new_code + 2 ^ code_size) (pTable[new_code := e])
     else pTable)"
  by auto
termination by (relation "measure (\<lambda>(e, l, c, t). FPNG_DECODER_TABLE_SIZE - c)") (auto intro: diff_less_mono2)

declare fill_table.simps [simp del]

definition fill_symbol :: "byte list \<Rightarrow> u32 list \<Rightarrow> nat \<Rightarrow> u32 list \<Rightarrow> u32 list" where
  "fill_symbol pCode_sizes rev_codes i pTable =
    (let code_size = unat (pCode_sizes ! i) in
     if code_size = 0 then pTable
     else fill_table (u32 i OR push_bit 9 (u32 code_size)) code_size
       (unat (reverse_code code_size (rev_codes ! i) 0)) pTable)"

text \<open>The symbols are those of the list of sizes.\<close>

definition build_decoder_table :: "bool \<Rightarrow> byte list \<Rightarrow> u32 list option res" where
  "build_decoder_table dbg pCode_sizes =
    and_then (fold_res (count_code dbg) pCode_sizes (replicate 16 0)) (\<lambda>num_codes.
    let (next_code, tot) = next_codes num_codes in
    if tot \<noteq> 0x10000 \<and> sum_codes 15 0 num_codes \<noteq> Some 1 then Inr None
    else
      and_then (fold_res number_code pCode_sizes (next_code, [])) (\<lambda>(_, rev_codes).
      Inr (Some (fold (fill_symbol pCode_sizes rev_codes) [0 ..< length pCode_sizes]
        (replicate FPNG_DECODER_TABLE_SIZE 0)))))"

section \<open>The header of a dynamic block\<close>

fun read_clen_sizes :: "bit_source \<Rightarrow> nat list \<Rightarrow> byte list \<Rightarrow> bit_reader \<Rightarrow> (byte list \<times> bit_reader) option res" where
  "read_clen_sizes S [] sizes r = Inr (Some (sizes, r))"
| "read_clen_sizes S (i # is) sizes r =
    or_false (GET_BITS S 3 r) (\<lambda>(len, r). read_clen_sizes S is (sizes[i := ucast len]) r)"

text \<open>The number of repetitions behind the symbols 16, 17 and 18, and the size to repeat.\<close>

definition read_repeat :: "bit_source \<Rightarrow> u32 \<Rightarrow> nat \<Rightarrow> byte list \<Rightarrow> bit_reader \<Rightarrow> ((nat \<times> byte) \<times> bit_reader) option res" where
  "read_repeat S symbol cur_code code_sizes r =
    (if symbol = 16 then
       or_false (GET_BITS S 2 r) (\<lambda>(n, r).
       if cur_code = 0 then Inr None
       else and_then (aref code_sizes (cur_code - 1)) (\<lambda>sz. Inr (Some ((unat n + 3, sz), r))))
     else if symbol = 17 then or_false (GET_BITS S 3 r) (\<lambda>(n, r). Inr (Some ((unat n + 3, 0), r)))
     else if symbol = 18 then or_false (GET_BITS S 7 r) (\<lambda>(n, r). Inr (Some ((unat n + 11, 0), r)))
     else Inr (Some ((0, 0), r)))"

definition repeat_size :: "byte \<Rightarrow> nat \<Rightarrow> nat \<Rightarrow> byte list \<Rightarrow> byte list res" where
  "repeat_size sz cur_code rep_len code_sizes =
    fold_res (\<lambda>i xs. aset xs i sz) [cur_code ..< cur_code + rep_len] code_sizes"

text \<open>
  The loop over the code sizes. Every round adds at least one of them; \<open>min_code_size\<close> is the smallest
  size but 0.
\<close>

fun read_code_sizes ::
  "nat \<Rightarrow> bit_source \<Rightarrow> u32 list \<Rightarrow> nat \<Rightarrow> nat \<Rightarrow> byte list \<Rightarrow> u32 \<Rightarrow> bit_reader \<Rightarrow>
    (byte list \<times> u32 \<times> bit_reader) option res" where
  "read_code_sizes 0 S clen_table total_codes cur_code code_sizes min_code_size r = Inl Diverges"
| "read_code_sizes (Suc fuel) S clen_table total_codes cur_code code_sizes min_code_size r =
    (if cur_code < total_codes then
       and_then (table_entry clen_table r) (\<lambda>e.
       let sym_len = drop_bit 9 e in
       if sym_len = 0 then Inr None
       else
         or_false (SKIP_BITS S sym_len r) (\<lambda>r.
         let symbol = e AND 511 in
         if symbol \<le> 15 then
           (if symbol > FPNG_DECODER_TABLE_BITS then Inr None
            else
              (let min_code_size = (if symbol \<noteq> 0 then minimum min_code_size symbol else min_code_size) in
               and_then (aset code_sizes cur_code (ucast symbol)) (\<lambda>code_sizes.
               read_code_sizes fuel S clen_table total_codes (cur_code + 1) code_sizes min_code_size r)))
         else
           or_false (read_repeat S symbol cur_code code_sizes r) (\<lambda>((rep_len, size), r).
           if cur_code + rep_len > total_codes then Inr None
           else
             and_then (repeat_size size cur_code rep_len code_sizes) (\<lambda>code_sizes.
             read_code_sizes fuel S clen_table total_codes (cur_code + rep_len) code_sizes min_code_size r))))
     else Inr (Some (code_sizes, min_code_size, r)))"

text \<open>The next symbol is added to an entry when it fits.\<close>

definition add_next_symbol :: "bool \<Rightarrow> u32 \<Rightarrow> nat \<Rightarrow> u32 list \<Rightarrow> u32 list res" where
  "add_next_symbol dbg min_code_size i pLit_table =
    (let e = pLit_table ! i; sym_bits = entry_len e in
     if entry_sym e \<ge> 256 \<or> sym_bits = 0 then Inr pLit_table
     else
       and_then (check dbg (sym_bits \<le> FPNG_DECODER_TABLE_BITS)) (\<lambda>_.
       let bits_left = FPNG_DECODER_TABLE_BITS - sym_bits in
       if bits_left < min_code_size then Inr pLit_table
       else
         and_then (aref pLit_table (drop_bit (unat sym_bits) i)) (\<lambda>nxt.
         if entry_len nxt = 0 \<or> bits_left < entry_len nxt then Inr pLit_table
         else Inr (pLit_table[i := e OR push_bit 16 (entry_sym nxt) OR push_bit (16 + 9) (entry_len nxt)]))))"

text \<open>The tests of the distance codes: one or two of them, of one bit, for the distance of a pixel.\<close>

definition distance_codes_ok :: "nat \<Rightarrow> nat \<Rightarrow> nat \<Rightarrow> byte list \<Rightarrow> bool" where
  "distance_codes_ok num_chans num_lit_codes num_dist_codes code_sizes \<longleftrightarrow>
    (let total_valid_distcodes = length (filter (\<lambda>s. s = 1) (slice num_lit_codes num_dist_codes code_sizes)) in
     \<not> (total_valid_distcodes < 1 \<or> total_valid_distcodes > 2) \<and>
     code_sizes ! (num_lit_codes + (num_chans - 1)) = 1 \<and>
     (total_valid_distcodes = 2 \<longrightarrow> code_sizes ! (num_lit_codes + num_chans) = 1))"

text \<open>The code sizes, behind the number of codes for code sizes.\<close>

definition read_all_sizes :: "bit_source \<Rightarrow> nat \<Rightarrow> nat \<Rightarrow> bit_reader \<Rightarrow> (byte list \<times> u32 \<times> bit_reader) option res" where
  "read_all_sizes S num_clen_codes total_codes r =
    or_false (read_clen_sizes S (take num_clen_codes s_bit_length_order) (replicate DEFL_MAX_HUFF_SYMBOLS_2 0) r)
      (\<lambda>(clen_codesizes, r).
    or_false (build_decoder_table (zsrc_debug S) clen_codesizes) (\<lambda>clen_table.
    read_code_sizes (Suc total_codes) S clen_table total_codes 0
      (replicate (DEFL_MAX_HUFF_SYMBOLS_0 + DEFL_MAX_HUFF_SYMBOLS_1) 0) 15 r))"

text \<open>The table of the literals from their code sizes.\<close>

definition build_lit_table :: "bool \<Rightarrow> byte list \<Rightarrow> u32 \<Rightarrow> u32 list option res" where
  "build_lit_table dbg lit_codesizes min_code_size =
    or_false (build_decoder_table dbg lit_codesizes) (\<lambda>pLit_table.
    and_then (fold_res (add_next_symbol dbg min_code_size) [0 ..< FPNG_DECODER_TABLE_SIZE] pLit_table)
      (\<lambda>pLit_table. Inr (Some pLit_table)))"

definition prepare_dynamic_block :: "bit_source \<Rightarrow> nat \<Rightarrow> bit_reader \<Rightarrow> (u32 list \<times> bit_reader) option res" where
  "prepare_dynamic_block S num_chans r =
    or_false (GET_BITS S 5 r) (\<lambda>(n, r).
    let num_lit_codes = unat n + 257 in
    or_false (GET_BITS S 5 r) (\<lambda>(n, r).
    let num_dist_codes = unat n + 1; total_codes = num_lit_codes + num_dist_codes in
    if total_codes > DEFL_MAX_HUFF_SYMBOLS_0 + DEFL_MAX_HUFF_SYMBOLS_1 then Inr None
    else
      or_false (GET_BITS S 4 r) (\<lambda>(n, r).
      or_false (read_all_sizes S (unat n + 4) total_codes r) (\<lambda>(code_sizes, min_code_size, r).
      if \<not> distance_codes_ok num_chans num_lit_codes num_dist_codes code_sizes then Inr None
      else
        or_false (build_lit_table (zsrc_debug S) (take num_lit_codes code_sizes) min_code_size) (\<lambda>pLit_table.
        Inr (Some (pLit_table, r)))))))"

section \<open>Pixels\<close>

text \<open>
  Where a pixel goes: the previous scanline, if there is one, and the current scanline, as offsets into
  the image, and the number of components to write (3 or 4) and the length of a scanline.
\<close>

record scanline =
  pPrev_scanline :: "nat option"
  pCur_scanline :: nat
  line_comps :: nat
  line_bpl :: nat

text \<open>The literals are differences to the pixel above.\<close>

definition add_above :: "scanline \<Rightarrow> nat \<Rightarrow> byte list \<Rightarrow> byte list \<Rightarrow> byte list res" where
  "add_above L x_ofs lits img =
    (case pPrev_scanline L of
       None \<Rightarrow> Inr lits
     | Some p \<Rightarrow> and_then (peek (p + x_ofs) (length lits) img) (\<lambda>above. Inr (map2 (+) above lits)))"

text \<open>From three channels, an alpha channel of 255 is added; of four channels, the last is dropped.\<close>

definition put_pixel_3 :: "scanline \<Rightarrow> nat \<Rightarrow> byte list \<Rightarrow> byte list \<Rightarrow> byte list res" where
  "put_pixel_3 L x_ofs lits img =
    and_then (add_above L x_ofs lits img) (\<lambda>px.
    poke (pCur_scanline L + x_ofs) (if line_comps L = 4 then px @ [0xFF] else px) img)"

definition put_pixel_4 :: "scanline \<Rightarrow> nat \<Rightarrow> byte list \<Rightarrow> byte list \<Rightarrow> byte list res" where
  "put_pixel_4 L x_ofs lits img =
    and_then (add_above L x_ofs (if line_comps L = 3 then take 3 lits else lits) img) (\<lambda>px.
    poke (pCur_scanline L + x_ofs) px img)"

definition comp_step :: "scanline \<Rightarrow> nat" where
  "comp_step L = (if line_comps L = 4 then 4 else 3)"

text \<open>The \<open>do\<close> loop of a match, which repeats the previous pixel.\<close>

function repeat_pixel ::
  "(nat \<Rightarrow> byte list \<Rightarrow> byte list res) \<Rightarrow> scanline \<Rightarrow> nat \<Rightarrow> nat \<Rightarrow> byte list \<Rightarrow> (nat \<times> byte list) res" where
  "repeat_pixel put_pixel L x_ofs_end x_ofs img =
    and_then (put_pixel x_ofs img) (\<lambda>img.
    let x_ofs = x_ofs + comp_step L in
    if x_ofs < x_ofs_end then repeat_pixel put_pixel L x_ofs_end x_ofs img else Inr (x_ofs, img))"
  by auto
termination by (relation "measure (\<lambda>(p, L, e, x, img). e - x)") (auto simp: comp_step_def)

declare repeat_pixel.simps [simp del]

text \<open>A match up to \<open>x_ofs_end\<close>; without differences it is a copy of the row above.\<close>

definition copy_run ::
  "(nat \<Rightarrow> byte list \<Rightarrow> byte list res) \<Rightarrow> byte list \<Rightarrow> scanline \<Rightarrow> nat \<Rightarrow> nat \<Rightarrow> byte list \<Rightarrow> (nat \<times> byte list) res" where
  "copy_run put_pixel prev_delta L x_ofs_end x_ofs img =
    (case pPrev_scanline L of
       Some p \<Rightarrow>
         if list_all (\<lambda>d. d = 0) prev_delta then
           and_then (peek (p + x_ofs) (x_ofs_end - x_ofs) img) (\<lambda>above.
           and_then (poke (pCur_scanline L + x_ofs) above img) (\<lambda>img. Inr (x_ofs_end, img)))
         else repeat_pixel put_pixel L x_ofs_end x_ofs img
     | None \<Rightarrow> repeat_pixel put_pixel L x_ofs_end x_ofs img)"

section \<open>Symbols\<close>

text \<open>The length of a match, behind its symbol, and the bit for the distance.\<close>

definition read_run_len :: "bit_source \<Rightarrow> u32 \<Rightarrow> bit_reader \<Rightarrow> (nat \<times> bit_reader) option res" where
  "read_run_len S lit0 r =
    (if lit0 = 256 then Inr None
     else
       and_then (aref s_length_range (unat lit0 - 257)) (\<lambda>run_len.
       or_false
         (if lit0 \<ge> 265 then
            and_then (aref s_length_extra (unat lit0 - 257)) (\<lambda>l.
            or_false (GET_BITS_NE S (u32 l) r) (\<lambda>(e, r). Inr (Some (run_len + unat e, r))))
          else Inr (Some (run_len, r))) (\<lambda>(run_len, r).
       or_false (SKIP_BITS_NE S 1 r) (\<lambda>r. Inr (Some (run_len, r))))))"

text \<open>The assertion before each look at the table, and the test for a valid code.\<close>

definition look_up :: "bit_source \<Rightarrow> u32 list \<Rightarrow> bit_reader \<Rightarrow> u32 option res" where
  "look_up S lit_table r =
    and_then (check (zsrc_debug S) (rd_size r \<ge> FPNG_DECODER_TABLE_BITS)) (\<lambda>_.
    and_then (table_entry lit_table r) (\<lambda>e. Inr (if entry_len e = 0 then None else Some e)))"

text \<open>
  The second and the third literal of a pixel, and the length of the code of the third, which is still to
  be skipped; \<open>lit0_tab\<close> is the entry of the first.
\<close>

definition third_literal :: "bit_source \<Rightarrow> u32 list \<Rightarrow> u32 \<Rightarrow> bit_reader \<Rightarrow> (u32 \<times> u32) option res" where
  "third_literal S lit_table lit1 r =
    (let lit2_len = next_len lit1 in
     if lit2_len \<noteq> 0 then Inr (Some (drop_bit 16 lit1, lit2_len))
     else or_false (look_up S lit_table r) (\<lambda>lit2. Inr (Some (lit2, entry_len lit2))))"

definition read_literals ::
  "bit_source \<Rightarrow> u32 list \<Rightarrow> u32 \<Rightarrow> bit_reader \<Rightarrow> (u32 \<times> u32 \<times> u32 \<times> bit_reader) option res" where
  "read_literals S lit_table lit0_tab r =
    (let lit1_spec_len = next_len lit0_tab in
     if lit1_spec_len \<noteq> 0 then
       or_false (SKIP_BITS_NE S lit1_spec_len r) (\<lambda>r.
       or_false (look_up S lit_table r) (\<lambda>lit2.
       Inr (Some (next_sym lit0_tab, lit2, entry_len lit2, r))))
     else
       or_false (look_up S lit_table r) (\<lambda>lit1.
       or_false (SKIP_BITS_NE S (entry_len lit1) r) (\<lambda>r.
       or_false (third_literal S lit_table lit1 r) (\<lambda>(lit2, lit2_len).
       Inr (Some (lit1, lit2, lit2_len, r))))))"

section \<open>Three channels\<close>

record pixel_state =
  px_reader :: bit_reader
  px_x_ofs :: nat
  px_delta :: "byte list"
  px_img :: "byte list"

definition match_3 :: "bit_source \<Rightarrow> scanline \<Rightarrow> u32 \<Rightarrow> pixel_state \<Rightarrow> pixel_state option res" where
  "match_3 S L lit0 s =
    or_false (read_run_len S (lit0 AND 511) (px_reader s)) (\<lambda>(run_len, r).
    and_then (check (zsrc_debug S) (run_len mod 3 = 0)) (\<lambda>_.
    and_then (aref g_run_len3_to_4 run_len) (\<lambda>run_len4.
    let x_ofs = px_x_ofs s; x_ofs_end = x_ofs + (if line_comps L = 4 then run_len4 else run_len) in
    if run_len4 = 0 then Inr None
    else if x_ofs_end > line_bpl L then Inr None
    else
      and_then (copy_run (\<lambda>x. put_pixel_3 L x (px_delta s)) (px_delta s) L x_ofs_end x_ofs (px_img s)) (\<lambda>(x_ofs, img).
      Inr (Some (s\<lparr>px_reader := r, px_x_ofs := x_ofs, px_img := img\<rparr>))))))"

definition emit_pixel_3 :: "scanline \<Rightarrow> u32 \<Rightarrow> u32 \<Rightarrow> u32 \<Rightarrow> bit_reader \<Rightarrow> pixel_state \<Rightarrow> pixel_state option res" where
  "emit_pixel_3 L lit0 lit1 lit2 r s =
    (let lits = [ucast lit0, ucast lit1, ucast lit2] in
     if (lit1 OR lit2) AND 256 \<noteq> 0 then Inr None
     else
       and_then (put_pixel_3 L (px_x_ofs s) lits (px_img s)) (\<lambda>img.
       Inr (Some (s\<lparr>px_reader := r, px_x_ofs := px_x_ofs s + comp_step L, px_delta := lits, px_img := img\<rparr>))))"

text \<open>One more pixel, if the entry of \<open>lit2\<close> has its first literal.\<close>

definition speculative_pixel_3 ::
  "bit_source \<Rightarrow> u32 list \<Rightarrow> scanline \<Rightarrow> u32 \<Rightarrow> pixel_state \<Rightarrow> pixel_state option res" where
  "speculative_pixel_3 S lit_table L lit2 s =
    (let spec_next_len0_len = next_len lit2; lit0 = next_sym lit2 in
     if spec_next_len0_len \<noteq> 0 \<and> px_x_ofs s < line_bpl L \<and> lit0 < 256 then
       or_false (SKIP_BITS_NE S spec_next_len0_len (px_reader s)) (\<lambda>r.
       or_false (look_up S lit_table r) (\<lambda>lit1.
       or_false (SKIP_BITS S (entry_len lit1) r) (\<lambda>r.
       or_false (third_literal S lit_table lit1 r) (\<lambda>(lit2, lit2_len).
       or_false (SKIP_BITS_NE S lit2_len r) (\<lambda>r.
       emit_pixel_3 L lit0 lit1 lit2 r s)))))
     else Inr (Some s))"

definition literals_3 ::
  "bit_source \<Rightarrow> u32 list \<Rightarrow> scanline \<Rightarrow> u32 \<Rightarrow> pixel_state \<Rightarrow> pixel_state option res" where
  "literals_3 S lit_table L lit0_tab s =
    or_false (read_literals S lit_table lit0_tab (px_reader s)) (\<lambda>(lit1, lit2, lit2_len, r).
    or_false (SKIP_BITS S lit2_len r) (\<lambda>r.
    or_false (emit_pixel_3 L lit0_tab lit1 lit2 r s) (speculative_pixel_3 S lit_table L lit2)))"

text \<open>One round of the loop over the pixels.\<close>

definition decode_step_3 :: "bit_source \<Rightarrow> u32 list \<Rightarrow> scanline \<Rightarrow> pixel_state \<Rightarrow> pixel_state option res" where
  "decode_step_3 S lit_table L s =
    or_false (look_up S lit_table (px_reader s)) (\<lambda>lit0_tab.
    or_false (SKIP_BITS S (entry_len lit0_tab) (px_reader s)) (\<lambda>r.
    let s = s\<lparr>px_reader := r\<rparr> in
    if lit0_tab AND 256 \<noteq> 0 then match_3 S L lit0_tab s else literals_3 S lit_table L lit0_tab s))"

section \<open>Four channels\<close>

definition match_4 :: "bit_source \<Rightarrow> scanline \<Rightarrow> u32 \<Rightarrow> pixel_state \<Rightarrow> pixel_state option res" where
  "match_4 S L lit0 s =
    or_false (read_run_len S (lit0 AND 511) (px_reader s)) (\<lambda>(run_len, r).
    if run_len mod 4 \<noteq> 0 then Inr None
    else
      (let x_ofs = px_x_ofs s; x_ofs_end = x_ofs + (if line_comps L = 3 then (run_len div 4) * 3 else run_len) in
       if x_ofs_end > line_bpl L then Inr None
       else
         and_then (copy_run (\<lambda>x. put_pixel_4 L x (px_delta s)) (px_delta s) L x_ofs_end x_ofs (px_img s)) (\<lambda>(x_ofs, img).
         Inr (Some (s\<lparr>px_reader := r, px_x_ofs := x_ofs, px_img := img\<rparr>)))))"

definition emit_pixel_4 :: "scanline \<Rightarrow> u32 \<Rightarrow> u32 \<Rightarrow> u32 \<Rightarrow> u32 \<Rightarrow> bit_reader \<Rightarrow> pixel_state \<Rightarrow> pixel_state option res" where
  "emit_pixel_4 L lit0 lit1 lit2 lit3 r s =
    (let lits = [ucast lit0, ucast lit1, ucast lit2, ucast lit3] in
     if (lit1 OR lit2 OR lit3) AND 256 \<noteq> 0 then Inr None
     else
       and_then (put_pixel_4 L (px_x_ofs s) lits (px_img s)) (\<lambda>img.
       Inr (Some (s\<lparr>px_reader := r, px_x_ofs := px_x_ofs s + comp_step L, px_delta := lits, px_img := img\<rparr>))))"

text \<open>The fourth literal, with the codes of the third and the fourth skipped.\<close>

definition fourth_literal ::
  "bit_source \<Rightarrow> u32 list \<Rightarrow> u32 \<Rightarrow> u32 \<Rightarrow> bit_reader \<Rightarrow> (u32 \<times> bit_reader) option res" where
  "fourth_literal S lit_table lit2 lit2_len r =
    (let lit3_len = next_len lit2 in
     if lit3_len \<noteq> 0 then or_false (SKIP_BITS S (lit2_len + lit3_len) r) (\<lambda>r. Inr (Some (drop_bit 16 lit2, r)))
     else
       or_false (SKIP_BITS S lit2_len r) (\<lambda>r.
       or_false (look_up S lit_table r) (\<lambda>lit3.
       or_false (SKIP_BITS_NE S (entry_len lit3) r) (\<lambda>r. Inr (Some (lit3, r))))))"

definition literals_4 ::
  "bit_source \<Rightarrow> u32 list \<Rightarrow> scanline \<Rightarrow> u32 \<Rightarrow> pixel_state \<Rightarrow> pixel_state option res" where
  "literals_4 S lit_table L lit0_tab s =
    or_false (read_literals S lit_table lit0_tab (px_reader s)) (\<lambda>(lit1, lit2, lit2_len, r).
    or_false (fourth_literal S lit_table lit2 lit2_len r) (\<lambda>(lit3, r).
    emit_pixel_4 L lit0_tab lit1 lit2 lit3 r s))"

definition decode_step_4 :: "bit_source \<Rightarrow> u32 list \<Rightarrow> scanline \<Rightarrow> pixel_state \<Rightarrow> pixel_state option res" where
  "decode_step_4 S lit_table L s =
    or_false (look_up S lit_table (px_reader s)) (\<lambda>lit0_tab.
    or_false (SKIP_BITS S (entry_len lit0_tab) (px_reader s)) (\<lambda>r.
    let s = s\<lparr>px_reader := r\<rparr> in
    if lit0_tab AND 256 \<noteq> 0 then match_4 S L lit0_tab s else literals_4 S lit_table L lit0_tab s))"

section \<open>The image\<close>

text \<open>The \<open>do\<close> loop over the pixels of a scanline. Every round takes at least one bit of the source.\<close>

fun pixel_loop ::
  "nat \<Rightarrow> (pixel_state \<Rightarrow> pixel_state option res) \<Rightarrow> nat \<Rightarrow> pixel_state \<Rightarrow> pixel_state option res" where
  "pixel_loop 0 decode_step bpl s = Inl Diverges"
| "pixel_loop (Suc fuel) decode_step bpl s =
    or_false (decode_step s) (\<lambda>s. if px_x_ofs s < bpl then pixel_loop fuel decode_step bpl s else Inr (Some s))"

definition line_fuel :: "bit_source \<Rightarrow> nat" where
  "line_fuel S = 8 * length (zsrc_bytes S) + 64"

text \<open>A scanline: the filter, which is 0 in the first row and 2 in the others, and the pixels.\<close>

definition decode_row ::
  "(scanline \<Rightarrow> pixel_state \<Rightarrow> pixel_state option res) \<Rightarrow> bit_source \<Rightarrow> u32 list \<Rightarrow> nat \<Rightarrow> nat \<Rightarrow> nat \<Rightarrow> nat \<Rightarrow>
    byte list \<times> bit_reader \<Rightarrow> (byte list \<times> bit_reader) option res" where
  "decode_row decode_step S lit_table chans comps bpl y st =
    (let (img, r) = st;
         L = \<lparr>pPrev_scanline = (if y = 0 then None else Some ((y - 1) * bpl)), pCur_scanline = y * bpl,
              line_comps = comps, line_bpl = bpl\<rparr> in
     or_false (look_up S lit_table r) (\<lambda>e.
     or_false (SKIP_BITS S (entry_len e) r) (\<lambda>r.
     if entry_sym e \<noteq> (if y \<noteq> 0 then 2 else 0) then Inr None
     else
       or_false (pixel_loop (line_fuel S) (decode_step L) bpl
           \<lparr>px_reader = r, px_x_ofs = 0, px_delta = replicate chans 0, px_img = img\<rparr>) (\<lambda>s.
       Inr (Some (px_img s, px_reader s))))))"

fun decode_rows :: "(nat \<Rightarrow> 's \<Rightarrow> 's option res) \<Rightarrow> nat list \<Rightarrow> 's \<Rightarrow> 's option res" where
  "decode_rows f [] s = Inr (Some s)"
| "decode_rows f (y # ys) s = or_false (f y s) (decode_rows f ys)"

text \<open>The end of the block must be the end of the data, but for the checksum.\<close>

definition at_end :: "bit_source \<Rightarrow> u32 list \<Rightarrow> u32 \<Rightarrow> bit_reader \<Rightarrow> bool res" where
  "at_end S lit_table zlib_len r =
    and_then (look_up S lit_table r) (\<lambda>e.
    case e of
      None \<Rightarrow> Inr False
    | Some lit0 \<Rightarrow>
        Inr (entry_sym lit0 = 256 \<and>
          (let r = drop_bits (entry_len lit0) r;
               r = drop_bits (rd_size r AND 7) r in
           \<not> rd_ofs r < drop_bit 3 (rd_size r) \<and> rd_ofs r - drop_bit 3 (rd_size r) + 4 = zlib_len)))"

text \<open>
  The two decompressors, for \<open>chans\<close> channels in the source; they differ in the steps of the loop over the
  pixels. \<open>None\<close> is the result false; otherwise the image.
\<close>

definition zlib_decompress ::
  "(bit_source \<Rightarrow> u32 list \<Rightarrow> scanline \<Rightarrow> pixel_state \<Rightarrow> pixel_state option res) \<Rightarrow> nat \<Rightarrow>
    bool \<Rightarrow> nat \<Rightarrow> byte list \<Rightarrow> u32 \<Rightarrow> u32 \<Rightarrow> byte list \<Rightarrow> u32 \<Rightarrow> u32 \<Rightarrow> byte list option res" where
  "zlib_decompress decode_step chans dbg comps pSrc n zlib_len dst w h =
    and_then (check dbg (n \<ge> zlib_len + 4)) (\<lambda>_.
    if zlib_len < 7 then Inr None
    else
      and_then (peek 0 3 pSrc) (\<lambda>head.
      if head ! 0 \<noteq> 0x78 \<or> head ! 1 \<noteq> 0x01 then Inr None
      else if head ! 2 AND 6 = 0
      then fpng_pixel_zlib_raw_decompress pSrc n zlib_len dst w h (u32 chans) (u32 comps)
      else if 2 + 4 > n then Inr None
      else
        and_then (peek 2 4 pSrc) (\<lambda>p.
        let S = \<lparr>zsrc_debug = dbg, zsrc_bytes = pSrc, zsrc_len = n\<rparr>; bpl = unat (w * u32 comps) in
        or_false (GET_BITS S 1 \<lparr>rd_buf = ucast (READ_LE32 p), rd_size = 32, rd_ofs = 6\<rparr>) (\<lambda>(bfinal, r).
        or_false (GET_BITS S 2 r) (\<lambda>(btype, r).
        if bfinal \<noteq> 1 \<or> btype \<noteq> 2 then Inr None
        else
          or_false (prepare_dynamic_block S chans r) (\<lambda>(lit_table, r).
          or_false (decode_rows (decode_row (decode_step S lit_table) S lit_table chans comps bpl) [0 ..< unat h] (dst, r))
            (\<lambda>(img, r).
          and_then (at_end S lit_table zlib_len r) (\<lambda>ok. Inr (if ok then Some img else None)))))))))"

definition fpng_pixel_zlib_decompress_3 ::
  "bool \<Rightarrow> nat \<Rightarrow> byte list \<Rightarrow> u32 \<Rightarrow> u32 \<Rightarrow> byte list \<Rightarrow> u32 \<Rightarrow> u32 \<Rightarrow> byte list option res" where
  "fpng_pixel_zlib_decompress_3 = zlib_decompress decode_step_3 3"

definition fpng_pixel_zlib_decompress_4 ::
  "bool \<Rightarrow> nat \<Rightarrow> byte list \<Rightarrow> u32 \<Rightarrow> u32 \<Rightarrow> byte list \<Rightarrow> u32 \<Rightarrow> u32 \<Rightarrow> byte list option res" where
  "fpng_pixel_zlib_decompress_4 = zlib_decompress decode_step_4 4"

end
