(* ===== verification/Fpng_Decoder.thy ===== *)
theory Fpng_Decoder
  imports Fpng_Encoder Fpng_Inflate
begin

text \<open>
  The PNG decoder of \<open>fpng.cpp\<close>: \<open>fpng_get_info\<close>, which walks over the chunks of a file,
  \<open>fpng_decode_memory\<close> and \<open>fpng_decode_file\<close>. A file is a list of bytes and its 32-bit length; every read
  is checked against the list.
\<close>

section \<open>Results\<close>

datatype decode_status =
    FPNG_DECODE_SUCCESS
  | FPNG_DECODE_NOT_FPNG
  | FPNG_DECODE_INVALID_ARG
  | FPNG_DECODE_FAILED_NOT_PNG
  | FPNG_DECODE_FAILED_HEADER_CRC32
  | FPNG_DECODE_FAILED_INVALID_DIMENSIONS
  | FPNG_DECODE_FAILED_DIMENSIONS_TOO_LARGE
  | FPNG_DECODE_FAILED_CHUNK_PARSING
  | FPNG_DECODE_FAILED_INVALID_IDAT
  | FPNG_DECODE_FILE_OPEN_FAILED
  | FPNG_DECODE_FILE_TOO_LARGE
  | FPNG_DECODE_FILE_READ_FAILED
  | FPNG_DECODE_FILE_SEEK_FAILED

record png_info =
  width :: u32
  height :: u32
  channels_in_file :: u32
  idat_ofs :: u32
  idat_len :: u32

definition no_info :: png_info where
  "no_info = \<lparr>width = 0, height = 0, channels_in_file = 0, idat_ofs = 0, idat_len = 0\<rparr>"

section \<open>The header\<close>

definition IHDR_EXPECTED_LENGTH :: u32 where "IHDR_EXPECTED_LENGTH = 13"

definition s_png_sig :: "byte list" where "s_png_sig = [137, 80, 78, 71, 13, 10, 26, 10]"

text \<open>\<open>png_ihdr\<close> is packed: the prefix of a length and a type, 13 bytes, and the CRC.\<close>

record png_ihdr =
  m_length :: u32
  m_type :: "byte list"
  m_width :: u32
  m_height :: u32
  m_bitdepth :: byte
  m_color_type :: byte
  m_comp_method :: byte
  m_filter_method :: byte
  m_interlace_method :: byte
  m_crc32 :: u32

definition sizeof_png_ihdr :: nat where "sizeof_png_ihdr = 25"
definition sizeof_png_chunk_prefix :: nat where "sizeof_png_chunk_prefix = 8"
definition sizeof_png_iend :: nat where "sizeof_png_iend = 12"

definition read_ihdr :: "byte list \<Rightarrow> png_ihdr" where
  "read_ihdr p =
    \<lparr>m_length = READ_BE32 p, m_type = slice 4 4 p, m_width = READ_BE32 (drop 8 p), m_height = READ_BE32 (drop 12 p),
     m_bitdepth = p ! 16, m_color_type = p ! 17, m_comp_method = p ! 18, m_filter_method = p ! 19,
     m_interlace_method = p ! 20, m_crc32 = READ_BE32 (drop 21 p)\<rparr>"

text \<open>The checks of the header: the status, 0 if the chunks are to be scanned, and what was learned.\<close>

definition check_ihdr :: "cpu_info \<Rightarrow> byte list \<Rightarrow> (decode_status \<times> png_info) res" where
  "check_ihdr cpu png =
    and_then (peek 8 sizeof_png_ihdr png) (\<lambda>p.
    let ihdr = read_ihdr p in
    if m_length ihdr \<noteq> IHDR_EXPECTED_LENGTH then Inr (FPNG_DECODE_FAILED_NOT_PNG, no_info)
    else
      and_then (fpng_crc32 cpu (slice 4 (unat (4 + IHDR_EXPECTED_LENGTH)) p) FPNG_CRC32_INIT) (\<lambda>crc.
      if crc \<noteq> m_crc32 ihdr then Inr (FPNG_DECODE_FAILED_HEADER_CRC32, no_info)
      else
        (let w = m_width ihdr; h = m_height ihdr; info = no_info\<lparr>width := w, height := h\<rparr> in
         if w = 0 \<or> h = 0 \<or> w > FPNG_MAX_SUPPORTED_DIM \<or> h > FPNG_MAX_SUPPORTED_DIM
         then Inr (FPNG_DECODE_FAILED_INVALID_DIMENSIONS, info)
         else if ucast w * ucast h > (push_bit 30 1 :: u64)
         then Inr (FPNG_DECODE_FAILED_INVALID_DIMENSIONS, info)
         else if m_comp_method ihdr \<noteq> 0 \<or> m_filter_method ihdr \<noteq> 0 \<or> m_interlace_method ihdr \<noteq> 0 \<or> m_bitdepth ihdr \<noteq> 8
         then Inr (FPNG_DECODE_NOT_FPNG, info)
         else if m_color_type ihdr = 2 then Inr (FPNG_DECODE_SUCCESS, info\<lparr>channels_in_file := 3\<rparr>)
         else if m_color_type ihdr = 6 then Inr (FPNG_DECODE_SUCCESS, info\<lparr>channels_in_file := 4\<rparr>)
         else Inr (FPNG_DECODE_NOT_FPNG, info))))"

section \<open>The chunks\<close>

definition is_letter :: "byte \<Rightarrow> bool" where
  "is_letter c \<longleftrightarrow> (65 \<le> c \<and> c \<le> 90) \<or> (97 \<le> c \<and> c \<le> 122)"

definition type_IDAT :: "byte list" where "type_IDAT = [0x49, 0x44, 0x41, 0x54]"
definition type_IEND :: "byte list" where "type_IEND = [0x49, 0x45, 0x4e, 0x44]"
definition type_fdEC :: "byte list" where "type_fdEC = [0x66, 0x64, 0x45, 0x43]"

text \<open>
  What one round of the loop does with a chunk: return a status, leave the loop at \<open>IEND\<close>, or go on
  with what is known now.
\<close>

datatype chunk_step = Return decode_status png_info | Break png_info bool | Continue png_info bool

definition handle_chunk ::
  "nat \<Rightarrow> u32 \<Rightarrow> byte list \<Rightarrow> byte list \<Rightarrow> png_info \<Rightarrow> bool \<Rightarrow> chunk_step" where
  "handle_chunk src_ofs chunk_len chunk_type chunk_data info found_fdec_chunk =
    (if chunk_type = type_IEND then Break info found_fdec_chunk
     else if chunk_type = type_IDAT then
       (if idat_ofs info \<noteq> 0 \<or> \<not> found_fdec_chunk then Return FPNG_DECODE_NOT_FPNG info
        else
          (let info = info\<lparr>idat_ofs := u32 src_ofs, idat_len := chunk_len\<rparr> in
           if chunk_len < 7 then Return FPNG_DECODE_FAILED_INVALID_IDAT info
           else Continue info found_fdec_chunk))
     else if chunk_type = type_fdEC then
       (if found_fdec_chunk then Return FPNG_DECODE_NOT_FPNG info
        else if chunk_len \<noteq> 5 then Return FPNG_DECODE_NOT_FPNG info
        else if chunk_data ! 0 \<noteq> 82 \<or> chunk_data ! 1 \<noteq> 36 \<or> chunk_data ! 2 \<noteq> 147 \<or> chunk_data ! 3 \<noteq> 227
        then Return FPNG_DECODE_NOT_FPNG info
        else if chunk_data ! 4 \<noteq> FPNG_FDEC_VERSION then Return FPNG_DECODE_NOT_FPNG info
        else Continue info True)
     else if chunk_type ! 0 AND 32 = 0 then Return FPNG_DECODE_NOT_FPNG info
     else Continue info found_fdec_chunk)"

text \<open>
  One chunk at the offset \<open>src_ofs\<close>: the bounds, the type, the CRC (of an \<open>IDAT\<close> chunk it is left to the
  decompressor), and the chunk itself. The length of the chunk comes with a step that goes on.
\<close>

definition read_chunk ::
  "cpu_info \<Rightarrow> byte list \<Rightarrow> nat \<Rightarrow> png_info \<Rightarrow> bool \<Rightarrow> (chunk_step \<times> nat) res" where
  "read_chunk cpu png src_ofs info found =
    (let image_size = length png; fail = Inr (Return FPNG_DECODE_FAILED_CHUNK_PARSING info, 0) in
     if image_size \<le> src_ofs then fail
     else if image_size - src_ofs < 4 * 3 then fail
     else
       and_then (peek src_ofs 8 png) (\<lambda>p.
       let chunk_len = READ_BE32 p; chunk_type = slice 4 4 p in
       if src_ofs + 4 * 2 + unat chunk_len + 4 > image_size then fail
       else if \<not> list_all is_letter chunk_type then fail
       else
         and_then (peek (src_ofs + 4 * 2 + unat chunk_len) 4 png) (\<lambda>crc.
         and_then (peek (src_ofs + 4) (4 + unat chunk_len) png) (\<lambda>bytes.
         and_then (if chunk_type = type_IDAT then Inr (READ_BE32 crc) else fpng_crc32 cpu bytes FPNG_CRC32_INIT) (\<lambda>actual.
         if actual \<noteq> READ_BE32 crc then Inr (Return FPNG_DECODE_FAILED_HEADER_CRC32 info, 0)
         else
           Inr (handle_chunk src_ofs chunk_len chunk_type (drop 4 bytes) info found, unat chunk_len))))))"

text \<open>The loop; a chunk takes at least twelve bytes, so that the fuel of one round per byte suffices.\<close>

fun scan_chunks :: "nat \<Rightarrow> cpu_info \<Rightarrow> byte list \<Rightarrow> nat \<Rightarrow> png_info \<Rightarrow> bool \<Rightarrow> (decode_status \<times> png_info) res" where
  "scan_chunks 0 cpu png src_ofs info found = Inl Diverges"
| "scan_chunks (Suc fuel) cpu png src_ofs info found =
    and_then (read_chunk cpu png src_ofs info found) (\<lambda>(step, chunk_len).
    case step of
      Return st info \<Rightarrow> Inr (st, info)
    | Break info found \<Rightarrow>
        Inr (if \<not> found \<or> idat_ofs info = 0 then FPNG_DECODE_NOT_FPNG else FPNG_DECODE_SUCCESS, info)
    | Continue info found \<Rightarrow>
        scan_chunks fuel cpu png (src_ofs + (sizeof_png_chunk_prefix + chunk_len + 4)) info found)"

definition fpng_get_info_internal :: "cpu_info \<Rightarrow> byte list \<Rightarrow> (decode_status \<times> png_info) res" where
  "fpng_get_info_internal cpu png =
    and_then (assert_that endian_check) (\<lambda>_.
    if length png < 8 + sizeof_png_ihdr + sizeof_png_chunk_prefix + 1 + 4 + sizeof_png_iend
    then Inr (FPNG_DECODE_FAILED_NOT_PNG, no_info)
    else
      and_then (peek 0 8 png) (\<lambda>signature.
      if signature \<noteq> s_png_sig then Inr (FPNG_DECODE_FAILED_NOT_PNG, no_info)
      else
        and_then (check_ihdr cpu png) (\<lambda>(st, info).
        if st \<noteq> FPNG_DECODE_SUCCESS then Inr (st, info)
        else scan_chunks (length png) cpu png (8 + sizeof_png_ihdr) info False)))"

definition fpng_get_info :: "cpu_info \<Rightarrow> byte list \<Rightarrow> (decode_status \<times> u32 \<times> u32 \<times> u32) res" where
  "fpng_get_info cpu png =
    and_then (fpng_get_info_internal cpu png) (\<lambda>(st, info).
    Inr (st, width info, height info, channels_in_file info))"

section \<open>The pixels\<close>

text \<open>The choice of a decompressor, by the channels of the result and of the file.\<close>

definition decompress_image ::
  "bool \<Rightarrow> u32 \<Rightarrow> u32 \<Rightarrow> byte list \<Rightarrow> u32 \<Rightarrow> u32 \<Rightarrow> byte list \<Rightarrow> u32 \<Rightarrow> u32 \<Rightarrow> byte list option res" where
  "decompress_image dbg desired_channels chans pIDAT_data n zlib_len dst w h =
    (if desired_channels = 3 then
       if chans = 3 then fpng_pixel_zlib_decompress_3 dbg 3 pIDAT_data n zlib_len dst w h
       else fpng_pixel_zlib_decompress_4 dbg 3 pIDAT_data n zlib_len dst w h
     else
       if chans = 3 then fpng_pixel_zlib_decompress_3 dbg 4 pIDAT_data n zlib_len dst w h
       else fpng_pixel_zlib_decompress_4 dbg 4 pIDAT_data n zlib_len dst w h)"

text \<open>The pixels come with \<open>FPNG_DECODE_SUCCESS\<close> only.\<close>

definition fpng_decode_memory ::
  "cpu_info \<Rightarrow> bool \<Rightarrow> byte list \<Rightarrow> u32 \<Rightarrow> (decode_status \<times> png_info \<times> byte list) res" where
  "fpng_decode_memory cpu dbg png desired_channels =
    (if png = [] \<or> (desired_channels \<noteq> 3 \<and> desired_channels \<noteq> 4)
     then and_then (check dbg False) (\<lambda>_. Inr (FPNG_DECODE_INVALID_ARG, no_info, []))
     else
       and_then (fpng_get_info_internal cpu png) (\<lambda>(st, info).
       if st \<noteq> FPNG_DECODE_SUCCESS then Inr (st, info, [])
       else
         (let mem_needed = ucast (width info) * ucast (height info) * ucast desired_channels :: u64 in
          if mem_needed > 0xFFFFFFFF then Inr (FPNG_DECODE_FAILED_DIMENSIONS_TOO_LARGE, info, [])
          else
            (let out = replicate (unat mem_needed) 0;
                 ofs = unat (idat_ofs info) + 4 * 2;
                 n = u32 (length png) - (idat_ofs info + 4 * 2) in
             and_then (decompress_image dbg desired_channels (channels_in_file info) (drop ofs png) n (idat_len info)
               out (width info) (height info)) (\<lambda>decomp_status.
             case decomp_status of
               None \<Rightarrow> Inr (FPNG_DECODE_NOT_FPNG, info, [])
             | Some out \<Rightarrow> Inr (FPNG_DECODE_SUCCESS, info, out))))))"

text \<open>
  What the operating system answers to \<open>fpng_decode_file\<close>: whether the file opens and each \<open>fseek\<close> works,
  the result of \<open>ftello\<close>, and the bytes that \<open>fread\<close> gives. Where it fails, the outputs are not
  written, and \<open>no_info\<close> and the empty image stand for them.
\<close>

record read_ops =
  opens :: bool
  seeks_end :: bool
  file_size :: int
  seeks_start :: bool
  bytes_read :: "byte list"

definition fpng_decode_file ::
  "cpu_info \<Rightarrow> bool \<Rightarrow> read_ops \<Rightarrow> u32 \<Rightarrow> (decode_status \<times> png_info \<times> byte list) res" where
  "fpng_decode_file cpu dbg os desired_channels =
    (if \<not> opens os then Inr (FPNG_DECODE_FILE_OPEN_FAILED, no_info, [])
     else if \<not> seeks_end os then Inr (FPNG_DECODE_FILE_SEEK_FAILED, no_info, [])
     else if \<not> seeks_start os then Inr (FPNG_DECODE_FILE_SEEK_FAILED, no_info, [])
     else if file_size os < 0 \<or> file_size os > 0xFFFFFFFF then Inr (FPNG_DECODE_FILE_TOO_LARGE, no_info, [])
     else
       (let buf = take (nat (file_size os)) (bytes_read os) in
        if int (length buf) \<noteq> file_size os then Inr (FPNG_DECODE_FILE_READ_FAILED, no_info, [])
        else fpng_decode_memory cpu dbg buf desired_channels))"

end
