(* ===== verification/Fpng_Crc_Proofs.thy ===== *)
theory Fpng_Crc_Proofs
  imports Fpng_Crc
begin

text \<open>
  The tables hold the powers of the one-bit step, which is linear over exclusive or, so that four
  table lookups are 32 steps of the checksum.
\<close>

section \<open>Linear functions\<close>

definition linear :: "('a :: len word \<Rightarrow> 'b :: len word) \<Rightarrow> bool" where
  "linear f \<longleftrightarrow> (\<forall>a b. f (a XOR b) = f a XOR f b)"

lemma linearD: "linear f \<Longrightarrow> f (a XOR b) = f a XOR f b"
  by (simp add: linear_def)

lemma linear_zero: "linear f \<Longrightarrow> f 0 = 0"
  using linearD [of f 0 0] by simp

lemma crc_bit_linear: "linear crc_bit"
  by (auto simp: linear_def crc_bit_def bit_xor_iff drop_bit_xor ac_simps)

lemma linear_funpow:
  fixes f :: "'a :: len word \<Rightarrow> 'a word"
  shows "linear f \<Longrightarrow> linear (f ^^ n)"
  by (induction n) (simp_all add: linear_def)

lemmas crc_linear = linear_funpow [OF crc_bit_linear]

text \<open>A register whose low bits are clear only moves.\<close>

lemma crc_shift: "(\<And>j. 32 - k \<le> j \<Longrightarrow> \<not> bit y j) \<Longrightarrow> (crc_bit ^^ k) (push_bit k y) = y"
proof (induction k)
  case (Suc k)
  have y: "\<not> bit y j" if "32 - Suc k \<le> j" for j using Suc.prems that by blast
  have "drop_bit 1 (push_bit (Suc k) y) = push_bit k y"
  proof (rule bit_word_eqI)
    fix n assume n: "n < LENGTH(32)"
    show "bit (drop_bit 1 (push_bit (Suc k) y)) n = bit (push_bit k y) n"
      using n y [of "31 - k"] by (cases "n = 31") (auto simp: bit_simps simp del: push_bit_Suc)
  qed
  then have "crc_bit (push_bit (Suc k) y) = push_bit k y"
    by (simp add: crc_bit_def bit_push_bit_iff del: push_bit_Suc)
  moreover have "(crc_bit ^^ k) (push_bit k y) = y" using y by (intro Suc.IH) simp
  ultimately show ?case by (simp only: funpow_Suc_right o_apply)
qed simp

section \<open>The tables\<close>

definition xor_table :: "u32 list \<Rightarrow> u32 list" where
  "xor_table gs = fold (\<lambda>g t. t @ map ((XOR) g) t) gs [0]"

lemma word_of_nat_high: "i < 2 ^ n \<Longrightarrow> (u32 (2 ^ n + i)) = push_bit n 1 XOR u32 i"
proof -
  assume i: "i < 2 ^ n"
  have "\<not> bit i n"
    using i by (simp add: bit_iff_odd)
  then have "push_bit n 1 AND i = 0"
    by (intro bit_eqI) (auto simp: bit_simps)
  then have "push_bit n 1 + i = push_bit n 1 XOR i" by (rule disjunctive_add_eq_xor)
  then have "u32 (2 ^ n + i) = u32 (push_bit n 1 XOR i)" by (simp add: push_bit_eq_mult)
  then show ?thesis by (simp add: of_nat_xor_eq of_nat_push_bit)
qed

lemma map_linear_table:
  assumes f: "linear f"
  shows "map (\<lambda>i. f (u32 i)) [0 ..< 2 ^ n] = xor_table (map (\<lambda>k. f (push_bit k 1)) [0 ..< n])"
proof (induction n)
  case 0
  then show ?case by (simp add: xor_table_def linear_zero [OF f])
next
  case (Suc n)
  have upt: "[0 ..< 2 ^ Suc n] = [0 ..< 2 ^ n] @ map (\<lambda>i. i + 2 ^ n) [0 ..< 2 ^ n]"
    using upt_add_eq_append [of 0 "2 ^ n" "2 ^ n"] map_add_upt [of "2 ^ n" "2 ^ n"]
    by (simp only: power_Suc mult_2 add_0_left le0)
  have "map (\<lambda>i. f (u32 (2 ^ n + i))) [0 ..< 2 ^ n] = map ((XOR) (f (push_bit n 1))) (map (\<lambda>i. f (u32 i)) [0 ..< 2 ^ n])"
    by (simp add: word_of_nat_high linearD [OF f] del: of_nat_add)
  then show ?case
    using Suc.IH by (simp add: upt xor_table_def comp_def add.commute [of _ "2 ^ n"] del: of_nat_add power_Suc)
qed

lemma upt_8: "[0 ..< 8] = [0, 1, 2, 3, 4, 5, 6, 7 :: nat]"
  by (simp add: upt_rec)

lemma crc_steps_8: "(crc_bit ^^ 8) c =
    crc_bit (crc_bit (crc_bit (crc_bit (crc_bit (crc_bit (crc_bit (crc_bit c)))))))"
  by (simp add: numeral_eq_Suc)

lemma crc_steps_add: "(crc_bit ^^ (8 + n)) c = (crc_bit ^^ 8) ((crc_bit ^^ n) c)"
  by (simp add: funpow_add)

text \<open>The generators of each table.\<close>

definition gens_0 :: "u32 list" where
  "gens_0 = [0x77073096, 0xEE0E612C, 0x076DC419, 0x0EDB8832, 0x1DB71064, 0x3B6E20C8, 0x76DC4190, 0xEDB88320]"

definition gens_1 :: "u32 list" where
  "gens_1 = [0x191B3141, 0x32366282, 0x646CC504, 0xC8D98A08, 0x4AC21251, 0x958424A2, 0xF0794F05, 0x3B83984B]"

definition gens_2 :: "u32 list" where
  "gens_2 = [0x01C26A37, 0x0384D46E, 0x0709A8DC, 0x0E1351B8, 0x1C26A370, 0x384D46E0, 0x709A8DC0, 0xE1351B80]"

definition gens_3 :: "u32 list" where
  "gens_3 = [0xB8BC6765, 0xAA09C88B, 0x8F629757, 0xC5B428EF, 0x5019579F, 0xA032AF3E, 0x9B14583D, 0xED59B63B]"

lemma gens_0: "map (\<lambda>j. (crc_bit ^^ 8) (push_bit j 1)) [0 ..< 8] = gens_0"
  by (simp only: upt_8 list.map crc_steps_8) (simp add: crc_bit_def gens_0_def)

lemma gens_1: "map (\<lambda>j. (crc_bit ^^ 16) (push_bit j 1)) [0 ..< 8] = gens_1"
proof -
  have "map (\<lambda>j. (crc_bit ^^ (8 + 8)) (push_bit j 1)) [0 ..< 8] = map (crc_bit ^^ 8) gens_0"
    by (simp only: crc_steps_add gens_0 [symmetric] list.map_comp o_def)
  moreover have "map (crc_bit ^^ 8) gens_0 = gens_1"
    by (simp only: gens_0_def list.map crc_steps_8) (simp add: crc_bit_def gens_1_def)
  ultimately show ?thesis by simp
qed

lemma gens_2: "map (\<lambda>j. (crc_bit ^^ 24) (push_bit j 1)) [0 ..< 8] = gens_2"
proof -
  have "map (\<lambda>j. (crc_bit ^^ (8 + 16)) (push_bit j 1)) [0 ..< 8] = map (crc_bit ^^ 8) gens_1"
    by (simp only: crc_steps_add gens_1 [symmetric] list.map_comp o_def)
  moreover have "map (crc_bit ^^ 8) gens_1 = gens_2"
    by (simp only: gens_1_def list.map crc_steps_8) (simp add: crc_bit_def gens_2_def)
  ultimately show ?thesis by simp
qed

lemma gens_3: "map (\<lambda>j. (crc_bit ^^ 32) (push_bit j 1)) [0 ..< 8] = gens_3"
proof -
  have "map (\<lambda>j. (crc_bit ^^ (8 + 24)) (push_bit j 1)) [0 ..< 8] = map (crc_bit ^^ 8) gens_2"
    by (simp only: crc_steps_add gens_2 [symmetric] list.map_comp o_def)
  moreover have "map (crc_bit ^^ 8) gens_2 = gens_3"
    by (simp only: gens_2_def list.map crc_steps_8) (simp add: crc_bit_def gens_3_def)
  ultimately show ?thesis by simp
qed

lemma generated_table:
  "map (\<lambda>j. (crc_bit ^^ n) (push_bit j 1)) [0 ..< 8] = gs \<Longrightarrow> xor_table gs = map (\<lambda>i. (crc_bit ^^ n) (u32 i)) [0 ..< 256]"
  using map_linear_table [OF crc_linear [of n], of 8] by simp

lemma table_0: "g_crc32_4_0 = map (\<lambda>i. (crc_bit ^^ 8) (u32 i)) [0 ..< 256]"
  unfolding generated_table [OF gens_0, symmetric]
  by (simp add: g_crc32_4_0_def gens_0_def xor_table_def)

lemma table_1: "g_crc32_4_1 = map (\<lambda>i. (crc_bit ^^ 16) (u32 i)) [0 ..< 256]"
  unfolding generated_table [OF gens_1, symmetric]
  by (simp add: g_crc32_4_1_def gens_1_def xor_table_def)

lemma table_2: "g_crc32_4_2 = map (\<lambda>i. (crc_bit ^^ 24) (u32 i)) [0 ..< 256]"
  unfolding generated_table [OF gens_2, symmetric]
  by (simp add: g_crc32_4_2_def gens_2_def xor_table_def)

lemma table_3: "g_crc32_4_3 = map (\<lambda>i. (crc_bit ^^ 32) (u32 i)) [0 ..< 256]"
  unfolding generated_table [OF gens_3, symmetric]
  by (simp add: g_crc32_4_3_def gens_3_def xor_table_def)

lemma table_lookup:
  assumes "unat x < 256"
  shows "g_crc32_4 ! 0 ! unat x = (crc_bit ^^ 8) x" "g_crc32_4 ! 1 ! unat x = (crc_bit ^^ 16) x"
    "g_crc32_4 ! 2 ! unat x = (crc_bit ^^ 24) x" "g_crc32_4 ! 3 ! unat x = (crc_bit ^^ 32) x"
  using assms by (simp_all add: g_crc32_4_def table_0 table_1 table_2 table_3 numeral_2_eq_2 numeral_3_eq_3)

section \<open>The loop\<close>

text \<open>The four bytes of a register.\<close>

definition byte_of :: "nat \<Rightarrow> u32 \<Rightarrow> u32" where
  "byte_of k v = drop_bit (8 * k) v AND 0xFF"

lemma low_byte: "(v AND 0xFF :: u32) = take_bit 8 v"
  by (simp add: take_bit_eq_mask mask_eq_exp_minus_1)

lemma byte_of_less: "unat (byte_of k v) < 256"
proof -
  have "unat (take_bit 8 w) < 256" for w :: u32
    by (simp only: unsigned_take_bit_eq) (simp add: take_bit_eq_mod)
  then show ?thesis by (simp only: byte_of_def low_byte)
qed

lemma bit_byte_of: "bit (byte_of k v) j \<longleftrightarrow> j < 8 \<and> bit v (8 * k + j)"
  by (auto simp: byte_of_def low_byte bit_simps add.commute)

lemma split_bytes:
  "v = byte_of 0 v XOR push_bit 8 (byte_of 1 v) XOR push_bit 16 (byte_of 2 v) XOR push_bit 24 (byte_of 3 v)"
  by (rule word32_eqI) (simp_all add: bit_byte_of bit_simps)

lemma steps_shift: "(crc_bit ^^ (n + k)) (push_bit k (byte_of i v)) = (crc_bit ^^ n) (byte_of i v)" if "k \<le> 24"
proof -
  have "(crc_bit ^^ k) (push_bit k (byte_of i v)) = byte_of i v"
    using that by (intro crc_shift) (auto simp: bit_byte_of)
  then show ?thesis by (simp add: funpow_add)
qed

lemma steps_32:
  "(crc_bit ^^ 32) v = g_crc32_4 ! 0 ! unat (drop_bit 24 v) XOR g_crc32_4 ! 1 ! unat (drop_bit 16 v AND 0xFF) XOR
    g_crc32_4 ! 2 ! unat (drop_bit 8 v AND 0xFF) XOR g_crc32_4 ! 3 ! unat (v AND 0xFF)"
proof -
  have "byte_of 3 v = drop_bit 24 v"
    by (rule bit_word_eqI) (auto simp: bit_byte_of bit_simps dest: bit_imp_le_length)
  then have "drop_bit 24 v = byte_of 3 v" by simp
  moreover have "drop_bit 16 v AND 0xFF = byte_of 2 v" "drop_bit 8 v AND 0xFF = byte_of 1 v" "v AND 0xFF = byte_of 0 v"
    by (simp_all add: byte_of_def)
  moreover have "(crc_bit ^^ 32) v = (crc_bit ^^ 32) (byte_of 0 v) XOR (crc_bit ^^ 24) (byte_of 1 v) XOR
      (crc_bit ^^ 16) (byte_of 2 v) XOR (crc_bit ^^ 8) (byte_of 3 v)"
    using steps_shift [of 8 24 1 v] steps_shift [of 16 16 2 v] steps_shift [of 24 8 3 v]
    by (subst split_bytes) (simp add: linearD [OF crc_linear])
  ultimately show ?thesis
    using table_lookup [OF byte_of_less] by (simp add: ac_simps)
qed

lemma byte_step: "crc_byte c crc = drop_bit 8 crc XOR g_crc32_4 ! 0 ! unat ((crc AND 0xFF) XOR ucast c)"
proof -
  have low: "(crc AND 0xFF) XOR ucast c = byte_of 0 (crc XOR ucast c)"
    by (rule word32_eqI) (simp_all add: bit_byte_of low_byte bit_simps byte_high_bits)
  have "crc XOR ucast c = push_bit 8 (drop_bit 8 crc) XOR byte_of 0 (crc XOR ucast c)"
    by (rule word32_eqI) (simp_all add: bit_byte_of bit_simps byte_high_bits)
  then have "(crc_bit ^^ 8) (crc XOR ucast c) =
      (crc_bit ^^ 8) (push_bit 8 (drop_bit 8 crc)) XOR (crc_bit ^^ 8) (byte_of 0 (crc XOR ucast c))"
    using linearD [OF crc_linear [of 8]] by metis
  moreover have "(crc_bit ^^ 8) (push_bit 8 (drop_bit 8 crc)) = drop_bit 8 crc"
    by (intro crc_shift) (auto simp: bit_simps dest: bit_imp_le_length)
  ultimately show ?thesis
    unfolding low crc_byte_def by (simp add: table_lookup [OF byte_of_less])
qed

lemma read_le32_xor:
  "READ_LE32 p = ucast (p ! 0) XOR push_bit 8 (ucast (p ! 1)) XOR push_bit 16 (ucast (p ! 2)) XOR push_bit 24 (ucast (p ! 3))"
  by (rule word32_eqI) (simp_all add: READ_LE32_def bit_simps byte_high_bits)

lemma four_bytes:
  assumes "4 \<le> length p"
  shows "fold crc_byte (take 4 p) crc = (crc_bit ^^ 32) (READ_LE32 p XOR crc)"
proof -
  have shift: "(crc_bit ^^ (n + k)) (push_bit k (ucast c)) = (crc_bit ^^ n) (ucast c)" if "k \<le> 24" for c :: byte and n k
  proof -
    have "(crc_bit ^^ k) (push_bit k (ucast c)) = ucast c"
      using that by (intro crc_shift) (auto simp: bit_simps dest: bit_imp_le_length)
    then show ?thesis by (simp add: funpow_add)
  qed
  have "take 4 p = [p ! 0, p ! 1, p ! 2, p ! 3]"
    using assms by (simp add: list_eq_iff_nth_eq nth_Cons numeral_eq_Suc All_less_Suc2)
  then have "fold crc_byte (take 4 p) crc = crc_byte (p ! 3) (crc_byte (p ! 2) (crc_byte (p ! 1) (crc_byte (p ! 0) crc)))"
    by simp
  also have "\<dots> = (crc_bit ^^ 32) crc XOR (crc_bit ^^ 32) (ucast (p ! 0)) XOR (crc_bit ^^ 24) (ucast (p ! 1)) XOR
      (crc_bit ^^ 16) (ucast (p ! 2)) XOR (crc_bit ^^ 8) (ucast (p ! 3))"
    by (simp add: crc_byte_def linearD [OF crc_linear] funpow_add [symmetric, THEN fun_cong, unfolded o_apply] ac_simps)
  also have "\<dots> = (crc_bit ^^ 32) (READ_LE32 p XOR crc)"
    using shift [of 8 24 "p ! 1"] shift [of 16 16 "p ! 2"] shift [of 24 8 "p ! 3"]
    by (simp add: read_le32_xor linearD [OF crc_linear] ac_simps)
  finally show ?thesis .
qed

lemma crc32_loop_steps: "crc32_loop p crc = fold crc_byte p crc"
proof (induction p crc rule: crc32_loop.induct)
  case (1 p crc)
  show ?case
  proof (cases "4 \<le> length p")
    case True
    have "fold crc_byte p crc = fold crc_byte (drop 4 p) (fold crc_byte (take 4 p) crc)"
      by (metis append_take_drop_id fold_append o_apply)
    then show ?thesis
      using 1 True by (simp only: crc32_loop.simps [of p] if_True Let_def steps_32 [symmetric] four_bytes)
  next
    case False
    have "(\<lambda>c crc. drop_bit 8 crc XOR g_crc32_4 ! 0 ! unat ((crc AND 0xFF) XOR ucast c)) = crc_byte"
      by (intro ext) (simp only: byte_step)
    then show ?thesis using False by (simp only: crc32_loop.simps [of p] if_False)
  qed
qed

lemma slice_by_4_correct: "crc32_slice_by_4 p prev = crc32 p prev"
  by (simp add: crc32_slice_by_4_def crc32_def crc32_loop_steps)

text \<open>One byte as eight steps, which the simplifier evaluates on a constant.\<close>

lemma crc_byte_steps:
  "crc_byte b c = crc_bit (crc_bit (crc_bit (crc_bit (crc_bit (crc_bit (crc_bit (crc_bit (c XOR ucast b))))))))"
  by (simp add: crc_byte_def numeral_eq_Suc)

end
