(* ===== verification/Fpng_Pclmul.thy ===== *)
theory Fpng_Pclmul
  imports Fpng_Crc_Proofs
begin

text \<open>
  The carry-less folding computes the same checksum. \<open>red\<close> is the one-bit step on 128 bits: the register
  in the low 32 bits, the message above it. Folding and the two reductions at the end replace 128, 64
  and 32 of these steps by products with a constant; as all of it is linear, one equation between
  powers of \<open>red\<close> for each constant is enough.
\<close>

section \<open>Linear functions on a basis\<close>

lemma linear_comp: "linear f \<Longrightarrow> linear g \<Longrightarrow> linear (\<lambda>x. f (g x))"
  by (simp add: linear_def)

lemma linear_ucast: "linear ucast"
  by (simp add: linear_def unsigned_xor_eq)

lemma linear_push: "linear (push_bit n)"
  by (simp add: linear_def push_bit_xor)

lemma linear_drop: "linear (drop_bit n)"
  by (simp add: linear_def drop_bit_xor)

lemma take_bit_Suc_xor:
  fixes x :: "'a :: len word"
  shows "take_bit (Suc n) x = take_bit n x XOR (if bit x n then push_bit n 1 else 0)"
  by (rule bit_word_eqI) (auto simp: bit_simps less_Suc_eq)

lemma linear_basis:
  fixes f g :: "'a :: len word \<Rightarrow> 'b :: len word"
  assumes f: "linear f" and g: "linear g" and "\<And>j. j < LENGTH('a) \<Longrightarrow> f (push_bit j 1) = g (push_bit j 1)"
  shows "f x = g x"
proof -
  have "n \<le> LENGTH('a) \<Longrightarrow> f (take_bit n x) = g (take_bit n x)" for n
  proof (induction n)
    case (Suc n)
    have "f (take_bit n x) = g (take_bit n x)" "f (push_bit n 1) = g (push_bit n 1)"
      using Suc assms(3) [of n] by simp_all
    then show ?case
      by (simp add: take_bit_Suc_xor linearD [OF f] linearD [OF g] linear_zero [OF f] linear_zero [OF g]
        del: push_bit_of_1)
  qed (simp add: linear_zero [OF f] linear_zero [OF g])
  from this [of "LENGTH('a)"] show ?thesis by simp
qed

section \<open>The wide step\<close>

definition red :: "m128 \<Rightarrow> m128" where
  "red x = (if bit x 0 then drop_bit 1 x XOR 0xEDB88320 else drop_bit 1 x)"

lemma red_linear: "linear red"
  by (auto simp: linear_def red_def bit_xor_iff drop_bit_xor ac_simps)

lemmas reds_linear = linear_funpow [OF red_linear]

lemma red_shift: "(\<And>j. 128 - k \<le> j \<Longrightarrow> \<not> bit y j) \<Longrightarrow> (red ^^ k) (push_bit k y) = y"
proof (induction k)
  case (Suc k)
  have y: "\<not> bit y j" if "128 - Suc k \<le> j" for j using Suc.prems that by blast
  have "drop_bit 1 (push_bit (Suc k) y) = push_bit k y"
  proof (rule bit_word_eqI)
    fix n assume n: "n < LENGTH(128)"
    show "bit (drop_bit 1 (push_bit (Suc k) y)) n = bit (push_bit k y) n"
      using n y [of "127 - k"] by (cases "n = 127") (auto simp: bit_simps simp del: push_bit_Suc)
  qed
  then have "red (push_bit (Suc k) y) = push_bit k y"
    by (simp add: red_def bit_push_bit_iff del: push_bit_Suc)
  moreover have "(red ^^ k) (push_bit k y) = y" using y by (intro Suc.IH) simp
  ultimately show ?case by (simp only: funpow_Suc_right o_apply)
qed simp

lemma reds_shift:
  assumes "\<And>j. 128 - k \<le> j \<Longrightarrow> \<not> bit y j" and "k \<le> n"
  shows "(red ^^ n) (push_bit k y) = (red ^^ (n - k)) y"
proof -
  have "(red ^^ n) (push_bit k y) = (red ^^ (n - k)) ((red ^^ k) (push_bit k y))"
    using funpow_add [of "n - k" k red] assms(2) by (metis le_add_diff_inverse2 o_apply)
  then show ?thesis using red_shift [OF assms(1)] by simp
qed

lemma red_ucast: "red (ucast w) = ucast (crc_bit w)"
proof -
  have "drop_bit 1 (ucast w :: m128) = ucast (drop_bit 1 w)"
    by (rule bit_word_eqI) (auto simp: bit_simps dest: bit_imp_le_length)
  then show ?thesis by (simp add: red_def crc_bit_def bit_simps unsigned_xor_eq)
qed

lemma reds_ucast: "(red ^^ n) (ucast w) = ucast ((crc_bit ^^ n) w)"
  by (induction n) (simp_all add: red_ucast)

text \<open>Loading up to sixteen bytes into the message part runs the byte-wise checksum.\<close>

definition load_bytes :: "byte list \<Rightarrow> m128" where
  "load_bytes p = word_of_nat (le_val p)"

lemma load_bytes_Cons:
  assumes "length p < 16"
  shows "load_bytes (c # p) = ucast c XOR push_bit 8 (load_bytes p)"
proof -
  have "\<not> bit (unat c) j" if "8 \<le> j" for j
  proof -
    have "unat c < 2 ^ j" using unat_byte_less [of c] power_increasing [of 8 j "2 :: nat"] that by simp
    then show ?thesis by (simp add: bit_iff_odd)
  qed
  then have "unat c AND push_bit 8 (le_val p) = 0"
    by (intro bit_eqI) (auto simp: bit_simps)
  then have "unat c + push_bit 8 (le_val p) = unat c XOR push_bit 8 (le_val p)"
    by (rule disjunctive_add_eq_xor)
  then have "le_val (c # p) = unat c XOR push_bit 8 (le_val p)" by (simp add: push_bit_eq_mult mult.commute)
  then show ?thesis by (simp add: load_bytes_def of_nat_xor_eq of_nat_push_bit)
qed

lemma load_bytes_high: "length p < 16 \<Longrightarrow> 120 \<le> j \<Longrightarrow> \<not> bit (load_bytes p) j"
proof -
  assume p: "length p < 16" and j: "120 \<le> j"
  have "256 ^ length p \<le> (256 :: nat) ^ 15" using p by (intro power_increasing) simp_all
  also have "\<dots> = 2 ^ 120" by simp
  also have "\<dots> \<le> 2 ^ j" using j by (rule power_increasing) simp
  finally have "le_val p < 2 ^ j" using le_val_bound [of p] by linarith
  then have "\<not> bit (le_val p) j" by (simp add: bit_iff_odd)
  then show ?thesis by (simp add: load_bytes_def bit_simps)
qed

lemma reds_load:
  "length p \<le> 16 \<Longrightarrow> (red ^^ (8 * length p)) (ucast c XOR load_bytes p) = ucast (fold crc_byte p c)"
proof (induction p arbitrary: c)
  case (Cons b p)
  have len: "length p < 16" using Cons.prems by simp
  have "(ucast (ucast b :: u32) :: m128) = ucast b"
    by (rule bit_word_eqI) (auto simp: bit_simps dest: bit_imp_le_length)
  then have "ucast c XOR load_bytes (b # p) = ucast (c XOR ucast b) XOR push_bit 8 (load_bytes p)"
    by (simp only: load_bytes_Cons [OF len] unsigned_xor_eq ac_simps)
  moreover have "(red ^^ 8) (push_bit 8 (load_bytes p)) = load_bytes p"
    using load_bytes_high [OF len] by (intro red_shift) simp
  ultimately have "(red ^^ 8) (ucast c XOR load_bytes (b # p)) = ucast (crc_byte b c) XOR load_bytes p"
    by (simp add: linearD [OF reds_linear] reds_ucast crc_byte_def)
  then have "(red ^^ (8 * length p + 8)) (ucast c XOR load_bytes (b # p)) = ucast (fold crc_byte p (crc_byte b c))"
    using Cons.IH [of "crc_byte b c"] len by (simp add: funpow_add)
  then show ?case by (simp add: add.commute)
qed (simp add: load_bytes_def)

section \<open>Products\<close>

definition clmul_upto :: "nat \<Rightarrow> u64 \<Rightarrow> u64 \<Rightarrow> m128" where
  "clmul_upto n x y = fold (\<lambda>i acc. if bit x i then acc XOR push_bit i (ucast y) else acc) [0 ..< n] 0"

lemma clmul_upto_Suc:
  "clmul_upto (Suc n) x y = clmul_upto n x y XOR (if bit x n then push_bit n (ucast y) else 0)"
  by (simp add: clmul_upto_def)

lemma clmul_upto_linear: "linear (\<lambda>x. clmul_upto n x y)"
proof (induction n)
  case 0
  then show ?case by (simp add: linear_def clmul_upto_def)
next
  case (Suc n)
  then show ?case by (auto simp: linear_def clmul_upto_Suc bit_xor_iff ac_simps)
qed

lemma clmul_upto_basis: "n \<le> 64 \<Longrightarrow> clmul_upto n (push_bit j 1) y = (if j < n then push_bit j (ucast y) else 0)"
proof (induction n)
  case 0
  then show ?case by (simp add: clmul_upto_def)
next
  case (Suc n)
  then show ?case by (auto simp: clmul_upto_Suc bit_simps)
qed

lemma clmul_linear: "linear (\<lambda>x. clmul x y)"
  using clmul_upto_linear [of 64 y] by (simp add: clmul_upto_def clmul_def)

lemma clmul_basis: "j < 64 \<Longrightarrow> clmul (push_bit j 1) y = push_bit j (ucast y)"
  using clmul_upto_basis [of 64 j y] by (simp add: clmul_upto_def clmul_def)

section \<open>The constants\<close>

definition red8 :: "m128 \<Rightarrow> m128" where
  "red8 x = red (red (red (red (red (red (red (red x)))))))"

fun red_bytes :: "nat \<Rightarrow> m128 \<Rightarrow> m128" where
  "red_bytes 0 x = x"
| "red_bytes (Suc n) x = red_bytes n (red8 x)"

lemma red_bytes_eq: "red_bytes n x = (red ^^ (8 * n)) x"
proof (induction n arbitrary: x)
  case (Suc n)
  have "(red ^^ 8) x = red8 x" by (simp add: red8_def numeral_eq_Suc)
  then have "(red ^^ (8 * n + 8)) x = red_bytes n (red8 x)" by (simp only: funpow_add o_apply Suc.IH)
  then show ?case by (simp add: add.commute)
qed simp

lemma red_bytes_numeral: "red_bytes (numeral k) x = red_bytes (pred_numeral k) (red8 x)"
  by (simp add: numeral_eq_Suc)

abbreviation fold_k3 :: m128 where "fold_k3 \<equiv> 0x1751997D0"
abbreviation fold_k4 :: m128 where "fold_k4 \<equiv> 0xCCAA009E"
abbreviation fold_k5 :: m128 where "fold_k5 \<equiv> 0x163CD6124"

lemma reds_add: "(red ^^ m) ((red ^^ n) x) = (red ^^ (m + n)) x"
  by (simp add: funpow_add)

lemma reds_pred: "0 < n \<Longrightarrow> (red ^^ (n - 1)) (red x) = (red ^^ n) x"
  by (cases n) (simp_all add: funpow_swap1)

lemma red_bytes_Suc: "red (red_bytes n x) = (red ^^ (1 + 8 * n)) x"
  by (simp add: red_bytes_eq)

lemma k4_power: "(red ^^ 65) 1 = red fold_k4"
proof -
  have "red (red_bytes 8 1) = red fold_k4" by (simp add: red_bytes_numeral red8_def red_def)
  then show ?thesis unfolding red_bytes_Suc by simp
qed

lemma k5_power: "(red ^^ 33) 1 = red fold_k5"
proof -
  have "red (red_bytes 4 1) = red fold_k5" by (simp add: red_bytes_numeral red8_def red_def)
  then show ?thesis unfolding red_bytes_Suc by simp
qed

lemma k3_power: "(red ^^ 193) 1 = (red ^^ 65) fold_k3"
proof -
  have "red (red_bytes 24 1) = red (red_bytes 8 fold_k3)" by (simp add: red_bytes_numeral red8_def red_def)
  then show ?thesis unfolding red_bytes_Suc by simp
qed

text \<open>A factor of at most 33 bits, moved up by less than 64 places, loses no bit.\<close>

lemma numeral_high_bits: "33 \<le> j \<Longrightarrow> \<not> bit fold_k3 j" "33 \<le> j \<Longrightarrow> \<not> bit fold_k4 j" "33 \<le> j \<Longrightarrow> \<not> bit fold_k5 j"
  "33 \<le> j \<Longrightarrow> \<not> bit (1 :: m128) j"
proof -
  have small: "\<not> bit (word_of_nat n :: m128) j" if "n < 2 ^ 33" "33 \<le> j" for n j
  proof -
    have "n < 2 ^ j" using that power_increasing [of 33 j "2 :: nat"] by linarith
    then have "\<not> bit n j" by (simp add: bit_iff_odd)
    then show ?thesis by (simp add: bit_simps)
  qed
  assume j: "33 \<le> j"
  have "(0x1751997D0 :: nat) < 2 ^ 33" "(0xCCAA009E :: nat) < 2 ^ 33" "(0x163CD6124 :: nat) < 2 ^ 33" by simp_all
  from this [THEN small, OF j] show "\<not> bit fold_k3 j" "\<not> bit fold_k4 j" "\<not> bit fold_k5 j" by (simp_all only: of_nat_numeral not_False_eq_True)
  show "\<not> bit (1 :: m128) j" using j by (simp add: bit_1_iff)
qed

lemma reds_push_1: "k < 96 \<Longrightarrow> k \<le> n \<Longrightarrow> (red ^^ n) (push_bit k 1) = (red ^^ (n - k)) 1"
  and reds_push_k3: "k < 96 \<Longrightarrow> k \<le> n \<Longrightarrow> (red ^^ n) (push_bit k fold_k3) = (red ^^ (n - k)) fold_k3"
  and reds_push_k4: "k < 96 \<Longrightarrow> k \<le> n \<Longrightarrow> (red ^^ n) (push_bit k fold_k4) = (red ^^ (n - k)) fold_k4"
  and reds_push_k5: "k < 96 \<Longrightarrow> k \<le> n \<Longrightarrow> (red ^^ n) (push_bit k fold_k5) = (red ^^ (n - k)) fold_k5"
  by (rule reds_shift; (rule numeral_high_bits)?; simp)+

section \<open>The products are steps\<close>

lemma const_casts:
  "(ucast (0x1751997D0 :: u64) :: m128) = fold_k3" "(ucast (0xCCAA009E :: u64) :: m128) = fold_k4"
  "(ucast (0x163CD6124 :: u64) :: m128) = fold_k5"
  by simp_all

lemma ucast_push_1: "j < 64 \<Longrightarrow> (ucast (push_bit j 1 :: u64) :: m128) = push_bit j 1"
  by (rule bit_word_eqI) (auto simp: bit_simps)

lemma prod_k4:
  fixes x :: u64
  assumes that: "64 \<le> n"
  shows "(red ^^ (64 + n)) (ucast x) = (red ^^ n) (clmul x 0xCCAA009E)"
proof (rule linear_basis [of "\<lambda>x. (red ^^ (64 + n)) (ucast x)" "\<lambda>x. (red ^^ n) (clmul x 0xCCAA009E)" x])
  show "linear (\<lambda>x :: u64. (red ^^ (64 + n)) (ucast x))" by (rule linear_comp [OF reds_linear linear_ucast])
  show "linear (\<lambda>x. (red ^^ n) (clmul x 0xCCAA009E))" by (rule linear_comp [OF reds_linear clmul_linear])
  fix j assume "j < LENGTH(64)"
  then have j: "j < 64" by simp
  have "(red ^^ (64 + n)) (ucast (push_bit j 1 :: u64)) = (red ^^ (64 + n - j)) 1"
    using j that by (simp only: ucast_push_1 reds_push_1)
  also have "64 + n - j = (n - j - 1) + 65" using j that by simp
  also have "(red ^^ (n - j - 1 + 65)) 1 = (red ^^ (n - j - 1)) (red fold_k4)"
    by (simp only: reds_add [symmetric] k4_power)
  also have "\<dots> = (red ^^ (n - j)) fold_k4" using j that by (intro reds_pred) simp
  also have "\<dots> = (red ^^ n) (clmul (push_bit j 1) 0xCCAA009E)"
    using j that by (simp only: clmul_basis const_casts) (subst reds_push_k4; simp)
  finally show "(red ^^ (64 + n)) (ucast (push_bit j 1 :: u64)) = (red ^^ n) (clmul (push_bit j 1) 0xCCAA009E)" .
qed

lemma prod_k3:
  fixes x :: u64
  shows "(red ^^ 256) (ucast x) = (red ^^ 128) (clmul x 0x1751997D0)"
proof (rule linear_basis [of "\<lambda>x. (red ^^ 256) (ucast x)" "\<lambda>x. (red ^^ 128) (clmul x 0x1751997D0)" x])
  show "linear (\<lambda>x :: u64. (red ^^ 256) (ucast x))" by (rule linear_comp [OF reds_linear linear_ucast])
  show "linear (\<lambda>x. (red ^^ 128) (clmul x 0x1751997D0))" by (rule linear_comp [OF reds_linear clmul_linear])
  fix j assume "j < LENGTH(64)"
  then have j: "j < 64" by simp
  have "(red ^^ 256) (ucast (push_bit j 1 :: u64)) = (red ^^ (256 - j)) 1"
    using j by (simp only: ucast_push_1) (subst reds_push_1; simp)
  also have "256 - j = (63 - j) + 193" using j by simp
  also have "(red ^^ (63 - j + 193)) 1 = (red ^^ (63 - j + 65)) fold_k3"
    by (simp only: reds_add [symmetric] k3_power)
  also have "63 - j + 65 = 128 - j" using j by simp
  also have "(red ^^ (128 - j)) fold_k3 = (red ^^ 128) (clmul (push_bit j 1) 0x1751997D0)"
    using j by (simp only: clmul_basis const_casts) (subst reds_push_k3; simp)
  finally show "(red ^^ 256) (ucast (push_bit j 1 :: u64)) = (red ^^ 128) (clmul (push_bit j 1) 0x1751997D0)" .
qed

lemma prod_k5:
  fixes x :: u32
  shows "(red ^^ 64) (ucast x) = (red ^^ 32) (clmul (ucast x) 0x163CD6124)"
proof (rule linear_basis [of "\<lambda>x. (red ^^ 64) (ucast x)" "\<lambda>x. (red ^^ 32) (clmul (ucast x) 0x163CD6124)" x])
  show "linear (\<lambda>x :: u32. (red ^^ 64) (ucast x))" by (rule linear_comp [OF reds_linear linear_ucast])
  show "linear (\<lambda>x :: u32. (red ^^ 32) (clmul (ucast x) 0x163CD6124))"
    by (rule linear_comp [OF linear_comp [OF reds_linear clmul_linear] linear_ucast])
  fix j assume "j < LENGTH(32)"
  then have j: "j < 32" by simp
  have cast: "(ucast (push_bit j 1 :: u32) :: m128) = push_bit j 1" "(ucast (push_bit j 1 :: u32) :: u64) = push_bit j 1"
    using j by (auto intro!: bit_word_eqI simp: bit_simps)
  have "(red ^^ 64) (ucast (push_bit j 1 :: u32)) = (red ^^ (64 - j)) 1"
    using j by (simp only: cast) (subst reds_push_1; simp)
  also have "64 - j = (32 - j - 1) + 33" using j by simp
  also have "(red ^^ (32 - j - 1 + 33)) 1 = (red ^^ (32 - j - 1)) (red fold_k5)"
    by (simp only: reds_add [symmetric] k5_power)
  also have "\<dots> = (red ^^ (32 - j)) fold_k5" using j by (intro reds_pred) simp
  also have "\<dots> = (red ^^ 32) (clmul (ucast (push_bit j 1 :: u32)) 0x163CD6124)"
    using j by (simp only: cast clmul_basis const_casts) (subst reds_push_k5; simp)
  finally show "(red ^^ 64) (ucast (push_bit j 1 :: u32)) = (red ^^ 32) (clmul (ucast (push_bit j 1 :: u32)) 0x163CD6124)" .
qed

section \<open>Folding\<close>

lemma halves: "b = ucast (low64 b) XOR push_bit 64 (ucast (high64 b))"
  by (rule bit_word_eqI) (auto simp: low64_def high64_def bit_simps)

lemma high_steps: "64 \<le> n \<Longrightarrow> (red ^^ n) (push_bit 64 (ucast (x :: u64))) = (red ^^ (n - 64)) (ucast x)"
  by (rule reds_shift) (auto simp: bit_simps dest: bit_imp_le_length)

lemma set_epi64_halves: "low64 (mm_set_epi64 h l) = l" "high64 (mm_set_epi64 h l) = h"
  by (rule bit_word_eqI; auto simp: low64_def high64_def mm_set_epi64_def bit_simps dest: bit_imp_le_length)+

lemma fold_steps: "(red ^^ 128) (pclmul_fold b p) = (red ^^ 256) b XOR (red ^^ 128) (mm_loadu_si128 p)"
proof -
  have "(red ^^ 256) b = (red ^^ 256) (ucast (low64 b)) XOR (red ^^ 256) (push_bit 64 (ucast (high64 b)))"
    by (subst halves) (simp only: linearD [OF reds_linear])
  also have "(red ^^ 256) (push_bit 64 (ucast (high64 b))) = (red ^^ 192) (ucast (high64 b))"
    using high_steps [of 256 "high64 b"] by simp
  also have "\<dots> = (red ^^ 128) (clmul (high64 b) 0xCCAA009E)"
    using prod_k4 [of 128 "high64 b"] by simp
  finally show ?thesis
    using prod_k3 [of "low64 b"]
    by (simp add: pclmul_fold_def mm_clmulepi64_si128_def s_k3k4_def set_epi64_halves linearD [OF reds_linear] ac_simps)
qed

lemma loadu_bytes: "mm_loadu_si128 p = load_bytes (take 16 p)"
  by (simp add: mm_loadu_si128_def load_bytes_def)

lemma load_16: "16 \<le> length p \<Longrightarrow> (red ^^ 128) (ucast c XOR mm_loadu_si128 p) = ucast (fold crc_byte (take 16 p) c)"
  using reds_load [of "take 16 p" c] by (simp add: loadu_bytes)

text \<open>The invariant of the loop: 128 steps from \<open>b\<close> give the register for the bytes read so far.\<close>

lemma pclmul_loop_register:
  assumes "length p mod 16 = 0" and "(red ^^ 128) b = ucast c"
  shows "(red ^^ 128) (pclmul_loop b p) = ucast (fold crc_byte p c)"
  using assms
proof (induction b p arbitrary: c rule: pclmul_loop.induct)
  case (1 b p)
  show ?case
  proof (cases "16 \<le> length p")
    case True
    have "(red ^^ 128) (pclmul_fold b p) = (red ^^ 128) (ucast c XOR mm_loadu_si128 p)"
      using reds_add [of 128 128 b] "1.prems"(2) by (simp add: fold_steps linearD [OF reds_linear])
    also have "\<dots> = ucast (fold crc_byte (take 16 p) c)" by (rule load_16 [OF True])
    finally have "(red ^^ 128) (pclmul_loop (pclmul_fold b p) (drop 16 p)) =
        ucast (fold crc_byte (drop 16 p) (fold crc_byte (take 16 p) c))"
      using "1.prems"(1) True by (intro "1.IH") (simp_all add: mod_if [of "length p"])
    also have "fold crc_byte (drop 16 p) (fold crc_byte (take 16 p) c) = fold crc_byte (take 16 p @ drop 16 p) c"
      by (simp only: fold_append o_apply)
    finally show ?thesis using True by (simp add: pclmul_loop.simps [of b p])
  next
    case False
    then have "p = []" using "1.prems"(1) by simp
    then show ?thesis using "1.prems"(2) by (simp add: pclmul_loop.simps)
  qed
qed

section \<open>The final reductions\<close>

lemma to_96: "(red ^^ 64) (drop_bit 64 b XOR mm_clmulepi64_si128 b s_k3k4 16) = (red ^^ 128) b"
proof -
  have "(red ^^ 128) b = (red ^^ 128) (ucast (low64 b)) XOR (red ^^ 128) (push_bit 64 (ucast (high64 b)))"
    by (subst halves) (simp only: linearD [OF reds_linear])
  also have "(red ^^ 128) (push_bit 64 (ucast (high64 b))) = (red ^^ 64) (ucast (high64 b))"
    using high_steps [of 128 "high64 b"] by simp
  also have "(red ^^ 128) (ucast (low64 b)) = (red ^^ 64) (clmul (low64 b) 0xCCAA009E)"
    using prod_k4 [of 64 "low64 b"] by simp
  moreover have "ucast (high64 b) = drop_bit 64 b"
    by (rule bit_word_eqI) (auto simp: high64_def bit_simps dest: bit_imp_le_length)
  ultimately show ?thesis
    by (simp add: mm_clmulepi64_si128_def s_k3k4_def set_epi64_halves linearD [OF reds_linear] ac_simps)
qed

abbreviation z_mask :: m128 where "z_mask \<equiv> mm_set_epi64 0xFFFFFFFF 0xFFFFFFFF"

lemma bit_FFFFFFFF: "bit (0xFFFFFFFF :: u64) j \<longleftrightarrow> j < 32"
proof -
  have "(0xFFFFFFFF :: u64) = mask 32" by (simp add: mask_eq_exp_minus_1)
  then show ?thesis by (simp only: bit_mask_iff) auto
qed

lemma low64_masked: "low64 (b AND z_mask) = ucast (ucast b :: u32)"
proof -
  have "low64 (b AND z_mask) = low64 b AND low64 z_mask"
    by (simp only: low64_def unsigned_and_eq)
  also have "\<dots> = low64 b AND 0xFFFFFFFF" by (simp only: set_epi64_halves)
  also have "\<dots> = ucast (ucast b :: u32)"
    by (rule bit_word_eqI) (auto simp: low64_def bit_simps bit_FFFFFFFF simp del: bit_numeral_word_iff)
  finally show ?thesis .
qed

lemma low32_split: "b = ucast (ucast b :: u32) XOR push_bit 32 (drop_bit 32 b :: m128)"
  by (rule bit_word_eqI) (auto simp: bit_simps)

lemma shift_32: "32 \<le> n \<Longrightarrow> (red ^^ n) (push_bit 32 (drop_bit 32 b)) = (red ^^ (n - 32)) (drop_bit 32 b)"
  by (rule reds_shift) (auto simp: bit_simps dest: bit_imp_le_length)

lemma to_64: "(red ^^ 32) (mm_clmulepi64_si128 (b AND z_mask) s_k5k0 0 XOR drop_bit 32 b) = (red ^^ 64) b"
proof -
  have "(red ^^ 64) b = (red ^^ 64) (ucast (ucast b :: u32)) XOR (red ^^ 64) (push_bit 32 (drop_bit 32 b))"
    by (subst low32_split) (simp only: linearD [OF reds_linear])
  moreover have "(red ^^ 64) (push_bit 32 (drop_bit 32 b)) = (red ^^ 32) (drop_bit 32 b)"
    using shift_32 [of 64 b] by simp
  ultimately show ?thesis
    using prod_k5 [of "ucast b"]
    by (simp add: mm_clmulepi64_si128_def s_k5k0_def set_epi64_halves low64_masked linearD [OF reds_linear])
qed

text \<open>
  The Barrett reduction: \<open>crc_poly\<close> is the polynomial with its leading bit, \<open>crc_mu\<close> its inverse modulo
  \<open>x ^ 32\<close>. The multiple of \<open>crc_poly\<close> that is subtracted cancels the low 32 bits and vanishes under 32 steps.
\<close>

abbreviation crc_poly :: u64 where "crc_poly \<equiv> 0x1DB710641"
abbreviation crc_mu :: u64 where "crc_mu \<equiv> 0x1F7011641"

lemma steps_P: "(red ^^ 32) (clmul (ucast (t :: u32)) crc_poly) = 0"
proof (rule linear_basis [of "\<lambda>t. (red ^^ 32) (clmul (ucast t) crc_poly)" "\<lambda>t. 0" t])
  show "linear (\<lambda>t :: u32. (red ^^ 32) (clmul (ucast t) crc_poly))"
    by (rule linear_comp [OF linear_comp [OF reds_linear clmul_linear] linear_ucast])
  fix j assume "j < LENGTH(32)"
  then have j: "j < 32" by simp
  have cast: "(ucast (push_bit j 1 :: u32) :: u64) = push_bit j 1"
    using j by (auto intro!: bit_word_eqI simp: bit_simps)
  have "\<not> bit (ucast crc_poly :: m128) i" if "33 \<le> i" for i
  proof -
    have "(0x1DB710641 :: nat) < 2 ^ i" using power_increasing [of 33 i "2 :: nat"] that by simp
    then have "\<not> bit (0x1DB710641 :: nat) i" by (simp only: bit_iff_odd div_less) simp
    then have "\<not> bit (word_of_nat 0x1DB710641 :: m128) i" by (simp add: bit_simps del: of_nat_numeral)
    then show ?thesis by simp
  qed
  then have "(red ^^ 32) (push_bit j (ucast crc_poly)) = (red ^^ (32 - j)) (ucast crc_poly)"
    using j by (intro reds_shift) simp_all
  also have "\<dots> = (red ^^ (32 - j - 1)) (red (ucast crc_poly))" using j by (intro reds_pred [symmetric]) simp
  also have "red (ucast crc_poly) = 0" by (simp add: red_def)
  also have "(red ^^ (32 - j - 1)) 0 = 0" by (rule linear_zero [OF reds_linear])
  finally show "(red ^^ 32) (clmul (ucast (push_bit j 1 :: u32)) crc_poly) = 0"
    using j by (simp only: cast clmul_basis)
qed (simp add: linear_def)

definition low_product :: "u32 \<Rightarrow> u32" where
  "low_product m = ucast (clmul (ucast m) crc_poly)"

lemma low_product_linear: "linear low_product"
  unfolding low_product_def
  by (rule linear_comp [OF linear_ucast linear_comp [OF clmul_linear linear_ucast]])

lemma low_product_basis: "low_product (push_bit j 1) = push_bit j (ucast crc_poly)"
proof (cases "j < 32")
  case True
  then have "(ucast (push_bit j 1 :: u32) :: u64) = push_bit j 1"
    by (auto intro!: bit_word_eqI simp: bit_simps)
  then have "low_product (push_bit j 1) = ucast (push_bit j (ucast crc_poly :: m128))"
    using True by (simp only: low_product_def clmul_basis)
  also have "\<dots> = push_bit j (ucast crc_poly)" by (rule bit_word_eqI) (auto simp: bit_simps)
  finally show ?thesis .
next
  case False
  have zero: "push_bit j (x :: u32) = 0" for x using False by (intro bit_word_eqI) (simp add: bit_simps)
  show ?thesis unfolding zero by (rule linear_zero [OF low_product_linear])
qed

lemma low_product_shift: "low_product (push_bit j m) = push_bit j (low_product m)"
proof (rule linear_basis [of "\<lambda>m. low_product (push_bit j m)" "\<lambda>m. push_bit j (low_product m)" m])
  show "linear (\<lambda>m. low_product (push_bit j m))" by (rule linear_comp [OF low_product_linear linear_push])
  show "linear (\<lambda>m. push_bit j (low_product m))" by (rule linear_comp [OF linear_push low_product_linear])
  show "low_product (push_bit j (push_bit i 1)) = push_bit j (low_product (push_bit i 1))" for i
    by (simp only: push_bit_push_bit low_product_basis)
qed

lemma mu_inverse: "low_product (ucast crc_mu) = 1"
proof -
  have "[0 ..< 64] = [0, 1, 2, 3, 4, 5, 6, 7, 8, 9, 10, 11, 12, 13, 14, 15, 16, 17, 18, 19, 20, 21, 22, 23, 24, 25,
    26, 27, 28, 29, 30, 31, 32, 33, 34, 35, 36, 37, 38, 39, 40, 41, 42, 43, 44, 45, 46, 47, 48, 49, 50, 51, 52,
    53, 54, 55, 56, 57, 58, 59, 60, 61, 62, 63 :: nat]" by (simp add: upt_rec)
  then show ?thesis by (simp add: low_product_def clmul_def)
qed

lemma barrett_low:
  fixes l :: u32
  shows "low_product (ucast (clmul (ucast l) crc_mu)) = l"
proof (rule linear_basis [of "\<lambda>l. low_product (ucast (clmul (ucast l) crc_mu))" "\<lambda>l. l" l])
  show "linear (\<lambda>l :: u32. low_product (ucast (clmul (ucast l) crc_mu)))"
    by (rule linear_comp [OF low_product_linear linear_comp [OF linear_ucast linear_comp [OF clmul_linear linear_ucast]]])
  show "linear (\<lambda>l :: u32. l)" by (simp add: linear_def)
  fix j assume "j < LENGTH(32)"
  then have j: "j < 32" by simp
  then have "(ucast (push_bit j 1 :: u32) :: u64) = push_bit j 1"
    by (auto intro!: bit_word_eqI simp: bit_simps)
  then have "(ucast (clmul (ucast (push_bit j 1 :: u32)) crc_mu) :: u32) = ucast (push_bit j (ucast crc_mu :: m128))"
    using j by (simp only: clmul_basis)
  also have "\<dots> = push_bit j (ucast crc_mu)" by (rule bit_word_eqI) (auto simp: bit_simps)
  finally show "low_product (ucast (clmul (ucast (push_bit j 1 :: u32)) crc_mu)) = push_bit j 1"
    by (simp only: low_product_shift mu_inverse)
qed

lemma barrett:
  "ucast (drop_bit 32 (b XOR mm_clmulepi64_si128 (mm_clmulepi64_si128 (b AND z_mask) s_u 16 AND z_mask) s_u 0)) =
    (ucast ((red ^^ 32) b) :: u32)"
proof -
  define t where "t = (ucast (clmul (ucast (ucast b :: u32)) crc_mu) :: u32)"
  define x where "x = b XOR clmul (ucast t) crc_poly"
  have "(ucast x :: u32) = ucast b XOR low_product t"
    by (simp only: x_def unsigned_xor_eq low_product_def)
  then have "(ucast x :: u32) = 0" by (simp add: t_def barrett_low)
  then have "x = push_bit 32 (drop_bit 32 x)" using low32_split [of x] by simp
  then have "(red ^^ 32) x = drop_bit 32 x" using shift_32 [of 32 x] by simp
  moreover have "(red ^^ 32) x = (red ^^ 32) b"
    by (simp add: x_def linearD [OF reds_linear] steps_P)
  ultimately have "drop_bit 32 x = (red ^^ 32) b" by simp
  moreover have "mm_clmulepi64_si128 (mm_clmulepi64_si128 (b AND z_mask) s_u 16 AND z_mask) s_u 0 = clmul (ucast t) crc_poly"
    by (simp add: mm_clmulepi64_si128_def s_u_def set_epi64_halves low64_masked t_def)
  ultimately show ?thesis by (simp add: x_def)
qed

lemma pclmul_final_steps: "pclmul_final b = ucast ((red ^^ 128) b)"
  by (simp only: pclmul_final_def Let_def barrett to_64 to_96)

lemma narrow_wide: "ucast (ucast (c :: u32) :: m128) = c"
  by (rule bit_word_eqI) (auto simp: bit_simps)

lemma pclmul_correct:
  assumes "length p mod 16 = 0" and "p \<noteq> []"
  shows "crc32_pclmul p prev = Inr (crc32 p prev)"
proof -
  have len: "16 \<le> length p" using assms by (intro dvd_imp_le) (simp_all add: mod_eq_0_iff_dvd)
  let ?b = "ucast (NOT prev) XOR mm_loadu_si128 p"
  have "(red ^^ 128) (pclmul_loop ?b (drop 16 p)) = ucast (fold crc_byte (drop 16 p) (fold crc_byte (take 16 p) (NOT prev)))"
    using assms(1) len by (intro pclmul_loop_register load_16) (simp_all add: mod_if [of "length p"])
  also have "fold crc_byte (drop 16 p) (fold crc_byte (take 16 p) (NOT prev)) =
      fold crc_byte (take 16 p @ drop 16 p) (NOT prev)"
    by (simp only: fold_append o_apply)
  finally have "pclmul_final (pclmul_loop ?b (drop 16 p)) = fold crc_byte p (NOT prev)"
    by (simp only: pclmul_final_steps narrow_wide append_take_drop_id)
  then show ?thesis using len by (simp add: crc32_pclmul_def crc32_def)
qed

lemma round_down_16: "n < 2 ^ 32 \<Longrightarrow> u32 n AND NOT 15 = u32 (16 * (n div 16))"
proof -
  assume n: "n < 2 ^ 32"
  have "u32 n AND NOT 15 = u32 n AND NOT (mask 4)" by (simp add: mask_eq_exp_minus_1)
  also have "\<dots> = push_bit 4 (drop_bit 4 (u32 n))"
    by (rule bit_word_eqI) (auto simp: bit_simps)
  also have "drop_bit 4 (u32 n) = u32 (n div 16)"
    using n u32_unat [OF n] by (simp add: drop_bit_eq_div word_arith_nat_div)
  finally show ?thesis by (simp add: push_bit_eq_mult)
qed

lemma simd_correct:
  assumes "length p < 2 ^ 32"
  shows "crc32_sse41_simd p prev = Inr (crc32 p prev)"
proof (cases "length p < 16")
  case True
  then show ?thesis by (simp add: crc32_sse41_simd_def slice_by_4_correct)
next
  case False
  define k where "k = 16 * (length p div 16)"
  have k: "k \<le> length p" "16 \<le> k" "k mod 16 = 0" using False by (simp_all add: k_def)
  have "unat (u32 k) = k" using k(1) assms by (intro u32_unat) simp
  then have simd: "unat (u32 (length p) AND NOT 15) = k"
    using round_down_16 [OF assms] by (simp add: k_def)
  have "crc32_pclmul (take k p) prev = Inr (crc32 (take k p) prev)"
    using k False by (intro pclmul_correct) auto
  moreover have "crc32 (drop k p) (crc32 (take k p) prev) = crc32 p prev"
  proof -
    have "fold crc_byte (drop k p) (fold crc_byte (take k p) c) = fold crc_byte p c" for c
      by (metis append_take_drop_id fold_append o_apply)
    then show ?thesis by (simp add: crc32_def)
  qed
  ultimately show ?thesis
    using False by (simp only: crc32_sse41_simd_def Let_def simd slice_by_4_correct if_False and_then.simps)
qed

lemma fpng_crc32_correct: "length p < 2 ^ 32 \<Longrightarrow> fpng_crc32 cpu p prev = Inr (crc32 p prev)"
  by (simp add: fpng_crc32_def simd_correct slice_by_4_correct)

end
