(* ===== verification/Fpng_Table_Safety.thy ===== *)
theory Fpng_Table_Safety
  imports Fpng_Inflate
begin

text \<open>
  On any input the header of a dynamic block is read without a fault, and the decoder table that comes
  out is well-formed: its symbols exist, and the codes an entry stands for fit into its 12 bits. In a
  build with assertions these may fail; \<open>guarded\<close> says that nothing worse happens, and that a result
  satisfies \<open>P\<close>.
\<close>

section \<open>Steps that can return false or fail an assertion\<close>

definition guarded :: "bool \<Rightarrow> 'a option res \<Rightarrow> ('a \<Rightarrow> bool) \<Rightarrow> bool" where
  "guarded dbg r P \<longleftrightarrow> (case r of Inl e \<Rightarrow> dbg \<and> e = AssertionFailed | Inr x \<Rightarrow> (\<forall>s. x = Some s \<longrightarrow> P s))"

lemma guarded_simps [simp]:
  "guarded dbg (Inr None) P" "guarded dbg (Inr (Some s)) P = P s"
  "guarded dbg (Inl e) P \<longleftrightarrow> dbg \<and> e = AssertionFailed"
  by (auto simp: guarded_def)

lemma guarded_or_false:
  "guarded dbg r P \<Longrightarrow> (\<And>s. P s \<Longrightarrow> guarded dbg (f s) Q) \<Longrightarrow> guarded dbg (or_false r f) Q"
  by (cases r rule: sum.exhaust) (auto simp: or_false_def split: option.splits)

lemma guarded_check: "guarded dbg (f ()) P \<Longrightarrow> guarded dbg (and_then (check dbg b) f) P"
  by (cases dbg; cases b) simp_all

lemma guarded_mono: "guarded dbg r P \<Longrightarrow> (\<And>s. P s \<Longrightarrow> Q s) \<Longrightarrow> guarded dbg r Q"
  by (auto simp: guarded_def split: sum.splits)

text \<open>A loop each round of which can fail an assertion.\<close>

lemma fold_res_guarded:
  assumes "I s" and "\<And>x s. x \<in> set xs \<Longrightarrow> I s \<Longrightarrow> guarded dbg (and_then (f x s) (\<lambda>s. Inr (Some s))) I"
  shows "guarded dbg (and_then (fold_res f xs s) (\<lambda>s. Inr (Some s))) I"
  using assms
proof (induction xs arbitrary: s)
  case (Cons x xs)
  show ?case
  proof (cases "f x s")
    case (Inl e)
    then show ?thesis using Cons.prems(2) [of x s] Cons.prems(1) by simp
  next
    case (Inr s1)
    then have "I s1" using Cons.prems(2) [of x s] Cons.prems(1) by simp
    then show ?thesis using Inr Cons.IH [of s1] Cons.prems(2) by simp
  qed
qed simp

lemma guarded_fold:
  assumes "I s" and "\<And>x s. x \<in> set xs \<Longrightarrow> I s \<Longrightarrow> guarded dbg (and_then (f x s) (\<lambda>s. Inr (Some s))) I"
    and "\<And>s. I s \<Longrightarrow> guarded dbg (g s) Q"
  shows "guarded dbg (and_then (fold_res f xs s) g) Q"
  using fold_res_guarded [of I s xs dbg f, OF assms(1,2)] assms(3) by (cases "fold_res f xs s") auto

section \<open>The reader\<close>

definition source_ok :: "bit_source \<Rightarrow> bool" where
  "source_ok S \<longleftrightarrow> length (zsrc_bytes S) = unat (zsrc_len S) \<and> unat (zsrc_len S) < 2 ^ 31"

text \<open>At least \<open>lo\<close> bits are buffered; \<open>avail\<close> counts the bits up to the end of the source.\<close>

definition reader_ok :: "bit_source \<Rightarrow> nat \<Rightarrow> bit_reader \<Rightarrow> bool" where
  "reader_ok S lo r \<longleftrightarrow> lo \<le> unat (rd_size r) \<and> unat (rd_size r) \<le> 63 \<and> unat (rd_ofs r) \<le> unat (zsrc_len S)"

definition avail :: "bit_source \<Rightarrow> bit_reader \<Rightarrow> nat" where
  "avail S r = unat (rd_size r) + 8 * (unat (zsrc_len S) - unat (rd_ofs r))"

lemma reader_ok_mono: "reader_ok S lo r \<Longrightarrow> lo' \<le> lo \<Longrightarrow> reader_ok S lo' r"
  by (simp add: reader_ok_def)

lemma avail_bound: "source_ok S \<Longrightarrow> reader_ok S lo r \<Longrightarrow> avail S r < line_fuel S"
  using diff_le_self [of "unat (zsrc_len S)" "unat (rd_ofs r)"]
  by (simp only: source_ok_def reader_ok_def avail_def line_fuel_def) arith

lemma drop_bits_ok:
  assumes "reader_ok S lo r" and "unat l \<le> lo"
  shows "reader_ok S (lo - unat l) (drop_bits l r)" and "avail S (drop_bits l r) + unat l = avail S r"
proof -
  have "unat (rd_size r - l) = unat (rd_size r) - unat l"
    using assms by (intro unat_sub) (simp add: reader_ok_def word_le_nat_alt)
  then show "reader_ok S (lo - unat l) (drop_bits l r)" "avail S (drop_bits l r) + unat l = avail S r"
    using assms by (auto simp: reader_ok_def drop_bits_def avail_def)
qed

lemma ensure_ok:
  assumes S: "source_ok S" and r: "reader_ok S lo r"
  shows "guarded dbg (ENSURE_32BITS S r) (\<lambda>r'. reader_ok S 32 r' \<and> avail S r' = avail S r)"
proof (cases "rd_size r < 32 \<and> \<not> rd_ofs r + 4 > zsrc_len S")
  case False
  then show ?thesis using r by (auto simp: ENSURE_32BITS_def reader_ok_def word_less_nat_alt)
next
  case True
  have small: "unat (rd_ofs r) + 4 < 2 ^ 32" using S r by (simp add: source_ok_def reader_ok_def)
  then have ofs: "unat (rd_ofs r + 4) = unat (rd_ofs r) + 4" using unat_add_lem [of "rd_ofs r" 4] by simp
  then have fits: "unat (rd_ofs r) + 4 \<le> unat (zsrc_len S)" using True by (simp add: word_less_nat_alt)
  have "unat (rd_size r) < 32" using True by (simp add: word_less_nat_alt)
  then have "unat (rd_size r + 32) = unat (rd_size r) + 32" using unat_add_lem [of "rd_size r" 32] by simp
  then show ?thesis
    using True S r fits ofs \<open>unat (rd_size r) < 32\<close>
    by (auto simp: ENSURE_32BITS_def reader_ok_def avail_def peek_def source_ok_def)
qed

lemma skip_bits_ok:
  assumes "source_ok S" and "reader_ok S lo r" and "unat l \<le> lo"
  shows "guarded (zsrc_debug S) (SKIP_BITS S l r) (\<lambda>r'. reader_ok S 32 r' \<and> avail S r' + unat l = avail S r)"
  unfolding SKIP_BITS_def
  using ensure_ok [OF assms(1) drop_bits_ok(1) [OF assms(2,3)], of "zsrc_debug S"] drop_bits_ok(2) [OF assms(2,3)]
  by (intro guarded_check) (auto elim!: guarded_mono)

lemma skip_bits_ne_ok:
  assumes "reader_ok S lo r" and "unat l \<le> lo"
  shows "guarded (zsrc_debug S) (SKIP_BITS_NE S l r) (\<lambda>r'. reader_ok S (lo - unat l) r' \<and> avail S r' + unat l = avail S r)"
  unfolding SKIP_BITS_NE_def using drop_bits_ok [OF assms] by (intro guarded_check) simp

lemma get_bits_value:
  fixes b :: u64
  assumes "l \<le> 16"
  shows "unat (ucast (b AND ucast (g_bitmasks ! l)) :: u32) = unat b mod 2 ^ l"
proof -
  have m: "ucast (g_bitmasks ! l) = (mask l :: u64)"
  proof -
    have "\<forall>l \<in> set [0 ..< 17]. ucast (g_bitmasks ! l) = (mask l :: u64)"
      by (simp add: g_bitmasks_def upt_rec mask_eq_exp_minus_1)
    then show ?thesis using assms by simp
  qed
  have "unat b mod 2 ^ l < 2 ^ l" by simp
  also have "(2 :: nat) ^ l \<le> 2 ^ 16" using assms by (intro power_increasing) simp_all
  finally have small: "unat b mod 2 ^ l < 2 ^ 32" by simp
  have "unat (take_bit l b) = unat b mod 2 ^ l"
    by (simp add: unsigned_take_bit_eq take_bit_eq_mod [of l "unat b"])
  then have "b AND mask l = u64 (unat b mod 2 ^ l)" by (metis take_bit_eq_mask u64_of_unat)
  then have "(ucast (b AND mask l) :: u32) = u32 (unat (u64 (unat b mod 2 ^ l)))" by (simp only: ucast_unat)
  then show ?thesis using small by (simp only: m) (simp add: u64_unat u32_unat)
qed

lemma get_bits_ok:
  assumes "source_ok S" and "reader_ok S lo r" and "unat l \<le> lo" and "unat l \<le> 16"
  shows "guarded (zsrc_debug S) (GET_BITS S l r)
    (\<lambda>(b, r'). reader_ok S 32 r' \<and> avail S r' + unat l = avail S r \<and> unat b < 2 ^ unat l)"
proof -
  have "aref g_bitmasks (unat l) = Inr (g_bitmasks ! unat l)" using assms(4) by (simp add: aref_def)
  moreover have "guarded (zsrc_debug S) (ENSURE_32BITS S (drop_bits l r))
      (\<lambda>r'. reader_ok S 32 r' \<and> avail S r' + unat l = avail S r)"
    using ensure_ok [OF assms(1) drop_bits_ok(1) [OF assms(2,3)], of "zsrc_debug S"] drop_bits_ok(2) [OF assms(2,3)]
    by (auto elim!: guarded_mono)
  ultimately show ?thesis
    unfolding GET_BITS_def
    by (intro guarded_check) (auto simp: get_bits_value [OF assms(4)] intro: guarded_or_false)
qed

lemma get_bits_ne_ok:
  assumes "reader_ok S lo r" and "unat l \<le> lo" and "unat l \<le> 16"
  shows "guarded (zsrc_debug S) (GET_BITS_NE S l r)
    (\<lambda>(b, r'). reader_ok S (lo - unat l) r' \<and> avail S r' + unat l = avail S r \<and> unat b < 2 ^ unat l)"
proof -
  have "aref g_bitmasks (unat l) = Inr (g_bitmasks ! unat l)" using assms(3) by (simp add: aref_def)
  then show ?thesis
    unfolding GET_BITS_NE_def using drop_bits_ok [OF assms(1,2)] get_bits_value [OF assms(3)]
    by (intro guarded_check) simp
qed

section \<open>Entries\<close>

text \<open>The fields of an entry, for a symbol, its length, the next symbol and its length.\<close>

definition make_entry :: "nat \<Rightarrow> nat \<Rightarrow> nat \<Rightarrow> nat \<Rightarrow> u32" where
  "make_entry s l s' l' = u32 (s + 2 ^ 9 * l + 2 ^ 16 * (s' + 2 ^ 9 * l'))"

lemma nat_bit_high: "(n :: nat) < 2 ^ k \<Longrightarrow> k \<le> m \<Longrightarrow> \<not> bit n m"
  by (metis bit_take_bit_iff linorder_not_less take_bit_nat_eq_self)

lemma or_push:
  assumes "a < 2 ^ k"
  shows "u32 a OR push_bit k (u32 b) = u32 (a + 2 ^ k * b)"
proof -
  have "u32 a + push_bit k (u32 b) = u32 a OR push_bit k (u32 b)"
    by (rule disjunctive_add) (use nat_bit_high [OF assms] in \<open>auto simp: bit_simps\<close>)
  then show ?thesis by (simp add: push_bit_eq_mult ac_simps)
qed

lemma entry_value:
  assumes "(s :: nat) < 512" and "l < 16" and "s' < 512" and "l' < 16"
  shows "s + 2 ^ 9 * l + 2 ^ 16 * (s' + 2 ^ 9 * l') < 2 ^ 32"
  using assms by simp

lemma unat_drop_bit_mod: "unat (drop_bit k (w :: u32)) = unat w div 2 ^ k"
  using unsigned_drop_bit_eq [of k w, where ?'a = nat] drop_bit_eq_div [of k "unat w"]
    take_bit_nat_eq_self [OF unat_u32_less [of w]] by simp

lemma unat_and_mask: "unat ((w :: u32) AND mask k) = unat w mod 2 ^ k"
  by (simp add: unsigned_take_bit_eq take_bit_eq_mod [of k "unat w"] flip: take_bit_eq_mask)

lemma eq_u32: "unat (x :: u32) = k \<Longrightarrow> x = u32 k"
  by auto

lemma unat_and_511: "unat ((w :: u32) AND 511) = unat w mod 512"
  using unat_and_mask [of w 9] by (simp add: mask_eq_exp_minus_1)

lemma unat_and_15: "unat ((w :: u32) AND 15) = unat w mod 16"
  using unat_and_mask [of w 4] by (simp add: mask_eq_exp_minus_1)

lemma entry_fields:
  assumes "s < 512" and "l < 16" and "s' < 512" and "l' < 16"
  shows "unat (entry_sym (make_entry s l s' l')) = s" "unat (entry_len (make_entry s l s' l')) = l"
    "unat (next_sym (make_entry s l s' l')) = s'" "unat (next_len (make_entry s l s' l')) = l'"
proof -
  let ?v = "s + 2 ^ 9 * l + 2 ^ 16 * (s' + 2 ^ 9 * l')"
  have v: "unat (make_entry s l s' l') = ?v"
    using entry_value [OF assms] by (simp only: make_entry_def u32_unat)
  let ?n = "s' + 2 ^ 9 * l'"
  have "?v = s + 512 * (l + 128 * ?n)" by simp
  then have low: "?v mod 512 = s" "?v div 512 = l + 128 * ?n" using assms(1) by (simp_all only: mod_mult_self2 mod_less) simp
  have "l + 128 * ?n = l + 16 * (8 * ?n)" by simp
  then have len: "?v div 512 mod 16 = l" using assms(2) by (simp only: low(2) mod_mult_self2 mod_less)
  have "?v div 65536 = ?v div 512 div 128" by (simp only: flip: div_mult2_eq) simp
  then have "?v div 65536 = ?n" using assms(2) by (simp only: low(2)) simp
  moreover have "?v div 2 ^ 25 = ?v div 65536 div 512" by (simp only: flip: div_mult2_eq) simp
  ultimately have "?v mod 512 = s" "?v div 512 mod 16 = l" "?v div 65536 mod 512 = s'" "?v div 2 ^ 25 = l'"
    using assms(3) low(1) len by simp_all
  then show "unat (entry_sym (make_entry s l s' l')) = s" "unat (entry_len (make_entry s l s' l')) = l"
    "unat (next_sym (make_entry s l s' l')) = s'" "unat (next_len (make_entry s l s' l')) = l'"
    by (simp_all only: entry_sym_def entry_len_def next_sym_def next_len_def unat_and_511 unat_and_15 unat_drop_bit_mod v)
       simp_all
qed

section \<open>Building a table\<close>

text \<open>Entries without a next symbol, of symbols below \<open>n\<close>, and entries with one.\<close>

definition plain_entry :: "nat \<Rightarrow> u32 \<Rightarrow> bool" where
  "plain_entry n e \<longleftrightarrow> (\<exists>s l. e = make_entry s l 0 0 \<and> s < n \<and> l \<le> 12)"

definition good_entry :: "u32 \<Rightarrow> bool" where
  "good_entry e \<longleftrightarrow> (\<exists>s l s' l'. e = make_entry s l s' l' \<and> s < 288 \<and> s' < 288 \<and> l + l' \<le> 12)"

lemma plain_entry_0: "0 < n \<Longrightarrow> plain_entry n 0"
  unfolding plain_entry_def make_entry_def by (intro exI [of _ 0]) simp

lemma plain_good:
  assumes "plain_entry n e" and "n \<le> 288"
  shows "good_entry e"
proof -
  obtain s l where "e = make_entry s l 0 0" "s < n" "l \<le> 12" using assms(1) by (auto simp: plain_entry_def)
  then show ?thesis
    unfolding good_entry_def using assms(2) by (intro exI [of _ s] exI [of _ l] exI [of _ 0]) simp
qed

lemma fill_table_ok:
  "length (fill_table e l c t) = length t \<and> set (fill_table e l c t) \<subseteq> insert e (set t)"
proof (induction e l c t rule: fill_table.induct)
  case (1 e l c t)
  show ?case
    using 1 set_update_subset_insert [of t c e] by (subst (1 2) fill_table.simps) auto
qed

lemma plain_entry_make:
  assumes "i < n" and "n \<le> 288" and "l \<le> 12"
  shows "plain_entry n (u32 i OR push_bit 9 (u32 l))"
  unfolding plain_entry_def make_entry_def
  using assms or_push [of i 9 l] by (intro exI [of _ i] exI [of _ l]) simp

definition plain_table :: "nat \<Rightarrow> u32 list \<Rightarrow> bool" where
  "plain_table n t \<longleftrightarrow> length t = FPNG_DECODER_TABLE_SIZE \<and> (\<forall>e \<in> set t. plain_entry n e)"

lemma fill_symbol_ok:
  assumes "i < n" and "n \<le> 288" and "unat (sizes ! i) \<le> 12" and "plain_table n t"
  shows "plain_table n (fill_symbol sizes rev_codes i t)"
  using assms plain_entry_make [OF assms(1-3)]
    fill_table_ok [of "u32 i OR push_bit 9 (u32 (unat (sizes ! i)))" "unat (sizes ! i)"
      "unat (reverse_code (unat (sizes ! i)) (rev_codes ! i) 0)" t]
  by (auto simp: fill_symbol_def plain_table_def Let_def)

lemma fold_invariant_set: "(\<And>x s. x \<in> set xs \<Longrightarrow> I s \<Longrightarrow> I (f x s)) \<Longrightarrow> I s \<Longrightarrow> I (fold f xs s)"
  by (induction xs arbitrary: s) auto

lemma length_next_codes: "length (fst (next_codes num_codes)) = 17"
  unfolding next_codes_def
  by (rule fold_invariant_set [where I = "\<lambda>st. length (fst st) = 17"]) (auto simp: Let_def)

lemma build_table_ok:
  assumes sizes: "\<forall>s \<in> set sizes. unat s \<le> 12" and n: "0 < length sizes" "length sizes \<le> 288"
  shows "guarded dbg (build_decoder_table dbg sizes) (plain_table (length sizes))"
  unfolding build_decoder_table_def
proof (rule guarded_fold [where I = "\<lambda>xs. length xs = 16"])
  fix x and xs :: "nat list" assume "x \<in> set sizes" "length xs = 16"
  then have "unat x < length xs" using sizes by fastforce
  then have "aref xs (unat x) = Inr (xs ! unat x)" "aset xs (unat x) (xs ! unat x + 1) = Inr (xs[unat x := xs ! unat x + 1])"
    by (simp_all add: aref_def aset_def)
  then show "guarded dbg (and_then (count_code dbg x xs) (\<lambda>s. Inr (Some s))) (\<lambda>xs. length xs = 16)"
    using \<open>length xs = 16\<close> unfolding count_code_def and_then_assoc by (intro guarded_check) simp
next
  fix num_codes :: "nat list" assume "length num_codes = 16"
  let ?next = "next_codes num_codes"
  have fill: "plain_table (length sizes)
    (fold (fill_symbol sizes rev_codes) [0 ..< length sizes] (replicate FPNG_DECODER_TABLE_SIZE 0))" for rev_codes
  proof (rule fold_invariant_set [where I = "plain_table (length sizes)"])
    show "plain_table (length sizes) (replicate FPNG_DECODER_TABLE_SIZE 0)"
      using plain_entry_0 [OF n(1)] by (simp add: plain_table_def)
  qed (use sizes n in \<open>auto intro!: fill_symbol_ok\<close>)
  have number: "guarded dbg (and_then (fold_res number_code sizes (fst ?next, [])) g) (plain_table (length sizes))"
    if "\<And>s. guarded dbg (g s) (plain_table (length sizes))" for g
  proof (rule guarded_fold [where I = "\<lambda>st. length (fst st) = 17"])
    fix x and st :: "u32 list \<times> u32 list" assume "x \<in> set sizes" "length (fst st) = 17"
    then have "unat x < length (fst st)" using sizes by fastforce
    then show "guarded dbg (and_then (number_code x st) (\<lambda>s. Inr (Some s))) (\<lambda>st. length (fst st) = 17)"
      using \<open>length (fst st) = 17\<close> by (auto simp: number_code_def aref_def split: prod.splits)
  qed (use length_next_codes that in simp_all)
  show "guarded dbg
      (let (next_code, tot) = ?next in
       if tot \<noteq> 0x10000 \<and> sum_codes 15 0 num_codes \<noteq> Some 1 then Inr None
       else
         and_then (fold_res number_code sizes (next_code, [])) (\<lambda>(_, rev_codes).
         Inr (Some (fold (fill_symbol sizes rev_codes) [0 ..< length sizes] (replicate FPNG_DECODER_TABLE_SIZE 0)))))
      (plain_table (length sizes))"
  proof -
    let ?g = "\<lambda>(_ :: u32 list, rev_codes). Inr (Some (fold (fill_symbol sizes rev_codes) [0 ..< length sizes]
        (replicate FPNG_DECODER_TABLE_SIZE 0))) :: u32 list option res"
    have "guarded dbg (and_then (fold_res number_code sizes (fst ?next, [])) ?g) (plain_table (length sizes))"
      using fill by (intro number) (auto split: prod.splits)
    then show ?thesis by (cases ?next) (simp add: Let_def)
  qed
qed simp

section \<open>Looking up\<close>

lemma table_entry_ok:
  assumes "length t = FPNG_DECODER_TABLE_SIZE"
  shows "\<exists>i < FPNG_DECODER_TABLE_SIZE. table_entry t r = Inr (t ! i)"
proof -
  have idx: "u64 (FPNG_DECODER_TABLE_SIZE - 1) = 4095" by (simp add: FPNG_DECODER_TABLE_SIZE_def)
  have "rd_buf r AND 4095 \<le> 4095" by (rule word_and_le1)
  then have "unat (rd_buf r AND 4095) < FPNG_DECODER_TABLE_SIZE"
    by (simp add: FPNG_DECODER_TABLE_SIZE_def word_le_nat_alt)
  then show ?thesis using assms by (auto simp only: table_entry_def aref_def idx if_True)
qed

lemma unat_make_entry: "s < 512 \<Longrightarrow> l < 16 \<Longrightarrow> unat (make_entry s l 0 0) = s + 512 * l"
  using entry_value [of s l 0 0] u32_unat [of "s + 2 ^ 9 * l + 2 ^ 16 * (0 + 2 ^ 9 * 0)"] by (simp add: make_entry_def)

lemma plain_entry_len:
  assumes "plain_entry n e" and "n \<le> 288"
  shows "unat (drop_bit 9 e) \<le> 12" and "unat (e AND 511) < n"
proof -
  obtain s l where e: "e = make_entry s l 0 0" "s < n" "l \<le> 12" using assms(1) by (auto simp: plain_entry_def)
  then have "unat e = s + 512 * l" using assms(2) by (simp add: unat_make_entry)
  then show "unat (drop_bit 9 e) \<le> 12" "unat (e AND 511) < n"
    using e assms(2) by (simp_all only: unat_drop_bit_mod unat_and_511) simp_all
qed

lemma unat_ucast_byte: "unat (w :: u32) < 256 \<Longrightarrow> unat (ucast w :: byte) = unat w"
  by (simp only: ucast_unat unat_of_nat) (simp add: take_bit_nat_eq_self)

section \<open>The header\<close>

lemma read_clen_sizes_ok:
  assumes "source_ok S" and "reader_ok S 32 r" and "\<forall>s \<in> set sizes. unat s \<le> 12"
  shows "guarded (zsrc_debug S) (read_clen_sizes S is sizes r)
    (\<lambda>(sizes', r'). length sizes' = length sizes \<and> (\<forall>s \<in> set sizes'. unat s \<le> 12) \<and> reader_ok S 32 r')"
  using assms(2,3)
proof (induction "is" arbitrary: sizes r)
  case (Cons i "is")
  show ?case
    unfolding read_clen_sizes.simps
  proof (rule guarded_or_false [OF get_bits_ok [OF assms(1) Cons.prems(1)]], goal_cases)
    case (3 br)
    obtain b r' where br: "br = (b, r')" by fastforce
    have "unat b < 8" using 3 br by simp
    then have "unat (ucast b :: byte) \<le> 12" by (simp only: unat_ucast_byte)
    then have "\<forall>s \<in> set (sizes[i := ucast b]). unat s \<le> 12"
      using Cons.prems(2) set_update_subset_insert [of sizes i "ucast b"] by blast
    then show ?case using Cons.IH [of r' "sizes[i := ucast b]"] 3 br by simp
  qed simp_all
qed simp

lemma read_repeat_ok:
  assumes "source_ok S" and "reader_ok S 32 r" and "cur_code \<le> length sizes" and "\<forall>s \<in> set sizes. unat s \<le> 12"
    and "15 < unat symbol" "unat symbol < 19"
  shows "guarded (zsrc_debug S) (read_repeat S symbol cur_code sizes r)
    (\<lambda>((n, sz), r'). 0 < n \<and> unat sz \<le> 12 \<and> reader_ok S 32 r')"
proof -
  have "symbol = u32 k" if "unat symbol = k" for k using that by auto
  moreover have "unat symbol = 16 \<or> unat symbol = 17 \<or> unat symbol = 18" using assms(5,6) by auto
  ultimately consider "symbol = 16" | "symbol = 17" | "symbol = 18" by fastforce
  then show ?thesis
  proof cases
    case 1
    have "guarded (zsrc_debug S) (GET_BITS S 2 r) (\<lambda>(b, r'). reader_ok S 32 r')"
      using get_bits_ok [OF assms(1,2), of 2] by (auto elim: guarded_mono)
    then show ?thesis
      using 1 assms(3,4) by (auto simp: read_repeat_def aref_def intro!: guarded_or_false)
  next
    case 2
    have "guarded (zsrc_debug S) (GET_BITS S 3 r) (\<lambda>(b, r'). reader_ok S 32 r')"
      using get_bits_ok [OF assms(1,2), of 3] by (auto elim: guarded_mono)
    then show ?thesis using 2 by (auto simp: read_repeat_def intro!: guarded_or_false)
  next
    case 3
    have "guarded (zsrc_debug S) (GET_BITS S 7 r) (\<lambda>(b, r'). reader_ok S 32 r')"
      using get_bits_ok [OF assms(1,2), of 7] by (auto elim: guarded_mono)
    then show ?thesis using 3 by (auto simp: read_repeat_def intro!: guarded_or_false)
  qed
qed

lemma repeat_size_ok:
  assumes "cur_code + n \<le> length sizes" and "\<forall>s \<in> set sizes. unat s \<le> 12" and "unat sz \<le> 12"
  shows "\<exists>sizes'. repeat_size sz cur_code n sizes = Inr sizes' \<and> length sizes' = length sizes \<and> (\<forall>s \<in> set sizes'. unat s \<le> 12)"
  unfolding repeat_size_def
proof (rule fold_res_inv [where I = "\<lambda>xs. length xs = length sizes \<and> (\<forall>s \<in> set xs. unat s \<le> 12)"])
  fix i and xs :: "byte list" assume i: "i \<in> set [cur_code ..< cur_code + n]"
    and xs: "length xs = length sizes \<and> (\<forall>s \<in> set xs. unat s \<le> 12)"
  then show "\<exists>xs'. aset xs i sz = Inr xs' \<and> length xs' = length sizes \<and> (\<forall>s \<in> set xs'. unat s \<le> 12)"
    using assms(1,3) set_update_subset_insert [of xs i sz] by (auto simp: aset_def)
qed (use assms in simp)

text \<open>The array of code sizes is long enough, and its sizes are at most 12.\<close>

definition sizes_ok :: "byte list \<Rightarrow> bool" where
  "sizes_ok sizes \<longleftrightarrow> length sizes = 320 \<and> (\<forall>s \<in> set sizes. unat s \<le> 12)"

lemma read_code_sizes_ok:
  assumes S: "source_ok S" and t: "plain_table 19 t" and tot: "tot \<le> 320"
  shows "reader_ok S 32 r \<Longrightarrow> sizes_ok sizes \<Longrightarrow> cur \<le> tot \<Longrightarrow> tot - cur < fuel \<Longrightarrow>
    guarded (zsrc_debug S) (read_code_sizes fuel S t tot cur sizes m r)
      (\<lambda>(sizes', m', r'). sizes_ok sizes' \<and> reader_ok S 32 r')"
proof (induction fuel arbitrary: cur sizes m r)
  case (Suc fuel)
  show ?case
  proof (cases "cur < tot")
    case False
    then show ?thesis using Suc.prems by simp
  next
    case True
    obtain i where e: "table_entry t r = Inr (t ! i)" "i < FPNG_DECODER_TABLE_SIZE"
      using table_entry_ok [of t r] t by (auto simp: plain_table_def)
    let ?e = "t ! i" let ?len = "drop_bit 9 ?e" let ?sym = "?e AND 511"
    let ?k = "\<lambda>r. if ?sym \<le> 15 then
        if ?sym > FPNG_DECODER_TABLE_BITS then Inr None
        else and_then (aset sizes cur (ucast ?sym)) (\<lambda>sizes.
          read_code_sizes fuel S t tot (cur + 1) sizes (if ?sym \<noteq> 0 then minimum m ?sym else m) r)
      else
        or_false (read_repeat S ?sym cur sizes r) (\<lambda>((n, sz), r).
        if cur + n > tot then Inr None
        else and_then (repeat_size sz cur n sizes) (\<lambda>sizes. read_code_sizes fuel S t tot (cur + n) sizes m r))"
    have entry: "unat ?len \<le> 12" "unat ?sym < 19"
      using plain_entry_len [of 19 ?e] t e(2) by (simp_all add: plain_table_def)
    have "guarded (zsrc_debug S) (SKIP_BITS S ?len r) (reader_ok S 32)"
      using skip_bits_ok [OF S Suc.prems(1), of ?len] entry(1) by (auto elim: guarded_mono)
    moreover have "guarded (zsrc_debug S) (?k r') (\<lambda>(sizes', m', r'). sizes_ok sizes' \<and> reader_ok S 32 r')"
      if r': "reader_ok S 32 r'" for r'
    proof (cases "?sym \<le> 15")
      case True
      show ?thesis
      proof (cases "?sym > FPNG_DECODER_TABLE_BITS")
        case False
        then have "unat ?sym \<le> unat (12 :: u32)"
          by (simp only: FPNG_DECODER_TABLE_BITS_def not_less word_le_nat_alt)
        then have "unat (ucast ?sym :: byte) \<le> 12" using unat_ucast_byte [of ?sym] by simp
        then have "sizes_ok (sizes[cur := ucast ?sym])" "aset sizes cur (ucast ?sym) = Inr (sizes[cur := ucast ?sym])"
          using Suc.prems(2) tot \<open>cur < tot\<close> set_update_subset_insert [of sizes cur "ucast ?sym"]
          by (auto simp: sizes_ok_def aset_def)
        then show ?thesis
          using False True Suc.IH [OF r'] Suc.prems(4) \<open>cur < tot\<close> by simp
      qed (use True in simp)
    next
      case False
      have rep: "guarded (zsrc_debug S) (read_repeat S ?sym cur sizes r')
          (\<lambda>((n, sz), r'). 0 < n \<and> unat sz \<le> 12 \<and> reader_ok S 32 r')"
        using False entry(2) Suc.prems(2,3) tot r' S
        by (intro read_repeat_ok) (auto simp: sizes_ok_def word_le_nat_alt)
      show ?thesis
        unfolding if_not_P [OF False]
      proof (rule guarded_or_false [OF rep])
        fix x :: "(nat \<times> byte) \<times> bit_reader"
        assume x: "(\<lambda>((n, sz), r'). 0 < n \<and> unat sz \<le> 12 \<and> reader_ok S 32 r') x"
        obtain n sz r2 where [simp]: "x = ((n, sz), r2)" by (metis surj_pair)
        show "guarded (zsrc_debug S) ((\<lambda>((n, sz), r).
            if cur + n > tot then Inr None
            else and_then (repeat_size sz cur n sizes) (\<lambda>sizes. read_code_sizes fuel S t tot (cur + n) sizes m r)) x)
          (\<lambda>(sizes', m', r'). sizes_ok sizes' \<and> reader_ok S 32 r')"
        proof (cases "cur + n > tot")
          case False
          then obtain sizes' where "repeat_size sz cur n sizes = Inr sizes'" "sizes_ok sizes'"
            using repeat_size_ok [of cur n sizes sz] x tot Suc.prems(2) by (auto simp: sizes_ok_def)
          moreover have "0 < n" using x by simp
          then have "tot - (cur + n) < fuel" using Suc.prems(4) \<open>cur < tot\<close> by linarith
          ultimately show ?thesis using False x Suc.IH [of r2 sizes' "cur + n" m] by simp
        qed simp
      qed
    qed
    ultimately have "guarded (zsrc_debug S) (or_false (SKIP_BITS S ?len r) ?k)
        (\<lambda>(sizes', m', r'). sizes_ok sizes' \<and> reader_ok S 32 r')"
      by (rule guarded_or_false)
    moreover have "read_code_sizes (Suc fuel) S t tot cur sizes m r =
        (if ?len = 0 then Inr None else or_false (SKIP_BITS S ?len r) ?k)"
      using True by (simp only: read_code_sizes.simps e(1) and_then.simps Let_def if_True)
    ultimately show ?thesis by simp
  qed
qed simp

section \<open>The table of the literals\<close>

definition good_table :: "u32 list \<Rightarrow> bool" where
  "good_table t \<longleftrightarrow> length t = FPNG_DECODER_TABLE_SIZE \<and> (\<forall>e \<in> set t. good_entry e)"

text \<open>The entries from \<open>i\<close> on have no next symbol yet.\<close>

definition extended_to :: "nat \<Rightarrow> nat \<Rightarrow> u32 list \<Rightarrow> bool" where
  "extended_to n i t \<longleftrightarrow> good_table t \<and> (\<forall>j. i \<le> j \<longrightarrow> j < FPNG_DECODER_TABLE_SIZE \<longrightarrow> plain_entry n (t ! j))"

lemma make_entry_next:
  assumes "s < 512" and "l < 16" and "s' < 512"
  shows "make_entry s l 0 0 OR push_bit 16 (u32 s') OR push_bit (16 + 9) (u32 l') = make_entry s l s' l'"
proof -
  have "push_bit 16 (u32 s') OR push_bit (16 + 9) (u32 l') = push_bit 16 (u32 s' OR push_bit 9 (u32 l'))"
    by (simp add: push_bit_or)
  also have "\<dots> = push_bit 16 (u32 (s' + 2 ^ 9 * l'))" using or_push [of s' 9 l'] assms(3) by simp
  finally have "make_entry s l 0 0 OR push_bit 16 (u32 s') OR push_bit (16 + 9) (u32 l') =
      u32 (s + 2 ^ 9 * l) OR push_bit 16 (u32 (s' + 2 ^ 9 * l'))"
    by (simp only: or.assoc make_entry_def) simp
  then show ?thesis
    using or_push [of "s + 2 ^ 9 * l" 16 "s' + 2 ^ 9 * l'"] assms(1,2) by (simp only: make_entry_def) simp
qed

lemma add_next_symbol_ok:
  assumes t: "extended_to n i t" and i: "i < FPNG_DECODER_TABLE_SIZE" and n: "n \<le> 288"
  shows "guarded dbg (and_then (add_next_symbol dbg m i t) (\<lambda>t. Inr (Some t))) (extended_to n (Suc i))"
proof -
  have stay: "extended_to n (Suc i) t" using t by (simp add: extended_to_def)
  obtain s l where e: "t ! i = make_entry s l 0 0" "s < n" "l \<le> 12"
    using t i by (auto simp: extended_to_def plain_entry_def)
  have len: "unat (entry_len (t ! i)) = l" "entry_len (t ! i) = u32 l"
    using e n entry_fields(2) [of s l 0 0] by (auto intro: eq_u32)
  let ?j = "drop_bit l i"
  have "?j \<le> i" by (simp add: drop_bit_eq_div)
  then have j: "?j < length t" using i t by (simp add: extended_to_def good_table_def)
  then have "good_entry (t ! ?j)" using t by (simp add: extended_to_def good_table_def)
  then obtain s1 l1 s1' l1' where e1: "t ! ?j = make_entry s1 l1 s1' l1'" "s1 < 288" "s1' < 288" "l1 + l1' \<le> 12"
    by (auto simp: good_entry_def)
  have f1: "entry_sym (t ! ?j) = u32 s1" "entry_len (t ! ?j) = u32 l1"
    using e1 entry_fields(1,2) [of s1 l1 s1' l1'] by (auto intro!: eq_u32)
  show ?thesis
  proof (cases "entry_sym (t ! i) \<ge> 256 \<or> entry_len (t ! i) = 0 \<or> 12 - entry_len (t ! i) < m \<or>
      entry_len (t ! ?j) = 0 \<or> 12 - entry_len (t ! i) < entry_len (t ! ?j)")
    case True
    then show ?thesis
      using stay j len
      by (auto simp: add_next_symbol_def Let_def aref_def FPNG_DECODER_TABLE_BITS_def and_then_assoc intro: guarded_check)
  next
    case False
    have "12 - u32 l = u32 (12 - l)" using e(3) by (simp add: of_nat_diff)
    moreover have "u32 l1 \<le> 12 - u32 l" using False by (simp add: len(2) f1 not_less)
    ultimately have "u32 l1 \<le> u32 (12 - l)" by (simp only:)
    then have "l1 \<le> 12 - l" using e1(4) e(3) by (subst (asm) u32_le) simp_all
    then have new: "good_entry (make_entry s l s1 l1)"
      unfolding good_entry_def using e n e1(2)
      by (intro exI [of _ s] exI [of _ l] exI [of _ s1] exI [of _ l1]) simp
    have "t ! i OR push_bit 16 (entry_sym (t ! ?j)) OR push_bit (16 + 9) (entry_len (t ! ?j)) = make_entry s l s1 l1"
      using make_entry_next [of s l s1 l1] e n e1(2) by (simp only: e(1) f1)
    moreover have "extended_to n (Suc i) (t[i := make_entry s l s1 l1])"
      using t new set_update_subset_insert [of t i "make_entry s l s1 l1"]
      by (auto simp: extended_to_def good_table_def)
    ultimately show ?thesis
      using False j len
      by (auto simp: add_next_symbol_def Let_def aref_def FPNG_DECODER_TABLE_BITS_def and_then_assoc intro!: guarded_check)
  qed
qed

lemma fold_res_upt_inv:
  assumes "I 0 s" and "\<And>i s. i < n \<Longrightarrow> I i s \<Longrightarrow> guarded dbg (and_then (f i s) (\<lambda>s. Inr (Some s))) (I (Suc i))"
  shows "guarded dbg (and_then (fold_res f [0 ..< n] s) (\<lambda>s. Inr (Some s))) (I n)"
  using assms
proof (induction n)
  case (Suc n)
  have "guarded dbg (and_then (fold_res f [0 ..< n] s) (\<lambda>s. Inr (Some s))) (I n)"
    using Suc.prems by (intro Suc.IH) simp_all
  then show ?case
    using Suc.prems(2) [of n] by (cases "fold_res f [0 ..< n] s") (auto simp: fold_res_append and_then_assoc)
qed simp

lemma add_next_symbols_ok:
  assumes "plain_table n t" and "n \<le> 288"
  shows "guarded dbg (and_then (fold_res (add_next_symbol dbg m) [0 ..< FPNG_DECODER_TABLE_SIZE] t) (\<lambda>t. Inr (Some t)))
    good_table"
proof (rule guarded_mono [OF fold_res_upt_inv [where I = "extended_to n"]])
  show "extended_to n 0 t"
    using assms plain_good by (auto simp: extended_to_def plain_table_def good_table_def)
qed (use add_next_symbol_ok assms(2) in \<open>auto simp: extended_to_def\<close>)

lemma guarded_or_false_pair:
  "guarded dbg r (\<lambda>(x, y). P x y) \<Longrightarrow> (\<And>x y. P x y \<Longrightarrow> guarded dbg (f (x, y)) Q) \<Longrightarrow> guarded dbg (or_false r f) Q"
  by (erule guarded_or_false) auto

lemma and_then_guarded:
  "guarded dbg (and_then r (\<lambda>s. Inr (Some s))) P \<Longrightarrow> (\<And>s. P s \<Longrightarrow> guarded dbg (f s) Q) \<Longrightarrow> guarded dbg (and_then r f) Q"
  by (cases r) simp_all

lemma read_all_sizes_ok:
  assumes S: "source_ok S" and r: "reader_ok S 32 r" and tot: "tot \<le> 320"
  shows "guarded (zsrc_debug S) (read_all_sizes S n tot r) (\<lambda>(sizes, m, r'). sizes_ok sizes \<and> reader_ok S 32 r')"
  unfolding read_all_sizes_def
proof (rule guarded_or_false_pair)
  show "guarded (zsrc_debug S) (read_clen_sizes S (take n s_bit_length_order) (replicate DEFL_MAX_HUFF_SYMBOLS_2 0) r)
      (\<lambda>(sizes, r'). length sizes = 19 \<and> (\<forall>s \<in> set sizes. unat s \<le> 12) \<and> reader_ok S 32 r')"
    using read_clen_sizes_ok [OF S r, of "replicate DEFL_MAX_HUFF_SYMBOLS_2 0" "take n s_bit_length_order"]
    by (auto elim!: guarded_mono simp: DEFL_MAX_HUFF_SYMBOLS_2_def)
next
  fix clen_sizes :: "byte list" and r'
  assume clen: "length clen_sizes = 19 \<and> (\<forall>s \<in> set clen_sizes. unat s \<le> 12) \<and> reader_ok S 32 r'"
  have "guarded (zsrc_debug S) (build_decoder_table (zsrc_debug S) clen_sizes) (plain_table 19)"
    using build_table_ok [of clen_sizes] clen by simp
  moreover have "guarded (zsrc_debug S)
      (read_code_sizes (Suc tot) S t tot 0 (replicate (DEFL_MAX_HUFF_SYMBOLS_0 + DEFL_MAX_HUFF_SYMBOLS_1) 0) 15 r')
      (\<lambda>(sizes, m, r'). sizes_ok sizes \<and> reader_ok S 32 r')" if "plain_table 19 t" for t
    using clen
    by (intro read_code_sizes_ok [OF S that tot]) (simp_all add: sizes_ok_def DEFL_MAX_HUFF_SYMBOLS_0_def DEFL_MAX_HUFF_SYMBOLS_1_def)
  ultimately show "guarded (zsrc_debug S)
      (case (clen_sizes, r') of (clen_codesizes, r) \<Rightarrow>
        or_false (build_decoder_table (zsrc_debug S) clen_codesizes) (\<lambda>clen_table.
        read_code_sizes (Suc tot) S clen_table tot 0 (replicate (DEFL_MAX_HUFF_SYMBOLS_0 + DEFL_MAX_HUFF_SYMBOLS_1) 0) 15 r))
      (\<lambda>(sizes, m, r'). sizes_ok sizes \<and> reader_ok S 32 r')"
    unfolding prod.case by (rule guarded_or_false)
qed

lemma build_lit_table_ok:
  assumes "\<forall>s \<in> set sizes. unat s \<le> 12" and "0 < length sizes" "length sizes \<le> 288"
  shows "guarded dbg (build_lit_table dbg sizes m) good_table"
  unfolding build_lit_table_def
  by (rule guarded_or_false [OF build_table_ok [OF assms]]) (rule add_next_symbols_ok [OF _ assms(3)])

lemma prepare_ok:
  assumes S: "source_ok S" and r: "reader_ok S 32 r"
  shows "guarded (zsrc_debug S) (prepare_dynamic_block S c r) (\<lambda>(t, r'). good_table t \<and> reader_ok S 32 r')"
proof -
  have get: "guarded (zsrc_debug S) (GET_BITS S l r) (\<lambda>(b, r'). reader_ok S 32 r' \<and> unat b < 2 ^ unat l)"
    if "reader_ok S 32 r" "unat l \<le> 16" for l r
    using get_bits_ok [OF S that(1), of l] that(2) by (auto elim: guarded_mono)
  have tables: "guarded (zsrc_debug S)
      (if \<not> distance_codes_ok c lit dist sizes then Inr None
       else or_false (build_lit_table (zsrc_debug S) (take lit sizes) m) (\<lambda>t. Inr (Some (t, r'))))
      (\<lambda>(t, r'). good_table t \<and> reader_ok S 32 r')"
    if "sizes_ok sizes" "reader_ok S 32 r'" "0 < lit" "lit \<le> 288" for lit dist sizes m r'
  proof -
    have "guarded (zsrc_debug S) (build_lit_table (zsrc_debug S) (take lit sizes) m) good_table"
      using that by (intro build_lit_table_ok) (auto simp: sizes_ok_def dest: in_set_takeD)
    then show ?thesis using that(2) by (auto intro: guarded_or_false)
  qed
  have codes: "guarded (zsrc_debug S)
      (or_false (read_all_sizes S n tot r) (\<lambda>(code_sizes, min_code_size, r).
       if \<not> distance_codes_ok c lit dist code_sizes then Inr None
       else or_false (build_lit_table (zsrc_debug S) (take lit code_sizes) min_code_size) (\<lambda>t. Inr (Some (t, r)))))
      (\<lambda>(t, r'). good_table t \<and> reader_ok S 32 r')"
    if "reader_ok S 32 r" "tot \<le> 320" "0 < lit" "lit \<le> 288" for n tot lit dist r
    using tables that(3,4) by (intro guarded_or_false [OF read_all_sizes_ok [OF S that(1,2)]]) auto
  show ?thesis
    unfolding prepare_dynamic_block_def Let_def
    using r
    by (intro guarded_or_false_pair [OF get])
      (auto simp: DEFL_MAX_HUFF_SYMBOLS_0_def DEFL_MAX_HUFF_SYMBOLS_1_def intro!: guarded_or_false_pair [OF get] codes)
qed

end
