(* ===== verification/Fpng_Inflate_Safety.thy ===== *)
theory Fpng_Inflate_Safety
  imports Fpng_Table_Safety
begin

text \<open>
  On any input the decompressors of dynamic blocks stay inside the source and the image, and end: the
  writes of pixels and matches stay inside their scanline, the table lookups inside the table, and every
  round of the loop over the pixels takes at least one bit of the source.
\<close>

section \<open>Writing pixels\<close>

definition line_ok :: "scanline \<Rightarrow> nat \<Rightarrow> bool" where
  "line_ok L len \<longleftrightarrow>
    (line_comps L = 3 \<or> line_comps L = 4) \<and> line_comps L dvd line_bpl L \<and> pCur_scanline L + line_bpl L \<le> len \<and>
    (\<forall>p. pPrev_scanline L = Some p \<longrightarrow> p + line_bpl L \<le> len)"

lemma comp_step: "line_ok L len \<Longrightarrow> comp_step L = line_comps L"
  by (auto simp: line_ok_def comp_step_def)

lemma pixel_fits:
  assumes "line_ok L len" and "x < line_bpl L" and "line_comps L dvd x"
  shows "x + line_comps L \<le> line_bpl L"
proof -
  obtain a b where "line_bpl L = line_comps L * a" "x = line_comps L * b"
    using assms(1,3) by (auto simp: line_ok_def dvd_def)
  moreover from this assms(2) have "b + 1 \<le> a" by simp
  then have "line_comps L * (b + 1) \<le> line_comps L * a" by (rule mult_le_mono2)
  ultimately show ?thesis by simp
qed

lemma add_above_ok:
  assumes "line_ok L (length img)" and "x + length lits \<le> line_bpl L"
  shows "\<exists>px. add_above L x lits img = Inr px \<and> length px = length lits"
proof (cases "pPrev_scanline L")
  case (Some p)
  then have "p + x + length lits \<le> length img" using assms by (auto simp: line_ok_def)
  then show ?thesis using Some by (simp add: add_above_def peek_def)
qed (simp add: add_above_def)

lemma put_pixel_3_ok:
  assumes "line_ok L (length img)" and "x < line_bpl L" and "line_comps L dvd x" and "length lits = 3"
  shows "\<exists>img'. put_pixel_3 L x lits img = Inr img' \<and> length img' = length img"
proof -
  have fits: "x + line_comps L \<le> line_bpl L" using assms(1-3) by (rule pixel_fits)
  then have "x + length lits \<le> line_bpl L" using assms(1,4) by (auto simp: line_ok_def)
  then obtain px where px: "add_above L x lits img = Inr px" "length px = 3" using add_above_ok assms by metis
  have "pCur_scanline L + x + line_comps L \<le> length img" using fits assms(1) by (auto simp: line_ok_def)
  moreover have "length (if line_comps L = 4 then px @ [0xFF] else px) = line_comps L"
    using px(2) assms(1) by (auto simp: line_ok_def)
  ultimately show ?thesis by (simp add: put_pixel_3_def px(1) poke_def del: length_append if_split)
qed

lemma put_pixel_4_ok:
  assumes "line_ok L (length img)" and "x < line_bpl L" and "line_comps L dvd x" and "length lits = 4"
  shows "\<exists>img'. put_pixel_4 L x lits img = Inr img' \<and> length img' = length img"
proof -
  have fits: "x + line_comps L \<le> line_bpl L" using assms(1-3) by (rule pixel_fits)
  let ?lits = "if line_comps L = 3 then take 3 lits else lits"
  have len: "length ?lits = line_comps L" using assms(1,4) by (auto simp: line_ok_def)
  then obtain px where px: "add_above L x ?lits img = Inr px" "length px = line_comps L"
    using add_above_ok [of L img x ?lits] fits assms(1) by metis
  have "pCur_scanline L + x + line_comps L \<le> length img" using fits assms(1) by (auto simp: line_ok_def)
  then show ?thesis by (simp add: put_pixel_4_def px poke_def del: if_split)
qed

text \<open>A function that writes a pixel anywhere in the scanline.\<close>

definition puts_pixels :: "(nat \<Rightarrow> byte list \<Rightarrow> byte list res) \<Rightarrow> scanline \<Rightarrow> nat \<Rightarrow> bool" where
  "puts_pixels put L len \<longleftrightarrow> (\<forall>x img. length img = len \<longrightarrow> x < line_bpl L \<longrightarrow> line_comps L dvd x \<longrightarrow>
    (\<exists>img'. put x img = Inr img' \<and> length img' = len))"

lemma repeat_pixel_ok:
  assumes L: "line_ok L len" and put: "puts_pixels put L len" and x_end: "x_end \<le> line_bpl L"
  shows "length img = len \<Longrightarrow> x < line_bpl L \<Longrightarrow> line_comps L dvd x \<Longrightarrow>
    \<exists>x' img'. repeat_pixel put L x_end x img = Inr (x', img') \<and> length img' = len \<and> x' \<le> line_bpl L \<and> line_comps L dvd x'"
proof (induction "x_end - x" arbitrary: x img rule: less_induct)
  case less
  obtain img1 where img1: "put x img = Inr img1" "length img1 = len"
    using put less.prems by (auto simp: puts_pixels_def)
  have next_x: "x + line_comps L \<le> line_bpl L" "line_comps L dvd x + line_comps L" "0 < line_comps L"
    using pixel_fits [OF L less.prems(2,3)] less.prems(3) L by (auto simp: line_ok_def)
  show ?case
  proof (cases "x + line_comps L < x_end")
    case True
    then show ?thesis
      using less.hyps [of "x + line_comps L" img1] next_x img1 x_end comp_step [OF L]
      by (subst repeat_pixel.simps) (simp add: Let_def)
  next
    case False
    then show ?thesis
      using next_x img1 comp_step [OF L] by (subst repeat_pixel.simps) (simp add: Let_def)
  qed
qed

lemma copy_run_ok:
  assumes L: "line_ok L len" and put: "puts_pixels put L len" and x: "x < line_bpl L" "line_comps L dvd x"
    and x_end: "x \<le> x_end" "x_end \<le> line_bpl L" "line_comps L dvd x_end" and img: "length img = len"
  shows "\<exists>x' img'. copy_run put delta L x_end x img = Inr (x', img') \<and> length img' = len \<and> x' \<le> line_bpl L \<and> line_comps L dvd x'"
proof -
  note rep = repeat_pixel_ok [OF L put x_end(2) img x]
  show ?thesis
  proof (cases "pPrev_scanline L")
    case (Some p)
    have "p + x + (x_end - x) \<le> length img" "pCur_scanline L + x + (x_end - x) \<le> length img"
      using L Some x_end img by (auto simp: line_ok_def)
    then have "\<exists>above. peek (p + x) (x_end - x) img = Inr above \<and>
        (\<exists>img'. poke (pCur_scanline L + x) above img = Inr img' \<and> length img' = len)"
      using img by (auto simp: peek_def poke_def)
    then show ?thesis using Some rep x_end by (auto simp: copy_run_def)
  qed (use rep in \<open>simp add: copy_run_def\<close>)
qed

section \<open>Reading symbols\<close>

lemma good_entry_fields:
  assumes "good_entry e"
  shows "unat (entry_sym e) < 288" "unat (next_sym e) < 288" "unat (entry_len e) + unat (next_len e) \<le> 12"
proof -
  obtain s l s' l' where "e = make_entry s l s' l'" "s < 288" "s' < 288" "l + l' \<le> 12"
    using assms by (auto simp: good_entry_def)
  then show "unat (entry_sym e) < 288" "unat (next_sym e) < 288" "unat (entry_len e) + unat (next_len e) \<le> 12"
    using entry_fields [of s l s' l'] by simp_all
qed

lemma look_up_ok:
  assumes "good_table t"
  shows "guarded (zsrc_debug S) (look_up S t r) (\<lambda>e. good_entry e \<and> 0 < unat (entry_len e))"
proof -
  obtain i where "i < FPNG_DECODER_TABLE_SIZE" "table_entry t r = Inr (t ! i)"
    using table_entry_ok [of t r] assms by (auto simp: good_table_def)
  then show ?thesis
    using assms unfolding look_up_def by (intro guarded_check) (auto simp: good_table_def unat_gt_0)
qed

text \<open>The literals leave a reader with 20 bits and a length of at most 12 to skip.\<close>

lemma third_literal_ok:
  assumes t: "good_table t" and e: "good_entry lit1"
  shows "guarded (zsrc_debug S) (third_literal S t lit1 r)
    (\<lambda>(lit2, l). unat l \<le> 12 \<and> unat l + unat (next_len lit2) \<le> 12)"
proof (cases "next_len lit1 = 0")
  case True
  then show ?thesis
    using good_entry_fields(3) by (auto simp: third_literal_def intro!: guarded_or_false [OF look_up_ok [OF t]])
       (fastforce dest: good_entry_fields(3))+
next
  case False
  have "unat lit1 div 2 ^ 16 div 2 ^ (16 + 9) = 0"
    using unat_u32_less [of lit1] by (simp add: div_eq_0_iff flip: div_mult2_eq)
  then have "next_len (drop_bit 16 lit1) = 0" by (simp only: next_len_def unat_drop_bit_mod flip: unat_eq_0)
  then show ?thesis using False good_entry_fields(3) [OF e] by (simp add: third_literal_def)
qed

lemma skip_ne:
  assumes "reader_ok S lo r" and "unat l \<le> 12" and "lo' + 12 \<le> lo"
  shows "guarded (zsrc_debug S) (SKIP_BITS_NE S l r) (\<lambda>r'. reader_ok S lo' r' \<and> avail S r' \<le> avail S r)"
  using skip_bits_ne_ok [OF assms(1), of l] assms(2,3) by (auto elim!: guarded_mono intro: reader_ok_mono)

lemma skip:
  assumes "source_ok S" and "reader_ok S lo r" and "unat l \<le> 12" and "12 \<le> lo"
  shows "guarded (zsrc_debug S) (SKIP_BITS S l r) (\<lambda>r'. reader_ok S 32 r' \<and> avail S r' \<le> avail S r)"
  using skip_bits_ok [OF assms(1,2), of l] assms(3,4) by (auto elim!: guarded_mono)

lemma read_literals_ok:
  assumes t: "good_table t" and r: "reader_ok S 32 r" and e: "good_entry lit0_tab"
  shows "guarded (zsrc_debug S) (read_literals S t lit0_tab r)
    (\<lambda>(lit1, lit2, l, r'). unat l \<le> 12 \<and> unat l + unat (next_len lit2) \<le> 12 \<and> reader_ok S 20 r' \<and> avail S r' \<le> avail S r)"
proof (cases "next_len lit0_tab = 0")
  case True
  show ?thesis
    unfolding read_literals_def Let_def
    using True t
    by (auto intro!: guarded_or_false [OF look_up_ok] guarded_or_false [OF skip_ne [OF r, of _ 20]]
        guarded_or_false_pair [OF third_literal_ok] dest: good_entry_fields(3))
next
  case False
  show ?thesis
    unfolding read_literals_def Let_def
    using False t good_entry_fields(3) [OF e]
    by (auto intro!: guarded_or_false [OF look_up_ok] guarded_or_false [OF skip_ne [OF r, of _ 20]]
        dest!: good_entry_fields(3))
qed

section \<open>A round of the loop\<close>

text \<open>At most \<open>a\<close> bits are left.\<close>

definition px_ok :: "bit_source \<Rightarrow> scanline \<Rightarrow> nat \<Rightarrow> nat \<Rightarrow> nat \<Rightarrow> pixel_state \<Rightarrow> bool" where
  "px_ok S L chans len a s \<longleftrightarrow>
    reader_ok S 20 (px_reader s) \<and> avail S (px_reader s) \<le> a \<and> px_x_ofs s \<le> line_bpl L \<and> line_comps L dvd px_x_ofs s \<and>
    length (px_delta s) = chans \<and> length (px_img s) = len"

lemma px_ok_intro:
  "reader_ok S lo r \<Longrightarrow> 20 \<le> lo \<Longrightarrow> avail S r \<le> a \<Longrightarrow> x \<le> line_bpl L \<Longrightarrow> line_comps L dvd x \<Longrightarrow>
    length d = chans \<Longrightarrow> length img = len \<Longrightarrow>
    px_ok S L chans len a \<lparr>px_reader = r, px_x_ofs = x, px_delta = d, px_img = img\<rparr>"
  by (simp add: px_ok_def reader_ok_mono)

lemma emit_pixel_3_ok:
  assumes L: "line_ok L len" and s: "px_ok S L 3 len a s" "px_x_ofs s < line_bpl L"
    and r: "reader_ok S 20 r" "avail S r \<le> a"
  shows "guarded (zsrc_debug S) (emit_pixel_3 L lit0 lit1 lit2 r s)
    (\<lambda>s'. px_ok S L 3 len a s' \<and> px_reader s' = r)"
proof -
  let ?lits = "[ucast lit0, ucast lit1, ucast lit2] :: byte list"
  obtain img where "put_pixel_3 L (px_x_ofs s) ?lits (px_img s) = Inr img" "length img = len"
    using put_pixel_3_ok [of L "px_img s" "px_x_ofs s" ?lits] L s by (auto simp: px_ok_def)
  then show ?thesis
    using pixel_fits [OF L s(2)] s(1) r comp_step [OF L] by (auto simp: emit_pixel_3_def px_ok_def Let_def)
qed

lemma emit_pixel_4_ok:
  assumes L: "line_ok L len" and s: "px_ok S L 4 len a s" "px_x_ofs s < line_bpl L"
    and r: "reader_ok S 20 r" "avail S r \<le> a"
  shows "guarded (zsrc_debug S) (emit_pixel_4 L lit0 lit1 lit2 lit3 r s)
    (\<lambda>s'. px_ok S L 4 len a s' \<and> px_reader s' = r)"
proof -
  let ?lits = "[ucast lit0, ucast lit1, ucast lit2, ucast lit3] :: byte list"
  obtain img where "put_pixel_4 L (px_x_ofs s) ?lits (px_img s) = Inr img" "length img = len"
    using put_pixel_4_ok [of L "px_img s" "px_x_ofs s" ?lits] L s by (auto simp: px_ok_def)
  then show ?thesis
    using pixel_fits [OF L s(2)] s(1) r comp_step [OF L] by (auto simp: emit_pixel_4_def px_ok_def Let_def)
qed

text \<open>The length of a match is at most 258, and a symbol behind the literals has an entry in the tables.\<close>

lemma length_tables_values:
  "\<forall>i \<in> set [0 ..< 31]. s_length_range ! i + 2 ^ (s_length_extra ! i) \<le> 259 \<and> s_length_extra ! i \<le> 5"
  by (simp add: upt_rec s_length_range_def s_length_extra_def)

lemma read_run_len_ok:
  assumes r: "reader_ok S 32 r" and sym: "256 \<le> unat lit0" "unat lit0 < 288"
  shows "guarded (zsrc_debug S) (read_run_len S lit0 r)
    (\<lambda>(n, r'). n \<le> 258 \<and> reader_ok S 20 r' \<and> avail S r' \<le> avail S r)"
proof (cases "lit0 = 256")
  case False
  then have "unat lit0 \<noteq> 256" by (metis eq_u32 of_nat_numeral)
  then have i: "unat lit0 - 257 < 31" using sym by simp
  let ?i = "unat lit0 - 257"
  have tab: "s_length_range ! ?i + 2 ^ (s_length_extra ! ?i) \<le> 259" "s_length_extra ! ?i \<le> 5"
    using length_tables_values i by auto
  have plain_len: "s_length_range ! ?i \<le> 258" using tab(1) one_le_power [of "2 :: nat" "s_length_extra ! ?i"] by linarith
  have refs: "aref s_length_range ?i = Inr (s_length_range ! ?i)" "aref s_length_extra ?i = Inr (s_length_extra ! ?i)"
    using i by (simp_all add: aref_def)
  let ?l = "u32 (s_length_extra ! ?i)"
  have l: "unat ?l = s_length_extra ! ?i" using tab(2) by (simp add: u32_unat)
  have "guarded (zsrc_debug S) (GET_BITS_NE S ?l r)
      (\<lambda>(b, r'). reader_ok S 27 r' \<and> avail S r' \<le> avail S r \<and> unat b < 2 ^ (s_length_extra ! ?i))"
    using get_bits_ne_ok [OF r, of ?l] l tab(2) by (auto elim!: guarded_mono intro: reader_ok_mono)
  then have "guarded (zsrc_debug S)
      (if lit0 \<ge> 265 then or_false (GET_BITS_NE S ?l r) (\<lambda>(e, r). Inr (Some (s_length_range ! ?i + unat e, r)))
       else Inr (Some (s_length_range ! ?i, r)))
      (\<lambda>(n, r'). n \<le> 258 \<and> reader_ok S 27 r' \<and> avail S r' \<le> avail S r)"
    using tab r plain_len
    by (auto intro!: guarded_or_false reader_ok_mono [of S 32] split: prod.splits)
  then show ?thesis
    unfolding read_run_len_def refs and_then.simps if_not_P [OF False]
  proof (rule guarded_or_false_pair)
    fix n :: nat and r' assume n: "n \<le> 258 \<and> reader_ok S 27 r' \<and> avail S r' \<le> avail S r"
    then have "guarded (zsrc_debug S) (SKIP_BITS_NE S 1 r') (\<lambda>r'. reader_ok S 20 r' \<and> avail S r' \<le> avail S r)"
      using skip_bits_ne_ok [of S 27 r' 1] by (auto elim!: guarded_mono intro: reader_ok_mono)
    then show "guarded (zsrc_debug S) (case (n, r') of (n, r) \<Rightarrow> or_false (SKIP_BITS_NE S 1 r) (\<lambda>r. Inr (Some (n, r))))
        (\<lambda>(n, r'). n \<le> 258 \<and> reader_ok S 20 r' \<and> avail S r' \<le> avail S r)"
      using n by (auto intro: guarded_or_false)
  qed
qed (simp add: read_run_len_def)

lemma run_len3_to_4: "g_run_len3_to_4 = map (\<lambda>n. if n mod 3 = 0 then n div 3 * 4 else 0) [0 ..< 259]"
  by code_simp

lemma run_len4:
  assumes "n \<le> 258"
  shows "aref g_run_len3_to_4 n = Inr (g_run_len3_to_4 ! n)" "4 dvd g_run_len3_to_4 ! n"
    "g_run_len3_to_4 ! n \<noteq> 0 \<Longrightarrow> 3 dvd n"
  using assms by (auto simp: aref_def run_len3_to_4 split: if_splits)

lemma puts_pixels_3: "line_ok L len \<Longrightarrow> length d = 3 \<Longrightarrow> puts_pixels (\<lambda>x. put_pixel_3 L x d) L len"
  using put_pixel_3_ok by (auto simp: puts_pixels_def)

lemma puts_pixels_4: "line_ok L len \<Longrightarrow> length d = 4 \<Longrightarrow> puts_pixels (\<lambda>x. put_pixel_4 L x d) L len"
  using put_pixel_4_ok by (auto simp: puts_pixels_def)

lemma match_3_ok:
  assumes L: "line_ok L len" and s: "px_ok S L 3 len a s" "px_x_ofs s < line_bpl L" and r: "reader_ok S 32 (px_reader s)"
    and sym: "256 \<le> unat (e AND 511)" "unat (e AND 511) < 288"
  shows "guarded (zsrc_debug S) (match_3 S L e s) (px_ok S L 3 len a)"
  unfolding match_3_def
proof (rule guarded_or_false_pair [OF read_run_len_ok [OF r sym]], unfold prod.case, rule guarded_check)
  fix n :: nat and r' assume n: "n \<le> 258 \<and> reader_ok S 20 r' \<and> avail S r' \<le> avail S (px_reader s)"
  note run = run_len4 [of n]
  let ?x = "px_x_ofs s" let ?stop = "?x + (if line_comps L = 4 then g_run_len3_to_4 ! n else n)"
  have "guarded (zsrc_debug S)
      (if g_run_len3_to_4 ! n = 0 then Inr None
       else if ?stop > line_bpl L then Inr None
       else and_then (copy_run (\<lambda>x. put_pixel_3 L x (px_delta s)) (px_delta s) L ?stop ?x (px_img s)) (\<lambda>(x_ofs, img).
         Inr (Some (s\<lparr>px_reader := r', px_x_ofs := x_ofs, px_img := img\<rparr>))))
      (px_ok S L 3 len a)"
  proof (cases "g_run_len3_to_4 ! n = 0 \<or> ?stop > line_bpl L")
    case False
    then have "line_comps L dvd ?stop" using run n s(1) L by (auto simp: px_ok_def line_ok_def)
    then obtain x' img' where "copy_run (\<lambda>x. put_pixel_3 L x (px_delta s)) (px_delta s) L ?stop ?x (px_img s) = Inr (x', img')"
        "length img' = len" "x' \<le> line_bpl L" "line_comps L dvd x'"
      using copy_run_ok [OF L puts_pixels_3 [OF L, of "px_delta s"] s(2), of ?stop "px_img s" "px_delta s"] s(1) False
      by (auto simp: px_ok_def)
    then show ?thesis using False n s(1) by (auto simp: px_ok_def)
  qed auto
  then show "guarded (zsrc_debug S)
      (and_then (aref g_run_len3_to_4 n) (\<lambda>run_len4.
       let x_ofs = ?x; x_ofs_end = x_ofs + (if line_comps L = 4 then run_len4 else n) in
       if run_len4 = 0 then Inr None
       else if x_ofs_end > line_bpl L then Inr None
       else and_then (copy_run (\<lambda>x. put_pixel_3 L x (px_delta s)) (px_delta s) L x_ofs_end x_ofs (px_img s)) (\<lambda>(x_ofs, img).
         Inr (Some (s\<lparr>px_reader := r', px_x_ofs := x_ofs, px_img := img\<rparr>)))))
      (px_ok S L 3 len a)"
    using run(1) n by (simp only: Let_def and_then.simps)
qed

lemma match_4_ok:
  assumes L: "line_ok L len" and s: "px_ok S L 4 len a s" "px_x_ofs s < line_bpl L" and r: "reader_ok S 32 (px_reader s)"
    and sym: "256 \<le> unat (e AND 511)" "unat (e AND 511) < 288"
  shows "guarded (zsrc_debug S) (match_4 S L e s) (px_ok S L 4 len a)"
  unfolding match_4_def
proof (rule guarded_or_false_pair [OF read_run_len_ok [OF r sym]], unfold prod.case)
  fix n :: nat and r' assume n: "n \<le> 258 \<and> reader_ok S 20 r' \<and> avail S r' \<le> avail S (px_reader s)"
  let ?x = "px_x_ofs s" let ?stop = "?x + (if line_comps L = 3 then (n div 4) * 3 else n)"
  show "guarded (zsrc_debug S)
      (if n mod 4 \<noteq> 0 then Inr None
       else
         (let x_ofs = ?x; x_ofs_end = x_ofs + (if line_comps L = 3 then (n div 4) * 3 else n) in
          if x_ofs_end > line_bpl L then Inr None
          else and_then (copy_run (\<lambda>x. put_pixel_4 L x (px_delta s)) (px_delta s) L x_ofs_end x_ofs (px_img s)) (\<lambda>(x_ofs, img).
            Inr (Some (s\<lparr>px_reader := r', px_x_ofs := x_ofs, px_img := img\<rparr>)))))
      (px_ok S L 4 len a)"
  proof (cases "n mod 4 \<noteq> 0 \<or> ?stop > line_bpl L")
    case False
    then have "line_comps L dvd ?stop" using s(1) L by (auto simp: px_ok_def line_ok_def)
    then obtain x' img' where "copy_run (\<lambda>x. put_pixel_4 L x (px_delta s)) (px_delta s) L ?stop ?x (px_img s) = Inr (x', img')"
        "length img' = len" "x' \<le> line_bpl L" "line_comps L dvd x'"
      using copy_run_ok [OF L puts_pixels_4 [OF L, of "px_delta s"] s(2), of ?stop "px_img s" "px_delta s"] s(1) False
      by (auto simp: px_ok_def)
    then show ?thesis using False n s(1) by (auto simp: px_ok_def Let_def)
  qed (auto simp: Let_def)
qed

lemma px_ok_reader: "px_ok S L c len a s \<Longrightarrow> reader_ok S 20 r \<Longrightarrow> avail S r \<le> b \<Longrightarrow> px_ok S L c len b (s\<lparr>px_reader := r\<rparr>)"
  by (simp add: px_ok_def)

lemma speculative_pixel_3_ok:
  assumes S: "source_ok S" and t: "good_table t" and L: "line_ok L len"
    and s: "px_ok S L 3 len a s" "reader_ok S 32 (px_reader s)" and e: "unat (next_len lit2) \<le> 12"
  shows "guarded (zsrc_debug S) (speculative_pixel_3 S t L lit2 s) (px_ok S L 3 len a)"
proof (cases "next_len lit2 \<noteq> 0 \<and> px_x_ofs s < line_bpl L \<and> next_sym lit2 < 256")
  case True
  have x: "px_x_ofs s < line_bpl L" using True by simp
  have a: "avail S (px_reader s) \<le> a" using s(1) by (simp add: px_ok_def)
  have third: "guarded (zsrc_debug S)
      (or_false (third_literal S t lit1 r) (\<lambda>(lit2, lit2_len).
       or_false (SKIP_BITS_NE S lit2_len r) (\<lambda>r. emit_pixel_3 L lit0 lit1 lit2 r s))) (px_ok S L 3 len a)"
    if "good_entry lit1" "reader_ok S 32 r" "avail S r \<le> a" for lit0 lit1 r
  proof (rule guarded_or_false_pair [OF third_literal_ok [OF t that(1)]], unfold prod.case)
    fix lit2 l :: u32 assume "unat l \<le> 12 \<and> unat l + unat (next_len lit2) \<le> 12"
    then have "guarded (zsrc_debug S) (SKIP_BITS_NE S l r) (\<lambda>r'. reader_ok S 20 r' \<and> avail S r' \<le> a)"
      using skip_ne [OF that(2), of l 20] that(3) by (auto elim: guarded_mono)
    then show "guarded (zsrc_debug S) (or_false (SKIP_BITS_NE S l r) (\<lambda>r. emit_pixel_3 L lit0 lit1 lit2 r s)) (px_ok S L 3 len a)"
      by (rule guarded_or_false) (auto intro!: guarded_mono [OF emit_pixel_3_ok [OF L s(1) x]])
  qed
  have second: "guarded (zsrc_debug S)
      (or_false (SKIP_BITS S (entry_len lit1) r) (\<lambda>r.
       or_false (third_literal S t lit1 r) (\<lambda>(lit2, lit2_len).
       or_false (SKIP_BITS_NE S lit2_len r) (\<lambda>r. emit_pixel_3 L lit0 lit1 lit2 r s)))) (px_ok S L 3 len a)"
    if "good_entry lit1" "reader_ok S 20 r" "avail S r \<le> a" for lit0 lit1 r
  proof (rule guarded_or_false [OF skip [OF S that(2)]])
    show "unat (entry_len lit1) \<le> 12" using good_entry_fields(3) [OF that(1)] by simp
  qed (use third that in auto)
  show ?thesis
    unfolding speculative_pixel_3_def Let_def if_P [OF True]
  proof (rule guarded_or_false [OF skip_ne [OF s(2) e, of 20]])
    fix r assume "reader_ok S 20 r \<and> avail S r \<le> avail S (px_reader s)"
    then show "guarded (zsrc_debug S)
      (or_false (look_up S t r) (\<lambda>lit1.
       or_false (SKIP_BITS S (entry_len lit1) r) (\<lambda>r.
       or_false (third_literal S t lit1 r) (\<lambda>(lit2, lit2_len).
       or_false (SKIP_BITS_NE S lit2_len r) (\<lambda>r. emit_pixel_3 L (next_sym lit2') lit1 lit2 r s))))) (px_ok S L 3 len a)" for lit2'
      using second a by (intro guarded_or_false [OF look_up_ok [OF t]]) auto
  qed simp
next
  case False
  then show ?thesis using s(1) by (simp only: speculative_pixel_3_def Let_def if_False guarded_simps)
qed

lemma literals_3_ok:
  assumes S: "source_ok S" and t: "good_table t" and L: "line_ok L len" and e: "good_entry lit0_tab"
    and s: "px_ok S L 3 len a s" "px_x_ofs s < line_bpl L" "reader_ok S 32 (px_reader s)"
  shows "guarded (zsrc_debug S) (literals_3 S t L lit0_tab s) (px_ok S L 3 len a)"
  unfolding literals_3_def
proof (rule guarded_or_false [OF read_literals_ok [OF t s(3) e]], clarify)
  fix lit1 lit2 l :: u32 and r
  assume r: "unat l \<le> 12" "unat l + unat (next_len lit2) \<le> 12" "reader_ok S 20 r" "avail S r \<le> avail S (px_reader s)"
  then have "avail S r \<le> a" using s(1) by (simp add: px_ok_def)
  show "guarded (zsrc_debug S) (or_false (SKIP_BITS S l r) (\<lambda>r.
      or_false (emit_pixel_3 L lit0_tab lit1 lit2 r s) (speculative_pixel_3 S t L lit2))) (px_ok S L 3 len a)"
  proof (rule guarded_or_false [OF skip [OF S r(3,1)]])
    fix r2 assume r2: "reader_ok S 32 r2 \<and> avail S r2 \<le> avail S r"
    have "guarded (zsrc_debug S) (emit_pixel_3 L lit0_tab lit1 lit2 r2 s) (\<lambda>s'. px_ok S L 3 len a s' \<and> px_reader s' = r2)"
      using r2 \<open>avail S r \<le> a\<close> by (intro emit_pixel_3_ok [OF L s(1,2)]) (auto intro: reader_ok_mono)
    then show "guarded (zsrc_debug S) (or_false (emit_pixel_3 L lit0_tab lit1 lit2 r2 s) (speculative_pixel_3 S t L lit2))
        (px_ok S L 3 len a)"
      using r2 r(2) by (elim guarded_or_false) (auto intro!: speculative_pixel_3_ok [OF S t L])
  qed simp
qed

lemma fourth_literal_ok:
  assumes S: "source_ok S" and t: "good_table t" and r: "reader_ok S 20 r" and l: "unat l + unat (next_len lit2) \<le> 12"
  shows "guarded (zsrc_debug S) (fourth_literal S t lit2 l r) (\<lambda>(lit3, r'). reader_ok S 20 r' \<and> avail S r' \<le> avail S r)"
proof (cases "next_len lit2 = 0")
  case False
  have "unat (l + next_len lit2) = unat l + unat (next_len lit2)"
    using l by (intro unat_add_lem [THEN iffD1]) simp
  then have "guarded (zsrc_debug S) (SKIP_BITS S (l + next_len lit2) r) (\<lambda>r'. reader_ok S 20 r' \<and> avail S r' \<le> avail S r)"
    using skip [OF S r, of "l + next_len lit2"] l by (auto elim!: guarded_mono intro: reader_ok_mono)
  then show ?thesis using False by (auto simp: fourth_literal_def intro: guarded_or_false)
next
  case True
  have last: "guarded (zsrc_debug S) (or_false (SKIP_BITS_NE S (entry_len lit3) r') (\<lambda>r. Inr (Some (lit3, r))))
      (\<lambda>(lit3, r'). reader_ok S 20 r' \<and> avail S r' \<le> avail S r)"
    if "good_entry lit3" "reader_ok S 32 r'" "avail S r' \<le> avail S r" for lit3 r'
    using good_entry_fields(3) [OF that(1)] that(3) by (intro guarded_or_false [OF skip_ne [OF that(2), of _ 20]]) auto
  show ?thesis
    using True l last by (auto simp: fourth_literal_def intro!: guarded_or_false [OF skip [OF S r]] guarded_or_false [OF look_up_ok [OF t]])
qed

lemma literals_4_ok:
  assumes S: "source_ok S" and t: "good_table t" and L: "line_ok L len" and e: "good_entry lit0_tab"
    and s: "px_ok S L 4 len a s" "px_x_ofs s < line_bpl L" "reader_ok S 32 (px_reader s)"
  shows "guarded (zsrc_debug S) (literals_4 S t L lit0_tab s) (px_ok S L 4 len a)"
  unfolding literals_4_def
proof (rule guarded_or_false [OF read_literals_ok [OF t s(3) e]], clarify)
  fix lit1 lit2 l :: u32 and r
  assume r: "unat l \<le> 12" "unat l + unat (next_len lit2) \<le> 12" "reader_ok S 20 r" "avail S r \<le> avail S (px_reader s)"
  then have "avail S r \<le> a" using s(1) by (simp add: px_ok_def)
  then show "guarded (zsrc_debug S) (or_false (fourth_literal S t lit2 l r) (\<lambda>(lit3, r).
      emit_pixel_4 L lit0_tab lit1 lit2 lit3 r s)) (px_ok S L 4 len a)"
    by (intro guarded_or_false [OF fourth_literal_ok [OF S t r(3,2)]])
      (auto intro!: guarded_mono [OF emit_pixel_4_ok [OF L s(1,2)]])
qed

lemma entry_sym_bit: "(e AND 256 \<noteq> 0) = (256 \<le> unat (e AND 511))" if "unat (e AND 511) < 288" for e :: u32
proof -
  have "(e AND 256 \<noteq> 0) = bit e 8" using and_exp_eq_0_iff_not_bit [of e 8] by simp
  also have "bit e 8 = bit (unat (e AND 511)) 8" by (simp add: bit_unsigned_iff bit_and_iff)
  also have "bit (n :: nat) 8 = (256 \<le> n)" if "n < 288" for n
  proof (cases "256 \<le> n")
    case True
    then have "n div 256 = 1" using that by simp
    then show ?thesis using True by (simp add: bit_iff_odd)
  qed (simp add: bit_iff_odd)
  then have "bit (unat (e AND 511)) 8 = (256 \<le> unat (e AND 511))" using that by blast
  finally show ?thesis .
qed

text \<open>A round with \<open>a\<close> bits left leaves fewer.\<close>

lemma decode_step_ok:
  fixes k :: "u32 \<Rightarrow> pixel_state \<Rightarrow> pixel_state option res"
  assumes S: "source_ok S" and t: "good_table t" and s: "px_ok S L c len a s"
    and k: "\<And>e s. good_entry e \<Longrightarrow> px_ok S L c len (a - 1) s \<Longrightarrow> reader_ok S 32 (px_reader s) \<Longrightarrow>
      px_x_ofs s < line_bpl L \<Longrightarrow> guarded (zsrc_debug S) (k e s) (px_ok S L c len (a - 1))"
    and x: "px_x_ofs s < line_bpl L"
  shows "guarded (zsrc_debug S)
    (or_false (look_up S t (px_reader s)) (\<lambda>e.
     or_false (SKIP_BITS S (entry_len e) (px_reader s)) (\<lambda>r. k e (s\<lparr>px_reader := r\<rparr>))))
    (\<lambda>s'. 0 < a \<and> px_ok S L c len (a - 1) s')"
proof (rule guarded_or_false [OF look_up_ok [OF t]])
  fix e assume e: "good_entry e \<and> 0 < unat (entry_len e)"
  have r: "reader_ok S 20 (px_reader s)" "avail S (px_reader s) \<le> a" using s by (simp_all add: px_ok_def)
  have "guarded (zsrc_debug S) (SKIP_BITS S (entry_len e) (px_reader s))
      (\<lambda>r'. reader_ok S 32 r' \<and> avail S r' + unat (entry_len e) = avail S (px_reader s))"
    using good_entry_fields(3) [of e] e by (intro skip_bits_ok [OF S r(1)]) simp
  then show "guarded (zsrc_debug S)
      (or_false (SKIP_BITS S (entry_len e) (px_reader s)) (\<lambda>r. k e (s\<lparr>px_reader := r\<rparr>)))
      (\<lambda>s'. 0 < a \<and> px_ok S L c len (a - 1) s')"
  proof (rule guarded_or_false)
    fix r' assume r': "reader_ok S 32 r' \<and> avail S r' + unat (entry_len e) = avail S (px_reader s)"
    then have "0 < a" "avail S r' \<le> a - 1" using e r(2) by linarith+
    moreover have "reader_ok S 20 r'" using r' by (auto intro: reader_ok_mono)
    ultimately have "px_ok S L c len (a - 1) (s\<lparr>px_reader := r'\<rparr>)" using s by (simp add: px_ok_def)
    then have "guarded (zsrc_debug S) (k e (s\<lparr>px_reader := r'\<rparr>)) (px_ok S L c len (a - 1))"
      using k e r' x by simp
    then show "guarded (zsrc_debug S) (k e (s\<lparr>px_reader := r'\<rparr>)) (\<lambda>s'. 0 < a \<and> px_ok S L c len (a - 1) s')"
      using \<open>0 < a\<close> by (auto elim: guarded_mono)
  qed
qed

lemma decode_step_3_ok:
  assumes "source_ok S" and "good_table t" and "line_ok L len" and "px_ok S L 3 len a s" and "px_x_ofs s < line_bpl L"
  shows "guarded (zsrc_debug S) (decode_step_3 S t L s) (\<lambda>s'. 0 < a \<and> px_ok S L 3 len (a - 1) s')"
  unfolding decode_step_3_def Let_def
  using assms
  by (intro decode_step_ok [where k = "\<lambda>e s. if e AND 256 \<noteq> 0 then match_3 S L e s else literals_3 S t L e s"])
    (auto simp: entry_sym_bit dest: good_entry_fields(1) [unfolded entry_sym_def] intro!: match_3_ok literals_3_ok)

lemma decode_step_4_ok:
  assumes "source_ok S" and "good_table t" and "line_ok L len" and "px_ok S L 4 len a s" and "px_x_ofs s < line_bpl L"
  shows "guarded (zsrc_debug S) (decode_step_4 S t L s) (\<lambda>s'. 0 < a \<and> px_ok S L 4 len (a - 1) s')"
  unfolding decode_step_4_def Let_def
  using assms
  by (intro decode_step_ok [where k = "\<lambda>e s. if e AND 256 \<noteq> 0 then match_4 S L e s else literals_4 S t L e s"])
    (auto simp: entry_sym_bit dest: good_entry_fields(1) [unfolded entry_sym_def] intro!: match_4_ok literals_4_ok)

section \<open>The image\<close>

text \<open>A step of either decompressor.\<close>

definition step_ok ::
  "(scanline \<Rightarrow> pixel_state \<Rightarrow> pixel_state option res) \<Rightarrow> bit_source \<Rightarrow> nat \<Rightarrow> nat \<Rightarrow> bool" where
  "step_ok step S c len \<longleftrightarrow> (\<forall>L a s. line_ok L len \<longrightarrow> px_ok S L c len a s \<longrightarrow> px_x_ofs s < line_bpl L \<longrightarrow>
    guarded (zsrc_debug S) (step L s) (\<lambda>s'. 0 < a \<and> px_ok S L c len (a - 1) s'))"

lemma pixel_loop_ok:
  assumes step: "step_ok step S c len" and L: "line_ok L len"
  shows "px_ok S L c len a s \<Longrightarrow> px_x_ofs s < line_bpl L \<Longrightarrow> a < fuel \<Longrightarrow>
    guarded (zsrc_debug S) (pixel_loop fuel (step L) (line_bpl L) s) (px_ok S L c len a)"
proof (induction fuel arbitrary: a s)
  case (Suc fuel)
  have mono: "px_ok S L c len (a - 1) s' \<Longrightarrow> px_ok S L c len a s'" for s' by (auto simp: px_ok_def)
  have "guarded (zsrc_debug S) (step L s) (\<lambda>s'. 0 < a \<and> px_ok S L c len (a - 1) s')"
    using step L Suc.prems(1,2) by (simp add: step_ok_def)
  then show ?case
    unfolding pixel_loop.simps
  proof (rule guarded_or_false)
    fix s' assume s': "0 < a \<and> px_ok S L c len (a - 1) s'"
    moreover from s' have "a - 1 < fuel" using Suc.prems(3) by linarith
    ultimately have "guarded (zsrc_debug S) (pixel_loop fuel (step L) (line_bpl L) s') (px_ok S L c len a)"
      if "px_x_ofs s' < line_bpl L"
      using Suc.IH [of "a - 1" s'] that mono by (auto elim!: guarded_mono)
    then show "guarded (zsrc_debug S)
        (if px_x_ofs s' < line_bpl L then pixel_loop fuel (step L) (line_bpl L) s' else Inr (Some s')) (px_ok S L c len a)"
      using s' mono by auto
  qed
qed simp

lemma decode_row_ok:
  assumes S: "source_ok S" and t: "good_table t" and step: "step_ok step S c len"
    and comps: "comps = 3 \<or> comps = 4" and bpl: "0 < bpl" "comps dvd bpl" and y: "y * bpl + bpl \<le> len"
    and st: "length img = len" "reader_ok S 20 r"
  shows "guarded (zsrc_debug S) (decode_row step S t c comps bpl y (img, r))
    (\<lambda>(img', r'). length img' = len \<and> reader_ok S 20 r')"
proof -
  let ?L = "\<lparr>pPrev_scanline = (if y = 0 then None else Some ((y - 1) * bpl)), pCur_scanline = y * bpl,
    line_comps = comps, line_bpl = bpl\<rparr>"
  have "(y - 1) * bpl + bpl \<le> len" if "y \<noteq> 0" using y that by (cases y) simp_all
  then have L: "line_ok ?L len" using comps bpl y by (auto simp: line_ok_def)
  have loop: "guarded (zsrc_debug S)
      (pixel_loop (line_fuel S) (step ?L) bpl \<lparr>px_reader = r', px_x_ofs = 0, px_delta = replicate c 0, px_img = img\<rparr>)
      (px_ok S ?L c len (avail S r'))" if "reader_ok S 32 r'" for r'
    using pixel_loop_ok [OF step L, of "avail S r'" _ "line_fuel S"] avail_bound [OF S that] bpl(1) st(1)
      reader_ok_mono [OF that, of 20] by (simp add: px_ok_def)
  show ?thesis
    unfolding decode_row_def Let_def prod.case
  proof (rule guarded_or_false [OF look_up_ok [OF t]])
    fix e assume e: "good_entry e \<and> 0 < unat (entry_len e)"
    show "guarded (zsrc_debug S)
      (or_false (SKIP_BITS S (entry_len e) r) (\<lambda>r.
       if entry_sym e \<noteq> (if y \<noteq> 0 then 2 else 0) then Inr None
       else
         or_false (pixel_loop (line_fuel S) (step ?L) bpl
           \<lparr>px_reader = r, px_x_ofs = 0, px_delta = replicate c 0, px_img = img\<rparr>) (\<lambda>s. Inr (Some (px_img s, px_reader s)))))
      (\<lambda>(img', r'). length img' = len \<and> reader_ok S 20 r')"
    proof (rule guarded_or_false [OF skip [OF S st(2), of "entry_len e"]])
      fix r' assume r': "reader_ok S 32 r' \<and> avail S r' \<le> avail S r"
      have "guarded (zsrc_debug S)
         (or_false (pixel_loop (line_fuel S) (step ?L) bpl
           \<lparr>px_reader = r', px_x_ofs = 0, px_delta = replicate c 0, px_img = img\<rparr>) (\<lambda>s. Inr (Some (px_img s, px_reader s))))
         (\<lambda>(img', r'). length img' = len \<and> reader_ok S 20 r')"
        using r' by (intro guarded_or_false [OF loop]) (auto simp: px_ok_def)
      then show "guarded (zsrc_debug S)
         (if entry_sym e \<noteq> (if y \<noteq> 0 then 2 else 0) then Inr None
          else
            or_false (pixel_loop (line_fuel S) (step ?L) bpl
              \<lparr>px_reader = r', px_x_ofs = 0, px_delta = replicate c 0, px_img = img\<rparr>) (\<lambda>s. Inr (Some (px_img s, px_reader s))))
         (\<lambda>(img', r'). length img' = len \<and> reader_ok S 20 r')" by simp
    qed (use e good_entry_fields(3) [of e] in simp_all)
  qed
qed

lemma decode_rows_ok:
  assumes "\<And>y s. y \<in> set ys \<Longrightarrow> P s \<Longrightarrow> guarded dbg (f y s) P" and "P s"
  shows "guarded dbg (decode_rows f ys s) P"
  using assms
proof (induction ys arbitrary: s)
  case (Cons y ys)
  then show ?case by (auto intro!: guarded_or_false)
qed simp

lemma at_end_ok:
  assumes "good_table t"
  shows "guarded (zsrc_debug S) (and_then (at_end S t n r) (\<lambda>ok. Inr (if ok then Some img else None))) (\<lambda>img'. img' = img)"
proof -
  have "guarded (zsrc_debug S) (look_up S t r) (\<lambda>_. True)"
    by (rule guarded_mono [OF look_up_ok [OF assms]]) simp
  then show ?thesis by (cases "look_up S t r") (auto simp: at_end_def Let_def split: option.splits)
qed

end
