(* ===== verification/Fpng_Safety.thy ===== *)
theory Fpng_Safety
  imports Fpng_Decoder Fpng_Pclmul Fpng_Inflate_Safety
begin

text \<open>
  The decoder never reads or writes outside its buffers, whatever bytes it is given. For the chunks and
  the uncompressed blocks, \<open>safe r P\<close> says that a step ends without a fault, a failed assertion included,
  and that a result it gives satisfies \<open>P\<close>.
\<close>

section \<open>Steps that can return false\<close>

definition safe :: "'a option res \<Rightarrow> ('a \<Rightarrow> bool) \<Rightarrow> bool" where
  "safe r P \<longleftrightarrow> (\<exists>x. r = Inr x \<and> (\<forall>s. x = Some s \<longrightarrow> P s))"

lemma safe_simps [simp]: "safe (Inr None) P" "safe (Inr (Some s)) P = P s" "\<not> safe (Inl e) P"
  by (auto simp: safe_def)

lemma safe_or_false: "safe r P \<Longrightarrow> (\<And>s. P s \<Longrightarrow> safe (f s) Q) \<Longrightarrow> safe (or_false r f) Q"
  by (auto simp: safe_def or_false_def split: option.splits)

lemma safe_mono: "safe r P \<Longrightarrow> (\<And>s. P s \<Longrightarrow> Q s) \<Longrightarrow> safe r Q"
  by (auto simp: safe_def)

lemma safeI: "(\<exists>x. r = Inr x) \<Longrightarrow> (\<And>s. r = Inr (Some s) \<Longrightarrow> P s) \<Longrightarrow> safe r P"
  by (auto simp: safe_def)

section \<open>The image being filled\<close>

text \<open>
  \<open>r\<close> bytes of the scanline are read, \<open>c\<close> components of the pixel, and \<open>d\<close> bytes of the \<open>len\<close> of the
  image are written; \<open>bpl\<close> is the length of a scanline and a multiple of the \<open>sc\<close> channels.
\<close>

definition raw_inv :: "nat \<Rightarrow> nat \<Rightarrow> nat \<Rightarrow> raw_state \<Rightarrow> bool" where
  "raw_inv sc bpl len s \<longleftrightarrow>
    (\<exists>r c d. raster_ofs s = u32 r \<and> comp_ofs s = u32 c \<and> dst_ofs s = u32 d \<and> length (pDst s) = len \<and>
      d \<le> len \<and> r \<le> bpl \<and> c < sc \<and> (if r = 0 then c = 0 else (r - 1) mod sc = c))"

lemma put_component_safe:
  assumes "dst_ofs s = u32 d" and "length (pDst s) = len" and "d \<le> len" and "len < 2 ^ 32"
  shows "safe (put_component (u32 len) c s) (\<lambda>s'. \<exists>d' \<le> len. dst_ofs s' = u32 d' \<and> length (pDst s') = len \<and>
    raster_ofs s' = raster_ofs s \<and> comp_ofs s' = comp_ofs s)"
proof (cases "d = len")
  case True
  then show ?thesis using assms(1) by (simp add: put_component_def)
next
  case False
  then have d: "d < len" "u32 d \<noteq> u32 len" "unat (u32 d) = d"
    using assms by (simp_all add: u32_eq u32_unat)
  have "poke d [c] (pDst s) = Inr (splice_at d [c] (pDst s))" "length (splice_at d [c] (pDst s)) = len"
    using d(1) assms(2) by (simp_all add: poke_def)
  then show ?thesis using d assms(1) by (auto simp: put_component_def intro: exI [of _ "Suc d"])
qed

lemma raw_component_safe:
  assumes s: "comp_ofs s = u32 c" "dst_ofs s = u32 d" "length (pDst s) = len" "d \<le> len" and len: "len < 2 ^ 32"
    and c: "c < sc" "sc < 2 ^ 32"
  shows "safe (raw_component (u32 sc) dc (u32 len) b s) (\<lambda>s'. \<exists>d' \<le> len. dst_ofs s' = u32 d' \<and>
    length (pDst s') = len \<and> raster_ofs s' = raster_ofs s \<and> comp_ofs s' = u32 (if c + 1 = sc then 0 else c + 1))"
  unfolding raw_component_def
proof (rule safe_or_false)
  let ?P = "\<lambda>s'. \<exists>d' \<le> len. dst_ofs s' = u32 d' \<and> length (pDst s') = len \<and>
    raster_ofs s' = raster_ofs s \<and> comp_ofs s' = comp_ofs s"
  show "safe (if comp_ofs s < dc then put_component (u32 len) b s else Inr (Some s)) ?P"
    using put_component_safe [OF s(2-4) len] s by auto
next
  fix s1 :: raw_state assume "\<exists>d' \<le> len. dst_ofs s1 = u32 d' \<and> length (pDst s1) = len \<and>
    raster_ofs s1 = raster_ofs s \<and> comp_ofs s1 = comp_ofs s"
  then obtain d1 where s1: "d1 \<le> len" "dst_ofs s1 = u32 d1" "length (pDst s1) = len"
    "raster_ofs s1 = raster_ofs s" "comp_ofs s1 = u32 c" using s(1) by auto
  have last: "comp_ofs s1 + 1 = u32 sc \<longleftrightarrow> c + 1 = sc"
    using s1(5) c u32_eq [of "c + 1" sc] by (simp add: add.commute)
  let ?s = "s1\<lparr>comp_ofs := comp_ofs s1 + 1\<rparr>"
  have "safe (put_component (u32 len) 0xFF ?s) (\<lambda>s'. \<exists>d' \<le> len. dst_ofs s' = u32 d' \<and> length (pDst s') = len \<and>
      raster_ofs s' = raster_ofs ?s \<and> comp_ofs s' = comp_ofs ?s)"
    using s1 len by (intro put_component_safe) simp_all
  then have full: "safe (or_false (if dc > u32 sc then put_component (u32 len) 0xFF ?s else Inr (Some ?s))
      (\<lambda>s. Inr (Some (s\<lparr>comp_ofs := 0\<rparr>)))) (\<lambda>s'. \<exists>d' \<le> len. dst_ofs s' = u32 d' \<and>
      length (pDst s') = len \<and> raster_ofs s' = raster_ofs s \<and> comp_ofs s' = 0)"
    using s1 by (intro safe_or_false [where P = "\<lambda>s'. \<exists>d' \<le> len. dst_ofs s' = u32 d' \<and> length (pDst s') = len \<and>
      raster_ofs s' = raster_ofs s"]) (auto simp: safe_def)
  show "safe (let s = s1\<lparr>comp_ofs := comp_ofs s1 + 1\<rparr> in
      if comp_ofs s = u32 sc then or_false (if dc > u32 sc then put_component (u32 len) 0xFF s else Inr (Some s))
        (\<lambda>s. Inr (Some (s\<lparr>comp_ofs := 0\<rparr>))) else Inr (Some s))
      (\<lambda>s'. \<exists>d' \<le> len. dst_ofs s' = u32 d' \<and> length (pDst s') = len \<and> raster_ofs s' = raster_ofs s \<and>
        comp_ofs s' = u32 (if c + 1 = sc then 0 else c + 1))"
  proof (cases "c + 1 = sc")
    case True
    then have "(comp_ofs s1 + 1 = u32 sc) = True" "(c + 1 = sc) = True" using last by blast+
    moreover have "comp_ofs ?s = comp_ofs s1 + 1" by simp
    ultimately show ?thesis using full by (simp only: Let_def if_True semiring_1_class.of_nat_0)
  next
    case False
    then show ?thesis using s1 last by (auto simp: Let_def add.commute)
  qed
qed

lemma raw_byte_safe:
  assumes inv: "raw_inv sc bpl len s" and len: "len < 2 ^ 32" and bpl: "0 < bpl" "bpl + 1 < 2 ^ 32" "bpl mod sc = 0"
    and sc: "0 < sc" "sc < 2 ^ 32"
  shows "safe (raw_byte (u32 sc) dc (u32 bpl) (u32 len) b s) (raw_inv sc bpl len)"
proof -
  obtain r c d where s: "raster_ofs s = u32 r" "comp_ofs s = u32 c" "dst_ofs s = u32 d" "length (pDst s) = len"
    "d \<le> len" "r \<le> bpl" "c < sc" "if r = 0 then c = 0 else (r - 1) mod sc = c"
    using inv by (auto simp: raw_inv_def)
  let ?P = "\<lambda>s'. \<exists>d'. raster_ofs s' = u32 r \<and> comp_ofs s' = u32 (r mod sc) \<and> dst_ofs s' = u32 d' \<and>
    length (pDst s') = len \<and> d' \<le> len"
  have r0: "u32 r = 0 \<longleftrightarrow> r = 0" using u32_eq [of r 0] s(6) bpl(2) by simp
  show ?thesis
    unfolding raw_byte_def
  proof (rule safe_or_false)
    show "safe (if raster_ofs s = 0 then if b \<noteq> 0 then Inr None
        else and_then (assert_that (comp_ofs s = 0)) (\<lambda>_. Inr (Some s))
        else raw_component (u32 sc) dc (u32 len) b s) ?P"
    proof (cases "r = 0")
      case True
      then show ?thesis using s r0 by auto
    next
      case False
      then have "r mod sc = (if c + 1 = sc then 0 else c + 1)"
        using s(8) mod_Suc [of "r - 1" sc] by simp
      then have "safe (raw_component (u32 sc) dc (u32 len) b s) (\<lambda>s'. \<exists>d' \<le> len. dst_ofs s' = u32 d' \<and>
          length (pDst s') = len \<and> raster_ofs s' = raster_ofs s \<and> comp_ofs s' = u32 (r mod sc))"
        using raw_component_safe [OF s(2-5) len s(7) sc(2), of dc b] by (simp only:)
      then have "safe (raw_component (u32 sc) dc (u32 len) b s) ?P"
        by (rule safe_mono) (use s(1) in auto)
      then show ?thesis using False r0 s(1) by simp
    qed
  next
    fix s1 :: raw_state assume "?P s1"
    then obtain d' where s1: "raster_ofs s1 = u32 r" "comp_ofs s1 = u32 (r mod sc)" "dst_ofs s1 = u32 d'"
      "length (pDst s1) = len" "d' \<le> len" by auto
    have last: "u32 r + 1 = u32 bpl + 1 \<longleftrightarrow> r = bpl" using u32_eq [of r bpl] s(6) bpl(2) by simp
    show "safe (let s = s1\<lparr>raster_ofs := raster_ofs s1 + 1\<rparr> in if raster_ofs s = u32 bpl + 1
        then and_then (assert_that (comp_ofs s = 0)) (\<lambda>_. Inr (Some (s\<lparr>raster_ofs := 0\<rparr>))) else Inr (Some s))
        (raw_inv sc bpl len)"
    proof (cases "r = bpl")
      case True
      then have "raw_inv sc bpl len (s1\<lparr>raster_ofs := 0\<rparr>)"
        using s1 sc(1) bpl(3) True unfolding raw_inv_def
        by (intro exI [of _ "0 :: nat"] exI [of _ "0 :: nat"] exI [of _ d']) simp
      then show ?thesis using s1 bpl(3) True by (simp add: Let_def)
    next
      case False
      then have "r + 1 \<le> bpl" using s(6) by simp
      moreover have "r mod sc < sc" using sc(1) by simp
      ultimately have "raw_inv sc bpl len (s1\<lparr>raster_ofs := u32 (r + 1)\<rparr>)"
        using s1 unfolding raw_inv_def by (intro exI [of _ "r + 1"] exI [of _ "r mod sc"] exI [of _ d']) simp
      then show ?thesis using s1(1) last False by (simp add: Let_def add.commute)
    qed
  qed
qed

lemma raw_bytes_safe:
  assumes "raw_inv sc bpl len s" and "len < 2 ^ 32" and "0 < bpl" "bpl + 1 < 2 ^ 32" "bpl mod sc = 0"
    and "0 < sc" "sc < 2 ^ 32"
  shows "safe (raw_bytes (u32 sc) dc (u32 bpl) (u32 len) bs s) (raw_inv sc bpl len)"
  using assms(1)
proof (induction bs arbitrary: s)
  case (Cons b bs)
  show ?case unfolding raw_bytes.simps
    by (rule safe_or_false [OF raw_byte_safe [OF Cons.prems assms(2-7)] Cons.IH])
qed simp

section \<open>The blocks\<close>

lemma le16_value: "(ucast a OR push_bit 8 (ucast b) :: u32) = u32 (unat (a :: byte) + 256 * unat (b :: byte))"
proof -
  have "(ucast a :: u32) AND push_bit 8 (ucast b) = 0"
    by (rule word32_eqI) (auto simp: bit_simps byte_high_bits)
  then have "(ucast a OR push_bit 8 (ucast b) :: u32) = ucast a + push_bit 8 (ucast b)"
    by (rule disjunctive_add_eq_or [symmetric])
  then show ?thesis by (simp add: push_bit_eq_mult)
qed

lemma le16_less: "unat (a :: byte) + 256 * unat (b :: byte) < 2 ^ 16"
  using unat_byte_less [of a] unat_byte_less [of b] by simp

lemma raw_blocks_loop_safe:
  assumes n: "length p = n" "n < 2 ^ 31" and q: "q \<le> n" "n < fuel + q"
    and s: "raw_inv sc bpl len s" and b: "len < 2 ^ 32" "0 < bpl" "bpl + 1 < 2 ^ 32" "bpl mod sc = 0"
      "0 < sc" "sc < 2 ^ 32"
  shows "safe (raw_blocks_loop fuel (u32 sc) dc (u32 bpl) (u32 len) p (u32 n) (u32 q) s)
    (\<lambda>(q', s'). raw_inv sc bpl len s')"
  using q s
proof (induction fuel arbitrary: q s)
  case (Suc fuel)
  have gt: "u32 (q + k) > u32 n \<longleftrightarrow> q + k > n" if "k \<le> 2 ^ 17" for k
    using that Suc.prems(1) n(2) by (intro u32_less) simp_all
  have u: "unat (u32 (q + k)) = q + k" if "k \<le> 5" for k
    using that Suc.prems(1) n(2) by (intro u32_unat) simp
  have ofs: "u32 q + 1 = u32 (q + 1)" "u32 (q + 1) + 4 = u32 (q + 5)" by simp_all
  show ?case
  proof (cases "q + 5 \<le> n")
    case False
    then have "safe (if u32 (q + 5) > u32 n then Inr None else r) P" for r :: "(u32 \<times> raw_state) option res" and P
      using gt [of 5] by simp
    then show ?thesis
      using gt [of 1] u [of 0] n(1) False
      by (simp only: raw_blocks_loop.simps ofs Let_def) (auto simp: read_byte_def)
  next
    case True
    obtain b0 where b0: "read_byte p q = Inr b0" using True n(1) by (simp add: read_byte_def)
    obtain l where l: "peek (q + 1) 4 p = Inr l" using True n(1) by (simp add: peek_def)
    define k where "k = unat (l ! 0) + 256 * unat (l ! 1)"
    have k: "k < 2 ^ 16" using le16_less [of "l ! 0" "l ! 1"] by (simp only: k_def)
    have uk: "unat (u32 k) = k" using k by (intro u32_unat) simp
    have sum: "u32 (q + 5) + u32 k = u32 (q + 5 + k)" by simp
    have body: "safe (and_then (peek (q + 5) k p) (\<lambda>bytes. or_false (raw_bytes (u32 sc) dc (u32 bpl) (u32 len) bytes s) (\<lambda>s.
        if f then Inr (Some (u32 (q + 5 + k), s))
        else raw_blocks_loop fuel (u32 sc) dc (u32 bpl) (u32 len) p (u32 n) (u32 (q + 5 + k)) s)))
        (\<lambda>(q', s'). raw_inv sc bpl len s')" if fit: "\<not> u32 (q + 5 + k) > u32 n" for f
    proof -
      have le: "q + 5 + k \<le> n" using fit gt [of "5 + k"] k by (simp add: add.assoc)
      then obtain bytes where "peek (q + 5) k p = Inr bytes" using n(1) by (simp add: peek_def)
      moreover have "safe (or_false (raw_bytes (u32 sc) dc (u32 bpl) (u32 len) bytes s) (\<lambda>s.
          if f then Inr (Some (u32 (q + 5 + k), s))
          else raw_blocks_loop fuel (u32 sc) dc (u32 bpl) (u32 len) p (u32 n) (u32 (q + 5 + k)) s))
          (\<lambda>(q', s'). raw_inv sc bpl len s')"
      proof (rule safe_or_false [OF raw_bytes_safe [OF Suc.prems(3) b]])
        fix s1 assume "raw_inv sc bpl len s1"
        then show "safe (if f then Inr (Some (u32 (q + 5 + k), s1))
            else raw_blocks_loop fuel (u32 sc) dc (u32 bpl) (u32 len) p (u32 n) (u32 (q + 5 + k)) s1)
            (\<lambda>(q', s'). raw_inv sc bpl len s')"
          using Suc.IH [of "q + 5 + k" s1] le Suc.prems(2) by simp
      qed
      ultimately show ?thesis by simp
    qed
    have "\<not> u32 (q + 1) > u32 n" "\<not> u32 (q + 5) > u32 n" using gt [of 1] gt [of 5] True by simp_all
    then show ?thesis
      using b0 l u [of 0] u [of 1] u [of 5] uk body
      by (simp only: raw_blocks_loop.simps ofs Let_def if_False and_then.simps le16_value k_def [symmetric] sum
          add_0_right) (simp split: if_splits)
  qed
qed (simp add: raw_blocks_loop.simps)

lemma raw_decompress_safe:
  assumes n: "length p = n" "n < 2 ^ 31" "2 \<le> n" and sc: "sc = 3 \<or> sc = 4" and dc: "dc = 3 \<or> dc = 4"
    and w: "0 < w" "w \<le> 2 ^ 24" and len: "length dst = w * dc * h" "w * dc * h < 2 ^ 32"
  shows "safe (fpng_pixel_zlib_raw_decompress p (u32 n) zlib_len dst (u32 w) (u32 h) (u32 sc) (u32 dc))
    (\<lambda>out. length out = w * dc * h)"
proof -
  let ?s = "\<lparr>raster_ofs = 0, comp_ofs = 0, dst_ofs = 0, pDst = dst\<rparr>"
  have bpl: "0 < w * sc" "w * sc + 1 < 2 ^ 32" "w * sc mod sc = 0" "0 < sc" "sc < 2 ^ 32"
    using sc w by auto
  have "raw_inv sc (w * sc) (w * dc * h) ?s"
    unfolding raw_inv_def using len(1) bpl(4) by (intro exI [of _ "0 :: nat"]) simp
  from raw_blocks_loop_safe [OF n(1,2,3) _ this len(2) bpl, of "Suc n" "u32 dc"]
  have loop: "safe (raw_blocks_loop (Suc n) (u32 sc) (u32 dc) (u32 (w * sc)) (u32 (w * dc * h)) p (u32 n) (u32 2) ?s)
      (\<lambda>(q, s). raw_inv sc (w * sc) (w * dc * h) s)" by simp
  have chans: "u32 sc = 3 \<or> u32 sc = 4" "u32 dc = 3 \<or> u32 dc = 4" using sc dc by auto
  have "safe (or_false (raw_blocks_loop (Suc n) (u32 sc) (u32 dc) (u32 (w * sc)) (u32 (w * dc * h)) p (u32 n) (u32 2) ?s)
      (\<lambda>(src_ofs, s). if comp_ofs s \<noteq> 0 then Inr None else if src_ofs + 4 \<noteq> zlib_len then Inr None
        else if dst_ofs s = u32 (w * dc * h) then Inr (Some (pDst s)) else Inr None))
      (\<lambda>out. length out = w * dc * h)"
    by (rule safe_or_false [OF loop]) (auto simp: raw_inv_def)
  moreover have "u32 w * u32 sc = u32 (w * sc)" "u32 w * u32 dc * u32 h = u32 (w * dc * h)" by simp_all
  ultimately show ?thesis
    using chans n(1)
    by (simp only: fpng_pixel_zlib_raw_decompress_def Let_def assert_that_simps and_then.simps of_nat_numeral)
qed

section \<open>The chunks of a file\<close>

text \<open>What is known of the \<open>IDAT\<close> chunk: nothing yet, or that it lies inside the file.\<close>

definition info_ok :: "byte list \<Rightarrow> png_info \<Rightarrow> bool" where
  "info_ok png info \<longleftrightarrow>
    0 < width info \<and> width info \<le> FPNG_MAX_SUPPORTED_DIM \<and> 0 < height info \<and> height info \<le> FPNG_MAX_SUPPORTED_DIM \<and>
    (channels_in_file info = 3 \<or> channels_in_file info = 4) \<and>
    (idat_ofs info \<noteq> 0 \<longrightarrow> 7 \<le> idat_len info \<and> unat (idat_ofs info) + 12 + unat (idat_len info) \<le> length png)"

lemma check_ihdr_safe:
  assumes "58 \<le> length png"
  shows "\<exists>st info. check_ihdr cpu png = Inr (st, info) \<and> (st = FPNG_DECODE_SUCCESS \<longrightarrow> info_ok png info \<and> idat_ofs info = 0)"
proof -
  obtain p where p: "peek 8 sizeof_png_ihdr png = Inr p" "length p = 25"
    using assms by (simp add: peek_def sizeof_png_ihdr_def)
  have "length (slice 4 (unat (4 + IHDR_EXPECTED_LENGTH)) p) < 2 ^ 32"
    using p(2) by (simp add: slice_def IHDR_EXPECTED_LENGTH_def)
  from fpng_crc32_correct [OF this] show ?thesis
    using p(1) by (auto simp: check_ihdr_def Let_def no_info_def info_ok_def word_gt_0 not_less)
qed

lemma handle_chunk_ok:
  assumes "info_ok png info" and "33 \<le> ofs" "ofs < 2 ^ 32" and "ofs + 12 + unat chunk_len \<le> length png"
  shows "case handle_chunk ofs chunk_len ty bytes info found of
    Return st info' \<Rightarrow> st \<noteq> FPNG_DECODE_SUCCESS | Break info' f \<Rightarrow> info_ok png info' | Continue info' f \<Rightarrow> info_ok png info'"
  using assms u32_unat [of ofs]
  by (auto simp: handle_chunk_def info_ok_def Let_def not_less)

lemma read_chunk_safe:
  assumes ok: "info_ok png info" and ofs: "33 \<le> ofs" and len: "length png < 2 ^ 32"
  shows "\<exists>step k. read_chunk cpu png ofs info found = Inr (step, k) \<and>
    (case step of Return st info' \<Rightarrow> st \<noteq> FPNG_DECODE_SUCCESS | Break info' f \<Rightarrow> info_ok png info'
      | Continue info' f \<Rightarrow> info_ok png info' \<and> ofs + 12 + k \<le> length png)"
proof (cases "ofs + 12 \<le> length png")
  case False
  then show ?thesis by (auto simp: read_chunk_def Let_def)
next
  case True
  then obtain p where p: "peek ofs 8 png = Inr p" by (simp add: peek_def)
  show ?thesis
  proof (cases "ofs + 12 + unat (READ_BE32 p) \<le> length png \<and> list_all is_letter (slice 4 4 p)")
    case False
    then show ?thesis using True p by (auto simp: read_chunk_def Let_def)
  next
    case fits: True
    let ?n = "unat (READ_BE32 p)"
    obtain crc bytes where r: "peek (ofs + 4 * 2 + ?n) 4 png = Inr crc" "peek (ofs + 4) (4 + ?n) png = Inr bytes"
      using fits by (simp add: peek_def)
    have "length bytes \<le> length png" using r(2) by (auto simp: peek_def slice_def split: if_splits)
    then have "fpng_crc32 cpu bytes FPNG_CRC32_INIT = Inr (crc32 bytes FPNG_CRC32_INIT)"
      using len by (intro fpng_crc32_correct) simp
    moreover have "ofs < 2 ^ 32" using True len by linarith
    ultimately show ?thesis
      using True fits p r handle_chunk_ok [OF ok ofs, of "READ_BE32 p" "slice 4 4 p" "drop 4 bytes" found]
      by (auto simp: read_chunk_def Let_def split: chunk_step.splits)
  qed
qed

lemma scan_chunks_safe:
  assumes "info_ok png info" and "33 \<le> ofs" "ofs \<le> length png" and "length png < 2 ^ 32" and "length png < fuel + ofs"
  shows "\<exists>st info'. scan_chunks fuel cpu png ofs info found = Inr (st, info') \<and>
    (st = FPNG_DECODE_SUCCESS \<longrightarrow> info_ok png info' \<and> idat_ofs info' \<noteq> 0)"
  using assms
proof (induction fuel arbitrary: ofs info found)
  case (Suc fuel)
  obtain step k where step: "read_chunk cpu png ofs info found = Inr (step, k)"
    "case step of Return st info' \<Rightarrow> st \<noteq> FPNG_DECODE_SUCCESS | Break info' f \<Rightarrow> info_ok png info'
      | Continue info' f \<Rightarrow> info_ok png info' \<and> ofs + 12 + k \<le> length png"
    using read_chunk_safe [OF Suc.prems(1,2,4)] by blast
  show ?case
  proof (cases step)
    case (Continue info' f)
    have next_ofs: "ofs + (sizeof_png_chunk_prefix + k + 4) = ofs + 12 + k" by (simp add: sizeof_png_chunk_prefix_def)
    have "\<exists>st info''. scan_chunks fuel cpu png (ofs + 12 + k) info' f = Inr (st, info'') \<and>
        (st = FPNG_DECODE_SUCCESS \<longrightarrow> info_ok png info'' \<and> idat_ofs info'' \<noteq> 0)"
      using step Continue Suc.prems by (intro Suc.IH) auto
    moreover have "scan_chunks (Suc fuel) cpu png ofs info found = scan_chunks fuel cpu png (ofs + 12 + k) info' f"
      by (simp only: scan_chunks.simps step(1) Continue and_then.simps case_prod_conv chunk_step.case next_ofs)
    ultimately show ?thesis by simp
  qed (use step in auto)
qed simp

lemma get_info_safe:
  assumes "length png < 2 ^ 32"
  shows "\<exists>st info. fpng_get_info_internal cpu png = Inr (st, info) \<and>
    (st = FPNG_DECODE_SUCCESS \<longrightarrow> info_ok png info \<and> idat_ofs info \<noteq> 0)"
proof (cases "length png < 58")
  case True
  then show ?thesis
    by (simp add: fpng_get_info_internal_def sizeof_png_ihdr_def sizeof_png_chunk_prefix_def sizeof_png_iend_def)
next
  case False
  then have len: "58 \<le> length png" by simp
  obtain st info where ihdr: "check_ihdr cpu png = Inr (st, info)"
    "st = FPNG_DECODE_SUCCESS \<longrightarrow> info_ok png info \<and> idat_ofs info = 0"
    using check_ihdr_safe [OF len] by blast
  obtain sig where "peek 0 8 png = Inr sig" using len by (simp add: peek_def)
  then show ?thesis
    using False ihdr scan_chunks_safe [of png info 33 "length png" cpu False] assms len
    by (auto simp: fpng_get_info_internal_def sizeof_png_ihdr_def sizeof_png_chunk_prefix_def sizeof_png_iend_def)
qed

section \<open>Decoding\<close>

lemma dimension_less: "w \<le> FPNG_MAX_SUPPORTED_DIM \<longleftrightarrow> unat w \<le> 2 ^ 24"
  by (simp add: FPNG_MAX_SUPPORTED_DIM_def word_le_nat_alt)

text \<open>The memory for the pixels, computed in 64 bits.\<close>

lemma mem_needed_value:
  assumes "w \<le> FPNG_MAX_SUPPORTED_DIM" and "h \<le> FPNG_MAX_SUPPORTED_DIM" and "dc \<le> 4"
  shows "unat (ucast w * ucast h * ucast (u32 dc) :: u64) = unat w * unat h * dc"
proof -
  have "unat w * unat h * dc \<le> 2 ^ 24 * 2 ^ 24 * 4"
    using assms by (intro mult_le_mono) (simp_all only: dimension_less)
  then have "unat w * unat h * dc < 2 ^ 64" by simp
  moreover have "(ucast w * ucast h * ucast (u32 dc) :: u64) = u64 (unat w * unat h * dc)"
  proof -
    have "unat (u32 dc) = dc" using assms(3) by (intro u32_unat) simp
    then have "(ucast (u32 dc) :: u64) = u64 dc" by (simp only: ucast_unat)
    then show ?thesis by simp
  qed
  ultimately show ?thesis by (simp only: u64_unat)
qed

lemma bpl_value:
  assumes "unat w \<le> 2 ^ 24" and "dc = 3 \<or> dc = 4"
  shows "unat (w * u32 dc) = unat w * dc"
proof -
  have "unat w * unat (u32 dc) < 2 ^ 32" using assms by (auto simp: u32_unat)
  then have "unat (w * u32 dc) = unat w * unat (u32 dc)" using unat_mult_lem [of w "u32 dc"] by simp
  then show ?thesis using assms(2) by (auto simp: u32_unat)
qed

lemma steps_ok:
  assumes "source_ok S" and "good_table t"
  shows "step_ok (decode_step_3 S t) S 3 len" "step_ok (decode_step_4 S t) S 4 len"
  unfolding step_ok_def using decode_step_3_ok [OF assms] decode_step_4_ok [OF assms] by blast+

lemma zlib_decompress_safe:
  assumes n: "length p = n" "n < 2 ^ 31" "unat zl + 4 \<le> n" and c: "c = 3 \<or> c = 4" and dc: "dc = 3 \<or> dc = 4"
    and w: "0 < w" "w \<le> FPNG_MAX_SUPPORTED_DIM" and len: "length dst = unat w * unat h * dc" "length dst < 2 ^ 32"
    and step: "\<And>S t. source_ok S \<Longrightarrow> good_table t \<Longrightarrow> step_ok (step S t) S c (length dst)"
  shows "guarded dbg (zlib_decompress step c dbg dc p (u32 n) zl dst w h) (\<lambda>out. length out = length dst)"
  unfolding zlib_decompress_def
proof (rule guarded_check)
  have "unat (u32 n) = n" using n(2) by (simp add: u32_unat)
  define S where "S = \<lparr>zsrc_debug = dbg, zsrc_bytes = p, zsrc_len = u32 n\<rparr>"
  have S: "source_ok S" "zsrc_debug S = dbg" "zsrc_len S = u32 n" using n(1,2) \<open>unat (u32 n) = n\<close> by (simp_all add: S_def source_ok_def)
  have bpl: "unat (w * u32 dc) = unat w * dc" using w(2) dc by (intro bpl_value) (simp_all add: dimension_less)
  let ?bpl = "unat w * dc"
  have rows: "guarded dbg
      (or_false (decode_rows (decode_row (step S t) S t c dc ?bpl) [0 ..< unat h] (dst, r)) (\<lambda>(img, r).
       and_then (at_end S t zl r) (\<lambda>ok. Inr (if ok then Some img else None))))
      (\<lambda>out. length out = length dst)" if t: "good_table t" and r: "reader_ok S 32 r" for t r
  proof (rule guarded_or_false)
    show "guarded dbg (decode_rows (decode_row (step S t) S t c dc ?bpl) [0 ..< unat h] (dst, r))
        (\<lambda>(img, r). length img = length dst \<and> reader_ok S 20 r)"
    proof (rule decode_rows_ok)
      fix y and st :: "byte list \<times> bit_reader"
      assume y: "y \<in> set [0 ..< unat h]" and st: "case st of (img, r) \<Rightarrow> length img = length dst \<and> reader_ok S 20 r"
      have "Suc y * ?bpl \<le> unat h * ?bpl" using y by (intro mult_le_mono1) simp
      moreover have "length dst = unat h * ?bpl" using len(1) by (simp add: ac_simps)
      moreover have "Suc y * ?bpl = y * ?bpl + ?bpl" by simp
      ultimately have "y * ?bpl + ?bpl \<le> length dst" by (simp only:)
      moreover have "0 < ?bpl" using w(1) dc by (auto simp: unat_gt_0 word_gt_0)
      ultimately show "guarded dbg (decode_row (step S t) S t c dc ?bpl y st)
          (\<lambda>(img, r). length img = length dst \<and> reader_ok S 20 r)"
        using decode_row_ok [OF S(1) t step [OF S(1) t] dc, of ?bpl y "fst st" "snd st"] st S(2) by (cases st) auto
    qed (use r in \<open>auto intro: reader_ok_mono\<close>)
  next
    fix st :: "byte list \<times> bit_reader" assume "case st of (img, r) \<Rightarrow> length img = length dst \<and> reader_ok S 20 r"
    then show "guarded dbg (case st of (img, r) \<Rightarrow> and_then (at_end S t zl r) (\<lambda>ok. Inr (if ok then Some img else None)))
        (\<lambda>out. length out = length dst)"
    proof (cases st)
      case (Pair img r)
      then have "length img = length dst" using \<open>case st of (img, r) \<Rightarrow> length img = length dst \<and> reader_ok S 20 r\<close> by simp
      then show ?thesis
        unfolding Pair prod.case by (intro guarded_mono [OF at_end_ok [OF t, of S zl r img, unfolded S(2)]]) simp
    qed
  qed
  have block: "guarded dbg
      (or_false (prepare_dynamic_block S c r) (\<lambda>(t, r).
       or_false (decode_rows (decode_row (step S t) S t c dc ?bpl) [0 ..< unat h] (dst, r)) (\<lambda>(img, r).
       and_then (at_end S t zl r) (\<lambda>ok. Inr (if ok then Some img else None)))))
      (\<lambda>out. length out = length dst)" if "reader_ok S 32 r" for r
    using prepare_ok [OF S(1) that, of c] rows S(2) by (auto elim!: guarded_or_false)
  have get: "guarded dbg (GET_BITS S l r) (\<lambda>(b, r'). reader_ok S 32 r')" if "reader_ok S 32 r" "unat l \<le> 16" for l r
    using get_bits_ok [OF S(1) that(1), of l] that(2) S(2) by (auto elim!: guarded_mono)
  have start: "reader_ok S 32 \<lparr>rd_buf = b, rd_size = 32, rd_ofs = 6\<rparr>" if "\<not> 2 + 4 > u32 n" for b
    using that \<open>unat (u32 n) = n\<close> by (simp add: reader_ok_def S(3) word_less_nat_alt)
  have compressed: "guarded dbg
      (if 2 + 4 > u32 n then Inr None
       else
         and_then (peek 2 4 p) (\<lambda>q.
         or_false (GET_BITS S 1 \<lparr>rd_buf = ucast (READ_LE32 q), rd_size = 32, rd_ofs = 6\<rparr>) (\<lambda>(bfinal, r).
         or_false (GET_BITS S 2 r) (\<lambda>(btype, r).
         if bfinal \<noteq> 1 \<or> btype \<noteq> 2 then Inr None
         else
           or_false (prepare_dynamic_block S c r) (\<lambda>(t, r).
           or_false (decode_rows (decode_row (step S t) S t c dc ?bpl) [0 ..< unat h] (dst, r)) (\<lambda>(img, r).
           and_then (at_end S t zl r) (\<lambda>ok. Inr (if ok then Some img else None))))))))
      (\<lambda>out. length out = length dst)"
  proof (cases "2 + 4 > u32 n")
    case False
    then have "6 \<le> n" using \<open>unat (u32 n) = n\<close> by (simp add: word_less_nat_alt)
    then have "peek 2 4 p = Inr (slice 2 4 p)" using n(1) by (simp add: peek_def)
    then show ?thesis
      using False block start by (auto intro!: guarded_or_false_pair [OF get])
  qed simp
  have raw: "guarded dbg (fpng_pixel_zlib_raw_decompress p (u32 n) zl dst w h (u32 c) (u32 dc)) (\<lambda>out. length out = length dst)"
    if "3 \<le> n"
  proof -
    have "safe (fpng_pixel_zlib_raw_decompress p (u32 n) zl dst (u32 (unat w)) (u32 (unat h)) (u32 c) (u32 dc))
        (\<lambda>out. length out = unat w * dc * unat h)"
      using n(1,2) that c dc w len
      by (intro raw_decompress_safe) (simp_all add: dimension_less ac_simps unat_gt_0 word_gt_0)
    then show ?thesis using len(1) by (auto simp: safe_def guarded_def ac_simps)
  qed
  have head: "peek 0 3 p = Inr (slice 0 3 p)" if "3 \<le> n" using n(1) that by (simp add: peek_def)
  show "guarded dbg
      (if zl < 7 then Inr None
       else
         and_then (peek 0 3 p) (\<lambda>head.
         if head ! 0 \<noteq> 0x78 \<or> head ! 1 \<noteq> 0x01 then Inr None
         else if head ! 2 AND 6 = 0 then fpng_pixel_zlib_raw_decompress p (u32 n) zl dst w h (u32 c) (u32 dc)
         else if 2 + 4 > u32 n then Inr None
         else
           and_then (peek 2 4 p) (\<lambda>q.
           let S = \<lparr>zsrc_debug = dbg, zsrc_bytes = p, zsrc_len = u32 n\<rparr>; bpl = unat (w * u32 dc) in
           or_false (GET_BITS S 1 \<lparr>rd_buf = ucast (READ_LE32 q), rd_size = 32, rd_ofs = 6\<rparr>) (\<lambda>(bfinal, r).
           or_false (GET_BITS S 2 r) (\<lambda>(btype, r).
           if bfinal \<noteq> 1 \<or> btype \<noteq> 2 then Inr None
           else
             or_false (prepare_dynamic_block S c r) (\<lambda>(lit_table, r).
             or_false (decode_rows (decode_row (step S lit_table) S lit_table c dc bpl) [0 ..< unat h] (dst, r)) (\<lambda>(img, r).
             and_then (at_end S lit_table zl r) (\<lambda>ok. Inr (if ok then Some img else None)))))))))
      (\<lambda>out. length out = length dst)"
  proof (cases "zl < 7")
    case False
    then have "3 \<le> n" using n(3) by (simp add: word_less_nat_alt)
    then show ?thesis
      using False head raw compressed by (simp only: bpl Let_def S_def [symmetric] and_then.simps if_False) simp
  qed simp
qed

lemma decompress_image_safe:
  assumes n: "length p = n" "n < 2 ^ 31" "unat zl + 4 \<le> n" and dc: "dc = 3 \<or> dc = 4"
    and w: "0 < w" "w \<le> FPNG_MAX_SUPPORTED_DIM" and len: "length dst = unat w * unat h * dc" "length dst < 2 ^ 32"
  shows "guarded dbg (decompress_image dbg (u32 dc) chans p (u32 n) zl dst w h) (\<lambda>out. length out = length dst)"
proof -
  have three: "guarded dbg (fpng_pixel_zlib_decompress_3 dbg dc p (u32 n) zl dst w h) (\<lambda>out. length out = length dst)"
    unfolding fpng_pixel_zlib_decompress_3_def
    using n dc w len by (intro zlib_decompress_safe) (auto intro!: steps_ok)
  have four: "guarded dbg (fpng_pixel_zlib_decompress_4 dbg dc p (u32 n) zl dst w h) (\<lambda>out. length out = length dst)"
    unfolding fpng_pixel_zlib_decompress_4_def
    using n dc w len by (intro zlib_decompress_safe) (auto intro!: steps_ok)
  show ?thesis using three four dc by (auto simp: decompress_image_def)
qed

lemma decode_memory_safe:
  assumes len: "0 < length png" "length png < 2 ^ 31" and dc: "dc = 3 \<or> dc = 4"
    and fault: "fpng_decode_memory cpu dbg png (u32 dc) = Inl e"
  shows "dbg \<and> e = AssertionFailed"
proof (rule ccontr)
  assume no: "\<not> (dbg \<and> e = AssertionFailed)"
  have args: "\<not> (png = [] \<or> (u32 dc \<noteq> 3 \<and> u32 dc \<noteq> 4))" using len(1) dc by auto
  obtain st info where info: "fpng_get_info_internal cpu png = Inr (st, info)"
    "st = FPNG_DECODE_SUCCESS \<longrightarrow> info_ok png info \<and> idat_ofs info \<noteq> 0"
    using get_info_safe [of png cpu] len(2) by auto
  let ?mem = "ucast (width info) * ucast (height info) * ucast (u32 dc) :: u64"
  let ?p = "drop (unat (idat_ofs info) + 4 * 2) png"
  have "fpng_decode_memory cpu dbg png (u32 dc) \<noteq> Inl e"
  proof (cases "st = FPNG_DECODE_SUCCESS \<and> \<not> ?mem > 0xFFFFFFFF")
    case False
    then show ?thesis
      unfolding fpng_decode_memory_def if_not_P [OF args] using info(1) by (auto simp: Let_def)
  next
    case True
    then have ok: "info_ok png info" "idat_ofs info \<noteq> 0" using info(2) by simp_all
    have mem: "unat ?mem = unat (width info) * unat (height info) * dc"
      using ok(1) dc by (intro mem_needed_value) (auto simp: info_ok_def)
    have small: "unat ?mem < 2 ^ 32" using True by (simp add: word_less_nat_alt)
    have ofs: "unat (idat_ofs info) + 12 + unat (idat_len info) \<le> length png"
      using ok by (simp add: info_ok_def)
    have "u32 (length png) - (idat_ofs info + 4 * 2) = u32 (length png - (unat (idat_ofs info) + 8))"
      using ofs by (subst u32_diff [symmetric]) simp_all
    then have src: "u32 (length png) - (idat_ofs info + 4 * 2) = u32 (length ?p)" by simp
    have "guarded dbg (decompress_image dbg (u32 dc) (channels_in_file info) ?p (u32 (length ?p)) (idat_len info)
        (replicate (unat ?mem) 0) (width info) (height info)) (\<lambda>out. length out = length (replicate (unat ?mem) (0 :: byte)))"
      using ok(1) ofs len dc mem small
      by (intro decompress_image_safe) (auto simp: info_ok_def)
    then have "decompress_image dbg (u32 dc) (channels_in_file info) ?p (u32 (length ?p)) (idat_len info)
        (replicate (unat ?mem) 0) (width info) (height info) \<noteq> Inl e" using no by auto
    then show ?thesis
      unfolding fpng_decode_memory_def if_not_P [OF args]
      using info(1) True src
      by (cases "decompress_image dbg (u32 dc) (channels_in_file info) ?p (u32 (length ?p)) (idat_len info)
          (replicate (unat ?mem) 0) (width info) (height info)")
        (simp_all add: Let_def split: option.splits)
  qed
  then show False using fault by simp
qed

end
