(* ===== verification/Fpng_Raw_Proofs.thy ===== *)
theory Fpng_Raw_Proofs
  imports Fpng_Safety
begin

text \<open>
  What \<open>write_raw_block\<close> writes, as one list, and that \<open>fpng_pixel_zlib_raw_decompress\<close> reads it back:
  the blocks give back their bytes, and the bytes of rows without a filter give back the pixels, with
  the alpha channel added or dropped.
\<close>

section \<open>Writes one behind the other\<close>

lemma splice_splice_append:
  assumes "a + length xs + length ys \<le> length buf"
  shows "splice_at (a + length xs) ys (splice_at a xs buf) = splice_at a (xs @ ys) buf"
proof (cases "length buf \<le> a")
  case True
  then have "length xs = 0" "length ys = 0" using assms by linarith+
  then show ?thesis by (simp add: splice_at_def)
qed (use assms in \<open>auto simp: splice_at_def min_def ac_simps\<close>)

lemma splice_Nil [simp]: "splice_at a [] buf = buf"
  by (simp add: splice_at_def)

lemma splice_zero: "splice_at 0 xs buf = xs @ drop (length xs) buf"
  by (simp add: splice_at_def)

lemma poke_exec: "a + length bs \<le> length buf \<Longrightarrow> poke a bs buf = Inr (splice_at a bs buf)"
  by (simp add: poke_def)

lemma put_bytes_exec:
  "d + length bs \<le> length buf \<Longrightarrow> length buf < 2 ^ 32 \<Longrightarrow>
    put_bytes bs (u32 d) (u32 (length buf)) buf = Inr (splice_at d bs buf, Some (u32 (d + length bs)))"
proof (induction bs arbitrary: d buf)
  case (Cons b bs)
  have "\<not> u32 (d + 1) > u32 (length buf)" "unat (u32 d) = d"
    using u32_less [of "length buf" "d + 1"] u32_unat [of d] Cons.prems by simp_all
  moreover have "poke d [b] buf = Inr (splice_at d [b] buf)" using Cons.prems by (simp add: poke_def)
  moreover have "put_bytes bs (u32 (d + 1)) (u32 (length buf)) (splice_at d [b] buf) =
      Inr (splice_at (d + 1) bs (splice_at d [b] buf), Some (u32 (d + 1 + length bs)))"
    using Cons.IH [of "d + 1" "splice_at d [b] buf"] Cons.prems by simp
  ultimately show ?case
    using splice_splice_append [of d "[b]" bs buf] Cons.prems by (simp add: add.commute)
qed simp

section \<open>The stream\<close>

text \<open>Blocks of at most 65535 bytes, the last one marked.\<close>

function raw_stream :: "byte list \<Rightarrow> byte list" where
  "raw_stream src =
    (if src = [] then []
     else raw_block_header (drop 65535 src = []) (u32 (length (take 65535 src))) @ take 65535 src @
       raw_stream (drop 65535 src))"
  by auto
termination by (relation "measure length") auto

declare raw_stream.simps [simp del]

lemma raw_stream_Nil [simp]: "raw_stream [] = []"
  by (simp add: raw_stream.simps)

lemma length_raw_block_header [simp]: "length (raw_block_header f k) = 5"
  by (simp add: raw_block_header_def)

lemma length_raw_stream: "length (raw_stream src) = length src + 5 * ((length src + 65534) div 65535)"
proof (induction src rule: raw_stream.induct)
  case (1 src)
  show ?case
  proof (cases "src = []")
    case False
    let ?n = "length src"
    have "length (raw_stream src) = 5 + ?n + 5 * ((?n - 65535 + 65534) div 65535)"
      using False 1 by (simp add: raw_stream.simps [of src])
    moreover have "5 + 5 * ((?n - 65535 + 65534) div 65535) = 5 * ((?n + 65534) div 65535)"
    proof (cases "?n \<le> 65535")
      case True
      have "(?n + 65534) div 65535 = 1" using False True by (intro div_nat_eqI) (cases src, simp_all)
      then show ?thesis using True by simp
    next
      case False
      then have "?n + 65534 = ?n - 65535 + 65534 + 65535" by simp
      then have "(?n + 65534) div 65535 = (?n - 65535 + 65534) div 65535 + 1" by simp
      then show ?thesis by simp
    qed
    ultimately show ?thesis by simp
  qed simp
qed

lemma write_raw_loop_exec:
  assumes "n \<le> length p" and "q \<le> n" and "d + length (raw_stream (drop q (take n p))) \<le> length buf"
    and "length buf < 2 ^ 32" and "n < 2 ^ 32"
  shows "write_raw_loop p (u32 n) (u32 q) (u32 d) (u32 (length buf)) buf =
    Inr (splice_at d (raw_stream (drop q (take n p))) buf, Some (u32 (d + length (raw_stream (drop q (take n p))))))"
  using assms
proof (induction "n - q" arbitrary: q d buf rule: less_induct)
  case less
  let ?src = "drop q (take n p)"
  show ?case
  proof (cases "q < n")
    case False
    then have "\<not> u32 q < u32 n" using less.prems by (simp only: u32_less) simp
    then show ?thesis using False less.prems by (simp add: write_raw_loop.simps)
  next
    case True
    define k where "k = min 65535 (n - q)"
    let ?h = "raw_block_header (drop 65535 ?src = []) (u32 k)" and ?b = "take 65535 ?src" and ?rest = "drop (q + k) (take n p)"
    have lb: "length ?b = k" using less.prems(1) by (simp add: k_def)
    have ne: "?src \<noteq> []" using True less.prems(1) by simp
    have rest: "drop 65535 ?src = ?rest" using less.prems(1) by (simp add: k_def min_def add.commute)
    have stream: "raw_stream ?src = ?h @ ?b @ raw_stream ?rest"
      by (subst raw_stream.simps) (simp only: ne if_False lb rest)
    have size: "d + 5 + k + length (raw_stream ?rest) \<le> length buf"
      using less.prems(3) unfolding stream length_append lb by simp
    have words: "u32 q < u32 n" "u32 n - u32 q = u32 (n - q)" "\<not> u32 (d + 5 + k) > u32 (length buf)"
      "unat (u32 d) = d" "unat (u32 q) = q" "unat (u32 k) = k" "unat (u32 (d + 5)) = d + 5"
      using True less.prems size by (simp_all only: u32_less u32_unat u32_diff k_def)
    have block: "minimum 0xFFFF (u32 (n - q)) = u32 k"
    proof -
      have "(0xFFFF :: u32) < u32 (n - q) \<longleftrightarrow> 65535 < n - q"
        using u32_less [of 65535 "n - q"] less.prems(5) by simp
      then show ?thesis by (simp add: minimum_def k_def)
    qed
    have final: "(u32 k = u32 (n - q)) = (drop 65535 ?src = [])"
      using less.prems(1,2,5) u32_eq [of k "n - q"] by (auto simp: k_def)
    have sums: "u32 d + 5 = u32 (d + 5)" "u32 (d + 5) + u32 k = u32 (d + 5 + k)" "u32 d + (5 + u32 k) = u32 (d + 5 + k)"
      "u32 q + u32 k = u32 (q + k)" by simp_all
    have "?b = take k (drop q p)" "q + k \<le> length p"
      using less.prems(1,2) by (simp_all add: k_def drop_take)
    then have read: "peek q k p = Inr ?b" by (simp add: peek_def slice_def)
    have write1: "poke d ?h buf = Inr (splice_at d ?h buf)" using size by (intro poke_exec) simp
    have write2: "poke (d + 5) ?b (splice_at d ?h buf) = Inr (splice_at d (?h @ ?b) buf)"
      using size lb splice_splice_append [of d ?h ?b buf] by (simp add: poke_exec)
    have rec: "write_raw_loop p (u32 n) (u32 (q + k)) (u32 (d + 5 + k)) (u32 (length buf)) (splice_at d (?h @ ?b) buf) =
        Inr (splice_at (d + 5 + k) (raw_stream ?rest) (splice_at d (?h @ ?b) buf), Some (u32 (d + 5 + k + length (raw_stream ?rest))))"
    proof -
      have k: "n - (q + k) < n - q" "q + k \<le> n" using True by (simp_all add: k_def)
      have len: "length (splice_at d (?h @ ?b) buf) = length buf" using size lb by (intro length_splice_at) simp
      from less.hyps [OF k(1) less.prems(1) k(2), of "d + 5 + k" "splice_at d (?h @ ?b) buf"]
      show ?thesis unfolding len using size less.prems(4,5) by simp
    qed
    have "write_raw_loop p (u32 n) (u32 q) (u32 d) (u32 (length buf)) buf =
        Inr (splice_at (d + 5 + k) (raw_stream ?rest) (splice_at d (?h @ ?b) buf), Some (u32 (d + 5 + k + length (raw_stream ?rest))))"
      by (simp only: write_raw_loop.simps [of p "u32 n" "u32 q" "u32 d"] Let_def words block final sums if_True if_False
        and_then.simps read write1 write2 rec)
    moreover have "splice_at (d + 5 + k) (raw_stream ?rest) (splice_at d (?h @ ?b) buf) = splice_at d (raw_stream ?src) buf"
      using splice_splice_append [of d "?h @ ?b" "raw_stream ?rest" buf] size lb
      unfolding stream by (simp add: add.assoc)
    moreover have "d + 5 + k + length (raw_stream ?rest) = d + length (raw_stream ?src)"
      unfolding stream length_append lb by simp
    ultimately show ?thesis by (simp only:)
  qed
qed

definition zlib_raw :: "cpu_info \<Rightarrow> byte list \<Rightarrow> byte list" where
  "zlib_raw cpu src = [0x78, 0x01] @ raw_stream src @ be32 (fpng_adler32 cpu src FPNG_ADLER32_INIT)"

lemma write_raw_block_exec:
  assumes "n \<le> length p" and "length (zlib_raw cpu (take n p)) \<le> length buf" and "length buf < 2 ^ 32" and "n < 2 ^ 32"
  shows "write_raw_block cpu p (u32 n) buf (u32 (length buf)) =
    Inr (splice_at 0 (zlib_raw cpu (take n p)) buf, u32 (length (zlib_raw cpu (take n p))))"
proof -
  let ?s = "raw_stream (take n p)" and ?a = "be32 (fpng_adler32 cpu (take n p) FPNG_ADLER32_INIT)"
  let ?buf1 = "splice_at 0 [0x78, 0x01] buf" and ?buf2 = "splice_at 0 ([0x78, 0x01] @ ?s) buf"
  have size: "2 + length ?s + 4 \<le> length buf" using assms(2) by (simp add: zlib_raw_def)
  have "\<not> u32 (length buf) < 2" using u32_less [of "length buf" 2] assms(3) size by simp
  moreover have "poke 0 [0x78, 0x01] buf = Inr ?buf1" using size by (intro poke_exec) simp
  moreover have "write_raw_loop p (u32 n) 0 2 (u32 (length buf)) ?buf1 = Inr (?buf2, Some (u32 (2 + length ?s)))"
    using write_raw_loop_exec [of n p 0 2 ?buf1] assms size splice_splice_append [of 0 "[0x78, 0x01]" ?s buf]
    by (simp add: numeral_2_eq_2)
  moreover have "peek 0 (unat (u32 n)) p = Inr (take n p)"
    using assms(1) u32_unat [OF assms(4)] by (simp add: peek_def slice_def)
  moreover have "put_bytes ?a (u32 (2 + length ?s)) (u32 (length buf)) ?buf2 =
      Inr (splice_at 0 (zlib_raw cpu (take n p)) buf, Some (u32 (length (zlib_raw cpu (take n p)))))"
    using put_bytes_exec [of "2 + length ?s" ?a ?buf2] assms(3) size
      splice_splice_append [of 0 "[0x78, 0x01] @ ?s" ?a buf]
    by (simp add: zlib_raw_def add.commute)
  ultimately show ?thesis by (simp add: write_raw_block_def)
qed

section \<open>Reading the blocks\<close>

lemma or_false_assoc: "or_false (or_false r f) g = or_false r (\<lambda>x. or_false (f x) g)"
  by (cases r) (auto simp: or_false_def split: option.splits)

lemma raw_bytes_append:
  "raw_bytes sc dc bpl len (xs @ ys) s = or_false (raw_bytes sc dc bpl len xs s) (raw_bytes sc dc bpl len ys)"
proof (induction xs arbitrary: s)
  case (Cons x xs)
  then show ?case
    by (cases "raw_byte sc dc bpl len x s") (auto simp: or_false_def and_then_assoc split: option.splits)
qed (simp add: or_false_def)

lemma low_half: "(v AND 0xFFFF :: u32) = take_bit 16 v"
  by (simp add: take_bit_eq_mask mask_eq_exp_minus_1)

lemma small_word_high_bits: "n < 2 ^ 16 \<Longrightarrow> 16 \<le> j \<Longrightarrow> \<not> bit (u32 n) j"
proof -
  assume "n < 2 ^ 16" "16 \<le> j"
  then have "n < 2 ^ j" using power_increasing [of 16 j "2 :: nat"] by linarith
  then have "\<not> bit n j" by (simp add: bit_iff_odd)
  then show ?thesis by (simp add: bit_simps)
qed

text \<open>A reader of the header gets the length back, and the complement check succeeds.\<close>

lemma block_header_length:
  fixes k :: nat
  assumes "k < 2 ^ 16" and "h = raw_block_header f (u32 k)"
  shows "(ucast (h ! 1) OR push_bit 8 (ucast (h ! 2)) :: u32) = u32 k"
    and "NOT (ucast (h ! 3) OR push_bit 8 (ucast (h ! 4)) :: u32) AND 0xFFFF = u32 k"
    and "h ! 0 = (if f then 1 else 0)"
proof -
  have h: "h ! 1 = ucast (u32 k AND 0xFF)" "h ! 2 = ucast (drop_bit 8 (u32 k) AND 0xFF)"
    "h ! 3 = ucast (NOT (u32 k) AND 0xFF)" "h ! 4 = ucast (drop_bit 8 (NOT (u32 k)) AND 0xFF)"
    by (simp_all add: assms(2) raw_block_header_def numeral_eq_Suc)
  have high: "\<not> bit (u32 k) (16 + j)" "\<not> bit (u32 k) (24 + j)" for j
    using small_word_high_bits [OF assms(1)] by simp_all
  show "(ucast (h ! 1) OR push_bit 8 (ucast (h ! 2)) :: u32) = u32 k"
    by (rule word32_eqI)
      (simp_all only: h low_byte bit_or_iff bit_push_bit_iff bit_ucast_iff bit_take_bit_iff bit_drop_bit_eq o_apply high, auto)
  show "NOT (ucast (h ! 3) OR push_bit 8 (ucast (h ! 4)) :: u32) AND 0xFFFF = u32 k"
    by (rule word32_eqI)
      (simp_all only: h low_byte low_half bit_not_iff bit_or_iff bit_push_bit_iff bit_ucast_iff bit_take_bit_iff
        bit_drop_bit_eq o_apply high, auto)
  show "h ! 0 = (if f then 1 else 0)" by (simp add: assms(2) raw_block_header_def)
qed

lemma slice_add: "slice a (m + n) p = slice a m p @ slice (a + m) n p"
  by (simp add: slice_def take_add add.commute [of m a])

lemma take_5: "slice q 5 p = h \<Longrightarrow> q + 5 \<le> length p \<Longrightarrow> p ! q = h ! 0 \<and> slice (q + 1) 4 p = [h ! 1, h ! 2, h ! 3, h ! 4]"
proof -
  assume h: "slice q 5 p = h" and len: "q + 5 \<le> length p"
  have nth: "h ! i = p ! (q + i)" if "i < 5" for i using nth_slice [OF len that] h by simp
  have "slice (q + 1) 4 p = [h ! 1, h ! 2, h ! 3, h ! 4]"
  proof (rule nth_equalityI)
    show "length (slice (q + 1) 4 p) = length [h ! 1, h ! 2, h ! 3, h ! 4]" using len by simp
    fix i assume "i < length (slice (q + 1) 4 p)"
    then have "i < 4" using len by simp
    then have "slice (q + 1) 4 p ! i = h ! (i + 1)" using len nth [of "i + 1"] by (simp add: nth_slice)
    also from \<open>i < 4\<close> consider "i = 0" | "i = 1" | "i = 2" | "i = 3" by linarith
    then have "h ! (i + 1) = [h ! 1, h ! 2, h ! 3, h ! 4] ! i"
      by cases (simp_all add: numeral_2_eq_2 numeral_3_eq_3 eval_nat_numeral)
    finally show "slice (q + 1) 4 p ! i = [h ! 1, h ! 2, h ! 3, h ! 4] ! i" .
  qed
  then show ?thesis using nth [of 0] by simp
qed

lemma read_one_block:
  assumes "slice q (5 + length b) p = raw_block_header f (u32 (length b)) @ b" and "length b < 2 ^ 16"
    and "q + 5 + length b \<le> length p" and "length p < 2 ^ 31"
  shows "raw_blocks_loop (Suc fuel) sc dc bpl len p (u32 (length p)) (u32 q) s =
    or_false (raw_bytes sc dc bpl len b s) (\<lambda>s.
      if f then Inr (Some (u32 (q + 5 + length b), s))
      else raw_blocks_loop fuel sc dc bpl len p (u32 (length p)) (u32 (q + 5 + length b)) s)"
proof -
  let ?h = "raw_block_header f (u32 (length b))" and ?k = "length b"
  have parts: "slice q 5 p = ?h" "slice (q + 5) ?k p = b"
  proof -
    have split: "slice q (5 + ?k) p = slice q 5 p @ slice (q + 5) ?k p" by (rule slice_add)
    have "length (slice q 5 p) = length ?h" using assms(3) by simp
    then show "slice q 5 p = ?h" "slice (q + 5) ?k p = b" using assms(1) split by simp_all
  qed
  have five: "p ! q = ?h ! 0" "slice (q + 1) 4 p = [?h ! 1, ?h ! 2, ?h ! 3, ?h ! 4]"
    using take_5 [OF parts(1)] assms(3) by simp_all
  note hdr = block_header_length [OF assms(2) refl, of f]
  have byte: "read_byte p q = Inr (?h ! 0)" using assms(3) five(1) by (simp add: read_byte_def)
  have four: "peek (q + 1) 4 p = Inr [?h ! 1, ?h ! 2, ?h ! 3, ?h ! 4]" using assms(3) five(2) by (simp add: peek_def)
  have body: "peek (q + 5) ?k p = Inr b" using assms(3) parts(2) by (simp add: peek_def)
  have words: "u32 q + 1 = u32 (q + 1)" "u32 (q + 1) + 4 = u32 (q + 5)" "u32 (q + 5) + u32 ?k = u32 (q + 5 + ?k)" by simp_all
  have gt: "\<not> u32 j > u32 (length p)" if "j \<le> length p" for j
    using u32_less [of "length p" j] that assms(4) by simp
  have ok: "\<not> u32 (q + 1) > u32 (length p)" "\<not> u32 (q + 5) > u32 (length p)" "\<not> u32 (q + 5 + ?k) > u32 (length p)"
    using assms(3) by (intro gt; linarith)+
  have small: "unat (u32 j) = j" if "j \<le> length p" for j using u32_unat [of j] that assms(4) by simp
  have un: "unat (u32 q) = q" "unat (u32 (q + 1)) = q + 1" "unat (u32 (q + 5)) = q + 5" "unat (u32 ?k) = ?k"
    using assms(3) by (intro small; linarith)+
  have flags: "(?h ! 0 AND 1 \<noteq> 0) = f" "drop_bit 1 (?h ! 0) AND 3 = 0" using hdr(3) by simp_all
  have nth: "[?h ! 1, ?h ! 2, ?h ! 3, ?h ! 4] ! 0 = ?h ! 1" "[?h ! 1, ?h ! 2, ?h ! 3, ?h ! 4] ! 1 = ?h ! 2"
    "[?h ! 1, ?h ! 2, ?h ! 3, ?h ! 4] ! 2 = ?h ! 3" "[?h ! 1, ?h ! 2, ?h ! 3, ?h ! 4] ! 3 = ?h ! 4"
    by (simp_all add: numeral_2_eq_2 numeral_3_eq_3)
  show ?thesis
    by (simp only: raw_blocks_loop.simps(2) words ok un byte four body and_then.simps Let_def flags nth hdr(1,2)
      if_False not_True_eq_False simp_thms)
qed

lemma read_raw_stream:
  assumes "src \<noteq> []" and "slice q (length (raw_stream src)) p = raw_stream src" and "q + length (raw_stream src) \<le> length p"
    and "length p < 2 ^ 31" and "length src < fuel"
  shows "raw_blocks_loop fuel sc dc bpl len p (u32 (length p)) (u32 q) s =
    or_false (raw_bytes sc dc bpl len src s) (\<lambda>s. Inr (Some (u32 (q + length (raw_stream src)), s)))"
  using assms
proof (induction src arbitrary: q s fuel rule: raw_stream.induct)
  case (1 src)
  let ?b = "take 65535 src" and ?rest = "drop 65535 src"
  obtain fuel' where fuel: "fuel = Suc fuel'" using "1.prems"(5) by (cases fuel) auto
  have stream: "raw_stream src = raw_block_header (?rest = []) (u32 (length ?b)) @ ?b @ raw_stream ?rest"
    using "1.prems"(1) by (subst raw_stream.simps) (simp only: if_False)
  let ?n = "5 + length ?b" and ?m = "length (raw_stream ?rest)"
  have len: "length (raw_stream src) = ?n + ?m" unfolding stream by simp
  have split: "slice q (?n + ?m) p = slice q ?n p @ slice (q + ?n) ?m p" by (rule slice_add)
  have "length (slice q ?n p) = ?n" using "1.prems"(3) len by (intro length_slice) linarith
  then have same: "length (slice q ?n p) = length (raw_block_header (?rest = []) (u32 (length ?b)) @ ?b)" by simp
  have "slice q ?n p @ slice (q + ?n) ?m p =
      (raw_block_header (?rest = []) (u32 (length ?b)) @ ?b) @ raw_stream ?rest"
    using "1.prems"(2) unfolding len split [symmetric] by (simp only: stream append_assoc)
  then have parts: "slice q ?n p = raw_block_header (?rest = []) (u32 (length ?b)) @ ?b"
    "slice (q + ?n) ?m p = raw_stream ?rest"
    unfolding append_eq_append_conv [OF disjI1 [OF same]] by (rule conjunct1, rule conjunct2)
  have block: "raw_blocks_loop (Suc fuel') sc dc bpl len p (u32 (length p)) (u32 q) s =
    or_false (raw_bytes sc dc bpl len ?b s) (\<lambda>s.
      if ?rest = [] then Inr (Some (u32 (q + 5 + length ?b), s))
      else raw_blocks_loop fuel' sc dc bpl len p (u32 (length p)) (u32 (q + 5 + length ?b)) s)"
    using parts(1) "1.prems"(3,4) len by (intro read_one_block) simp_all
  have ends: "q + 5 + length ?b + ?m = q + length (raw_stream src)" unfolding len by simp
  show ?case
  proof (cases "?rest = []")
    case True
    then have all: "?b = src" by (metis append_Nil2 append_take_drop_id)
    show ?thesis unfolding fuel block using ends True by (simp only: all simp_thms if_True raw_stream_Nil list.size add_0_right)
  next
    case False
    have "raw_blocks_loop fuel' sc dc bpl len p (u32 (length p)) (u32 (q + 5 + length ?b)) s1 =
        or_false (raw_bytes sc dc bpl len ?rest s1) (\<lambda>s. Inr (Some (u32 (q + 5 + length ?b + ?m), s)))" for s1
    proof -
      have "slice (q + 5 + length ?b) ?m p = raw_stream ?rest" using parts(2) by (simp only: add.assoc)
      moreover have "q + 5 + length ?b + ?m \<le> length p" using "1.prems"(3) unfolding len by simp
      moreover have "length ?rest < fuel'" using "1.prems"(1,5) fuel by (cases src) auto
      ultimately show ?thesis using "1.IH" [OF "1.prems"(1) False] "1.prems"(4) by blast
    qed
    then have "raw_blocks_loop fuel sc dc bpl len p (u32 (length p)) (u32 q) s =
        or_false (raw_bytes sc dc bpl len ?b s) (\<lambda>s. or_false (raw_bytes sc dc bpl len ?rest s)
          (\<lambda>s. Inr (Some (u32 (q + length (raw_stream src)), s))))"
      unfolding fuel block using False ends by (simp only: if_False)
    also have "\<dots> = or_false (raw_bytes sc dc bpl len (?b @ ?rest) s)
        (\<lambda>s. Inr (Some (u32 (q + length (raw_stream src)), s)))"
      unfolding raw_bytes_append by (simp only: or_false_assoc)
    finally show ?thesis by (simp only: append_take_drop_id)
  qed
qed

end
