(* ===== verification/Fpng_Pixels.thy ===== *)
theory Fpng_Pixels
  imports Fpng_Raw_Proofs
begin

text \<open>
  Uncompressed pixels: the bytes of rows without a filter are copied to the image pixel by pixel, with
  the alpha channel added or dropped. A state is given by natural numbers: the bytes read of the
  scanline, the components read of the pixel, and the bytes written to the image.
\<close>

section \<open>One pixel\<close>

abbreviation st :: "nat \<Rightarrow> nat \<Rightarrow> nat \<Rightarrow> byte list \<Rightarrow> raw_state" where
  "st r c d buf \<equiv> \<lparr>raster_ofs = u32 r, comp_ofs = u32 c, dst_ofs = u32 d, pDst = buf\<rparr>"

text \<open>What the component \<open>c\<close> of a pixel adds to the image.\<close>

definition emit :: "nat \<Rightarrow> nat \<Rightarrow> nat \<Rightarrow> byte \<Rightarrow> byte list" where
  "emit sc dc c b = (if c < dc then [b] else []) @ (if c + 1 = sc \<and> sc < dc then [0xFF] else [])"

fun emits :: "nat \<Rightarrow> nat \<Rightarrow> nat \<Rightarrow> byte list \<Rightarrow> byte list" where
  "emits sc dc c [] = []"
| "emits sc dc c (b # bs) = emit sc dc c b @ emits sc dc (c + 1) bs"

definition convert_pixel :: "nat \<Rightarrow> nat \<Rightarrow> byte list \<Rightarrow> byte list" where
  "convert_pixel sc dc p = take dc p @ (if sc < dc then [0xFF] else [])"

lemma emits_pixel:
  assumes "sc = 3 \<or> sc = 4" and "dc = 3 \<or> dc = 4" and "length p = sc"
  shows "emits sc dc 0 p = convert_pixel sc dc p"
proof -
  have "\<exists>a b c. p = [a, b, c]" if "length p = 3"
    using that by (auto simp: numeral_eq_Suc length_Suc_conv)
  moreover have "\<exists>a b c d. p = [a, b, c, d]" if "length p = 4"
    using that by (auto simp: numeral_eq_Suc length_Suc_conv)
  ultimately show ?thesis using assms by (auto simp: emit_def convert_pixel_def)
qed

lemma or_false_Some [simp]: "or_false (Inr (Some s)) f = f s"
  by (simp add: or_false_def)

lemma put_component_exec:
  assumes "d < length buf" and "length buf < 2 ^ 32"
  shows "put_component (u32 (length buf)) b (st r c d buf) = Inr (Some (st r c (d + 1) (splice_at d [b] buf)))"
proof -
  have "u32 d \<noteq> u32 (length buf)" "unat (u32 d) = d" using assms by (simp_all add: u32_eq u32_unat)
  then show ?thesis using assms(1) by (simp add: put_component_def poke_exec add.commute)
qed

lemma raw_component_exec:
  assumes "c < sc" and "sc < 2 ^ 32" and "dc < 2 ^ 32" and "d + length (emit sc dc c b) \<le> length buf" and "length buf < 2 ^ 32"
  shows "raw_component (u32 sc) (u32 dc) (u32 (length buf)) b (st r c d buf) =
    Inr (Some (st r (if c + 1 = sc then 0 else c + 1) (d + length (emit sc dc c b)) (splice_at d (emit sc dc c b) buf)))"
proof -
  let ?e = "if c < dc then [b] else []"
  let ?buf1 = "splice_at d ?e buf"
  have len: "length ?buf1 = length buf" using assms(4) by (intro length_splice_at) (auto simp: emit_def split: if_splits)
  have less: "u32 c < u32 dc \<longleftrightarrow> c < dc" "u32 sc < u32 dc \<longleftrightarrow> sc < dc" "u32 (c + 1) = u32 sc \<longleftrightarrow> c + 1 = sc"
    using assms(1-3) by (simp_all only: u32_less u32_eq)
  have succ: "u32 c + 1 = u32 (c + 1)" by simp
  have first: "(if c < dc then put_component (u32 (length buf)) b (st r c d buf) else Inr (Some (st r c d buf))) =
      Inr (Some (st r c (d + length ?e) ?buf1))"
    using put_component_exec [of d buf b r c] assms(4,5) by (cases "c < dc") (simp_all add: emit_def ac_simps)
  show ?thesis
  proof (cases "c + 1 = sc")
    case True
    have "(if sc < dc then put_component (u32 (length buf)) 0xFF (st r (c + 1) (d + length ?e) ?buf1)
        else Inr (Some (st r (c + 1) (d + length ?e) ?buf1))) =
        Inr (Some (st r (c + 1) (d + length (emit sc dc c b)) (splice_at d (emit sc dc c b) buf)))"
      using put_component_exec [of "d + length ?e" ?buf1 "0xFF" r "c + 1"] assms(4,5) len True
        splice_splice_append [of d ?e "[0xFF]" buf]
      by (auto simp: emit_def ac_simps)
    then show ?thesis
      by (simp only: raw_component_def raw_state.select_convs raw_state.update_convs less first or_false_Some Let_def
        succ True simp_thms if_True if_False semiring_1_class.of_nat_0)
  next
    case False
    then have "emit sc dc c b = ?e" by (simp add: emit_def)
    then show ?thesis
      by (simp only: raw_component_def raw_state.select_convs raw_state.update_convs less first or_false_Some Let_def
        succ False if_False)
  qed
qed

lemma raw_byte_exec:
  assumes "0 < r" and "r \<le> bpl" and "bpl + 1 < 2 ^ 32" and "r = bpl \<longrightarrow> c + 1 = sc"
    and "c < sc" and "sc < 2 ^ 32" and "dc < 2 ^ 32" and "d + length (emit sc dc c b) \<le> length buf" and "length buf < 2 ^ 32"
  shows "raw_byte (u32 sc) (u32 dc) (u32 bpl) (u32 (length buf)) b (st r c d buf) =
    Inr (Some (st (if r = bpl then 0 else r + 1) (if c + 1 = sc then 0 else c + 1) (d + length (emit sc dc c b))
      (splice_at d (emit sc dc c b) buf)))"
proof -
  have "u32 r \<noteq> 0" using assms(1-3) u32_eq [of r 0] by simp
  moreover have "u32 (r + 1) = u32 (bpl + 1) \<longleftrightarrow> r = bpl" using assms(2,3) u32_eq [of "r + 1" "bpl + 1"] by simp
  ultimately show ?thesis
    using raw_component_exec [OF assms(5-9), of r] assms(4)
    by (auto simp: raw_byte_def or_false_def Let_def add.commute)
qed

lemma raw_bytes_exec:
  assumes "0 < r" and "r + length bs \<le> bpl + 1" and "c + length bs = sc" and "bs \<noteq> []"
    and "bpl + 1 < 2 ^ 32" and "sc < 2 ^ 32" and "dc < 2 ^ 32" and "length buf < 2 ^ 32"
    and "d + length (emits sc dc c bs) \<le> length buf"
  shows "raw_bytes (u32 sc) (u32 dc) (u32 bpl) (u32 (length buf)) bs (st r c d buf) =
    Inr (Some (st (if r + length bs = bpl + 1 then 0 else r + length bs) 0 (d + length (emits sc dc c bs))
      (splice_at d (emits sc dc c bs) buf)))"
  using assms
proof (induction bs arbitrary: r c d buf)
  case (Cons b bs)
  let ?e = "emit sc dc c b" and ?buf = "splice_at d (emit sc dc c b) buf"
  have len: "length ?buf = length buf" using Cons.prems(9) by (intro length_splice_at) simp
  have ends: "r = bpl \<longrightarrow> bs = []" using Cons.prems(2) by (cases bs) auto
  have c: "c < sc" "c + 1 = sc \<longleftrightarrow> bs = []" using Cons.prems(3) by auto
  have fits: "d + length ?e \<le> length buf" "r \<le> bpl" using Cons.prems(2,9) by simp_all
  have step: "raw_byte (u32 sc) (u32 dc) (u32 bpl) (u32 (length buf)) b (st r c d buf) =
      Inr (Some (st (if r = bpl then 0 else r + 1) (if c + 1 = sc then 0 else c + 1) (d + length ?e) ?buf))"
    using ends c(2) by (intro raw_byte_exec Cons.prems c fits) simp
  show ?case
  proof (cases "bs = []")
    case True
    then show ?thesis using step c(2) by (simp add: or_false_def)
  next
    case False
    then have r: "r \<noteq> bpl" "c + 1 \<noteq> sc" using ends c(2) by simp_all
    have "raw_bytes (u32 sc) (u32 dc) (u32 bpl) (u32 (length ?buf)) bs (st (r + 1) (c + 1) (d + length ?e) ?buf) =
        Inr (Some (st (if r + 1 + length bs = bpl + 1 then 0 else r + 1 + length bs) 0
          (d + length ?e + length (emits sc dc (c + 1) bs)) (splice_at (d + length ?e) (emits sc dc (c + 1) bs) ?buf)))"
      using Cons.prems False len by (intro Cons.IH) simp_all
    moreover have "splice_at (d + length ?e) (emits sc dc (c + 1) bs) ?buf = splice_at d (emits sc dc c (b # bs)) buf"
      using Cons.prems(9) splice_splice_append [of d ?e "emits sc dc (c + 1) bs" buf] by simp
    ultimately show ?thesis unfolding raw_bytes.simps step or_false_Some len using r by (simp add: add.assoc)
  qed
qed simp

section \<open>Rows and images\<close>

text \<open>An image is a list of rows, a row a list of pixels.\<close>

definition convert_row :: "nat \<Rightarrow> nat \<Rightarrow> byte list list \<Rightarrow> byte list" where
  "convert_row sc dc ps = concat (map (convert_pixel sc dc) ps)"

definition unfiltered :: "byte list list list \<Rightarrow> byte list" where
  "unfiltered rows = concat (map (\<lambda>ps. 0 # concat ps) rows)"

definition row_ok :: "nat \<Rightarrow> nat \<Rightarrow> byte list list \<Rightarrow> bool" where
  "row_ok sc w ps \<longleftrightarrow> length ps = w \<and> (\<forall>p \<in> set ps. length p = sc)"

lemma length_convert_pixel:
  "sc = 3 \<or> sc = 4 \<Longrightarrow> dc = 3 \<or> dc = 4 \<Longrightarrow> length p = sc \<Longrightarrow> length (convert_pixel sc dc p) = dc"
  by (auto simp: convert_pixel_def)

lemma length_convert_row:
  "sc = 3 \<or> sc = 4 \<Longrightarrow> dc = 3 \<or> dc = 4 \<Longrightarrow> row_ok sc w ps \<Longrightarrow> length (convert_row sc dc ps) = w * dc"
  by (induction ps arbitrary: w) (auto simp: convert_row_def row_ok_def length_convert_pixel)

lemma length_concat_row: "row_ok sc w ps \<Longrightarrow> length (concat ps) = w * sc"
  by (induction ps arbitrary: w) (auto simp: row_ok_def)

lemma row_pixels_exec:
  assumes sc: "sc = 3 \<or> sc = 4" and dc: "dc = 3 \<or> dc = 4"
    and "\<forall>p \<in> set ps. length p = sc" and "ps \<noteq> []" and "0 < r" and "r + length ps * sc = bpl + 1" and "bpl + 1 < 2 ^ 32"
    and "length buf < 2 ^ 32" and "d + length (convert_row sc dc ps) \<le> length buf"
  shows "raw_bytes (u32 sc) (u32 dc) (u32 bpl) (u32 (length buf)) (concat ps) (st r 0 d buf) =
    Inr (Some (st 0 0 (d + length (convert_row sc dc ps)) (splice_at d (convert_row sc dc ps) buf)))"
  using assms(3-9)
proof (induction ps arbitrary: r d buf)
  case (Cons p ps)
  let ?e = "convert_pixel sc dc p" and ?buf = "splice_at d (convert_pixel sc dc p) buf"
  have p: "length p = sc" using Cons.prems(1) by simp
  have e: "emits sc dc 0 p = ?e" by (rule emits_pixel [OF sc dc p])
  have row: "convert_row sc dc (p # ps) = ?e @ convert_row sc dc ps" by (simp add: convert_row_def)
  have "d + length (emits sc dc 0 p) \<le> length buf" using Cons.prems(7) unfolding row e by simp
  moreover have "p \<noteq> []" "sc < 2 ^ 32" "dc < 2 ^ 32" using p sc dc by auto
  ultimately have pixel: "raw_bytes (u32 sc) (u32 dc) (u32 bpl) (u32 (length buf)) p (st r 0 d buf) =
      Inr (Some (st (if r + sc = bpl + 1 then 0 else r + sc) 0 (d + length ?e) ?buf))"
    using raw_bytes_exec [of r p bpl 0 sc dc buf d] Cons.prems(3-6) p unfolding e by simp
  have len: "length ?buf = length buf" using Cons.prems(7) unfolding row by (intro length_splice_at) simp
  show ?case
  proof (cases "ps = []")
    case True
    then have "r + sc = bpl + 1" "convert_row sc dc ps = []" using Cons.prems(4) by (simp_all add: convert_row_def)
    then show ?thesis using pixel row True by simp
  next
    case False
    then have r: "r + sc \<noteq> bpl + 1" using Cons.prems(4) sc by (cases ps) auto
    have "raw_bytes (u32 sc) (u32 dc) (u32 bpl) (u32 (length ?buf)) (concat ps) (st (r + sc) 0 (d + length ?e) ?buf) =
        Inr (Some (st 0 0 (d + length ?e + length (convert_row sc dc ps))
          (splice_at (d + length ?e) (convert_row sc dc ps) ?buf)))"
      using Cons.prems False len row by (intro Cons.IH) simp_all
    moreover have "splice_at (d + length ?e) (convert_row sc dc ps) ?buf = splice_at d (convert_row sc dc (p # ps)) buf"
      using Cons.prems(7) splice_splice_append [of d ?e "convert_row sc dc ps" buf] row by simp
    ultimately show ?thesis unfolding concat.simps raw_bytes_append pixel or_false_Some len using r row by (simp add: add.assoc)
  qed
qed simp

lemma row_exec:
  assumes sc: "sc = 3 \<or> sc = 4" and dc: "dc = 3 \<or> dc = 4"
    and row: "row_ok sc w ps" and w: "0 < w" "w * sc + 1 < 2 ^ 32"
    and buf: "length buf < 2 ^ 32" "d + w * dc \<le> length buf"
  shows "raw_bytes (u32 sc) (u32 dc) (u32 (w * sc)) (u32 (length buf)) (0 # concat ps) (st 0 0 d buf) =
    Inr (Some (st 0 0 (d + w * dc) (splice_at d (convert_row sc dc ps) buf)))"
proof -
  have "u32 1 \<noteq> u32 (w * sc + 1)" using w sc u32_eq [of 1 "w * sc + 1"] by auto
  then have filter: "raw_byte (u32 sc) (u32 dc) (u32 (w * sc)) (u32 (length buf)) 0 (st 0 0 d buf) = Inr (Some (st 1 0 d buf))"
    by (auto simp: raw_byte_def Let_def add.commute)
  have "raw_bytes (u32 sc) (u32 dc) (u32 (w * sc)) (u32 (length buf)) (concat ps) (st 1 0 d buf) =
      Inr (Some (st 0 0 (d + length (convert_row sc dc ps)) (splice_at d (convert_row sc dc ps) buf)))"
    using row w buf length_convert_row [OF sc dc row]
    by (intro row_pixels_exec [OF sc dc]) (auto simp: row_ok_def)
  then show ?thesis unfolding raw_bytes.simps filter or_false_Some length_convert_row [OF sc dc row] .
qed

lemma rows_exec:
  assumes sc: "sc = 3 \<or> sc = 4" and dc: "dc = 3 \<or> dc = 4"
    and "\<forall>ps \<in> set rows. row_ok sc w ps" and w: "0 < w" "w * sc + 1 < 2 ^ 32"
    and "length buf < 2 ^ 32" "d + length rows * (w * dc) \<le> length buf"
  shows "raw_bytes (u32 sc) (u32 dc) (u32 (w * sc)) (u32 (length buf)) (unfiltered rows) (st 0 0 d buf) =
    Inr (Some (st 0 0 (d + length rows * (w * dc)) (splice_at d (concat (map (convert_row sc dc) rows)) buf)))"
  using assms(3,6,7)
proof (induction rows arbitrary: d buf)
  case (Cons ps rows)
  let ?e = "convert_row sc dc ps" and ?buf = "splice_at d (convert_row sc dc ps) buf"
  let ?rest = "concat (map (convert_row sc dc) rows)"
  have ok: "row_ok sc w ps" using Cons.prems(1) by simp
  have e: "length ?e = w * dc" by (rule length_convert_row [OF sc dc ok])
  have rest: "length ?rest = length rows * (w * dc)"
    using Cons.prems(1) length_convert_row [OF sc dc] by (induction rows) auto
  have len: "length ?buf = length buf" using Cons.prems(3) e by (intro length_splice_at) simp
  have row: "raw_bytes (u32 sc) (u32 dc) (u32 (w * sc)) (u32 (length buf)) (0 # concat ps) (st 0 0 d buf) =
      Inr (Some (st 0 0 (d + w * dc) ?buf))"
    using Cons.prems(3) by (intro row_exec [OF sc dc ok w Cons.prems(2)]) simp
  have "raw_bytes (u32 sc) (u32 dc) (u32 (w * sc)) (u32 (length ?buf)) (unfiltered rows) (st 0 0 (d + w * dc) ?buf) =
      Inr (Some (st 0 0 (d + w * dc + length rows * (w * dc)) (splice_at (d + w * dc) ?rest ?buf)))"
    using Cons.prems len by (intro Cons.IH) simp_all
  moreover have "splice_at (d + w * dc) ?rest ?buf = splice_at d (?e @ ?rest) buf"
    using Cons.prems(3) splice_splice_append [of d ?e ?rest buf] rest unfolding e by simp
  moreover have "unfiltered (ps # rows) = (0 # concat ps) @ unfiltered rows" by (simp add: unfiltered_def)
  ultimately show ?case
    by (simp only: raw_bytes_append row or_false_Some len list.map concat.simps list.size add.assoc mult_Suc)
      (simp add: algebra_simps)
qed (simp add: unfiltered_def)

section \<open>The whole image\<close>

lemma length_zlib_raw: "length (zlib_raw cpu src) = length (raw_stream src) + 6"
  by (simp add: zlib_raw_def)

lemma raw_decompress_exec:
  assumes sc: "sc = 3 \<or> sc = 4" and dc: "dc = 3 \<or> dc = 4" and rows: "\<forall>ps \<in> set rows. row_ok sc w ps" "rows \<noteq> []"
    and w: "0 < w" "w * sc + 1 < 2 ^ 32" and buf: "length buf = w * dc * length rows" "length buf < 2 ^ 32"
    and p: "p = zlib_raw cpu (unfiltered rows) @ rest" "length p < 2 ^ 31"
  shows "fpng_pixel_zlib_raw_decompress p (u32 (length p)) (u32 (length (zlib_raw cpu (unfiltered rows)))) buf
    (u32 w) (u32 (length rows)) (u32 sc) (u32 dc) = Inr (Some (concat (map (convert_row sc dc) rows)))"
proof -
  let ?src = "unfiltered rows" and ?out = "concat (map (convert_row sc dc) rows)"
  let ?s = "raw_stream ?src"
  have ne: "?src \<noteq> []" using rows(2) by (cases rows) (auto simp: unfiltered_def)
  have stream: "slice 2 (length ?s) p = ?s" unfolding p(1) zlib_raw_def slice_def by simp
  have len: "2 + length ?s + 4 \<le> length p" unfolding p(1) zlib_raw_def by simp
  have "length ?src \<le> length ?s" by (simp add: length_raw_stream)
  then have fuel: "length ?src < Suc (length p)" using len by simp
  have "raw_blocks_loop (Suc (length p)) (u32 sc) (u32 dc) (u32 (w * sc)) (u32 (length buf)) p (u32 (length p)) (u32 2)
      (st 0 0 0 buf) =
    or_false (raw_bytes (u32 sc) (u32 dc) (u32 (w * sc)) (u32 (length buf)) ?src (st 0 0 0 buf))
      (\<lambda>s. Inr (Some (u32 (2 + length ?s), s)))"
    using len by (intro read_raw_stream [OF ne stream _ p(2) fuel]) simp
  also have "raw_bytes (u32 sc) (u32 dc) (u32 (w * sc)) (u32 (length buf)) ?src (st 0 0 0 buf) =
      Inr (Some (st 0 0 (length buf) (splice_at 0 ?out buf)))"
    using rows_exec [OF sc dc rows(1) w buf(2), of 0] buf(1) by (simp add: ac_simps)
  also have "splice_at 0 ?out buf = ?out"
  proof -
    have "length ?out = length rows * (w * dc)"
      using rows(1) length_convert_row [OF sc dc] by (induction rows) auto
    then show ?thesis using buf(1) by (simp add: splice_at_def)
  qed
  finally have loop: "raw_blocks_loop (Suc (length p)) (u32 sc) (u32 dc) (u32 (w * sc)) (u32 (length buf)) p (u32 (length p)) 2
      \<lparr>raster_ofs = 0, comp_ofs = 0, dst_ofs = 0, pDst = buf\<rparr> = Inr (Some (u32 (2 + length ?s), st 0 0 (length buf) ?out))"
    by simp
  have chans: "(u32 sc = 3 \<or> u32 sc = 4) = True" "(u32 dc = 3 \<or> u32 dc = 4) = True" using sc dc by auto
  have sizes: "u32 w * u32 sc = u32 (w * sc)" "u32 w * u32 dc * u32 (length rows) = u32 (length buf)"
    unfolding buf(1) by simp_all
  have "u32 (2 + length ?s) + 4 = u32 (length (zlib_raw cpu ?src))" unfolding length_zlib_raw by simp
  then show ?thesis
    unfolding fpng_pixel_zlib_raw_decompress_def Let_def chans sizes loop by simp
qed

end
