(* ===== verification/Fpng_Filters.thy ===== *)
theory Fpng_Filters
  imports Fpng_Pixels
begin

text \<open>
  The rows of an image in the encoder: the three ways to subtract rows agree, and the loops over the rows
  fill the temporary buffer with one filtered row behind the other.
\<close>

section \<open>Subtracting rows\<close>

lemma sub_rows_sse_map2: "length q = length p \<Longrightarrow> sub_rows_sse p q = map2 (-) p q"
proof (induction p q rule: sub_rows_sse.induct)
  case (1 p q)
  show ?case
  proof (cases "16 \<le> length p")
    case True
    then have "sub_rows_sse p q = map2 (-) (take 16 p) (take 16 q) @ map2 (-) (drop 16 p) (drop 16 q)"
      using 1 by (simp add: sub_rows_sse.simps [of p q] mm_sub_epi8_def)
    also have "\<dots> = map2 (-) (take 16 p @ drop 16 p) (take 16 q @ drop 16 q)"
      using 1(2) by (subst zip_append) simp_all
    finally show ?thesis by simp
  next
    case False
    then show ?thesis using 1(2) by (auto simp: sub_rows_sse.simps [of p q] intro: nth_equalityI)
  qed
qed

lemma sub_rows_3_map2: "length p = n * 3 \<Longrightarrow> length q = n * 3 \<Longrightarrow> sub_rows_3 p q = map2 (-) p q"
  by (induction p q arbitrary: n rule: sub_rows_3.induct) (case_tac n, auto)+

lemma sub_rows_4_map2: "length p = n * 4 \<Longrightarrow> length q = n * 4 \<Longrightarrow> sub_rows_4 p q = map2 (-) p q"
  by (induction p q arbitrary: n rule: sub_rows_4.induct) (case_tac n, auto)+

section \<open>One filtered row\<close>

text \<open>Row \<open>y\<close> of an image with rows of \<open>bpl\<close> bytes, and what the filters make of it.\<close>

definition image_row :: "nat \<Rightarrow> byte list \<Rightarrow> nat \<Rightarrow> byte list" where
  "image_row bpl img y = slice (y * bpl) bpl img"

definition filtered :: "nat \<Rightarrow> byte list \<Rightarrow> bool \<Rightarrow> nat \<Rightarrow> byte list" where
  "filtered bpl img up y =
    (if up \<and> y \<noteq> 0 then 2 # map2 (-) (image_row bpl img y) (image_row bpl img (y - 1)) else 0 # image_row bpl img y)"

lemma image_row_fits: "y < h \<Longrightarrow> y * bpl + bpl \<le> h * (bpl :: nat)"
  by (metis add.commute mult_Suc mult_le_mono1 Suc_leI)

lemma length_image_row: "y < h \<Longrightarrow> length img = h * bpl \<Longrightarrow> length (image_row bpl img y) = bpl"
  using image_row_fits [of y h bpl] by (simp add: image_row_def)

lemma length_filtered: "y < h \<Longrightarrow> length img = h * bpl \<Longrightarrow> length (filtered bpl img up y) = bpl + 1"
  using length_image_row [of y h img bpl] length_image_row [of "y - 1" h img bpl] by (simp add: filtered_def)

lemma peek_image_row:
  "y < h \<Longrightarrow> length img = h * bpl \<Longrightarrow> peek 0 bpl (drop (y * bpl) img) = Inr (image_row bpl img y)"
  using image_row_fits [of y h bpl] by (simp add: peek_def image_row_def slice_def)

lemma apply_filter_exec:
  assumes c: "c = 3 \<or> c = 4" and y: "y < h" and img: "length img = h * (w * c)" "w * c < 2 ^ 32"
  shows "apply_filter cpu (if up \<and> y \<noteq> 0 then 2 else 0) (u32 w) (u32 c) (u32 (w * c)) (drop (y * (w * c)) img)
      (if up \<and> y \<noteq> 0 then Some (drop ((y - 1) * (w * c)) img) else None) =
    Inr (filtered (w * c) img up y)"
proof -
  let ?row = "image_row (w * c) img y" and ?prev = "image_row (w * c) img (y - 1)"
  have bpl: "u32 w * u32 c = u32 (w * c)" "unat (u32 (w * c)) = w * c" using u32_unat [OF img(2)] by simp_all
  have row: "peek 0 (w * c) (drop (y * (w * c)) img) = Inr ?row" by (rule peek_image_row [OF y img(1)])
  show ?thesis
  proof (cases "up \<and> y \<noteq> 0")
    case False
    then show ?thesis unfolding apply_filter_def bpl row by (simp add: filtered_def)
  next
    case True
    have y': "y - 1 < h" using y by simp
    have prev: "peek 0 (w * c) (drop ((y - 1) * (w * c)) img) = Inr ?prev" by (rule peek_image_row [OF y' img(1)])
    note len = length_image_row [OF y img(1)] length_image_row [OF y' img(1)]
    have same: "(if can_use_sse41 cpu then sub_rows_sse ?row ?prev else if u32 c = 3 then sub_rows_3 ?row ?prev
        else sub_rows_4 ?row ?prev) = map2 (-) ?row ?prev"
    proof (cases "can_use_sse41 cpu")
      case True
      then show ?thesis using sub_rows_sse_map2 len by simp
    next
      case False
      have "u32 c = 3 \<longleftrightarrow> c = 3" using c by auto
      then show ?thesis using False c len sub_rows_3_map2 [of ?row w ?prev] sub_rows_4_map2 [of ?row w ?prev] by auto
    qed
    show ?thesis
      unfolding apply_filter_def bpl using True prev row same by (simp add: filtered_def split del: if_split del: One_nat_def)
  qed
qed

section \<open>The loop over the rows\<close>

lemma length_concat_filtered:
  "n \<le> h \<Longrightarrow> length img = h * bpl \<Longrightarrow> length (concat (map (filtered bpl img up) [0 ..< n])) = n * (bpl + 1)"
proof (induction n)
  case (Suc n)
  then show ?case using length_filtered [of n h img bpl up] by simp
qed simp

lemma filter_row_exec:
  assumes c: "c = 3 \<or> c = 4" and img: "length img = h * (w * c)" and n: "n < h" and bpl: "w * c < 2 ^ 32"
    and ofs: "n * (w * c + 1) < 2 ^ 32"
  shows "filter_row cpu (u32 w) (u32 c) (u32 (w * c)) img up n (buf, u32 (n * (w * c + 1))) =
    and_then (poke (n * (w * c + 1)) (filtered (w * c) img up n) buf) (\<lambda>buf. Inr (buf, u32 (Suc n * (w * c + 1))))"
proof -
  let ?bpl = "w * c"
  have words: "unat (u32 n * u32 ?bpl) = n * ?bpl" "unat ((u32 n - 1) * u32 ?bpl) = (n - 1) * ?bpl" if "n \<noteq> 0"
  proof -
    have "n * ?bpl < 2 ^ 32" using ofs by (simp add: algebra_simps)
    then have "n * ?bpl < 2 ^ 32" "(n - 1) * ?bpl < 2 ^ 32" by (auto simp: diff_mult_distrib)
    moreover have "u32 n * u32 ?bpl = u32 (n * ?bpl)" "(u32 n - 1) * u32 ?bpl = u32 ((n - 1) * ?bpl)"
      using \<open>n \<noteq> 0\<close> by (simp_all add: of_nat_diff)
    ultimately show "unat (u32 n * u32 ?bpl) = n * ?bpl" "unat ((u32 n - 1) * u32 ?bpl) = (n - 1) * ?bpl"
      by (simp_all only: u32_unat)
  qed
  have filter: "apply_filter cpu (if up \<and> n \<noteq> 0 then 2 else 0) (u32 w) (u32 c) (u32 ?bpl) (drop (unat (u32 n * u32 ?bpl)) img)
      (if up \<and> n \<noteq> 0 then Some (drop (unat ((u32 n - 1) * u32 ?bpl)) img) else None) = Inr (filtered ?bpl img up n)"
  proof (cases "n = 0")
    case True
    then show ?thesis using apply_filter_exec [OF c n img bpl, of cpu up] by simp
  next
    case False
    show ?thesis unfolding words [OF False] by (rule apply_filter_exec [OF c n img bpl])
  qed
  have "u32 (n * (?bpl + 1)) + (1 + u32 ?bpl) = u32 (Suc n * (?bpl + 1))" by (simp add: algebra_simps)
  then show ?thesis
    by (simp only: filter_row_def Let_def filter and_then.simps fst_conv snd_conv u32_unat [OF ofs])
qed

lemma filter_rows_prefix:
  assumes c: "c = 3 \<or> c = 4" and img: "length img = h * (w * c)" and bpl: "w * c < 2 ^ 32"
    and buf: "length buf < 2 ^ 32" and "n \<le> h" and "n * (w * c + 1) \<le> length buf"
  shows "fold_res (filter_row cpu (u32 w) (u32 c) (u32 (w * c)) img up) [0 ..< n] (buf, 0) =
    Inr (splice_at 0 (concat (map (filtered (w * c) img up) [0 ..< n])) buf, u32 (n * (w * c + 1)))"
  using assms(5,6)
proof (induction n)
  case (Suc n)
  let ?bpl = "w * c" and ?rows = "\<lambda>n. concat (map (filtered (w * c) img up) [0 ..< n])"
  let ?buf = "splice_at 0 (?rows n) buf" and ?row = "filtered (w * c) img up n"
  have n: "n < h" using Suc.prems by simp
  have rows: "length (?rows n) = n * (?bpl + 1)" using n by (intro length_concat_filtered [OF _ img]) simp
  have row: "length ?row = ?bpl + 1" by (rule length_filtered [OF n img])
  have room: "n * (?bpl + 1) + (?bpl + 1) \<le> length buf" using Suc.prems(2) by simp
  then have ofs: "n * (?bpl + 1) < 2 ^ 32" using buf by linarith
  have "poke (n * (?bpl + 1)) ?row ?buf = Inr (splice_at (n * (?bpl + 1)) ?row ?buf)"
    using room rows row by (intro poke_exec) simp
  moreover have "splice_at (n * (?bpl + 1)) ?row ?buf = splice_at 0 (?rows (Suc n)) buf"
    using splice_splice_append [of 0 "?rows n" ?row buf] room rows row by simp
  ultimately have "filter_row cpu (u32 w) (u32 c) (u32 ?bpl) img up n (?buf, u32 (n * (?bpl + 1))) =
      Inr (splice_at 0 (?rows (Suc n)) buf, u32 (Suc n * (?bpl + 1)))"
    unfolding filter_row_exec [OF c img n bpl ofs] by (simp only: and_then.simps)
  then show ?case using Suc by (simp add: fold_res_append)
qed simp

lemma filter_rows_exec:
  assumes c: "c = 3 \<or> c = 4" and img: "length img = h * (w * c)" and buf: "h * (w * c + 1) \<le> length buf" "length buf < 2 ^ 32"
    and h: "0 < h"
  shows "filter_rows cpu (u32 w) (u32 h) (u32 c) (u32 (w * c)) img up buf =
    Inr (splice_at 0 (concat (map (filtered (w * c) img up) [0 ..< h])) buf, u32 (h * (w * c + 1)))"
proof -
  have "1 * (w * c + 1) \<le> length buf" using h by (intro order_trans [OF mult_le_mono1 buf(1)]) simp
  then have "w * c < 2 ^ 32" using buf(2) by simp
  moreover have "h * 1 \<le> length buf" by (intro order_trans [OF mult_le_mono2 buf(1)]) simp
  then have "unat (u32 h) = h" using buf(2) by (intro u32_unat) simp
  ultimately show ?thesis using filter_rows_prefix [OF c img _ buf(2) le_refl buf(1)] by (simp add: filter_rows_def)
qed

text \<open>The row that no longer fits is written outside the buffer.\<close>

lemma filter_rows_overflow:
  assumes c: "c = 3 \<or> c = 4" and img: "length img = h * (w * c)" and bpl: "w * c < 2 ^ 32" and h: "h < 2 ^ 32"
    and buf: "length buf < 2 ^ 32" "length buf < h * (w * c + 1)"
  shows "filter_rows cpu (u32 w) (u32 h) (u32 c) (u32 (w * c)) img up buf = Inl OutOfBounds"
proof -
  define n where "n = length buf div (w * c + 1)"
  let ?bpl = "w * c" and ?rows = "concat (map (filtered (w * c) img up) [0 ..< n])"
  let ?buf = "splice_at 0 ?rows buf"
  have room: "n * (?bpl + 1) \<le> length buf" unfolding n_def by (rule div_times_less_eq_dividend)
  have full: "length buf < n * (?bpl + 1) + (?bpl + 1)"
    using dividend_less_div_times [of "?bpl + 1" "length buf"] by (simp add: n_def)
  have n: "n < h"
  proof (rule ccontr)
    assume "\<not> n < h"
    then have "h * (?bpl + 1) \<le> n * (?bpl + 1)" by (intro mult_le_mono1) simp
    then show False using room buf(2) by linarith
  qed
  have rows: "length ?rows = n * (?bpl + 1)" using n by (intro length_concat_filtered [OF _ img]) simp
  have "poke (n * (?bpl + 1)) (filtered ?bpl img up n) ?buf = Inl OutOfBounds"
    using full room rows length_filtered [OF n img, of up] by (simp add: poke_def)
  then have "filter_row cpu (u32 w) (u32 c) (u32 ?bpl) img up n (?buf, u32 (n * (?bpl + 1))) = Inl OutOfBounds"
    using room buf(1) by (subst filter_row_exec [OF c img n bpl]) simp_all
  moreover have "[0 ..< unat (u32 h)] = [0 ..< n] @ n # [Suc n ..< h]"
    using n upt_add_eq_append [of 0 n "h - n"] by (simp add: u32_unat [OF h] upt_conv_Cons)
  ultimately show ?thesis
    using filter_rows_prefix [OF c img bpl buf(1) _ room, of cpu up] n
    by (simp add: filter_rows_def fold_res_append)
qed

end
