(* ===== verification/Fpng_Files.thy ===== *)
theory Fpng_Files
  imports Fpng_Filters
begin

text \<open>
  The files the encoder writes without compression, as one list, and that the decoder reads them back.
\<close>

section \<open>The chunks around the compressed data\<close>

lemma vector_append_eq [simp]: "vector_append buf xs = buf @ xs"
  by (simp add: vector_append_def resize_def splice_at_def)

lemma length_resize [simp]: "length (resize n buf) = n"
  by (simp add: resize_def)

lemma take_resize: "k \<le> n \<Longrightarrow> k \<le> length buf \<Longrightarrow> take k (resize n buf) = take k buf"
  by (simp add: resize_def min_def)

lemma resize_same [simp]: "length buf = n \<Longrightarrow> resize n buf = buf"
  by (simp add: resize_def)

definition ihdr_crc :: "u32 \<Rightarrow> u32 \<Rightarrow> u32 \<Rightarrow> byte list" where
  "ihdr_crc w h c = be32 (crc32 (slice 12 17 (pnghdr w h c 0 [0, 0, 0, 0])) FPNG_CRC32_INIT)"

definition png_file :: "u32 \<Rightarrow> u32 \<Rightarrow> u32 \<Rightarrow> byte list \<Rightarrow> byte list" where
  "png_file w h c idat =
    pnghdr w h c (u32 (length idat)) (ihdr_crc w h c) @ idat @
    be32 (crc32 (type_IDAT @ idat) FPNG_CRC32_INIT) @ drop 4 iend_bytes"

lemma length_pnghdr [simp]: "length crc = 4 \<Longrightarrow> length (pnghdr w h c n crc) = 58"
  by (simp add: pnghdr_def)

lemma drop_pnghdr: "length crc = 4 \<Longrightarrow> drop 54 (pnghdr w h c n crc) = type_IDAT"
  by (simp add: pnghdr_def type_IDAT_def be32_def)

lemma length_type_IDAT [simp]: "length type_IDAT = 4"
  by (simp add: type_IDAT_def)

lemma ihdr_bytes: "slice 12 17 (pnghdr w h c n [0, 0, 0, 0]) = slice 12 17 (pnghdr w h c 0 [0, 0, 0, 0])"
  by (simp add: pnghdr_def slice_def)

lemma write_png_chunks_exec:
  assumes len: "length obuf = 58 + length idat" "drop 58 obuf = idat" "58 + length idat < 2 ^ 32"
  shows "write_png_chunks cpu w h c obuf = Inr (png_file w h c idat)"
proof -
  let ?n = "u32 (length idat)"
  let ?hdr = "pnghdr w h c ?n (ihdr_crc w h c)" and ?crc = "be32 (crc32 (type_IDAT @ idat) FPNG_CRC32_INIT)"
  have n: "u32 (length obuf) - 58 = ?n" "unat (?n + 4) = length idat + 4"
    using len u32_unat [of "length idat + 4"] by (simp_all add: add.commute)
  have crc1: "fpng_crc32 cpu (slice 12 17 (pnghdr w h c ?n [0, 0, 0, 0])) FPNG_CRC32_INIT =
      Inr (crc32 (slice 12 17 (pnghdr w h c 0 [0, 0, 0, 0])) FPNG_CRC32_INIT)"
    unfolding ihdr_bytes [of w h c ?n] by (rule fpng_crc32_correct) (simp add: slice_def)
  have head: "poke 0 ?hdr obuf = Inr (?hdr @ idat)"
    using len by (simp add: poke_exec splice_zero ihdr_crc_def)
  have "drop 54 (?hdr @ idat @ iend_bytes) = type_IDAT @ idat @ iend_bytes"
    using drop_pnghdr [of "ihdr_crc w h c" w h c ?n] by (simp add: ihdr_crc_def)
  then have data: "peek 54 (length idat + 4) (?hdr @ idat @ iend_bytes) = Inr (type_IDAT @ idat)"
    by (simp add: peek_def slice_def ihdr_crc_def iend_bytes_def)
  have crc2: "fpng_crc32 cpu (type_IDAT @ idat) FPNG_CRC32_INIT = Inr (crc32 (type_IDAT @ idat) FPNG_CRC32_INIT)"
    using len(3) by (intro fpng_crc32_correct) (simp add: type_IDAT_def)
  have "poke (length (?hdr @ idat @ iend_bytes) - 16) ?crc (?hdr @ idat @ iend_bytes) = Inr (png_file w h c idat)"
    by (simp add: poke_exec splice_at_def png_file_def ihdr_crc_def iend_bytes_def)
  then show ?thesis
    using n crc1 head data crc2 by (simp add: write_png_chunks_def Let_def ihdr_crc_def)
qed

section \<open>Encoding without compression\<close>

text \<open>The size of the zlib stream of an image without compression.\<close>

definition raw_size :: "nat \<Rightarrow> nat \<Rightarrow> nat \<Rightarrow> nat" where
  "raw_size w h c = (let n = h * (w * c + 1) in 6 + n + ((n + 65534) div 65535) * 5)"

definition raw_idat :: "cpu_info \<Rightarrow> nat \<Rightarrow> nat \<Rightarrow> nat \<Rightarrow> byte list \<Rightarrow> byte list" where
  "raw_idat cpu w h c img = zlib_raw cpu (concat (map (filtered (w * c) img False) [0 ..< h]))"

lemma length_raw_idat: "length img = h * (w * c) \<Longrightarrow> length (raw_idat cpu w h c img) = raw_size w h c"
proof -
  assume img: "length img = h * (w * c)"
  have rows: "length (concat (map (filtered (w * c) img False) [0 ..< h])) = h * (w * c + 1)"
    by (rule length_concat_filtered [OF le_refl img])
  show ?thesis
    unfolding raw_idat_def length_zlib_raw length_raw_stream rows raw_size_def Let_def by (simp only: ac_simps)
qed

lemma u32_of_unat: "u32 (unat (x :: u32)) = x"
  by simp

lemma encode_raw_exec:
  assumes c: "c = 3 \<or> c = 4" and h: "0 < h" and img: "length img = h * (w * c)"
    and tmp: "h * (w * c + 1) \<le> length tmp" "length tmp < 2 ^ 32" and out: "58 \<le> length out" and size: "58 + raw_size w h c < 2 ^ 32"
  shows "encode_raw cpu img (u32 w) (u32 h) (u32 c) (u32 (w * c)) tmp out =
    Inr (take 58 out @ raw_idat cpu w h c img, u32 (raw_size w h c))"
proof -
  let ?n = "h * (w * c + 1)" and ?rows = "concat (map (filtered (w * c) img False) [0 ..< h])"
  let ?tmp = "splice_at 0 ?rows tmp" and ?z = "raw_idat cpu w h c img"
  have rows: "length ?rows = ?n" by (rule length_concat_filtered [OF le_refl img])
  have n: "?n < 2 ^ 32" "unat (u32 ?n) = ?n" using tmp u32_unat [of ?n] by linarith+
  have filter: "filter_rows cpu (u32 w) (u32 h) (u32 c) (u32 (w * c)) img False tmp = Inr (?tmp, u32 ?n)"
    by (rule filter_rows_exec [OF c img tmp h])
  have len: "length ?tmp = length tmp" using rows tmp(1) by (intro length_splice_at) simp
  define sz where "sz = raw_size w h c"
  have total: "unat (58 + 6 + u32 ?n + (u32 ?n + 65534) div 65535 * 5) = 58 + sz"
  proof -
    have "?n + 65534 < 2 ^ 32"
    proof -
      have "?n div 65535 * 5 \<le> (?n + 65534) div 65535 * 5" by (intro mult_le_mono1 div_le_mono) simp
      then have "64 + ?n + ?n div 65535 * 5 < 2 ^ 32" using size by (simp add: raw_size_def Let_def)
      moreover have "4294901762 div 65535 \<le> ?n div 65535" if "4294901762 \<le> ?n" using that by (rule div_le_mono)
      ultimately show ?thesis by (cases "4294901762 \<le> ?n") simp_all
    qed
    then have "unat ((u32 ?n + 65534) div 65535) = (?n + 65534) div 65535"
      using u32_unat [of "?n + 65534"] by (simp add: unat_div)
    then have "(u32 ?n + 65534) div 65535 = u32 ((?n + 65534) div 65535)" by (metis u32_of_unat)
    then have "58 + 6 + u32 ?n + (u32 ?n + 65534) div 65535 * 5 = u32 (58 + sz)"
      by (simp add: sz_def raw_size_def Let_def)
    then show ?thesis using size by (simp only: u32_unat sz_def)
  qed
  let ?out = "resize (58 + sz) out"
  have z: "length ?z = sz" unfolding sz_def by (rule length_raw_idat [OF img])
  have take: "take ?n ?tmp = ?rows" using rows by (simp add: splice_zero)
  have "write_raw_block cpu ?tmp (u32 ?n) (drop 58 ?out) (u32 (length (drop 58 ?out))) =
      Inr (splice_at 0 (zlib_raw cpu (take ?n ?tmp)) (drop 58 ?out), u32 (length (zlib_raw cpu (take ?n ?tmp))))"
  proof (rule write_raw_block_exec)
    show "length (zlib_raw cpu (take ?n ?tmp)) \<le> length (drop 58 ?out)" using z unfolding take raw_idat_def by simp
  qed (use n len tmp(1) size in \<open>simp_all add: sz_def\<close>)
  also have "splice_at 0 (zlib_raw cpu (take ?n ?tmp)) (drop 58 ?out) = ?z"
    using z unfolding take raw_idat_def [symmetric] by (simp add: splice_at_def)
  also have "length (zlib_raw cpu (take ?n ?tmp)) = sz" using z unfolding take raw_idat_def .
  finally have written: "write_raw_block cpu ?tmp (u32 ?n) (drop 58 ?out) (u32 (length ?out) - 58) = Inr (?z, u32 sz)"
    by simp
  have "u32 sz \<noteq> 0" using size u32_eq [of sz 0] by (simp add: sz_def raw_size_def Let_def)
  moreover have "take 58 ?out = take 58 out" using out by (intro take_resize) simp_all
  moreover have "(58 \<le> length ?out) = True" "(unat (u32 ?n) \<le> length ?tmp) = True" unfolding n(2) len using tmp(1) by simp_all
  ultimately show ?thesis
    by (simp only: encode_raw_def filter Let_def and_then.simps case_prod_conv total written assert_that_simps if_True
      simp_thms sz_def [symmetric])
qed

text \<open>Rounding down to a multiple of eight.\<close>

lemma unat_and_not_7: "unat (x :: u32) \<le> unat (x AND NOT 7) + 7"
proof -
  have "x AND NOT 7 = x AND NOT (mask 3)" by (simp add: mask_eq_exp_minus_1)
  also have "\<dots> = push_bit 3 (drop_bit 3 x)" by (rule bit_word_eqI) (auto simp: bit_simps)
  finally have "x = (x AND NOT 7) + take_bit 3 x" by (metis bits_ident)
  then have "unat x \<le> unat (x AND NOT 7) + unat (take_bit 3 x)"
    by (metis unat_word_ariths(1) mod_less_eq_dividend)
  moreover have "unat (take_bit 3 x) = unat x mod 8" by (simp add: unsigned_take_bit_eq take_bit_eq_mod [of 3 "unat x"])
  then have "unat (take_bit 3 x) < 8" by simp
  ultimately show ?thesis by linarith
qed

text \<open>Dimensions the encoder accepts.\<close>

lemma encoder_args:
  assumes w: "1 \<le> w" "w \<le> 2 ^ 24" and h: "1 \<le> h" "h \<le> 2 ^ 24" and wh: "w * h < 2 ^ 32"
  shows "\<not> (u32 w < 1 \<or> u32 h < 1 \<or> ucast (u32 w) * ucast (u32 h) > (0xFFFFFFFF :: u64) \<or>
      u32 w > FPNG_MAX_SUPPORTED_DIM \<or> u32 h > FPNG_MAX_SUPPORTED_DIM)"
proof -
  have u: "unat (u32 w) = w" "unat (u32 h) = h" using w(2) h(2) by (simp_all add: u32_unat)
  have "(ucast (u32 w) :: u64) = u64 w" "(ucast (u32 h) :: u64) = u64 h" by (simp_all only: ucast_unat u)
  then have "(ucast (u32 w) * ucast (u32 h) :: u64) = u64 (w * h)" by simp
  moreover have "unat (u64 (w * h)) = w * h" using wh by (intro u64_unat) simp
  ultimately have "\<not> ucast (u32 w) * ucast (u32 h) > (0xFFFFFFFF :: u64)"
    using wh by (simp add: word_less_nat_alt)
  then show ?thesis using w h u by (simp add: word_less_nat_alt FPNG_MAX_SUPPORTED_DIM_def)
qed

lemma encode_uncompressed:
  assumes c: "c = 3 \<or> c = 4" and w: "1 \<le> w" "w \<le> 2 ^ 24" and h: "1 \<le> h" "h \<le> 2 ^ 24"
    and img: "length img = h * (w * c)" and size: "74 + raw_size w h c < 2 ^ 32" and flags: "flags AND FPNG_FORCE_UNCOMPRESSED \<noteq> 0"
  shows "fpng_encode_image_to_memory cpu img (u32 w) (u32 h) (u32 c) out flags =
    Inr (png_file (u32 w) (u32 h) (u32 c) (raw_idat cpu w h c img))"
proof -
  let ?n = "h * (w * c + 1)" and ?z = "raw_idat cpu w h c img"
  have n: "?n + 80 < 2 ^ 32" using size by (simp add: raw_size_def Let_def)
  have wh: "w * h \<le> ?n" using c by auto
  have words: "u32 w * u32 c = u32 (w * c)" "(u32 (w * c) + 1) * u32 h + 7 = u32 (?n + 7)" "unat (u32 (?n + 7)) = ?n + 7"
    using n u32_unat [of "?n + 7"] by (simp_all add: algebra_simps)
  have bpl: "?n < 2 ^ 32" using n by simp
  have args: "\<not> (u32 w < 1 \<or> u32 h < 1 \<or> ucast (u32 w) * ucast (u32 h) > (0xFFFFFFFF :: u64) \<or>
      u32 w > FPNG_MAX_SUPPORTED_DIM \<or> u32 h > FPNG_MAX_SUPPORTED_DIM)"
    using wh n by (intro encoder_args [OF w h]) simp
  have chans: "u32 c = 3 \<or> u32 c = 4" using c by auto
  let ?tmp = "splice_at 0 (concat (map (filtered (w * c) img True) [0 ..< h])) (resize (?n + 7) [])"
  let ?out = "resize (unat ((58 + (u32 (w * c) + 1) * u32 h + 7) AND NOT 7)) out"
  have room: "58 \<le> length ?out"
  proof -
    have x: "58 + (u32 (w * c) + 1) * u32 h + 7 = u32 (?n + 65)" by (simp add: algebra_simps)
    have "unat (u32 (?n + 65)) = ?n + 65" using n by (intro u32_unat) simp
    then show ?thesis using unat_and_not_7 [of "u32 (?n + 65)"] unfolding x length_resize by linarith
  qed
  have deflated: "encode_deflated cpu img (u32 w) (u32 h) (u32 c) (u32 (w * c)) out flags = Inr (?tmp, ?out, 0)"
    using filter_rows_exec [OF c img, of "resize (?n + 7) []" cpu True] n h(1) flags
    by (simp only: encode_deflated_def words Let_def length_resize) simp
  have raw: "encode_raw cpu img (u32 w) (u32 h) (u32 c) (u32 (w * c)) ?tmp ?out =
      Inr (take 58 ?out @ ?z, u32 (raw_size w h c))"
  proof (rule encode_raw_exec [OF c _ img])
    have "length ?tmp = ?n + 7"
      using length_concat_filtered [of h h img "w * c" True] img by (subst length_splice_at) simp_all
    then show "?n \<le> length ?tmp" "length ?tmp < 2 ^ 32" using n by linarith+
  qed (use room h size in simp_all)
  have len: "length (take 58 ?out @ ?z) = 58 + raw_size w h c"
    using room length_raw_idat [OF img, of cpu] by simp
  have total: "unat (58 + u32 (raw_size w h c)) = 58 + raw_size w h c"
    using u32_unat [of "58 + raw_size w h c"] size by simp
  have chunks: "write_png_chunks cpu (u32 w) (u32 h) (u32 c) (take 58 ?out @ ?z) = Inr (png_file (u32 w) (u32 h) (u32 c) ?z)"
    using room len size length_raw_idat [OF img, of cpu] by (intro write_png_chunks_exec) simp_all
  show ?thesis
    unfolding fpng_encode_image_to_memory_def Let_def words(1)
    by (simp only: endian_check args chans deflated raw chunks total len resize_same assert_that_simps and_then.simps
      case_prod_conv if_True simp_thms order_refl not_True_eq_False not_False_eq_True)
qed

text \<open>
  The size of the temporary buffer is computed in 32 bits. When it wraps, the rows do not fit.
\<close>

lemma encode_overflow:
  assumes c: "c = 3 \<or> c = 4" and w: "1 \<le> w" "w \<le> 2 ^ 24" and h: "1 \<le> h" "h \<le> 2 ^ 24" and wh: "w * h < 2 ^ 32"
    and img: "length img = h * (w * c)" and size: "2 ^ 32 \<le> h * (w * c + 1) + 7"
  shows "fpng_encode_image_to_memory cpu img (u32 w) (u32 h) (u32 c) out flags = Inl OutOfBounds"
proof -
  let ?n = "h * (w * c + 1)" and ?tmp = "resize (unat ((u32 (w * c) + 1) * u32 h + 7)) []"
  have u: "unat (u32 w) = w" "unat (u32 h) = h" using w(2) h(2) by (simp_all add: u32_unat)
  have bpl: "w * c < 2 ^ 32"
  proof -
    have "w * c \<le> 2 ^ 24 * 4" using c w(2) by (intro mult_le_mono) auto
    then show ?thesis by simp
  qed
  have "(u32 (w * c) + 1) * u32 h + 7 = u32 (?n + 7)" by (simp add: algebra_simps)
  then have "length ?tmp = (?n + 7) mod 2 ^ 32" by (simp only: length_resize unat_of_nat take_bit_eq_mod) simp
  moreover have "(?n + 7) mod 2 ^ 32 \<le> ?n + 7 - 2 ^ 32"
    using le_mod_geq [OF size] mod_less_eq_dividend [of "?n + 7 - 2 ^ 32" "2 ^ 32"] by linarith
  ultimately have tmp: "length ?tmp < 2 ^ 32" "length ?tmp < ?n"
    using h(1) by (simp_all add: unat_u32_less del: length_resize)
  have rows: "filter_rows cpu (u32 w) (u32 h) (u32 c) (u32 (w * c)) img True ?tmp = Inl OutOfBounds"
    using h(2) by (intro filter_rows_overflow [OF c img bpl _ tmp]) simp
  have args: "\<not> (u32 w < 1 \<or> u32 h < 1 \<or> ucast (u32 w) * ucast (u32 h) > (0xFFFFFFFF :: u64) \<or>
      u32 w > FPNG_MAX_SUPPORTED_DIM \<or> u32 h > FPNG_MAX_SUPPORTED_DIM)"
    by (rule encoder_args [OF w h wh])
  have chans: "u32 c = 3 \<or> u32 c = 4" using c by auto
  have words: "u32 w * u32 c = u32 (w * c)" by simp
  show ?thesis
    unfolding fpng_encode_image_to_memory_def Let_def words encode_deflated_def rows
    by (simp only: endian_check args chans assert_that_simps and_then.simps simp_thms)
qed

end
