(* ===== verification/Fpng_Round_Trip.thy ===== *)
theory Fpng_Round_Trip
  imports Fpng_Files
begin

text \<open>The decoder reads back the files the encoder writes.\<close>

section \<open>Chunks\<close>

lemma peek_middle: "length pre = a \<Longrightarrow> length xs = n \<Longrightarrow> peek a n (pre @ xs @ post) = Inr xs"
  by (simp add: peek_def slice_def)

lemma peek_append: "length xs = n \<Longrightarrow> peek 0 n (xs @ post) = Inr xs"
  by (simp add: peek_def slice_def)

text \<open>A chunk with the right checksum is handed to \<open>handle_chunk\<close>.\<close>

definition png_chunk :: "byte list \<Rightarrow> byte list \<Rightarrow> byte list" where
  "png_chunk ty d = be32 (u32 (length d)) @ ty @ d @ be32 (crc32 (ty @ d) FPNG_CRC32_INIT)"

lemma length_png_chunk: "length ty = 4 \<Longrightarrow> length (png_chunk ty d) = 12 + length d"
  by (simp add: png_chunk_def)

lemma read_chunk_exec:
  assumes png: "png = pre @ png_chunk ty d @ post" and ty: "length ty = 4" "list_all is_letter ty" and len: "length png < 2 ^ 32"
  shows "read_chunk cpu png (length pre) info found =
    Inr (handle_chunk (length pre) (u32 (length d)) ty d info found, length d)"
proof -
  let ?crc = "crc32 (ty @ d) FPNG_CRC32_INIT"
  have size: "length png = length pre + 12 + length d + length post" using ty(1) by (simp add: png length_png_chunk)
  then have n: "unat (u32 (length d)) = length d" using len by (intro u32_unat) simp
  have prefix: "peek (length pre) 8 png = Inr (be32 (u32 (length d)) @ ty)"
    using peek_middle [of pre _ "be32 (u32 (length d)) @ ty"] ty(1) by (simp add: png png_chunk_def)
  have crc: "peek (length pre + 4 * 2 + length d) 4 png = Inr (be32 ?crc)"
    using peek_middle [of "pre @ be32 (u32 (length d)) @ ty @ d" _ "be32 ?crc" 4 post] ty(1)
    by (simp add: png png_chunk_def add.assoc)
  have data: "peek (length pre + 4) (4 + length d) png = Inr (ty @ d)"
    using peek_middle [of "pre @ be32 (u32 (length d))" _ "ty @ d" _ "be32 ?crc @ post"] ty(1)
    by (simp add: png png_chunk_def)
  have checked: "fpng_crc32 cpu (ty @ d) FPNG_CRC32_INIT = Inr ?crc"
    using size len ty(1) by (intro fpng_crc32_correct) simp
  have be: "READ_BE32 (be32 ?crc) = ?crc" using read_be32_be32 [of ?crc "[]"] by simp
  have slice: "slice 4 4 (be32 (u32 (length d)) @ ty) = ty" using ty(1) by (simp add: slice_def)
  have fits: "(length png \<le> length pre) = False" "(length png - length pre < 4 * 3) = False"
    "(length pre + 4 * 2 + length d + 4 > length png) = False" "drop 4 (ty @ d) = d"
    using size ty(1) by simp_all
  show ?thesis
    by (simp only: read_chunk_def Let_def fits prefix n crc data checked be slice ty(2) read_be32_be32 and_then.simps
      if_False if_True if_cancel simp_thms split: if_split)
qed

text \<open>The parts of a file.\<close>

definition ihdr_chunk :: "u32 \<Rightarrow> u32 \<Rightarrow> u32 \<Rightarrow> byte list" where
  "ihdr_chunk w h c =
    [0, 0, 0, 13, 0x49, 0x48, 0x44, 0x52, 0, 0, ucast (drop_bit 8 w), ucast w, 0, 0, ucast (drop_bit 8 h), ucast h,
     8, s_color_type ! unat c, 0, 0, 0] @ ihdr_crc w h c"

definition fdec_data :: "byte list" where "fdec_data = [82, 36, 147, 227, 0]"

lemma fdec_chunk: "png_chunk type_fdEC fdec_data =
  [0, 0, 0, 5, 0x66, 0x64, 0x45, 0x43, 82, 36, 147, 227, FPNG_FDEC_VERSION, 0xE5, 0xAB, 0x62, 0x99]"
  by (simp add: png_chunk_def type_fdEC_def fdec_data_def be32_def crc32_def crc_byte_steps crc_bit_def
    FPNG_CRC32_INIT_def FPNG_FDEC_VERSION_def)

lemma iend_chunk: "png_chunk type_IEND [] = drop 4 iend_bytes"
  by (simp add: png_chunk_def type_IEND_def be32_def crc32_def crc_byte_steps crc_bit_def FPNG_CRC32_INIT_def iend_bytes_def)

lemma png_file_chunks:
  "png_file w h c idat =
    s_png_sig @ ihdr_chunk w h c @ png_chunk type_fdEC fdec_data @ png_chunk type_IDAT idat @ png_chunk type_IEND []"
  unfolding fdec_chunk iend_chunk
  by (simp add: png_file_def pnghdr_def s_png_sig_def ihdr_chunk_def png_chunk_def type_IDAT_def)

lemma length_ihdr_chunk [simp]: "length (ihdr_chunk w h c) = 25"
  by (simp add: ihdr_chunk_def ihdr_crc_def)

lemma length_png_file: "length (png_file w h c idat) = 74 + length idat"
  by (simp add: png_file_def ihdr_crc_def iend_bytes_def)

section \<open>The header\<close>

text \<open>The header keeps 16 bits of each dimension.\<close>

lemma read_be16: "READ_BE32 (0 # 0 # ucast (drop_bit 8 x) # ucast x # xs) = take_bit 16 x"
  by (rule word32_eqI) (simp_all add: READ_BE32_def bit_simps byte_high_bits)

lemma check_ihdr_exec:
  fixes w h c :: u32
  assumes c: "c = 3 \<or> c = 4"
  defines "info \<equiv> no_info\<lparr>width := take_bit 16 w, height := take_bit 16 h\<rparr>"
  shows "check_ihdr cpu (png_file w h c idat) =
    Inr (if take_bit 16 w = 0 \<or> take_bit 16 h = 0 then (FPNG_DECODE_FAILED_INVALID_DIMENSIONS, info)
         else if (ucast (take_bit 16 w) * ucast (take_bit 16 h) :: u64) > push_bit 30 1 then (FPNG_DECODE_FAILED_INVALID_DIMENSIONS, info)
         else (FPNG_DECODE_SUCCESS, info\<lparr>channels_in_file := c\<rparr>))"
proof -
  let ?p = "ihdr_chunk w h c" and ?body = "slice 12 17 (pnghdr w h c 0 [0, 0, 0, 0])"
  have p: "peek 8 sizeof_png_ihdr (png_file w h c idat) = Inr ?p"
    unfolding png_file_chunks by (rule peek_middle) (simp_all add: s_png_sig_def sizeof_png_ihdr_def)
  have body: "slice 4 17 ?p = ?body" by (simp add: ihdr_chunk_def pnghdr_def slice_def)
  have crc: "fpng_crc32 cpu ?body FPNG_CRC32_INIT = Inr (crc32 ?body FPNG_CRC32_INIT)"
    by (rule fpng_crc32_correct) (simp add: slice_def)
  have "drop 21 ?p = be32 (crc32 ?body FPNG_CRC32_INIT) @ []" by (simp add: ihdr_chunk_def ihdr_crc_def)
  then have crc32: "m_crc32 (read_ihdr ?p) = crc32 ?body FPNG_CRC32_INIT" by (simp only: read_ihdr_def png_ihdr.select_convs read_be32_be32)
  have len: "m_length (read_ihdr ?p) = IHDR_EXPECTED_LENGTH" "unat (4 + IHDR_EXPECTED_LENGTH) = 17"
    by (simp_all add: read_ihdr_def ihdr_chunk_def READ_BE32_def IHDR_EXPECTED_LENGTH_def)
  have dims: "m_width (read_ihdr ?p) = take_bit 16 w" "m_height (read_ihdr ?p) = take_bit 16 h"
    by (simp_all add: read_ihdr_def ihdr_chunk_def read_be16)
  have rest: "m_bitdepth (read_ihdr ?p) = 8" "m_color_type (read_ihdr ?p) = (if c = 3 then 2 else 6)"
    "m_comp_method (read_ihdr ?p) = 0" "m_filter_method (read_ihdr ?p) = 0" "m_interlace_method (read_ihdr ?p) = 0"
    using c by (auto simp: read_ihdr_def ihdr_chunk_def s_color_type_def)
  have small: "\<not> take_bit 16 x > FPNG_MAX_SUPPORTED_DIM" for x :: u32
  proof -
    have "unat (take_bit 16 x) = unat x mod 2 ^ 16" by (simp add: unsigned_take_bit_eq take_bit_eq_mod [of 16 "unat x"])
    then have "unat (take_bit 16 x) < 2 ^ 16" by simp
    then show ?thesis by (simp add: word_less_nat_alt FPNG_MAX_SUPPORTED_DIM_def)
  qed
  show ?thesis
    using c
    by (auto simp: check_ihdr_def p Let_def len crc32 body crc dims rest small info_def)
qed

section \<open>The whole file\<close>

lemma is_letter_types [simp]:
  "list_all is_letter type_fdEC" "list_all is_letter type_IDAT" "list_all is_letter type_IEND"
  by (simp_all add: is_letter_def type_fdEC_def type_IDAT_def type_IEND_def)

lemma length_types [simp]: "length type_fdEC = 4" "length type_IEND = 4"
  by (simp_all add: type_fdEC_def type_IEND_def)

lemma types_distinct [simp]: "type_fdEC \<noteq> type_IEND" "type_fdEC \<noteq> type_IDAT" "type_IDAT \<noteq> type_IEND"
  by (simp_all add: type_fdEC_def type_IDAT_def type_IEND_def)

lemma scan_png_file:
  assumes len: "7 \<le> length idat" "74 + length idat < 2 ^ 32" and info: "idat_ofs info = 0" and fuel: "3 \<le> fuel"
  shows "scan_chunks fuel cpu (png_file w h c idat) 33 info False =
    Inr (FPNG_DECODE_SUCCESS, info\<lparr>idat_ofs := 50, idat_len := u32 (length idat)\<rparr>)"
proof -
  let ?png = "png_file w h c idat" and ?info = "info\<lparr>idat_ofs := 50, idat_len := u32 (length idat)\<rparr>"
  let ?head = "s_png_sig @ ihdr_chunk w h c"
  have sig: "length s_png_sig = 8" by (simp add: s_png_sig_def)
  have png: "length ?png < 2 ^ 32" using len(2) by (simp add: length_png_file)
  obtain f where f: "fuel = Suc (Suc (Suc f))" using fuel by (metis Suc_le_D numeral_3_eq_3 Suc_le_mono)
  have n: "\<not> u32 (length idat) < 7" using u32_less [of "length idat" 7] len by simp
  have lens: "length (png_chunk type_fdEC fdec_data) = 17" "length (png_chunk type_IDAT idat) = 12 + length idat"
    "length (png_chunk type_IEND []) = 12"
    by (simp_all add: length_png_chunk fdec_data_def)
  have fdec: "read_chunk cpu ?png 33 info False = Inr (Continue info True, 5)"
    using read_chunk_exec [of ?png ?head type_fdEC fdec_data "png_chunk type_IDAT idat @ png_chunk type_IEND []" cpu info False] png
    by (simp add: png_file_chunks sig handle_chunk_def fdec_data_def FPNG_FDEC_VERSION_def)
  have idat: "read_chunk cpu ?png 50 info True = Inr (Continue ?info True, length idat)"
    using read_chunk_exec [of ?png "?head @ png_chunk type_fdEC fdec_data" type_IDAT idat "png_chunk type_IEND []" cpu info True]
      png info n
    by (simp add: png_file_chunks sig lens handle_chunk_def Let_def)
  have iend: "read_chunk cpu ?png (62 + length idat) ?info True = Inr (Break ?info True, 0)"
    using read_chunk_exec [of ?png "?head @ png_chunk type_fdEC fdec_data @ png_chunk type_IDAT idat" type_IEND "[]" "[]" cpu ?info True] png
    by (simp add: png_file_chunks sig lens handle_chunk_def)
  show ?thesis unfolding f using fdec idat iend by (simp add: sizeof_png_chunk_prefix_def)
qed

lemma get_info_png_file:
  fixes w h c :: u32
  assumes c: "c = 3 \<or> c = 4" and len: "7 \<le> length idat" "74 + length idat < 2 ^ 32"
  defines "info \<equiv> no_info\<lparr>width := take_bit 16 w, height := take_bit 16 h\<rparr>"
  shows "fpng_get_info_internal cpu (png_file w h c idat) =
    Inr (if take_bit 16 w = 0 \<or> take_bit 16 h = 0 then (FPNG_DECODE_FAILED_INVALID_DIMENSIONS, info)
         else if (ucast (take_bit 16 w) * ucast (take_bit 16 h) :: u64) > push_bit 30 1 then (FPNG_DECODE_FAILED_INVALID_DIMENSIONS, info)
         else (FPNG_DECODE_SUCCESS, info\<lparr>channels_in_file := c, idat_ofs := 50, idat_len := u32 (length idat)\<rparr>))"
proof -
  let ?png = "png_file w h c idat"
  have "length ?png = 74 + length idat" by (rule length_png_file)
  moreover have "peek 0 8 ?png = Inr s_png_sig"
    unfolding png_file_chunks by (rule peek_append) (simp add: s_png_sig_def)
  moreover have "scan_chunks (length ?png) cpu ?png 33 (info\<lparr>channels_in_file := c\<rparr>) False =
      Inr (FPNG_DECODE_SUCCESS, info\<lparr>channels_in_file := c, idat_ofs := 50, idat_len := u32 (length idat)\<rparr>)"
    using scan_png_file [OF len, of "info\<lparr>channels_in_file := c\<rparr>" "length ?png" cpu w h c]
    by (simp add: info_def no_info_def length_png_file)
  ultimately show ?thesis
    using check_ihdr_exec [OF c, of cpu w h idat] len(1)
    by (simp add: fpng_get_info_internal_def info_def sizeof_png_ihdr_def sizeof_png_chunk_prefix_def sizeof_png_iend_def)
qed

section \<open>The pixels\<close>

text \<open>An image of \<open>n\<close> pixels, pixel by pixel from \<open>c\<close> to \<open>dc\<close> channels.\<close>

definition convert_image :: "nat \<Rightarrow> nat \<Rightarrow> nat \<Rightarrow> byte list \<Rightarrow> byte list" where
  "convert_image c dc n img = concat (map (\<lambda>i. convert_pixel c dc (slice (i * c) c img)) [0 ..< n])"

definition image_rows :: "nat \<Rightarrow> nat \<Rightarrow> nat \<Rightarrow> byte list \<Rightarrow> byte list list list" where
  "image_rows w h c img = map (\<lambda>y. map (\<lambda>x. slice ((y * w + x) * c) c img) [0 ..< w]) [0 ..< h]"

lemma concat_slices: "concat (map (\<lambda>x. slice (a + x * n) n xs) [0 ..< k]) = slice a (k * n) xs"
proof (induction k)
  case (Suc k)
  then show ?case using slice_add [of a "k * n" n xs] by (simp add: add.commute)
qed (simp add: slice_def)

lemma flatten_rows: "concat (map (\<lambda>y. map (\<lambda>x. f (y * w + x)) [0 ..< w]) [0 ..< h]) = map f [0 ..< h * w]"
proof (induction h)
  case (Suc h)
  have "map f [h * w ..< w + h * w] = map (\<lambda>x. f (h * w + x)) [0 ..< w]"
    by (rule nth_equalityI) simp_all
  moreover have "[0 ..< w + h * w] = [0 ..< h * w] @ [h * w ..< w + h * w]"
    using upt_add_eq_append [of 0 "h * w" w] by (simp add: add.commute)
  ultimately show ?case using Suc by simp
qed simp

lemma unfiltered_image_rows: "concat (map (filtered (w * c) img False) [0 ..< h]) = unfiltered (image_rows w h c img)"
proof -
  have "image_row (w * c) img y = concat (map (\<lambda>x. slice ((y * w + x) * c) c img) [0 ..< w])" for y
    using concat_slices [of "y * (w * c)" c img w] by (simp add: image_row_def algebra_simps)
  then have "filtered (w * c) img False = (\<lambda>y. 0 # concat (map (\<lambda>x. slice ((y * w + x) * c) c img) [0 ..< w]))"
    by (intro ext) (simp add: filtered_def)
  then show ?thesis by (simp add: unfiltered_def image_rows_def o_def)
qed

lemma convert_image_rows: "concat (map (convert_row c dc) (image_rows w h c img)) = convert_image c dc (w * h) img"
proof -
  let ?f = "\<lambda>i. convert_pixel c dc (slice (i * c) c img)"
  have "map (convert_row c dc) (image_rows w h c img) = map (\<lambda>y. concat (map (\<lambda>x. ?f (y * w + x)) [0 ..< w])) [0 ..< h]"
    by (simp add: image_rows_def convert_row_def o_def)
  also have "concat \<dots> = concat (concat (map (\<lambda>y. map (\<lambda>x. ?f (y * w + x)) [0 ..< w]) [0 ..< h]))"
    by (induction h) simp_all
  also have "\<dots> = concat (map ?f [0 ..< h * w])" by (simp only: flatten_rows [of ?f])
  finally show ?thesis by (simp only: convert_image_def mult.commute [of h w])
qed

lemma image_rows_ok:
  assumes "length img = h * (w * c)" and "ps \<in> set (image_rows w h c img)"
  shows "row_ok c w ps"
proof -
  obtain y where y: "y < h" "ps = map (\<lambda>x. slice ((y * w + x) * c) c img) [0 ..< w]"
    using assms(2) by (auto simp: image_rows_def)
  have "length (slice ((y * w + x) * c) c img) = c" if "x < w" for x
  proof -
    have "y * w + x + 1 \<le> h * w" using image_row_fits [OF y(1), of w] that by linarith
    then have "(y * w + x + 1) * c \<le> h * w * c" by (rule mult_le_mono1)
    then show ?thesis using assms(1) by (intro length_slice) (simp add: algebra_simps)
  qed
  then show ?thesis by (auto simp: row_ok_def y(2))
qed

text \<open>Unfiltered pixels in uncompressed blocks, behind a zlib header.\<close>

lemma decompress_raw_idat:
  assumes c: "c = 3 \<or> c = 4" and dc: "dc = 3 \<or> dc = 4" and w: "1 \<le> w" "w < 2 ^ 24" and h: "1 \<le> h"
    and img: "length img = h * (w * c)" and buf: "length buf = w * dc * h" "length buf < 2 ^ 32"
    and p: "p = raw_idat cpu w h c img @ rest" "length p < 2 ^ 31" and rest: "4 \<le> length rest"
  shows "decompress_image dbg (u32 dc) (u32 c) p (u32 (length p)) (u32 (length (raw_idat cpu w h c img)))
    buf (u32 w) (u32 h) = Inr (Some (convert_image c dc (w * h) img))"
proof -
  let ?z = "raw_idat cpu w h c img" and ?rows = "image_rows w h c img"
  have z: "?z = zlib_raw cpu (unfiltered ?rows)" by (simp add: raw_idat_def unfiltered_image_rows)
  have "length ?rows = h" by (simp add: image_rows_def)
  moreover have "?rows \<noteq> []" using h \<open>length ?rows = h\<close> by auto
  moreover have "w * c + 1 < 2 ^ 32" using c w(2) by auto
  ultimately have raw: "fpng_pixel_zlib_raw_decompress p (u32 (length p)) (u32 (length ?z)) buf (u32 w) (u32 h) (u32 c) (u32 dc) =
      Inr (Some (convert_image c dc (w * h) img))"
    using raw_decompress_exec [OF c dc, of ?rows w buf p cpu rest] image_rows_ok [OF img] w(1) buf p
    unfolding z convert_image_rows by simp
  have len: "length p = length ?z + length rest" using p(1) by simp
  have big: "7 \<le> length ?z" unfolding length_raw_idat [OF img] using h by (simp add: raw_size_def Let_def)
  have words: "u32 (length ?z) + 4 \<le> u32 (length p)" "\<not> u32 (length ?z) < 7"
    using u32_le [of "length ?z + 4" "length p"] u32_less [of "length ?z" 7] len rest p(2) big by (simp_all add: add.commute)
  obtain b bs where head: "raw_stream (unfiltered ?rows) = b # bs" "b AND 6 = 0"
  proof -
    have "unfiltered ?rows \<noteq> []" using \<open>?rows \<noteq> []\<close> by (cases ?rows) (auto simp: unfiltered_def)
    then show thesis by (intro that) (subst raw_stream.simps, simp add: raw_block_header_def, simp)
  qed
  have "peek 0 3 p = Inr [0x78, 0x01, b]" using p(1) z head(1) by (simp add: peek_def slice_def zlib_raw_def)
  then have "zlib_decompress step c dbg dc p (u32 (length p)) (u32 (length ?z)) buf (u32 w) (u32 h) =
      Inr (Some (convert_image c dc (w * h) img))" for step
    using words head(2) raw by (simp add: zlib_decompress_def)
  then show ?thesis
    using c dc by (auto simp: decompress_image_def fpng_pixel_zlib_decompress_3_def fpng_pixel_zlib_decompress_4_def)
qed

section \<open>Decoding what was encoded\<close>

lemma raw_size_pixels:
  assumes "c = 3 \<or> c = 4" and "1 \<le> h" and "raw_size w h c < 2 ^ 31"
  shows "w * h \<le> 2 ^ 30" and "w * h * 4 < 2 ^ 32"
proof -
  have "h * (w * c) < 2 ^ 31" using assms(3) by (simp add: raw_size_def Let_def)
  moreover have "h * (w * 3) \<le> h * (w * c)" using assms(1) by (intro mult_le_mono) auto
  moreover have "h * (w * 3) = w * h * 3" by simp
  ultimately have less: "w * h * 3 < 2 ^ 31" by linarith
  have "p \<le> 2 ^ 30" "p * 4 < 2 ^ 32" if "p * 3 < 2 ^ 31" for p :: nat using that by simp_all
  from this [OF less] show "w * h \<le> 2 ^ 30" "w * h * 4 < 2 ^ 32" .
qed

lemma take_bit_16: "n < 2 ^ 16 \<Longrightarrow> take_bit 16 (u32 n) = u32 n"
  using unsigned_take_bit_eq [of 16 "u32 n", where ?'a = nat]
  by (simp add: u32_unat take_bit_nat_eq_self word_unat_eq_iff)

lemma decode_png_file:
  assumes c: "c = 3 \<or> c = 4" and dc: "dc = 3 \<or> dc = 4" and w: "1 \<le> w" "w < 2 ^ 16" and h: "1 \<le> h" "h < 2 ^ 16"
    and size: "7 \<le> length z" "74 + length z < 2 ^ 31" and pixels: "w * h \<le> 2 ^ 30" "w * h * 4 < 2 ^ 32"
    and dec: "\<And>rest. 4 \<le> length rest \<Longrightarrow> length (z @ rest) < 2 ^ 31 \<Longrightarrow>
      decompress_image dbg (u32 dc) (u32 c) (z @ rest) (u32 (length (z @ rest))) (u32 (length z)) (replicate (w * h * dc) 0)
        (u32 w) (u32 h) = Inr (Some out)"
  shows "fpng_decode_memory cpu dbg (png_file (u32 w) (u32 h) (u32 c) z) (u32 dc) =
    Inr (FPNG_DECODE_SUCCESS,
      \<lparr>width = u32 w, height = u32 h, channels_in_file = u32 c, idat_ofs = 50, idat_len = u32 (length z)\<rparr>, out)"
proof -
  let ?png = "png_file (u32 w) (u32 h) (u32 c) z"
  let ?info = "\<lparr>width = u32 w, height = u32 h, channels_in_file = u32 c, idat_ofs = 50, idat_len = u32 (length z)\<rparr>"
  let ?rest = "be32 (crc32 (type_IDAT @ z) FPNG_CRC32_INIT) @ drop 4 iend_bytes"
  have u: "unat (u32 w) = w" "unat (u32 h) = h" "u32 w \<noteq> 0" "u32 h \<noteq> 0"
    using w h u32_eq [of w 0] u32_eq [of h 0] by (simp_all add: u32_unat)
  have max: "u32 w \<le> FPNG_MAX_SUPPORTED_DIM" "u32 h \<le> FPNG_MAX_SUPPORTED_DIM" "u32 1 \<le> 4" "1 \<le> (4 :: nat)" "dc \<le> 4"
    using u w h dc by (auto simp: dimension_less)
  have product: "\<not> (ucast (u32 w) * ucast (u32 h) :: u64) > push_bit 30 1"
    using mem_needed_value [OF max(1,2,4)] pixels(1) u by (simp add: word_less_nat_alt)
  have chans: "u32 c = 3 \<or> u32 c = 4" using c by auto
  have get: "fpng_get_info_internal cpu ?png = Inr (FPNG_DECODE_SUCCESS, ?info)"
    using get_info_png_file [OF chans, of z cpu "u32 w" "u32 h"] size u product w h
    by (simp add: take_bit_16 no_info_def del: push_bit_of_1)
  have mem: "unat (ucast (u32 w) * ucast (u32 h) * ucast (u32 dc) :: u64) = w * h * dc"
    using mem_needed_value [OF max(1,2,5)] u by simp
  have fits: "w * h * dc < 2 ^ 32" using pixels(2) mult_le_mono2 [OF max(5), of "w * h"] by linarith
  have ok: "\<not> (ucast (u32 w) * ucast (u32 h) * ucast (u32 dc) :: u64) > 0xFFFFFFFF"
    using fits mem by (simp add: word_less_nat_alt)
  have data: "drop (unat (50 :: u32) + 4 * 2) ?png = z @ ?rest" by (simp add: png_file_def ihdr_crc_def)
  have len: "length ?png = 58 + length (z @ ?rest)" by (simp add: length_png_file iend_bytes_def)
  have src: "u32 (length ?png) - (50 + 4 * 2) = u32 (length (z @ ?rest))" unfolding len by simp
  have dec: "decompress_image dbg (u32 dc) (u32 c) (z @ ?rest) (u32 (length (z @ ?rest))) (u32 (length z))
      (replicate (w * h * dc) 0) (u32 w) (u32 h) = Inr (Some out)"
    using size by (intro dec) (simp_all add: iend_bytes_def)
  have args: "\<not> (?png = [] \<or> u32 dc \<noteq> 3 \<and> u32 dc \<noteq> 4)" using len dc by auto
  show ?thesis
    by (simp only: args fpng_decode_memory_def get Let_def and_then.simps case_prod_conv png_info.select_convs mem ok data src dec
      simp_thms if_False option.case)
qed

lemma decode_encoded:
  assumes c: "c = 3 \<or> c = 4" and dc: "dc = 3 \<or> dc = 4" and w: "1 \<le> w" "w < 2 ^ 16" and h: "1 \<le> h" "h < 2 ^ 16"
    and img: "length img = h * (w * c)" and size: "74 + raw_size w h c < 2 ^ 31"
  shows "fpng_decode_memory cpu' dbg (png_file (u32 w) (u32 h) (u32 c) (raw_idat cpu w h c img)) (u32 dc) =
    Inr (FPNG_DECODE_SUCCESS,
      \<lparr>width = u32 w, height = u32 h, channels_in_file = u32 c, idat_ofs = 50, idat_len = u32 (raw_size w h c)\<rparr>,
      convert_image c dc (w * h) img)"
proof -
  let ?z = "raw_idat cpu w h c img"
  have z: "length ?z = raw_size w h c" by (rule length_raw_idat [OF img])
  have big: "7 \<le> raw_size w h c" using h by (simp add: raw_size_def Let_def)
  have pixels: "w * h \<le> 2 ^ 30" "w * h * 4 < 2 ^ 32" using raw_size_pixels [OF c h(1), of w] size by linarith+
  have "dc \<le> 4" using dc by auto
  then have fits: "w * h * dc < 2 ^ 32" using pixels(2) mult_le_mono2 [of dc 4 "w * h"] by linarith
  have "decompress_image dbg (u32 dc) (u32 c) (?z @ rest) (u32 (length (?z @ rest))) (u32 (length ?z))
      (replicate (w * h * dc) 0) (u32 w) (u32 h) = Inr (Some (convert_image c dc (w * h) img))"
    if "4 \<le> length rest" "length (?z @ rest) < 2 ^ 31" for rest
    using w fits that by (intro decompress_raw_idat [OF c dc w(1) _ h(1) img]) (simp_all add: ac_simps)
  then show ?thesis
    using decode_png_file [OF c dc w h _ _ pixels, of ?z dbg "convert_image c dc (w * h) img" cpu'] big size
    unfolding z by simp
qed

end
