(* ===== verification/Fpng_Huffman_Proofs.thy ===== *)
theory Fpng_Huffman_Proofs
  imports Fpng_Huffman "HOL-Library.Multiset"
begin

text \<open>
  The first parts of the Huffman coder: the frequencies it scales, whose loop ends, and the radix sort of
  the symbols, two passes of a counting sort, which is the stable sort by the keys.
\<close>

section \<open>Frequencies\<close>

lemma halve_freq_le: "unat f \<le> 2 ^ Suc n \<Longrightarrow> unat (halve_freq f) \<le> 2 ^ n"
proof -
  have "unat (drop_bit 1 f) = unat f div 2" by (simp add: drop_bit_Suc unat_div)
  then show "unat f \<le> 2 ^ Suc n \<Longrightarrow> unat (halve_freq f) \<le> 2 ^ n"
    by (auto simp: halve_freq_def maximum_def)
qed

lemma sum_list_word_le: "unat (sum_list xs :: u32) \<le> (\<Sum>x \<leftarrow> xs. unat x)"
proof (induction xs)
  case (Cons x xs)
  have "unat (x + sum_list xs) \<le> unat x + unat (sum_list xs)" by (simp only: unat_word_ariths(1) mod_less_eq_dividend)
  with Cons show ?case by simp
qed simp

lemma sum_list_ones: "\<forall>x \<in> set xs. unat x \<le> 1 \<Longrightarrow> (\<Sum>x \<leftarrow> xs. unat x) \<le> length xs"
  by (induction xs) auto

text \<open>After \<open>n\<close> halvings no frequency is larger than one, and there are at most 288 of them.\<close>

lemma halve_loop_ends:
  assumes "\<forall>f \<in> set pFreq. unat f \<le> 2 ^ n" and "length pFreq \<le> UINT16_MAX"
  shows "\<exists>out. halve_loop (Suc (Suc n)) tot pFreq = Inr out"
  using assms
proof (induction n arbitrary: tot pFreq)
  case 0
  have "\<forall>f \<in> set (map halve_freq pFreq). unat f \<le> 1"
    using 0(1) halve_freq_le [of _ 0] by (fastforce simp: le_SucI)
  from sum_list_ones [OF this] sum_list_word_le [of "map halve_freq pFreq"] \<open>length pFreq \<le> _\<close>
  have "unat (sum_list (map halve_freq pFreq)) \<le> UINT16_MAX" by (simp only: length_map)
  then have "\<not> u32 UINT16_MAX < sum_list (map halve_freq pFreq)"
    by (simp add: word_less_nat_alt UINT16_MAX_def)
  then show ?case by (simp add: Let_def)
next
  case (Suc n)
  have "\<forall>f \<in> set (map halve_freq pFreq). unat f \<le> 2 ^ n" using Suc.prems(1) halve_freq_le by simp
  from Suc.IH [OF this] Suc.prems(2) show ?case by (simp add: Let_def)
qed

lemma adjust_freq32_ends:
  assumes "length pFreq \<le> UINT16_MAX"
  shows "\<exists>fs. adjust_freq32 pFreq = Inr (fs, if sum_list pFreq = 0 then map (\<lambda>_. 0) pFreq
    else map (scale_freq (sum_list pFreq)) pFreq)"
proof -
  have "\<forall>f \<in> set pFreq. unat f \<le> 2 ^ 32" using unsigned_less [where 'b = 32 and 'a = nat] by (simp add: less_imp_le)
  from halve_loop_ends [OF this assms] have "\<exists>out. halve_loop 34 tot pFreq = Inr out" for tot
    by (simp add: numeral_eq_Suc)
  then obtain out where "halve_loop 34 (sum_list (map ucast (map (scale_freq (sum_list pFreq)) pFreq))) pFreq = Inr out"
    by blast
  then show ?thesis by (simp only: adjust_freq32_def Let_def and_then.simps) simp
qed

text \<open>Scaling keeps a symbol that occurs, as long as the sum of the frequencies has not wrapped.\<close>

lemma unat_ucast_same: "unat x < 2 ^ LENGTH('b) \<Longrightarrow> unat (ucast (x :: 'a::len word) :: 'b::len word) = unat x"
  by (simp add: unsigned_ucast_eq take_bit_nat_eq_self)

lemma scale_freq_zero:
  assumes f: "unat f \<le> unat tot" and "0 < unat tot"
  shows "scale_freq tot f = 0 \<longleftrightarrow> f = 0"
proof -
  let ?p = "ucast f * u64 UINT16_MAX :: u64" and ?v = "unat f * 65535 div unat tot"
  have "unat f < 2 ^ 32" using unsigned_less [of f] by simp
  then have small: "unat f * 65535 < 2 ^ 64" by simp
  have "unat (ucast f :: u64) = unat f" using \<open>unat f < 2 ^ 32\<close> by (simp add: unat_ucast_same)
  moreover have "unat (u64 UINT16_MAX) = 65535" by (simp add: UINT16_MAX_def)
  ultimately have "unat ?p = unat f * 65535" using small by (simp only: unat_word_ariths(2)) simp
  moreover have "unat tot < 2 ^ 32" using unsigned_less [of tot] by simp
  then have "unat (ucast tot :: u64) = unat tot" by (simp add: unat_ucast_same)
  ultimately have q: "unat (?p div ucast tot) = ?v" by (simp only: unat_div)
  have "unat f * 65535 \<le> unat tot * 65535" using f by simp
  then have le: "?v \<le> 65535" by (metis assms(2) div_le_mono nonzero_mult_div_cancel_left less_irrefl)
  then have w: "unat (ucast (?p div ucast tot) :: u32) = ?v" using q by (simp add: unat_ucast_same)
  let ?m = "maximum 1 (ucast (?p div ucast tot) :: u32)"
  have "1 \<le> unat ?m" "unat ?m \<le> 65535" using w le by (auto simp: maximum_def word_less_nat_alt)
  then have "unat (ucast ?m :: 16 word) = unat ?m" "unat ?m \<noteq> 0" by (simp_all add: unat_ucast_same)
  then have "(ucast ?m :: 16 word) \<noteq> 0" by (metis unsigned_0)
  then show ?thesis by (simp add: scale_freq_def)
qed

lemma sum_list_word:
  assumes "(\<Sum>x \<leftarrow> xs. unat x) < 2 ^ 32"
  shows "unat (sum_list xs :: u32) = (\<Sum>x \<leftarrow> xs. unat x)"
  using assms
proof (induction xs)
  case (Cons x xs)
  then show ?case by (simp add: unat_word_ariths(1))
qed simp

lemma adjust_freq32_keeps:
  assumes "length pFreq \<le> UINT16_MAX" and sum: "(\<Sum>f \<leftarrow> pFreq. unat f) < 2 ^ 32"
  shows "\<exists>fs gs. adjust_freq32 pFreq = Inr (fs, gs) \<and> length gs = length pFreq \<and>
    (\<forall>i < length pFreq. gs ! i = 0 \<longleftrightarrow> pFreq ! i = 0)"
proof -
  let ?tot = "sum_list pFreq"
  have tot: "unat ?tot = (\<Sum>f \<leftarrow> pFreq. unat f)" by (rule sum_list_word [OF sum])
  have le: "unat (pFreq ! i) \<le> unat ?tot" if "i < length pFreq" for i
    unfolding tot using that by (intro member_le_sum_list) simp_all
  obtain fs where fs: "adjust_freq32 pFreq = Inr (fs, if ?tot = 0 then map (\<lambda>_. 0) pFreq else map (scale_freq ?tot) pFreq)"
    using adjust_freq32_ends [OF assms(1)] by blast
  show ?thesis
  proof (cases "?tot = 0")
    case True
    then have "pFreq ! i = 0" if "i < length pFreq" for i
      using le [OF that] by (simp only: unsigned_0 le_zero_eq unsigned_eq_0_iff)
    then show ?thesis using fs True by auto
  next
    case False
    then have "0 < unat ?tot" by (simp add: unat_gt_0)
    then show ?thesis using fs False scale_freq_zero le by (auto intro!: exI [of _ fs])
  qed
qed

section \<open>Counting\<close>

definition bucket_start :: "('a \<Rightarrow> nat) \<Rightarrow> 'a list \<Rightarrow> nat \<Rightarrow> nat" where
  "bucket_start d xs b = (\<Sum>c < b. length (filter (\<lambda>x. d x = c) xs))"

lemma bucket_start_simps [simp]:
  "bucket_start d xs 0 = 0"
  "bucket_start d xs (Suc b) = bucket_start d xs b + length (filter (\<lambda>x. d x = b) xs)"
  by (simp_all add: bucket_start_def)

lemma bucket_start_mono: "b \<le> c \<Longrightarrow> bucket_start d xs b \<le> bucket_start d xs c"
  by (auto simp: bucket_start_def intro: sum_mono2)

lemma bucket_start_below: "b < c \<Longrightarrow> bucket_start d xs b + length (filter (\<lambda>x. d x = b) xs) \<le> bucket_start d xs c"
  using bucket_start_mono [of "Suc b" c d xs] by simp

lemma bucket_start_all: "bucket_start d xs b = length (filter (\<lambda>x. d x < b) xs)"
proof (induction b)
  case (Suc b)
  have "length (filter (\<lambda>x. d x < Suc b) xs) = length (filter (\<lambda>x. d x < b) xs) + length (filter (\<lambda>x. d x = b) xs)"
    by (induction xs) auto
  with Suc show ?case by simp
qed simp

text \<open>The buckets one after the other are the stable sort by the digit.\<close>

definition buckets :: "('a \<Rightarrow> nat) \<Rightarrow> 'a list \<Rightarrow> nat \<Rightarrow> 'a list" where
  "buckets d xs n = concat (map (\<lambda>b. filter (\<lambda>x. d x = b) xs) [0 ..< n])"

lemma buckets_Suc: "buckets d xs (Suc n) = buckets d xs n @ filter (\<lambda>x. d x = n) xs"
  by (simp add: buckets_def)

lemma length_buckets: "length (buckets d xs n) = bucket_start d xs n"
  by (induction n) (simp_all add: buckets_Suc, simp add: buckets_def)

lemma set_buckets: "set (buckets d xs n) = {x \<in> set xs. d x < n}"
  by (auto simp: buckets_def)

lemma filter_buckets: "filter (\<lambda>x. d x = b) (buckets d xs n) = (if b < n then filter (\<lambda>x. d x = b) xs else [])"
proof (induction n)
  case (Suc n)
  have "filter (\<lambda>x. d x = b) (filter (\<lambda>x. d x = n) xs) = (if b = n then filter (\<lambda>x. d x = b) xs else [])"
    by (auto simp: filter_empty_conv intro: filter_cong)
  with Suc show ?case by (auto simp: buckets_Suc)
qed (simp add: buckets_def)

lemma sorted_buckets: "sorted (map d (buckets d xs n))"
proof (induction n)
  case (Suc n)
  have "sorted (map d (filter (\<lambda>x. d x = n) xs))" by (rule sorted_map_same)
  with Suc show ?case by (auto simp: buckets_Suc sorted_append set_buckets)
qed (simp add: buckets_def)

lemma mset_buckets: "mset (buckets d xs n) = mset (filter (\<lambda>x. d x < n) xs)"
proof (induction n)
  case (Suc n)
  have "mset (filter (\<lambda>x. d x < Suc n) xs) = mset (filter (\<lambda>x. d x < n) xs) + mset (filter (\<lambda>x. d x = n) xs)"
    by (induction xs) auto
  with Suc show ?case by (simp add: buckets_Suc)
qed (simp add: buckets_def)

lemma buckets_sort:
  assumes "\<forall>x \<in> set xs. d x < n"
  shows "buckets d xs n = sort_key d xs"
proof (rule properties_for_sort_key [symmetric])
  have "filter (\<lambda>x. d x < n) xs = xs" using assms by simp
  then show "mset (buckets d xs n) = mset xs" by (simp add: mset_buckets)
  show "filter (\<lambda>x. d k = d x) (buckets d xs n) = filter (\<lambda>x. d k = d x) xs" if "k \<in> set (buckets d xs n)" for k
    using filter_buckets [of d "d k" xs n] that set_buckets [of d xs n] by (auto simp: eq_commute)
  show "sorted (map d (buckets d xs n))" by (rule sorted_buckets)
qed

text \<open>Sorting by the low digit and then by the high one sorts by the key.\<close>

lemma sorted_two:
  fixes lo hi :: "'a \<Rightarrow> nat"
  assumes "\<forall>x \<in> set zs. lo x < B" and "sorted (map hi zs)" and "\<And>h. sorted (map lo (filter (\<lambda>x. hi x = h) zs))"
  shows "sorted (map (\<lambda>x. lo x + B * hi x) zs)"
  using assms
proof (induction zs)
  case (Cons z zs)
  have tail: "sorted (map lo (filter (\<lambda>x. hi x = h) zs))" for h
    using Cons.prems(3) [of h] by (auto split: if_splits)
  have "lo z + B * hi z \<le> lo y + B * hi y" if y: "y \<in> set zs" for y
  proof (cases "hi y = hi z")
    case True
    then show ?thesis using Cons.prems(3) [of "hi z"] y by auto
  next
    case False
    then have "Suc (hi z) \<le> hi y" using Cons.prems(2) y by fastforce
    then have "B * Suc (hi z) \<le> B * hi y" by (rule mult_le_mono2)
    moreover have "lo z < B" using Cons.prems(1) by simp
    ultimately show ?thesis by (simp only: mult_Suc_right)
  qed
  then show ?case using Cons.IH [OF _ _ tail] Cons.prems(1,2) by simp
qed simp

lemma two_passes:
  fixes lo hi :: "'a \<Rightarrow> nat"
  assumes "\<forall>x \<in> set xs. lo x < B"
  shows "sort_key hi (sort_key lo xs) = sort_key (\<lambda>x. lo x + B * hi x) xs"
proof (rule properties_for_sort_key [symmetric])
  let ?ys = "sort_key hi (sort_key lo xs)" and ?key = "\<lambda>x. lo x + B * hi x"
  have split: "lo x = lo y \<and> hi x = hi y" if "?key x = ?key y" "lo x < B" "lo y < B" for x y
  proof -
    have "?key x mod B = ?key y mod B" "?key x div B = ?key y div B" using that(1) by simp_all
    then show ?thesis using that(2,3) by simp
  qed
  show "mset ?ys = mset xs" by simp
  show "filter (\<lambda>x. ?key k = ?key x) ?ys = filter (\<lambda>x. ?key k = ?key x) xs" if k: "k \<in> set ?ys" for k
  proof -
    have eq: "filter (\<lambda>x. ?key k = ?key x) zs = filter (\<lambda>x. lo x = lo k) (filter (\<lambda>x. hi x = hi k) zs)"
      if "set zs = set xs" for zs
    proof -
      have "?key k = ?key x \<longleftrightarrow> hi x = hi k \<and> lo x = lo k" if "x \<in> set xs" for x
        using split [of k x] assms k that by auto
      with that show ?thesis unfolding filter_filter by (intro filter_cong) auto
    qed
    have swap: "filter P (filter Q zs) = filter Q (filter P zs)" for P Q and zs :: "'a list"
      by (simp add: filter_filter conj_commute)
    have "filter (\<lambda>x. lo x = lo k) (filter (\<lambda>x. hi x = hi k) ?ys)
        = filter (\<lambda>x. lo x = lo k) (filter (\<lambda>x. hi x = hi k) (sort_key lo xs))"
      by (simp only: sort_key_stable)
    also have "\<dots> = filter (\<lambda>x. hi x = hi k) (filter (\<lambda>x. lo x = lo k) (sort_key lo xs))" by (rule swap)
    also have "\<dots> = filter (\<lambda>x. hi x = hi k) (filter (\<lambda>x. lo x = lo k) xs)" by (simp only: sort_key_stable)
    also have "\<dots> = filter (\<lambda>x. lo x = lo k) (filter (\<lambda>x. hi x = hi k) xs)" by (rule swap)
    finally show ?thesis by (simp only: eq set_sort)
  qed
  show "sorted (map ?key ?ys)"
  proof (rule sorted_two)
    show "\<forall>x \<in> set ?ys. lo x < B" using assms by simp
    show "sorted (map hi ?ys)" by simp
    show "sorted (map lo (filter (\<lambda>x. hi x = h) ?ys))" for h
      by (simp only: sort_key_stable) (simp add: sorted_filter)
  qed
qed

section \<open>One pass\<close>

abbreviation bucket :: "('a \<Rightarrow> nat) \<Rightarrow> 'a list \<Rightarrow> nat \<Rightarrow> 'a list" where
  "bucket d xs b \<equiv> filter (\<lambda>x. d x = b) xs"

lemma radix_digit_value: "radix_digit pass s = unat (m_key s) div 2 ^ (8 * pass) mod 256"
proof -
  have byte: "unat (w AND 0xFF) = unat w mod 256" for w :: "16 word"
  proof -
    have "w AND 0xFF = take_bit 8 w" by (simp add: take_bit_eq_mask mask_eq_exp_minus_1)
    then show ?thesis by (simp add: unsigned_take_bit_eq take_bit_eq_mod [of 8 "unat w"])
  qed
  have "unat (drop_bit k w) = unat w div 2 ^ k" for k and w :: "16 word"
  proof -
    have "unat w < 65536" using unsigned_less [of w] by simp
    then show ?thesis
      using unsigned_drop_bit_eq [of k w, where ?'a = nat] drop_bit_eq_div [of k "unat w"]
        take_bit_nat_eq_self [of "unat w" 16] by simp
  qed
  then show ?thesis by (simp only: radix_digit_def byte)
qed

lemma digit_less: "radix_digit pass s < 256"
  by (simp add: radix_digit_value)

text \<open>The two arrays while the symbols \<open>xs\<close> are distributed, after \<open>ps\<close>.\<close>

definition distributed ::
  "('a \<Rightarrow> nat) \<Rightarrow> 'a list \<Rightarrow> 'a list \<Rightarrow> nat \<Rightarrow> 'a list \<Rightarrow> nat list \<Rightarrow> bool" where
  "distributed d xs ps N new offsets \<longleftrightarrow> length new = N \<and> length offsets = 256 \<and>
    (\<forall>b < 256. offsets ! b = bucket_start d xs b + length (bucket d ps b)) \<and>
    (\<forall>b < 256. \<forall>k < length (bucket d ps b). new ! (bucket_start d xs b + k) = bucket d ps b ! k)"

lemma distributed_step:
  assumes inv: "distributed d xs ps N new offsets" and xs: "xs = ps @ x # qs" and N: "length xs \<le> N" and d: "d x < 256"
  shows "offsets ! d x < N" "distributed d xs (ps @ [x]) N (new[offsets ! d x := x]) (count_at (d x) offsets)"
proof -
  let ?o = "offsets ! d x"
  have o: "?o = bucket_start d xs (d x) + length (bucket d ps (d x))" using inv d by (simp add: distributed_def)
  have room: "?o < bucket_start d xs (Suc (d x))" by (simp add: o xs)
  also have "\<dots> \<le> length xs" unfolding bucket_start_all by (rule length_filter_le)
  finally show less: "?o < N" using N by simp
  have "new[?o := x] ! (bucket_start d xs b + k) = bucket d (ps @ [x]) b ! k"
    if b: "b < 256" and k: "k < length (bucket d (ps @ [x]) b)" for b k
  proof (cases "b = d x")
    case True
    then show ?thesis using inv d k less o by (cases "k = length (bucket d ps b)") (auto simp: distributed_def nth_append)
  next
    case False
    then have k': "k < length (bucket d ps b)" using k by simp
    then have below: "bucket_start d xs b + k < bucket_start d xs (Suc b)" by (simp add: xs)
    have "bucket_start d xs b + k \<noteq> ?o"
    proof (cases "b < d x")
      case True
      then have "bucket_start d xs (Suc b) \<le> bucket_start d xs (d x)" by (intro bucket_start_mono) simp
      with below show ?thesis unfolding o by linarith
    next
      case False
      with \<open>b \<noteq> d x\<close> have "bucket_start d xs (Suc (d x)) \<le> bucket_start d xs b" by (intro bucket_start_mono) simp
      with room show ?thesis by linarith
    qed
    then show ?thesis using inv b k' False by (simp add: distributed_def)
  qed
  then show "distributed d xs (ps @ [x]) N (new[?o := x]) (count_at (d x) offsets)"
    using inv by (auto simp: distributed_def count_at_def nth_list_update)
qed

lemma distributed_fold:
  assumes "distributed (radix_digit pass) xs ps N new offsets" and "xs = ps @ qs" and "length xs \<le> N"
  shows "\<exists>new' offsets'. fold_res (radix_put pass) qs (new, offsets) = Inr (new', offsets') \<and>
    distributed (radix_digit pass) xs xs N new' offsets'"
  using assms
proof (induction qs arbitrary: ps new offsets)
  case (Cons x qs)
  note step = distributed_step [OF Cons.prems(1,2,3) digit_less]
  have "length new = N" using Cons.prems(1) by (simp add: distributed_def)
  with step(1) have "radix_put pass x (new, offsets)
      = Inr (new[offsets ! radix_digit pass x := x], count_at (radix_digit pass x) offsets)"
    by (simp add: radix_put_def aset_def Let_def)
  with Cons.IH [OF step(2)] Cons.prems(2,3) show ?case by simp
qed simp

lemma distributed_take:
  assumes inv: "distributed d xs xs N new offsets" and N: "length xs \<le> N"
  shows "b \<le> 256 \<Longrightarrow> take (bucket_start d xs b) new = buckets d xs b"
proof (induction b)
  case (Suc b)
  let ?s = "bucket_start d xs b" and ?c = "length (bucket d xs b)"
  have "?s + ?c \<le> length new"
    using order_trans [OF length_filter_le N, of "\<lambda>x. d x < Suc b"] inv bucket_start_all [of d xs "Suc b"]
    by (simp add: distributed_def)
  then have "take ?c (drop ?s new) = bucket d xs b"
    using inv Suc.prems by (intro nth_equalityI) (auto simp: distributed_def)
  with Suc show ?case by (simp add: take_add buckets_Suc)
qed (simp add: buckets_def)

lemma offsets_fold:
  assumes "m \<le> 256"
  shows "\<exists>os. fold (\<lambda>i (offsets, cur_ofs). (offsets[i := cur_ofs], cur_ofs + pHist ! i)) [0 ..< m] (replicate 256 0, 0)
      = (os, \<Sum>c < m. pHist ! c) \<and> length os = 256 \<and> (\<forall>b < m. os ! b = (\<Sum>c < b. pHist ! c))"
  using assms
proof (induction m)
  case (Suc m)
  then obtain os where "fold (\<lambda>i (offsets, cur_ofs). (offsets[i := cur_ofs], cur_ofs + pHist ! i)) [0 ..< m] (replicate 256 0, 0)
      = (os, \<Sum>c < m. pHist ! c)" "length os = 256" "\<forall>b < m. os ! b = (\<Sum>c < b. pHist ! c)" by auto
  then show ?case using Suc.prems by (auto simp: nth_list_update less_Suc_eq)
qed simp

lemma radix_offsets_nth: "length (radix_offsets pHist) = 256" "b < 256 \<Longrightarrow> radix_offsets pHist ! b = (\<Sum>c < b. pHist ! c)"
  using offsets_fold [of 256 pHist] by (auto simp: radix_offsets_def)

definition hist_ok :: "nat list \<Rightarrow> nat \<Rightarrow> defl_sym_freq list \<Rightarrow> bool" where
  "hist_ok hist pass xs \<longleftrightarrow> length hist = 512 \<and> (\<forall>b < 256. hist ! (256 * pass + b) = length (bucket (radix_digit pass) xs b))"

lemma radix_pass_sorts:
  assumes hist: "hist_ok hist pass (take n cur)" and pass: "pass < 2" and n: "n \<le> length cur" "n \<le> length new"
  shows "\<exists>new'. radix_pass n hist pass (cur, new) = Inr (new', cur) \<and> length new' = length new \<and>
    take n new' = sort_key (radix_digit pass) (take n cur)"
proof -
  let ?d = "radix_digit pass" and ?xs = "take n cur" and ?os = "radix_offsets (drop (256 * pass) hist)"
  have len: "length ?xs = n" using n by simp
  have "?os ! b = bucket_start ?d ?xs b" if "b < 256" for b
    using hist pass that by (auto simp: radix_offsets_nth hist_ok_def bucket_start_def intro: sum.cong)
  then have "distributed ?d ?xs [] (length new) new ?os" by (simp add: distributed_def radix_offsets_nth)
  from distributed_fold [OF this, of ?xs] n(2) len obtain new' offsets' where
    new': "fold_res (radix_put pass) ?xs (new, ?os) = Inr (new', offsets')" "distributed ?d ?xs ?xs (length new) new' offsets'"
    by auto
  have "bucket_start ?d ?xs 256 = n" using digit_less len by (simp add: bucket_start_all)
  then have "take n new' = buckets ?d ?xs 256" using distributed_take [OF new'(2), of 256] n(2) len by simp
  also have "\<dots> = sort_key ?d ?xs" using digit_less by (intro buckets_sort) blast
  finally show ?thesis using new' by (simp add: radix_pass_def distributed_def)
qed

section \<open>The radix sort\<close>

lemma hist_fold:
  assumes "length h = 512"
  shows "length (fold (\<lambda>s. count_at (256 + radix_digit 1 s) \<circ> count_at (radix_digit 0 s)) xs h) = 512 \<and>
    (\<forall>b < 256. fold (\<lambda>s. count_at (256 + radix_digit 1 s) \<circ> count_at (radix_digit 0 s)) xs h ! b
        = h ! b + length (bucket (radix_digit 0) xs b) \<and>
      fold (\<lambda>s. count_at (256 + radix_digit 1 s) \<circ> count_at (radix_digit 0 s)) xs h ! (256 + b)
        = h ! (256 + b) + length (bucket (radix_digit 1) xs b))"
  using assms
proof (induction xs arbitrary: h)
  case (Cons x xs)
  have "length (count_at (256 + radix_digit 1 x) (count_at (radix_digit 0 x) h)) = 512"
    using Cons.prems by (simp add: count_at_def)
  from Cons.IH [OF this] Cons.prems digit_less [of 0 x] digit_less [of 1 x] show ?case
    by (simp add: count_at_def nth_list_update)
qed simp

lemma radix_hist_ok: "pass < 2 \<Longrightarrow> hist_ok (radix_hist xs) pass xs"
  using hist_fold [of "replicate (256 * 2) 0" xs] by (auto simp: hist_ok_def radix_hist_def less_Suc_eq numeral_2_eq_2)

lemma hist_ok_mset: "mset ys = mset xs \<Longrightarrow> hist_ok hist pass xs \<Longrightarrow> hist_ok hist pass ys"
  unfolding hist_ok_def by (metis mset_filter size_mset)

lemma digits_key: "unat (m_key s) = radix_digit 0 s + 256 * radix_digit 1 s"
proof -
  have "unat (m_key s) < 65536" using unsigned_less [of "m_key s"] by simp
  then show ?thesis by (simp add: radix_digit_value)
qed

lemma sort_key_cong': "(\<And>x. x \<in> set xs \<Longrightarrow> f x = g x) \<Longrightarrow> sort_key f xs = sort_key g xs"
proof (rule properties_for_sort_key)
  assume eq: "\<And>x. x \<in> set xs \<Longrightarrow> f x = g x"
  have "filter (\<lambda>x. f k = f x) zs = filter (\<lambda>x. g x = g k) zs" if "set zs = set xs" "k \<in> set xs" for k zs
    using that eq by (intro filter_cong) auto
  then show "filter (\<lambda>x. f k = f x) (sort_key g xs) = filter (\<lambda>x. f k = f x) xs" if "k \<in> set (sort_key g xs)" for k
    using that by (simp add: sort_key_stable)
  have "map f (sort_key g xs) = map g (sort_key g xs)" using eq by simp
  then show "sorted (map f (sort_key g xs))" by (simp only: sorted_sort_key)
qed simp

lemma radix_sort_stable:
  assumes n: "n \<le> length p0" "n \<le> length p1"
  shows "\<exists>out. defl_radix_sort_syms n p0 p1 = Inr out \<and>
    take n out = sort_key (\<lambda>s. unat (m_key s)) (take n p0)"
proof -
  let ?xs = "take n p0" let ?h = "radix_hist ?xs"
  obtain q where q: "radix_pass n ?h 0 (p0, p1) = Inr (q, p0)" "length q = length p1"
    "take n q = sort_key (radix_digit 0) ?xs"
    using radix_pass_sorts [OF radix_hist_ok _ n, of 0] by auto
  have keys: "sort_key (\<lambda>s. unat (m_key s)) ?xs = sort_key (radix_digit 1) (sort_key (radix_digit 0) ?xs)"
    using two_passes [of ?xs "radix_digit 0" 256 "radix_digit 1"] digit_less by (simp add: digits_key)
  show ?thesis
  proof (cases "n = ?h ! 256")
    case True
    have "?h ! (256 * 1 + b) = length (bucket (radix_digit 1) ?xs b)" if "b < 256" for b
      using radix_hist_ok [of 1 ?xs] that unfolding hist_ok_def by simp
    from this [of 0] True have "length (bucket (radix_digit 1) ?xs 0) = length ?xs" using n by simp
    then have "radix_digit 1 s = 0" if "s \<in> set ?xs" for s
      using length_filter_less [OF that, of "\<lambda>s. radix_digit 1 s = 0"] by linarith
    then have "sort_key (\<lambda>s. unat (m_key s)) ?xs = sort_key (radix_digit 0) ?xs"
      by (intro sort_key_cong') (simp add: digits_key)
    moreover have "defl_radix_sort_syms n p0 p1 = Inr q"
      unfolding defl_radix_sort_syms_def Let_def if_P [OF True] using q(1) by simp
    ultimately show ?thesis using q(3) by simp
  next
    case False
    have "hist_ok ?h 1 (take n q)" by (rule hist_ok_mset [of _ ?xs]) (simp_all add: q(3) radix_hist_ok)
    from radix_pass_sorts [OF this] n q(2) obtain r where "radix_pass n ?h 1 (q, p0) = Inr (r, q)"
      "take n r = sort_key (radix_digit 1) (take n q)" by auto
    then show ?thesis using q False keys by (simp add: defl_radix_sort_syms_def Let_def upt_rec numeral_2_eq_2)
  qed
qed

end
