(* ===== verification/Fpng_Properties.thy ===== *)
theory Fpng_Properties
  imports Fpng_Adler_Proofs Fpng_Round_Trip Fpng_Huffman_Proofs
begin

text \<open>
  The properties of the PNG library: its checksums, the safety of the decoder on any input, and what the
  encoder writes.
\<close>

section \<open>Checksums\<close>

text \<open>
  C29: whatever the processor supports, \<open>fpng_adler32\<close> gives the Adler-32 checksum: neither the
  deferred reductions of the scalar loop nor the sixteen lanes of the vector loop overflow.
\<close>

theorem fpng_adler32_correct:
  assumes "unat (adler AND 0xffff) < 65521" and "unat (drop_bit 16 adler) < 65521"
  shows "fpng_adler32 cpu p adler = adler32 p adler"
  using scalar_correct [OF assms, of p] sse_correct [OF assms, of p] by (simp add: fpng_adler32_def)

theorem fpng_adler32_correct_witness:
  "fpng_adler32 (new_cpu_info\<lparr>m_has_sse41 := True\<rparr>) [0x57, 0x69, 0x6B, 0x69] FPNG_ADLER32_INIT = 0x03DA0195"
proof -
  have "unat (FPNG_ADLER32_INIT AND 0xffff) < 65521" "unat (drop_bit 16 FPNG_ADLER32_INIT) < 65521"
    by (simp_all add: FPNG_ADLER32_INIT_def)
  from fpng_adler32_correct [OF this, of "new_cpu_info\<lparr>m_has_sse41 := True\<rparr>" "[0x57, 0x69, 0x6B, 0x69]"]
  show ?thesis by (simp add: adler32_def adler_sums_def FPNG_ADLER32_INIT_def)
qed

text \<open>
  C30: whatever the processor supports, \<open>fpng_crc32\<close> gives the CRC-32 of the bytes, bit by bit: by the
  four tables, or by folding with carry-less products and the Barrett reduction.
\<close>

theorem fpng_crc32_exact:
  assumes "length p < 2 ^ 32"
  shows "fpng_crc32 cpu p prev = Inr (crc32 p prev)"
  using assms by (rule fpng_crc32_correct)

theorem fpng_crc32_exact_witness:
  "fpng_crc32 (new_cpu_info\<lparr>m_has_sse := True, m_has_sse2 := True, m_has_sse3 := True, m_has_ssse3 := True,
      m_has_sse41 := True, m_has_pclmulqdq := True\<rparr>)
      [0x49, 0x48, 0x44, 0x52, 0, 0, 0, 1, 0, 0, 0, 1, 8, 2, 0, 0, 0] FPNG_CRC32_INIT = Inr 0x907753DE"
  by (subst fpng_crc32_exact) (simp_all add: crc32_def crc_byte_steps crc_bit_def FPNG_CRC32_INIT_def)

section \<open>The decoder on any input\<close>

text \<open>
  C31: on any input of less than 4 GiB, \<open>fpng_get_info_internal\<close> ends without a fault. When it reports success, the
  dimensions are in range, the image has 3 or 4 channels, and the \<open>IDAT\<close> chunk, with its prefix and its
  CRC, lies inside the file.
\<close>

theorem get_info_total:
  assumes "length png < 2 ^ 32"
  shows "\<exists>st info. fpng_get_info_internal cpu png = Inr (st, info) \<and>
    (st = FPNG_DECODE_SUCCESS \<longrightarrow>
      0 < width info \<and> width info \<le> FPNG_MAX_SUPPORTED_DIM \<and> 0 < height info \<and> height info \<le> FPNG_MAX_SUPPORTED_DIM \<and>
      (channels_in_file info = 3 \<or> channels_in_file info = 4) \<and> 7 \<le> idat_len info \<and> idat_ofs info \<noteq> 0 \<and>
      unat (idat_ofs info) + 12 + unat (idat_len info) \<le> length png)"
  using get_info_safe [OF assms, of cpu] by (auto simp: info_ok_def)

theorem get_info_total_witness:
  "\<exists>st info. fpng_get_info_internal new_cpu_info (s_png_sig @ replicate 60 0) = Inr (st, info)"
  using get_info_total [of "s_png_sig @ replicate 60 0" new_cpu_info] by (auto simp: s_png_sig_def)

text \<open>
  C32: on any input of 1 byte up to less than 2 GiB, \<open>fpng_decode_memory\<close>, with the decompressors of uncompressed and of
  dynamic Huffman blocks, ends, never reads outside the file or a table, and never writes outside the
  image. In a build without assertions it always returns a result; in a build with assertions the only
  thing that can go wrong is that one of them fails.
\<close>

theorem decode_memory_total:
  assumes "0 < length png" and "length png < 2 ^ 31" and "dc = 3 \<or> dc = 4"
  shows "(\<exists>st info img. fpng_decode_memory cpu False png (u32 dc) = Inr (st, info, img)) \<and>
    (fpng_decode_memory cpu True png (u32 dc) = Inl AssertionFailed \<or>
     (\<exists>st info img. fpng_decode_memory cpu True png (u32 dc) = Inr (st, info, img)))"
  using decode_memory_safe [OF assms, of cpu False] decode_memory_safe [OF assms, of cpu True]
  by (cases "fpng_decode_memory cpu False png (u32 dc)"; cases "fpng_decode_memory cpu True png (u32 dc)") auto

theorem decode_memory_total_witness:
  "\<exists>st info img. fpng_decode_memory new_cpu_info False (s_png_sig @ replicate 60 0) (u32 3) = Inr (st, info, img)"
  using decode_memory_total [of "s_png_sig @ replicate 60 0" 3 new_cpu_info]
  by (simp add: s_png_sig_def)

text \<open>
  C22: the table that \<open>prepare_dynamic_block\<close> builds from the header of a block, whatever its bits are,
  is well-typed, on which the loops over the pixels rely: it has 4096 entries, every entry has two
  symbols of the alphabet and code lengths that one look-up of 12 bits covers, and the reader keeps its
  32 buffered bits inside the source. In a build without assertions the function always ends.
\<close>

theorem decoder_table_typed:
  assumes "length (zsrc_bytes S) = unat (zsrc_len S)" and "unat (zsrc_len S) < 2 ^ 31" and "\<not> zsrc_debug S"
    and "32 \<le> unat (rd_size r)" and "unat (rd_size r) \<le> 63" and "unat (rd_ofs r) \<le> unat (zsrc_len S)"
  shows "\<exists>res. prepare_dynamic_block S c r = Inr res \<and>
    (\<forall>t r'. res = Some (t, r') \<longrightarrow> length t = 4096 \<and>
      (\<forall>e \<in> set t. unat (entry_sym e) < 288 \<and> unat (next_sym e) < 288 \<and>
        unat (entry_len e) + unat (next_len e) \<le> 12) \<and>
      32 \<le> unat (rd_size r') \<and> unat (rd_size r') \<le> 63 \<and> unat (rd_ofs r') \<le> unat (zsrc_len S))"
proof -
  have "guarded False (prepare_dynamic_block S c r) (\<lambda>(t, r'). good_table t \<and> reader_ok S 32 r')"
    using prepare_ok [of S r c] assms by (simp add: source_ok_def reader_ok_def)
  then show ?thesis
    by (cases "prepare_dynamic_block S c r")
      (auto simp: guarded_def good_table_def reader_ok_def FPNG_DECODER_TABLE_SIZE_def dest: good_entry_fields)
qed

theorem decoder_table_typed_witness:
  "\<exists>res. prepare_dynamic_block \<lparr>zsrc_debug = False, zsrc_bytes = replicate 64 0x5A, zsrc_len = 64\<rparr> 3
      \<lparr>rd_buf = 0x5A5A5A5A5A5A5A, rd_size = 56, rd_ofs = 7\<rparr> = Inr res"
  using decoder_table_typed [of "\<lparr>zsrc_debug = False, zsrc_bytes = replicate 64 0x5A, zsrc_len = 64\<rparr>"
    "\<lparr>rd_buf = 0x5A5A5A5A5A5A5A, rd_size = 56, rd_ofs = 7\<rparr>" 3] by fastforce

section \<open>The Huffman coder\<close>

text \<open>
  C18: \<open>defl_radix_sort_syms\<close> is the stable sort of the symbols by their counts: its one or two passes
  write inside the two arrays, and leave in the array it returns what the library's sort gives.
\<close>

theorem radix_sort_is_stable_sort:
  assumes "num_syms \<le> length pSyms0" and "num_syms \<le> length pSyms1"
  shows "\<exists>pSyms. defl_radix_sort_syms num_syms pSyms0 pSyms1 = Inr pSyms \<and>
    take num_syms pSyms = sort_key (\<lambda>s. unat (m_key s)) (take num_syms pSyms0)"
  by (rule radix_sort_stable [OF assms])

theorem radix_sort_is_stable_sort_witness:
  "\<exists>pSyms. defl_radix_sort_syms 3 [\<lparr>m_key = 300, m_sym_index = 0\<rparr>, \<lparr>m_key = 2, m_sym_index = 1\<rparr>,
      \<lparr>m_key = 300, m_sym_index = 2\<rparr>] (replicate 4 no_sym_freq) = Inr pSyms \<and>
    take 3 pSyms = [\<lparr>m_key = 2, m_sym_index = 1\<rparr>, \<lparr>m_key = 300, m_sym_index = 0\<rparr>, \<lparr>m_key = 300, m_sym_index = 2\<rparr>]"
proof -
  let ?a = "\<lparr>m_key = 300, m_sym_index = 0\<rparr>" and ?b = "\<lparr>m_key = 2, m_sym_index = 1\<rparr>"
    and ?c = "\<lparr>m_key = 300, m_sym_index = 2\<rparr>"
  have "3 \<le> length [?a, ?b, ?c]" "3 \<le> length (replicate 4 no_sym_freq)" "take 3 [?a, ?b, ?c] = [?a, ?b, ?c]"
    by simp_all
  moreover have "sort_key (\<lambda>s. unat (m_key s)) [?a, ?b, ?c] = [?b, ?a, ?c]" by simp
  ultimately show ?thesis using radix_sort_is_stable_sort [of 3 "[?a, ?b, ?c]" "replicate 4 no_sym_freq"]
    by (simp only:)
qed

text \<open>
  C24: the loop of \<open>adjust_freq32\<close> ends, although it halves the frequencies it has read and not those it
  sums up at first; and as long as the sum of the frequencies fits into 32 bits, exactly the symbols
  that do not occur get the frequency 0, so that none that occurs is left without a code.
\<close>

theorem adjust_freq32_total:
  assumes "length pFreq \<le> 65535" and "(\<Sum>f \<leftarrow> pFreq. unat f) < 2 ^ 32"
  shows "\<exists>fs pFreq16. adjust_freq32 pFreq = Inr (fs, pFreq16) \<and> length pFreq16 = length pFreq \<and>
    (\<forall>i < length pFreq. pFreq16 ! i = 0 \<longleftrightarrow> pFreq ! i = 0)"
  by (rule adjust_freq32_keeps) (simp_all only: UINT16_MAX_def assms)

theorem adjust_freq32_total_witness:
  "\<exists>fs pFreq16. adjust_freq32 [1, 0, 4000000000] = Inr (fs, pFreq16) \<and> pFreq16 ! 0 \<noteq> 0 \<and> pFreq16 ! 1 = 0"
proof -
  let ?p = "[1, 0, 4000000000] :: 32 word list"
  have "length ?p \<le> 65535" "(\<Sum>f \<leftarrow> ?p. unat f) < 2 ^ 32" by simp_all
  from adjust_freq32_total [OF this] obtain fs gs where gs: "adjust_freq32 ?p = Inr (fs, gs)"
    "\<forall>i < length ?p. gs ! i = 0 \<longleftrightarrow> ?p ! i = 0" by blast
  have "gs ! 0 = 0 \<longleftrightarrow> ?p ! 0 = 0" "gs ! 1 = 0 \<longleftrightarrow> ?p ! 1 = 0"
    by (rule gs(2) [rule_format], simp)+
  with gs(1) show ?thesis by (intro exI [of _ fs] exI [of _ gs]) simp
qed

section \<open>The encoder\<close>

text \<open>
  C33: what the encoder writes without compression, the decoder reads back, on any two processors: the
  same dimensions, and the pixels with an alpha channel of 255 added or the alpha channel dropped as the
  caller of the decoder wishes.
\<close>

theorem encode_decode_uncompressed:
  assumes "c = 3 \<or> c = 4" and "dc = 3 \<or> dc = 4" and "1 \<le> w" "w < 2 ^ 16" and "1 \<le> h" "h < 2 ^ 16"
    and "length img = h * (w * c)" and "74 + raw_size w h c < 2 ^ 31" and "flags AND FPNG_FORCE_UNCOMPRESSED \<noteq> 0"
  shows "\<exists>png info. fpng_encode_image_to_memory cpu img (u32 w) (u32 h) (u32 c) [] flags = Inr png \<and>
    fpng_decode_memory cpu' dbg png (u32 dc) = Inr (FPNG_DECODE_SUCCESS, info, convert_image c dc (w * h) img) \<and>
    width info = u32 w \<and> height info = u32 h \<and> channels_in_file info = u32 c"
  using encode_uncompressed [of c w h img flags cpu "[]"] decode_encoded [of c dc w h img cpu' dbg cpu] assms
  by simp

theorem encode_decode_uncompressed_witness:
  "\<exists>png info. fpng_encode_image_to_memory new_cpu_info [10, 20, 30, 40, 50, 60] (u32 2) (u32 1) (u32 3) []
      FPNG_FORCE_UNCOMPRESSED = Inr png \<and>
    fpng_decode_memory new_cpu_info True png (u32 4) =
      Inr (FPNG_DECODE_SUCCESS, info, [10, 20, 30, 0xFF, 40, 50, 60, 0xFF])"
proof -
  have "convert_image 3 4 (2 * 1) [10, 20, 30, 40, 50, 60] = [10, 20, 30, 0xFF, 40, 50, 60, 0xFF]"
    by (simp add: convert_image_def convert_pixel_def slice_def numeral_2_eq_2 del: One_nat_def)
  with encode_decode_uncompressed [of 3 4 2 1 "[10, 20, 30, 40, 50, 60]" FPNG_FORCE_UNCOMPRESSED new_cpu_info
      new_cpu_info True]
  show ?thesis by (auto simp: raw_size_def FPNG_FORCE_UNCOMPRESSED_def)
qed

text \<open>
  C34: the header of a file has room for 16 bits of each dimension only. The encoder accepts images of
  up to \<open>2 ^ 24\<close> pixels in a row, and reports success, but the file claims the dimensions modulo 65536.
\<close>

theorem header_dimensions_truncated:
  assumes "c = 3 \<or> c = 4" and "1 \<le> w" "w \<le> 2 ^ 24" and "1 \<le> h" "h \<le> 2 ^ 24" and "length img = h * (w * c)"
    and "74 + raw_size w h c < 2 ^ 32" and "flags AND FPNG_FORCE_UNCOMPRESSED \<noteq> 0"
  shows "\<exists>png st info. fpng_encode_image_to_memory cpu img (u32 w) (u32 h) (u32 c) [] flags = Inr png \<and>
    fpng_get_info_internal cpu' png = Inr (st, info) \<and>
    unat (width info) = w mod 2 ^ 16 \<and> unat (height info) = h mod 2 ^ 16 \<and>
    (w mod 2 ^ 16 = 0 \<longrightarrow> st = FPNG_DECODE_FAILED_INVALID_DIMENSIONS)"
proof -
  let ?z = "raw_idat cpu w h c img"
  have c: "u32 c = 3 \<or> u32 c = 4" using assms(1) by auto
  have z: "7 \<le> length ?z" "74 + length ?z < 2 ^ 32"
    using assms(4,7) length_raw_idat [OF assms(6), of cpu] by (simp_all add: raw_size_def Let_def)
  have low: "unat (take_bit 16 (u32 n)) = n mod 2 ^ 16" if "n \<le> 2 ^ 24" for n
    using that u32_unat [of n] by (simp add: unsigned_take_bit_eq take_bit_eq_mod [of 16 "n :: nat"])
  have "take_bit 16 (u32 w) = 0" if "w mod 2 ^ 16 = 0" using low [OF assms(3)] that by (simp only: unat_eq_0)
  then show ?thesis
    using encode_uncompressed [of c w h img flags cpu "[]"] get_info_png_file [OF c z, of cpu' "u32 w" "u32 h"]
      low [OF assms(3)] low [OF assms(5)] assms
    by (auto simp: no_info_def)
qed

theorem header_dimensions_truncated_witness:
  "\<exists>png st info. fpng_encode_image_to_memory new_cpu_info (replicate 196608 0) (u32 65536) (u32 1) (u32 3) []
      FPNG_FORCE_UNCOMPRESSED = Inr png \<and>
    fpng_get_info_internal new_cpu_info png = Inr (FPNG_DECODE_FAILED_INVALID_DIMENSIONS, info)"
  using header_dimensions_truncated [of 3 65536 1 "replicate 196608 0" FPNG_FORCE_UNCOMPRESSED new_cpu_info new_cpu_info]
  by (auto simp: raw_size_def FPNG_FORCE_UNCOMPRESSED_def)

text \<open>
  C35: the encoder computes the size of its temporary buffer in 32 bits. When the image with its filter
  bytes takes 4 GiB or more, the buffer is too small, and the filters write behind it.
\<close>

theorem encoder_buffer_overflows:
  assumes "c = 3 \<or> c = 4" and "1 \<le> w" "w \<le> 2 ^ 24" and "1 \<le> h" "h \<le> 2 ^ 24" and "w * h < 2 ^ 32"
    and "length img = h * (w * c)" and "2 ^ 32 \<le> h * (w * c + 1) + 7"
  shows "fpng_encode_image_to_memory cpu img (u32 w) (u32 h) (u32 c) out flags = Inl OutOfBounds"
  using assms by (rule encode_overflow)

theorem encoder_buffer_overflows_witness:
  "\<exists>img. length img = 65536 * (32768 * 4) \<and>
    fpng_encode_image_to_memory new_cpu_info img (u32 32768) (u32 65536) (u32 4) [] 0 = Inl OutOfBounds"
  using encoder_buffer_overflows [of 4 32768 65536 "replicate (65536 * (32768 * 4)) 0" new_cpu_info "[]" 0]
  by (intro exI [of _ "replicate (65536 * (32768 * 4)) 0"]) simp

text \<open>
  C36: the filter of a row does not depend on the processor: sixteen bytes at a time or pixel by pixel,
  it is the number of the filter and the difference to the row above, or the row itself.
\<close>

theorem apply_filter_exact:
  assumes "c = 3 \<or> c = 4" and "y < h" and "length img = h * (w * c)" and "w * c < 2 ^ 32"
  shows "apply_filter cpu (if up \<and> y \<noteq> 0 then 2 else 0) (u32 w) (u32 c) (u32 (w * c)) (drop (y * (w * c)) img)
      (if up \<and> y \<noteq> 0 then Some (drop ((y - 1) * (w * c)) img) else None) =
    Inr (if up \<and> y \<noteq> 0 then 2 # map2 (-) (slice (y * (w * c)) (w * c) img) (slice ((y - 1) * (w * c)) (w * c) img)
         else 0 # slice (y * (w * c)) (w * c) img)"
  using apply_filter_exec [OF assms, of cpu up] by (simp add: filtered_def image_row_def)

theorem apply_filter_exact_witness:
  "apply_filter (new_cpu_info\<lparr>m_has_sse41 := True\<rparr>) 2 1 3 3 [9, 9, 9] (Some [4, 5, 10, 9, 9, 9]) = Inr [2, 5, 4, 255]"
  using apply_filter_exact [of 3 1 2 "[4, 5, 10, 9, 9, 9]" 1 "new_cpu_info\<lparr>m_has_sse41 := True\<rparr>" True]
  by (simp add: slice_def)

end
