(* ===== verification/Spec2Isabelle.thy ===== *)
theory Spec2Isabelle
  imports Buffer_Properties Table_Properties Concurrent_Properties Diagram_Properties Fpng_Properties
begin

text \<open>
  Verification of the key-value store. Paths are relative to the repository.

  The program. \<open>FileBackedBuffer\<close> (\<open>src/lib/file_backed_buffer.cpp\<close>) maps a file and keeps a first-fit
  allocator inside it: a header with the heads of a free and of a used list, and blocks with their links
  and their size. \<open>ConcurrentHashTable\<close> (\<open>src/lib/hash_table.cpp\<close>) stores each key and value as two C
  strings in one block of that buffer, and keeps chains of buckets with pointers to them in memory; its
  constructor rebuilds the buckets from the used list, so that a store survives a restart. \<open>dump_usage\<close>
  (\<open>src/lib/file_backed_buffer_diagrammer.cpp\<close>, with the font of \<open>font8x8_basic.h\<close>) draws the blocks as
  an image, which the PNG library \<open>external_libs/fpng/src/fpng.cpp\<close> encodes.

  Conventions. A run that faults (an access outside a buffer, a null pointer, a failed assertion, a loop
  that does not end) is a value \<open>Inl\<close> of the type \<open>'a res\<close>; everything else is \<open>Inr\<close>. Assertions of the
  store are those of a build without \<open>NDEBUG\<close>; the decoder of the PNG library has a flag \<open>dbg\<close> that
  says whether its assertions are compiled in. Machine integers are words of their width; lemmas named in
  \<open>u64_simps\<close> and \<open>u32_simps\<close> take them to natural numbers where nothing wraps. The hash function of
  \<open>std::hash\<close>, the operating system's answers to \<open>open\<close>, \<open>ftruncate\<close> and \<open>mmap\<close>, \<open>CPUID\<close>, what
  writing a file returns, and the order in which a \<open>std::deque\<close> destroys its elements are arguments of
  the definitions that use them.

  Fuel. Loops that follow links or chunks have one unit per byte of the file, or per bucket, of which
  every round uses up at least one. In the decoder a scanline has eight units per byte of the source and
  64 more, because every round takes at least one bit, or fails within the bits that are buffered; the
  code sizes of a block header have one unit per code, and the filter of a scanline one per byte. In the
  encoder the loop that halves frequencies has 34 rounds, after 32 of which every frequency is at most
  one, and that which assigns depths one per symbol and one more. The theorems about these loops show
  that \<open>Diverges\<close> is not reached, except for the loop over the depths, for which this is not proved.

  The buffer. \<open>Mapped_File\<close> is the memory and its typed accesses; \<open>File_Backed_Buffer\<close> has one definition
  per member function. \<open>Block_Lists\<close> says what it means that a mapping holds the two lists, \<open>Heap_Spec\<close> is
  the abstract allocator on two lists of blocks with its invariant \<open>heap_ok\<close>, and \<open>Buffer_Lists\<close> and
  \<open>Buffer_Refinement\<close> show that the code implements it. \<open>Buffer_Open\<close> is the constructor, the iterators
  and the statistics, \<open>Buffer_Runs\<close> are the reachable memories, \<open>Buffer_Dirty\<close> the behaviour when the only
  free block is split over old data. \<open>Buffer_Properties\<close>: C11 to C17, C19 to C21, and C23.

  The table. \<open>Hash_Table\<close> has one definition per member function. \<open>Allocator\<close> is a locale with the
  contract of \<open>alloc\<close> and \<open>free\<close> the table relies on, interpreted on the code's allocator;
  \<open>Key_Value_Map\<close> is a locale with the contract of \<open>get\<close> and \<open>put\<close>, interpreted on the table.
  \<open>Table_Refinement\<close> relates tables to lists of pairs, \<open>Table_Loading\<close> and \<open>Table_Restarts\<close> are opening
  and reopening, \<open>Table_Shutdown\<close> is the destructor, \<open>Fresh_Store\<close> a workload on which nothing about the
  allocator has to be assumed. \<open>Table_Properties\<close>: C1 to C10 and C37.

  Threads. \<open>Concurrent_Table\<close> runs any number of calls of \<open>get\<close> and \<open>put\<close> at once. A step of a thread is
  one access to shared state: the write mutex, the head of a slot, the \<open>shared_ptr\<close> of a bucket, whose
  reference count is part of the state, the mutex of the buffer, or an operation of the buffer under
  that mutex. A thread that finds a mutex taken makes no progress at that step. A
  schedule is the list of the threads in the order of their steps. The theorems are about all schedules
  in which the allocator can serve every request (\<open>run_admits\<close>: it never splits the only free block over
  old links, C23), and the one about the return of all calls about the fair ones among them.
  \<open>Concurrent_Proofs\<close> has the invariant: what the threads hold and own, and what each of them
  knows about the table, which the steps of the others do not spoil. \<open>Concurrent_Steps\<close> and
  \<open>Concurrent_Writes\<close> show that each kind of step keeps it, \<open>Concurrent_Runs\<close> what follows for runs and
  their histories of updates, \<open>Concurrent_Progress\<close> the number of steps that are left
  and the turns at which a reader waits: it never waits for the write mutex, and for the mutex of the
  buffer only when it is the last reader of a replaced block and has to free it.
  \<open>Concurrent_Properties\<close>: C38 to C40.

  The diagram. \<open>Font8x8\<close> and \<open>Diagrammer\<close> are the code, \<open>Diagram_Proofs\<close> what is drawn where,
  \<open>Diagram_Dimensions\<close> the rounding of the \<open>float\<close> arithmetic. \<open>Diagram_Properties\<close>: C25 to C28.

  The PNG library. The code: \<open>Fpng_Bytes\<close>, \<open>Fpng_Adler\<close>, \<open>Fpng_Crc_Tables\<close>, \<open>Fpng_Crc\<close> (checksums and
  processor features), \<open>Fpng_Raw\<close> (uncompressed Deflate blocks), \<open>Fpng_Huffman_Tables\<close> (the canned tables
  and constants), \<open>Fpng_Huffman\<close> (code lengths, codes and the header of a dynamic block), \<open>Fpng_Deflate\<close>
  (the one-pass coder), \<open>Fpng_Two_Pass\<close> (the two-pass coder), \<open>Fpng_Inflate\<close> (the decoder of dynamic
  blocks), \<open>Fpng_Encoder\<close> and \<open>Fpng_Decoder\<close> (filters and the chunks of a file). \<open>Fpng_Adler_Proofs\<close>,
  \<open>Fpng_Crc_Proofs\<close> and \<open>Fpng_Pclmul\<close> show that the scalar and the vector checksums agree with their
  definitions; \<open>Fpng_Huffman_Proofs\<close> that the frequencies are scaled soundly and the symbols sorted;
  \<open>Fpng_Table_Safety\<close>, \<open>Fpng_Inflate_Safety\<close> and \<open>Fpng_Safety\<close> that decoding any
  file of less than 2 GiB ends
  and stays inside the buffers; \<open>Fpng_Raw_Proofs\<close>, \<open>Fpng_Pixels\<close>, \<open>Fpng_Filters\<close>, \<open>Fpng_Files\<close> and
  \<open>Fpng_Round_Trip\<close> that an uncompressed file decodes to the image. \<open>Fpng_Properties\<close>: C18, C22,
  C24 and C29 to C36.

  Not modelled. Iterators of the table that run beside a \<open>put\<close>: they read a \<open>std::deque\<close> that \<open>put\<close>
  changes without a lock. Memory orders weaker than interleaving: the loads and stores of the shared
  pointers and slots are acquire and release. The destructor of the buffer (\<open>munmap\<close>, \<open>close\<close>), the
  output of \<open>print_stats\<close> and the floating-point averages in it. The code of the PNG library that trains
  its canned tables, which is compiled out. The test drivers and the build files.
\<close>

end
